(* ===== verification/Prelude.thy ===== *)
theory Prelude
  imports Main "HOL-Library.Word"
begin

text \<open>
  Shared vocabulary of the development: machine words and byte blocks with their
  little-endian accessors (what an x86 host does with \<open>uint\<close>, \<open>int\<close> and \<open>short\<close> fields
  laid out in a byte array), C strings, the ways a C function can fail to return, and the
  state-and-error monad in which every operation of the program is written, with its
  Hoare triples and the loops that wait.
\<close>

unbundle bit_operations_syntax

named_theorems layout "layout constants of fs.h and param.h, unfolded to numerals"
named_theorems monad "unfolding rules of the state-and-error monad"

section \<open>Machine words and byte blocks\<close>

type_synonym u8 = "8 word"
type_synonym u16 = "16 word"
type_synonym u32 = "32 word"
type_synonym bytes = "u8 list"

text \<open>
  A disk block or a byte array: only the indices below the array's size are meaningful,
  and every access of the model stays below it.
\<close>
type_synonym block = "nat \<Rightarrow> u8"

definition zero_block :: block where
  "zero_block = (\<lambda>_. 0)"

text \<open>Little-endian 16- and 32-bit fields at a byte offset.\<close>

definition get16 :: "block \<Rightarrow> nat \<Rightarrow> u16" where
  "get16 d p = ucast (d p) OR push_bit 8 (ucast (d (p + 1)))"

definition put16 :: "block \<Rightarrow> nat \<Rightarrow> u16 \<Rightarrow> block" where
  "put16 d p w = d(p := ucast w, p + 1 := ucast (drop_bit 8 w))"

definition get32 :: "block \<Rightarrow> nat \<Rightarrow> u32" where
  "get32 d p = ucast (d p) OR push_bit 8 (ucast (d (p + 1)))
     OR push_bit 16 (ucast (d (p + 2))) OR push_bit 24 (ucast (d (p + 3)))"

definition put32 :: "block \<Rightarrow> nat \<Rightarrow> u32 \<Rightarrow> block" where
  "put32 d p w = d(p := ucast w, p + 1 := ucast (drop_bit 8 w),
     p + 2 := ucast (drop_bit 16 w), p + 3 := ucast (drop_bit 24 w))"

text \<open>\<open>memmove(d + p, src, m)\<close> for a source array and for a byte list.\<close>

definition blit :: "block \<Rightarrow> nat \<Rightarrow> nat \<Rightarrow> block \<Rightarrow> block" where
  "blit d p m src = (\<lambda>i. if p \<le> i \<and> i < p + m then src (i - p) else d i)"

definition blit_list :: "block \<Rightarrow> nat \<Rightarrow> bytes \<Rightarrow> block" where
  "blit_list d p xs = (\<lambda>i. if p \<le> i \<and> i < p + length xs then xs ! (i - p) else d i)"

definition block_slice :: "block \<Rightarrow> nat \<Rightarrow> nat \<Rightarrow> bytes" where
  "block_slice d p m = map (\<lambda>i. d (p + i)) [0..<m]"

lemma get32_put32_same [simp]: "get32 (put32 d p w) p = w"
proof (rule bit_word_eqI)
  fix n :: nat
  assume n: "n < LENGTH(32)"
  then consider "n < 8" | "8 \<le> n \<and> n < 16" | "16 \<le> n \<and> n < 24" | "24 \<le> n \<and> n < 32"
    by fastforce
  then show "bit (get32 (put32 d p w) p) n = bit w n"
    by cases (auto simp: get32_def put32_def bit_simps)
qed

lemma get16_put16_same [simp]: "get16 (put16 d p w) p = w"
  by (rule bit_word_eqI) (auto simp: get16_def put16_def bit_simps not_le)

lemma get32_put32_other [simp]: "p + 4 \<le> q \<or> q + 4 \<le> p \<Longrightarrow> get32 (put32 d q w) p = get32 d p"
  by (auto simp: get32_def put32_def)

lemma get32_put16_other [simp]: "p + 4 \<le> q \<or> q + 2 \<le> p \<Longrightarrow> get32 (put16 d q w) p = get32 d p"
  by (auto simp: get32_def put16_def)

lemma get16_put32_other [simp]: "p + 2 \<le> q \<or> q + 4 \<le> p \<Longrightarrow> get16 (put32 d q w) p = get16 d p"
  by (auto simp: get16_def put32_def)

lemma get16_put16_other [simp]: "p + 2 \<le> q \<or> q + 2 \<le> p \<Longrightarrow> get16 (put16 d q w) p = get16 d p"
  by (auto simp: get16_def put16_def)

lemma put32_other [simp]: "i < p \<or> p + 4 \<le> i \<Longrightarrow> put32 d p w i = d i"
  by (auto simp: put32_def)

lemma put16_other [simp]: "i < p \<or> p + 2 \<le> i \<Longrightarrow> put16 d p w i = d i"
  by (auto simp: put16_def)

lemma get32_cong: "(\<And>i. p \<le> i \<Longrightarrow> i < p + 4 \<Longrightarrow> d i = e i) \<Longrightarrow> get32 d p = get32 e p"
  by (simp add: get32_def)

lemma get16_cong: "(\<And>i. p \<le> i \<Longrightarrow> i < p + 2 \<Longrightarrow> d i = e i) \<Longrightarrow> get16 d p = get16 e p"
  by (simp add: get16_def)

lemma get32_zero [simp]: "get32 zero_block p = 0"
  by (simp add: get32_def zero_block_def)

lemma get16_zero [simp]: "get16 zero_block p = 0"
  by (simp add: get16_def zero_block_def)

lemma length_block_slice [simp]: "length (block_slice d p m) = m"
  by (simp add: block_slice_def)

lemma nth_block_slice [simp]: "i < m \<Longrightarrow> block_slice d p m ! i = d (p + i)"
  by (simp add: block_slice_def)

lemma block_slice_blit_list: "block_slice (blit_list d p xs) p (length xs) = xs"
  by (rule nth_equalityI) (auto simp: blit_list_def)

text \<open>C strings: the bytes before the terminating NUL.\<close>

definition cstr :: "string \<Rightarrow> bytes" where
  "cstr s = map of_char s"

lemma length_cstr [simp]: "length (cstr s) = length s"
  by (simp add: cstr_def)

definition c_string :: "bytes \<Rightarrow> bytes" where
  "c_string xs = takeWhile (\<lambda>x. x \<noteq> 0) xs"

text \<open>
  \<open>strncmp(s, t, n)\<close> on NUL-free string contents: the sign of the first difference among
  the first \<open>n\<close> bytes, a string's end counting as the byte 0.
\<close>

fun strncmp :: "bytes \<Rightarrow> bytes \<Rightarrow> nat \<Rightarrow> int" where
  "strncmp s t 0 = 0"
| "strncmp [] [] (Suc n) = 0"
| "strncmp [] (y # t) (Suc n) = (if y = 0 then 0 else -1)"
| "strncmp (x # s) [] (Suc n) = (if x = 0 then 0 else 1)"
| "strncmp (x # s) (y # t) (Suc n) =
     (if x = y then (if x = 0 then 0 else strncmp s t n) else if x < y then -1 else 1)"

lemma strncmp_eq_0:
  "0 \<notin> set s \<Longrightarrow> 0 \<notin> set t \<Longrightarrow> strncmp s t n = 0 \<longleftrightarrow> take n s = take n t"
  by (induction s t n rule: strncmp.induct) auto

text \<open>\<open>strncpy(dst, s, n)\<close>: at most \<open>n\<close> bytes of the string, padded with NULs to \<open>n\<close>.\<close>

definition strncpy :: "bytes \<Rightarrow> nat \<Rightarrow> bytes" where
  "strncpy s n = take n s @ replicate (n - length s) 0"

lemma length_strncpy [simp]: "length (strncpy s n) = n"
  by (simp add: strncpy_def)

lemma c_string_strncpy: "0 \<notin> set s \<Longrightarrow> c_string (strncpy s n) = take n s"
proof -
  assume z: "0 \<notin> set s"
  then have "\<forall>x \<in> set (take n s). x \<noteq> 0" by (auto dest: in_set_takeD)
  then show ?thesis
    by (cases "n - length s") (simp_all add: c_string_def strncpy_def takeWhile_append2)
qed

section \<open>Outcomes and the monad\<close>

text \<open>
  How a call can end other than by returning: the program's own \<open>panic\<close>, an \<open>exit\<close> after a
  failed host call, a wait that nobody ends (\<open>sleep\<close> is empty, so a waiting loop spins), or
  an operation C leaves undefined (null or out-of-range access, signed overflow).
\<close>

datatype error = Panic string | Exit string | Hang string | Undef string

type_synonym ('s, 'a) fm = "'s \<Rightarrow> error + ('a \<times> 's)"

definition ret :: "'a \<Rightarrow> ('s, 'a) fm" where
  "ret x = (\<lambda>s. Inr (x, s))"

definition fail :: "error \<Rightarrow> ('s, 'a) fm" where
  "fail e = (\<lambda>s. Inl e)"

definition bnd :: "('s, 'a) fm \<Rightarrow> ('a \<Rightarrow> ('s, 'b) fm) \<Rightarrow> ('s, 'b) fm" where
  "bnd m f = (\<lambda>s. case m s of Inl e \<Rightarrow> Inl e | Inr (x, t) \<Rightarrow> f x t)"

definition gets :: "('s \<Rightarrow> 'a) \<Rightarrow> ('s, 'a) fm" where
  "gets f = (\<lambda>s. Inr (f s, s))"

definition modify :: "('s \<Rightarrow> 's) \<Rightarrow> ('s, unit) fm" where
  "modify f = (\<lambda>s. Inr ((), f s))"

text \<open>\<open>guard b e\<close>: go on if \<open>b\<close> holds, end with \<open>e\<close> otherwise.\<close>

definition guard :: "bool \<Rightarrow> error \<Rightarrow> ('s, unit) fm" where
  "guard b e = (if b then ret () else fail e)"

lemma ret_apply [simp, monad]: "ret x s = Inr (x, s)"
  by (simp add: ret_def)

lemma fail_apply [simp, monad]: "fail e s = Inl e"
  by (simp add: fail_def)

lemma gets_apply [simp, monad]: "gets f s = Inr (f s, s)"
  by (simp add: gets_def)

lemma modify_apply [simp, monad]: "modify f s = Inr ((), f s)"
  by (simp add: modify_def)

lemma guard_apply [simp, monad]: "guard b e s = (if b then Inr ((), s) else Inl e)"
  by (simp add: guard_def)

lemma bnd_Inr [simp, monad]: "m s = Inr (x, t) \<Longrightarrow> bnd m f s = f x t"
  by (simp add: bnd_def)

lemma bnd_Inl [simp, monad]: "m s = Inl e \<Longrightarrow> bnd m f s = Inl e"
  by (simp add: bnd_def)

lemma bnd_ret [simp]: "bnd (ret x) f = f x"
  by (simp add: bnd_def ret_def)

lemma bnd_gets [simp]: "bnd (gets f) k s = k (f s) s"
  by (simp add: bnd_def gets_def)

lemma bnd_modify [simp]: "bnd (modify f) k s = k () (f s)"
  by (simp add: bnd_def modify_def)

lemma bnd_guard [simp]: "bnd (guard b e) k s = (if b then k () s else Inl e)"
  by (simp add: bnd_def)

lemma bnd_fail [simp]: "bnd (fail e) k = fail e"
  by (simp add: bnd_def fail_def)

lemma bnd_ret_right [simp]: "bnd m ret = m"
  by (auto simp: bnd_def ret_def fun_eq_iff split: sum.splits)

lemma bnd_ret_unit [simp]: "bnd m (\<lambda>_. ret ()) = m"
  by (auto simp: bnd_def ret_def fun_eq_iff split: sum.splits)

lemma bnd_assoc: "bnd (bnd m f) g = bnd m (\<lambda>x. bnd (f x) g)"
  by (auto simp: bnd_def fun_eq_iff split: sum.splits)

lemma bnd_eq_Inr: "bnd m f s = Inr r \<longleftrightarrow> (\<exists>x t. m s = Inr (x, t) \<and> f x t = Inr r)"
  by (auto simp: bnd_def split: sum.splits)

lemma bnd_InrE:
  assumes "bnd m f s = Inr r"
  obtains x t where "m s = Inr (x, t)" and "f x t = Inr r"
  using assms by (auto simp: bnd_eq_Inr)

lemma bnd_eq_Inl:
  "bnd m f s = Inl e \<longleftrightarrow> m s = Inl e \<or> (\<exists>x t. m s = Inr (x, t) \<and> f x t = Inl e)"
  by (auto simp: bnd_def split: sum.splits)

text \<open>
  A waiting loop, \<open>while(1){ ... sleep ... }\<close> or \<open>loop: ... sleep; goto loop\<close>: \<open>m\<close> is one pass through its
  body, which leaves the loop with \<open>Some x\<close> or sleeps and goes round again with \<open>None\<close>.
  \<open>loop_run m s\<close> is the loop itself, \<open>None\<close> when it never ends.  \<open>until w m\<close> is what the model
  calls: a pass that sleeps is reported as the wait \<open>w\<close>.  When a sleeping pass changes nothing, as
  here, where \<open>sleep\<close> is empty and nobody else runs, the two agree: the loop does
  not end exactly when \<open>until\<close> reports the wait.
\<close>

partial_function (option) loop_run :: "('s, 'a option) fm \<Rightarrow> 's \<Rightarrow> (error + ('a \<times> 's)) option" where
  "loop_run m s =
     (case m s of
        Inl e \<Rightarrow> Some (Inl e)
      | Inr (r, t) \<Rightarrow> (case r of Some x \<Rightarrow> Some (Inr (x, t)) | None \<Rightarrow> loop_run m t))"

definition until :: "string \<Rightarrow> ('s, 'a option) fm \<Rightarrow> ('s, 'a) fm" where
  "until w m = bnd m (\<lambda>r. case r of Some x \<Rightarrow> ret x | None \<Rightarrow> fail (Hang w))"

lemma until_bnd: "until w (bnd m f) = bnd m (\<lambda>x. until w (f x))"
  by (simp add: until_def bnd_assoc)

lemma until_step [simp]:
  "until w (ret (Some x)) = ret x" "until w (ret None) = fail (Hang w)" "until w (fail e) = fail e"
  by (simp_all add: until_def fun_eq_iff)

lemma until_if: "until w (if b then m else n) = (if b then until w m else until w n)"
  by simp

lemma until_case_option:
  "until w (case r of None \<Rightarrow> m | Some x \<Rightarrow> f x) = (case r of None \<Rightarrow> until w m | Some x \<Rightarrow> until w (f x))"
  by (cases r) simp_all

lemmas until_push = until_bnd until_if until_case_option

lemma loop_run_stuck:
  assumes "m s = Inr (None, s)"
  shows "loop_run m s = None"
proof (rule ccontr)
  assume "loop_run m s \<noteq> None"
  then obtain y where y: "loop_run m s = Some y" by blast
  have "n s = Inr (None, s) \<longrightarrow> False" if "loop_run n s = Some y" for n :: "('b, 'a option) fm" and s y
    by (rule loop_run.raw_induct [where P = "\<lambda>n s _. n s = Inr (None, s) \<longrightarrow> False", OF _ that])
      (auto split: sum.splits option.splits)
  with y assms show False by blast
qed

lemma loop_run_until:
  assumes "\<And>t. m s = Inr (None, t) \<Longrightarrow> t = s"
  shows "loop_run m s = (if \<exists>t. m s = Inr (None, t) then None else Some (until w m s))"
proof (cases "\<exists>t. m s = Inr (None, t)")
  case True
  with assms have "m s = Inr (None, s)" by blast
  with True loop_run_stuck show ?thesis by auto
next
  case False
  then show ?thesis by (subst loop_run.simps) (auto simp: until_def bnd_def split: sum.splits option.splits)
qed

text \<open>
  Hoare triples with an error predicate: \<open>E = (\<lambda>_. False)\<close> is total correctness,
  \<open>E = (\<lambda>_. True)\<close> partial correctness.
\<close>

definition triple :: "('s \<Rightarrow> bool) \<Rightarrow> ('s, 'a) fm \<Rightarrow> ('a \<Rightarrow> 's \<Rightarrow> bool) \<Rightarrow> (error \<Rightarrow> bool) \<Rightarrow> bool" where
  "triple P m Q E \<longleftrightarrow> (\<forall>s. P s \<longrightarrow> (case m s of Inl e \<Rightarrow> E e | Inr (x, t) \<Rightarrow> Q x t))"

lemma tripleD_ret: "triple P m Q E \<Longrightarrow> P s \<Longrightarrow> m s = Inr (x, t) \<Longrightarrow> Q x t"
  by (force simp: triple_def)

lemma triple_bnd:
  assumes "triple P m R E" and "\<And>x. triple (R x) (f x) Q E"
  shows "triple P (bnd m f) Q E"
  using assms by (fastforce simp: triple_def bnd_def split: sum.splits)

lemma triple_ret: "(\<And>s. P s \<Longrightarrow> Q x s) \<Longrightarrow> triple P (ret x) Q E"
  by (simp add: triple_def)

lemma triple_modify: "(\<And>s. P s \<Longrightarrow> Q () (f s)) \<Longrightarrow> triple P (modify f) Q E"
  by (simp add: triple_def)

lemma triple_gets: "(\<And>s. P s \<Longrightarrow> Q (f s) s) \<Longrightarrow> triple P (gets f) Q E"
  by (simp add: triple_def)

lemma triple_guard: "(\<And>s. P s \<Longrightarrow> if b then Q () s else E e) \<Longrightarrow> triple P (guard b e) Q E"
  by (auto simp: triple_def)

lemma triple_conseq:
  assumes "triple P' m Q' E'" and "\<And>s. P s \<Longrightarrow> P' s" and "\<And>x s. Q' x s \<Longrightarrow> Q x s"
    and "\<And>e. E' e \<Longrightarrow> E e"
  shows "triple P m Q E"
  using assms by (fastforce simp: triple_def split: sum.splits)

lemma triple_if:
  "(b \<Longrightarrow> triple P m Q E) \<Longrightarrow> (\<not> b \<Longrightarrow> triple P n Q E) \<Longrightarrow> triple P (if b then m else n) Q E"
  by simp

section \<open>Generic facts on lists and words\<close>

lemma unat_of_int_small: "0 \<le> k \<Longrightarrow> k < 2 ^ 32 \<Longrightarrow> unat (word_of_int k :: u32) = nat k"
  by (simp add: unat_eq_nat_uint uint_word_of_int take_bit_int_eq_self)

lemma find_eq_Some_unique:
  assumes "x \<in> set xs" and "P x" and "\<And>y. y \<in> set xs \<Longrightarrow> P y \<Longrightarrow> y = x"
  shows "List.find P xs = Some x"
  using assms(1,3)
proof (induction xs)
  case (Cons a xs)
  show ?case
  proof (cases "P a")
    case True
    then have "a = x" using Cons.prems(2) by simp
    with True show ?thesis by simp
  next
    case False
    with assms(2) Cons.prems(1) have "x \<in> set xs" by (metis set_ConsD)
    then have "List.find P xs = Some x"
      using Cons.prems(2) by (intro Cons.IH) simp_all
    with False show ?thesis by simp
  qed
qed simp

lemma find_NoneI: "(\<And>y. y \<in> set xs \<Longrightarrow> \<not> P y) \<Longrightarrow> List.find P xs = None"
  by (simp add: find_None_iff)

lemma find_SomeD: "List.find P xs = Some x \<Longrightarrow> x \<in> set xs \<and> P x"
  by (auto simp: find_Some_iff)

lemma find_ex: "x \<in> set xs \<Longrightarrow> P x \<Longrightarrow> \<exists>y. List.find P xs = Some y"
  by (cases "List.find P xs") (auto simp: find_None_iff)

end
