(* ===== verification/Layout.thy ===== *)
theory Layout
  imports Prelude
begin

text \<open>
  The headers of the xv6 file system: the constants of \<open>param.h\<close>, \<open>fs.h\<close>, \<open>stat.h\<close>,
  \<open>buf.h\<close>, \<open>file.h\<close> and \<open>fcntl.h\<close>, the structures they declare as records, and the byte
  layout of the structures that live on disk (super block, inode, directory entry), with
  their decode-after-encode laws.  \<open>param.h\<close> defines \<open>HWBIGF\<close> before every file-system
  source that lays out inodes reads \<open>fs.h\<close>, so the on-disk inode has \<open>NDIRECT + 2\<close>
  addresses and occupies 64 bytes, while \<open>file.h\<close> gives the in-memory inode
  \<open>NDIRECT + 1\<close> of them.

  C fields of type \<open>int\<close> that the code only copies (times, sector numbers) are kept as
  their 32 bits; \<open>short\<close> fields as 16 bits, read with \<open>sint\<close> where the code compares them.
\<close>

section \<open>Constants\<close>

definition NOFILE :: nat where [layout]: "NOFILE = 16"
definition NFILE :: nat where [layout]: "NFILE = 100"
definition NINODE :: nat where [layout]: "NINODE = 50"
definition NDEV :: int where [layout]: "NDEV = 10"
definition ROOTDEV :: u32 where [layout]: "ROOTDEV = 1"
definition MAXOPBLOCKS :: nat where [layout]: "MAXOPBLOCKS = 10"
definition LOGSIZE :: nat where [layout]: "LOGSIZE = MAXOPBLOCKS * 3"
definition NBUF :: nat where [layout]: "NBUF = MAXOPBLOCKS * 3"

definition ROOTINO :: u32 where [layout]: "ROOTINO = 1"
definition BSIZE :: nat where [layout]: "BSIZE = 4096"
definition NDIRECT :: nat where [layout]: "NDIRECT = 8"
definition NINDIRECT :: nat where [layout]: "NINDIRECT = BSIZE div 4"
definition NDINDIRECT :: nat where [layout]: "NDINDIRECT = NINDIRECT * NINDIRECT"
definition MAXFILE :: nat where [layout]: "MAXFILE = NDIRECT + NINDIRECT + NDINDIRECT"
definition SIZEOF_DINODE :: nat where [layout]: "SIZEOF_DINODE = 64"
definition IPB :: nat where [layout]: "IPB = BSIZE div SIZEOF_DINODE"
definition BPB :: nat where [layout]: "BPB = BSIZE * 8"
definition DIRSIZ :: nat where [layout]: "DIRSIZ = 62"
definition SIZEOF_DIRENT :: nat where [layout]: "SIZEOF_DIRENT = 2 + DIRSIZ"

definition T_DIR :: u16 where [layout]: "T_DIR = 1"
definition T_FILE :: u16 where [layout]: "T_FILE = 2"
definition T_DEV :: u16 where [layout]: "T_DEV = 3"
definition T_SOCK :: u16 where [layout]: "T_SOCK = 4"

definition O_RDONLY :: u32 where [layout]: "O_RDONLY = 0x000"
definition O_WRONLY :: u32 where [layout]: "O_WRONLY = 0x001"
definition O_RDWR :: u32 where [layout]: "O_RDWR = 0x002"
definition O_CREATE :: u32 where [layout]: "O_CREATE = 0x200"

definition B_BUSY :: u32 where "B_BUSY = 0x1"
definition B_VALID :: u32 where "B_VALID = 0x2"
definition B_DIRTY :: u32 where "B_DIRTY = 0x4"
definition I_BUSY :: u32 where "I_BUSY = 0x1"
definition I_VALID :: u32 where "I_VALID = 0x2"

text \<open>The block holding inode \<open>i\<close> and the block holding the bitmap bit of block \<open>b\<close>.\<close>

definition IBLOCK :: "u32 \<Rightarrow> u32" where
  "IBLOCK i = of_nat (unat i div IPB + 2)"

definition BBLOCK :: "u32 \<Rightarrow> u32 \<Rightarrow> u32" where
  "BBLOCK b ninodes = of_nat (unat b div BPB + unat ninodes div IPB + 3)"

section \<open>Flag words\<close>

text \<open>\<open>flags & m\<close> as a condition, \<open>flags |= m\<close>, \<open>flags &= ~m\<close>.\<close>

definition flag :: "u32 \<Rightarrow> u32 \<Rightarrow> bool" where
  "flag m f \<longleftrightarrow> f AND m \<noteq> 0"

definition set_flag :: "u32 \<Rightarrow> u32 \<Rightarrow> u32" where
  "set_flag m f = f OR m"

definition clear_flag :: "u32 \<Rightarrow> u32 \<Rightarrow> u32" where
  "clear_flag m f = f AND NOT m"

lemma flag_bits:
  "flag B_BUSY f \<longleftrightarrow> bit f 0" "flag B_VALID f \<longleftrightarrow> bit f 1" "flag B_DIRTY f \<longleftrightarrow> bit f 2"
  by (simp_all add: flag_def B_BUSY_def B_VALID_def B_DIRTY_def bit_iff_and_push_bit_not_eq_0
      push_bit_eq_mult)

lemma bit_low_numerals:
  "bit (1 :: u32) 0" "\<not> bit (1 :: u32) 1" "\<not> bit (1 :: u32) 2"
  "\<not> bit (2 :: u32) 0" "bit (2 :: u32) 1" "\<not> bit (2 :: u32) 2"
  "\<not> bit (4 :: u32) 0" "\<not> bit (4 :: u32) 1" "bit (4 :: u32) 2"
  by (simp_all add: bit_iff_odd)

lemma flag_update_simps [simp]:
  "flag B_BUSY (set_flag B_BUSY f)" "flag B_VALID (set_flag B_VALID f)"
  "flag B_DIRTY (set_flag B_DIRTY f)"
  "flag B_VALID (set_flag B_BUSY f) = flag B_VALID f"
  "flag B_DIRTY (set_flag B_BUSY f) = flag B_DIRTY f"
  "flag B_BUSY (set_flag B_VALID f) = flag B_BUSY f"
  "flag B_DIRTY (set_flag B_VALID f) = flag B_DIRTY f"
  "flag B_BUSY (set_flag B_DIRTY f) = flag B_BUSY f"
  "flag B_VALID (set_flag B_DIRTY f) = flag B_VALID f"
  "\<not> flag B_BUSY (clear_flag B_BUSY f)" "\<not> flag B_VALID (clear_flag B_VALID f)"
  "\<not> flag B_DIRTY (clear_flag B_DIRTY f)"
  "flag B_VALID (clear_flag B_BUSY f) = flag B_VALID f"
  "flag B_DIRTY (clear_flag B_BUSY f) = flag B_DIRTY f"
  "flag B_BUSY (clear_flag B_DIRTY f) = flag B_BUSY f"
  "flag B_VALID (clear_flag B_DIRTY f) = flag B_VALID f"
  unfolding flag_bits set_flag_def clear_flag_def
  unfolding B_BUSY_def B_VALID_def B_DIRTY_def bit_or_iff bit_and_iff bit_not_iff
  by (simp_all only: bit_low_numerals) simp_all

lemma flag_consts [simp]:
  "flag B_BUSY B_BUSY" "\<not> flag B_VALID B_BUSY" "\<not> flag B_DIRTY B_BUSY"
  "\<not> flag m 0"
  by (simp_all only: flag_bits B_BUSY_def bit_low_numerals) (simp_all add: flag_def)

lemma I_flags [simp]: "I_BUSY = B_BUSY" "I_VALID = B_VALID"
  by (simp_all add: I_BUSY_def I_VALID_def B_BUSY_def B_VALID_def)

section \<open>Structures\<close>

record superblock =
  sb_size :: u32
  sb_nblocks :: u32
  sb_ninodes :: u32
  sb_nlog :: u32

text \<open>\<open>struct buf\<close>; \<open>prev\<close> and \<open>next\<close> are indices into the cache's array (\<open>qnext\<close> is unused).\<close>

record buf =
  b_flags :: u32
  b_dev :: u32
  b_sector :: u32
  b_prev :: nat
  b_next :: nat
  b_data :: block

record spinlock =
  lk_locked :: u32
  lk_name :: string
  lk_cpu :: nat

text \<open>\<open>struct logheader\<close> and \<open>struct log\<close> of \<open>log.c\<close>.\<close>

record logheader =
  lh_n :: int
  lh_sector :: "nat \<Rightarrow> u32"

record log =
  log_start :: int
  log_size :: int
  outstanding :: int
  committing :: int
  log_dev :: u32
  lh :: logheader

record dinode =
  di_type :: u16
  di_major :: u16
  di_minor :: u16
  di_nlink :: u16
  di_size :: u32
  di_ctime :: u32
  di_atime :: u32
  di_mtime :: u32
  di_addrs :: "nat \<Rightarrow> u32"

text \<open>The in-memory inode: \<open>i_addrs\<close> has \<open>NDIRECT + 1\<close> entries.\<close>

record inode =
  i_dev :: u32
  i_inum :: u32
  i_ref :: int
  i_flags :: u32
  i_type :: u16
  i_major :: u16
  i_minor :: u16
  i_nlink :: u16
  i_size :: u32
  i_ctime :: u32
  i_atime :: u32
  i_mtime :: u32
  i_addrs :: "nat \<Rightarrow> u32"

record dirent =
  de_inum :: u16
  de_name :: bytes

record stat =
  st_type :: u16
  st_dev :: u32
  st_ino :: u32
  st_nlink :: u16
  st_size :: u32
  st_atime :: u32
  st_mtime :: u32
  st_ctime :: u32

datatype fd_type = FD_NONE | FD_PIPE | FD_INODE

text \<open>\<open>struct file\<close>; \<open>f_ip\<close> is an index into the inode cache, \<open>None\<close> for a null pointer.\<close>

record xfile =
  f_type :: fd_type
  f_ref :: int
  f_readable :: bool
  f_writable :: bool
  f_ip :: "nat option"
  f_off :: u32

section \<open>On-disk encodings\<close>

definition sb_of_block :: "block \<Rightarrow> superblock" where
  "sb_of_block d = \<lparr>sb_size = get32 d 0, sb_nblocks = get32 d 4, sb_ninodes = get32 d 8,
     sb_nlog = get32 d 12\<rparr>"

definition put_sb :: "block \<Rightarrow> superblock \<Rightarrow> block" where
  "put_sb d sb = put32 (put32 (put32 (put32 d 0 (sb_size sb)) 4 (sb_nblocks sb))
     8 (sb_ninodes sb)) 12 (sb_nlog sb)"

text \<open>Storing consecutive 32-bit words, and an inode field by field.\<close>

fun put32s :: "block \<Rightarrow> nat \<Rightarrow> u32 list \<Rightarrow> block" where
  "put32s d p [] = d"
| "put32s d p (w # ws) = put32s (put32 d p w) (p + 4) ws"

definition dinode_offset :: "u32 \<Rightarrow> nat" where
  "dinode_offset inum = unat inum mod IPB * SIZEOF_DINODE"

definition get_dinode :: "block \<Rightarrow> nat \<Rightarrow> dinode" where
  "get_dinode d p = \<lparr>di_type = get16 d p, di_major = get16 d (p + 2),
     di_minor = get16 d (p + 4), di_nlink = get16 d (p + 6), di_size = get32 d (p + 8),
     di_ctime = get32 d (p + 12), di_atime = get32 d (p + 16), di_mtime = get32 d (p + 20),
     di_addrs = (\<lambda>i. get32 d (p + 24 + 4 * i))\<rparr>"

text \<open>\<open>k\<close> addresses are stored: 9 by \<open>iupdate\<close>, 10 by \<open>mkfs\<close>.\<close>

definition put_dinode :: "nat \<Rightarrow> block \<Rightarrow> nat \<Rightarrow> dinode \<Rightarrow> block" where
  "put_dinode k d p di =
     put32s (put32 (put32 (put32 (put32 (put16 (put16 (put16 (put16 d
       p (di_type di)) (p + 2) (di_major di)) (p + 4) (di_minor di)) (p + 6) (di_nlink di))
       (p + 8) (di_size di)) (p + 12) (di_ctime di)) (p + 16) (di_atime di))
       (p + 20) (di_mtime di))
       (p + 24) (map (di_addrs di) [0..<k])"

definition dirent_of_bytes :: "bytes \<Rightarrow> dirent" where
  "dirent_of_bytes xs = \<lparr>de_inum = get16 (\<lambda>i. xs ! i) 0, de_name = take DIRSIZ (drop 2 xs)\<rparr>"

definition bytes_of_dirent :: "dirent \<Rightarrow> bytes" where
  "bytes_of_dirent de = [ucast (de_inum de), ucast (drop_bit 8 (de_inum de))] @ de_name de"

lemma sb_of_put_sb [simp]: "sb_of_block (put_sb d sb) = sb"
  by (simp add: sb_of_block_def put_sb_def)

lemma put32s_other: "i < p \<or> p + 4 * length ws \<le> i \<Longrightarrow> put32s d p ws i = d i"
  by (induction d p ws rule: put32s.induct) auto

lemma get32_put32s:
  "k < length ws \<Longrightarrow> get32 (put32s d p ws) (p + 4 * k) = ws ! k"
proof (induction d p ws arbitrary: k rule: put32s.induct)
  case (2 d p w ws)
  show ?case
  proof (cases k)
    case 0
    have "get32 (put32s (put32 d p w) (p + 4) ws) p = get32 (put32 d p w) p"
      by (rule get32_cong) (simp add: put32s_other)
    with 0 show ?thesis by simp
  next
    case (Suc j)
    with 2 have "get32 (put32s (put32 d p w) (p + 4) ws) (p + 4 + 4 * j) = ws ! j" by simp
    with Suc show ?thesis by (simp add: algebra_simps)
  qed
qed simp

lemma get32_put32s_other:
  "q + 4 \<le> p \<or> p + 4 * length ws \<le> q \<Longrightarrow> get32 (put32s d p ws) q = get32 d q"
  by (rule get32_cong) (auto simp: put32s_other)

lemma get16_put32s_other:
  "q + 2 \<le> p \<or> p + 4 * length ws \<le> q \<Longrightarrow> get16 (put32s d p ws) q = get16 d q"
  by (rule get16_cong) (auto simp: put32s_other)

lemmas put_get = get32_put32s_other get16_put32s_other

lemma get_put_dinode_fields:
  "di_type (get_dinode (put_dinode k d p di) p) = di_type di"
  "di_major (get_dinode (put_dinode k d p di) p) = di_major di"
  "di_minor (get_dinode (put_dinode k d p di) p) = di_minor di"
  "di_nlink (get_dinode (put_dinode k d p di) p) = di_nlink di"
  "di_size (get_dinode (put_dinode k d p di) p) = di_size di"
  "di_ctime (get_dinode (put_dinode k d p di) p) = di_ctime di"
  "di_atime (get_dinode (put_dinode k d p di) p) = di_atime di"
  "di_mtime (get_dinode (put_dinode k d p di) p) = di_mtime di"
  by (simp_all add: get_dinode_def put_dinode_def put_get)

lemma get_put_dinode_addrs:
  "i < k \<Longrightarrow> di_addrs (get_dinode (put_dinode k d p di) p) i = di_addrs di i"
  by (simp add: get_dinode_def put_dinode_def get32_put32s)

lemma put_dinode_other:
  "i < p \<or> p + 24 + 4 * k \<le> i \<Longrightarrow> put_dinode k d p di i = d i"
  by (auto simp: put_dinode_def put32s_other)

lemma get_put_dinode_later_addr:
  "k \<le> i \<Longrightarrow> di_addrs (get_dinode (put_dinode k d p di) p) i = di_addrs (get_dinode d p) i"
  unfolding get_dinode_def by simp (rule get32_cong, simp add: put_dinode_other)

lemma dirent_roundtrip:
  "length (de_name de) = DIRSIZ \<Longrightarrow> dirent_of_bytes (bytes_of_dirent de) = de"
proof -
  assume len: "length (de_name de) = DIRSIZ"
  have "get16 (\<lambda>i. bytes_of_dirent de ! i) 0 = get16 (put16 zero_block 0 (de_inum de)) 0"
    by (rule get16_cong) (auto simp: bytes_of_dirent_def put16_def less_Suc_eq numeral_2_eq_2)
  then show ?thesis
    using len by (simp add: dirent_of_bytes_def bytes_of_dirent_def)
qed

lemma length_bytes_of_dirent:
  "length (de_name de) = DIRSIZ \<Longrightarrow> length (bytes_of_dirent de) = SIZEOF_DIRENT"
  by (simp add: bytes_of_dirent_def SIZEOF_DIRENT_def)

end
