(* ===== verification/Kernel.thy ===== *)
theory Kernel
  imports Layout
begin

text \<open>
  The global state of the file-system process, the host interface at the end of \<open>fuse.c\<close>
  (\<open>unix_read\<close>, \<open>unix_write\<close>, \<open>unix_flush\<close>, \<open>unix_time\<close>), the disk driver \<open>ide.c\<close> and the
  lock stubs of \<open>spinlock.c\<close>.

  The image file is \<open>disk\<close> (what the host's page cache returns) of \<open>nblk\<close> whole blocks;
  \<open>os_ok\<close> says whether the host's I/O calls on it succeed.  \<open>events\<close> records every \<open>pwrite\<close>
  and \<open>fsync\<close> in order: it is read by no operation and is what the crash model replays.
  The program is run single-threaded (\<open>README.txt\<close> starts it with \<open>-s\<close>), so \<open>acquire\<close> and
  \<open>release\<close>, which are empty in the source, are left out of the operations below, and a loop
  around the equally empty \<open>sleep\<close> never ends (\<open>Hang\<close>).
\<close>

datatype dev_event = DWrite nat block | DFlush

record fsstats =
  nread :: int
  nwrite :: int
  nflush :: int
  ngetattr :: int
  nopen :: int
  nrelease :: int
  nreaddir :: int
  nfuse_read :: int
  nfuse_write :: int
  ncreate :: int
  ntrunc :: int
  nmkdir :: int
  nrmdir :: int
  nunlink :: int

text \<open>
  \<open>bufs\<close> is \<open>bcache.buf[NBUF]\<close> with \<open>bcache.head\<close> at index \<open>NBUF\<close>; \<open>inodes\<close> is
  \<open>icache.inode[NINODE]\<close>; \<open>ftable\<close> is \<open>ftable.file[NFILE]\<close>; \<open>curproc\<close> is the working
  directory of the global \<open>curproc\<close> (\<open>None\<close> while the pointer is null); \<open>statsbuf\<close> is the text
  \<open>fuse.c\<close> last printed for \<open>/stats\<close>.
\<close>

record kern =
  disk :: "nat \<Rightarrow> block"
  nblk :: nat
  os_ok :: bool
  events :: "dev_event list"
  fsstats :: fsstats
  clock :: u32
  bufs :: "nat \<Rightarrow> buf"
  thelog :: log
  inodes :: "nat \<Rightarrow> inode"
  ftable :: "nat \<Rightarrow> xfile"
  curproc :: "nat option"
  statsbuf :: bytes

type_synonym 'a act = "(kern, 'a) fm"

definition INT_MAX :: int where [layout]: "INT_MAX = 2 ^ 31 - 1"
definition INT_MIN :: int where [layout]: "INT_MIN = - (2 ^ 31)"

definition int_range :: "int \<Rightarrow> bool" where
  "int_range k \<longleftrightarrow> INT_MIN \<le> k \<and> k \<le> INT_MAX"

lemma sint_of_small: "k < 2 ^ 31 \<Longrightarrow> sint (of_nat k :: u32) = int k"
  by (simp add: signed_of_nat signed_take_bit_int_eq_self)

lemma int_range_literal [simp]:
  "int_range 0" "int_range 1" "int_range (- 1)"
  "int_range (numeral k) \<longleftrightarrow> (numeral k :: int) \<le> 2147483647"
  by (simp_all add: int_range_def INT_MIN_def INT_MAX_def)

section \<open>Host calls (fuse.c)\<close>

text \<open>
  \<open>pread\<close>/\<open>pwrite\<close> at byte offset \<open>sector*BSIZE\<close>, computed in \<open>int\<close>.  A read that is not
  wholly inside the image is short and ends the process; a write past the end extends it.
\<close>

definition unix_read :: "int \<Rightarrow> block act" where
  "unix_read sector =
     bnd (guard (int_range (sector * int BSIZE)) (Undef ''sector*BSIZE'')) (\<lambda>_.
     bnd (gets (\<lambda>s. os_ok s \<and> 0 \<le> sector \<and> nat sector < nblk s)) (\<lambda>ok.
     bnd (guard ok (Exit ''pread failed'')) (\<lambda>_.
     bnd (gets (\<lambda>s. disk s (nat sector))) (\<lambda>d.
     bnd (modify (\<lambda>s. s\<lparr>fsstats := (fsstats s)\<lparr>nread := nread (fsstats s) + 1\<rparr>\<rparr>)) (\<lambda>_.
     ret d)))))"

definition pwrite_block :: "nat \<Rightarrow> block \<Rightarrow> kern \<Rightarrow> kern" where
  "pwrite_block a d s = s\<lparr>
     disk := (\<lambda>i. if i = a then d else if i < nblk s then disk s i else
                   if i < a then zero_block else disk s i),
     nblk := max (nblk s) (Suc a),
     events := events s @ [DWrite a d]\<rparr>"

definition unix_write :: "int \<Rightarrow> block \<Rightarrow> unit act" where
  "unix_write sector d =
     bnd (guard (int_range (sector * int BSIZE)) (Undef ''sector*BSIZE'')) (\<lambda>_.
     bnd (gets (\<lambda>s. os_ok s \<and> 0 \<le> sector)) (\<lambda>ok.
     bnd (guard ok (Exit ''pwrite failed'')) (\<lambda>_.
     bnd (modify (pwrite_block (nat sector) d)) (\<lambda>_.
     modify (\<lambda>s. s\<lparr>fsstats := (fsstats s)\<lparr>nwrite := nwrite (fsstats s) + 1\<rparr>\<rparr>)))))"

definition unix_flush :: "unit act" where
  "unix_flush =
     bnd (gets os_ok) (\<lambda>ok.
     bnd (guard ok (Exit ''fsync failed'')) (\<lambda>_.
     modify (\<lambda>s. s\<lparr>events := events s @ [DFlush],
                   fsstats := (fsstats s)\<lparr>nflush := nflush (fsstats s) + 1\<rparr>\<rparr>)))"

text \<open>Opening the image file; \<open>os_ok\<close> covers its success too.\<close>

definition ideinit :: "unit act" where
  "ideinit = bnd (gets os_ok) (\<lambda>ok. guard ok (Exit ''failed to open disk''))"

definition unix_time :: "u32 act" where
  "unix_time = gets clock"

section \<open>Locks (spinlock.c)\<close>

definition initlock :: "spinlock \<Rightarrow> string \<Rightarrow> spinlock" where
  "initlock lk name = lk\<lparr>lk_name := name, lk_locked := 0, lk_cpu := 0\<rparr>"

definition acquire :: "spinlock \<Rightarrow> unit act" where "acquire lk = ret ()"
definition release :: "spinlock \<Rightarrow> unit act" where "release lk = ret ()"
definition wakeup :: "nat \<Rightarrow> unit act" where "wakeup addr = ret ()"
definition sleep :: "nat \<Rightarrow> spinlock \<Rightarrow> unit act" where "sleep addr lk = ret ()"

section \<open>Disk driver (ide.c)\<close>

definition buf_at :: "nat \<Rightarrow> buf act" where
  "buf_at b = gets (\<lambda>s. bufs s b)"

definition upd_buf :: "nat \<Rightarrow> (buf \<Rightarrow> buf) \<Rightarrow> unit act" where
  "upd_buf b f = modify (\<lambda>s. s\<lparr>bufs := (bufs s)(b := f (bufs s b))\<rparr>)"

definition iderw :: "nat \<Rightarrow> unit act" where
  "iderw b =
     bnd (buf_at b) (\<lambda>bp.
     bnd (guard (flag B_BUSY (b_flags bp)) (Panic ''iderw: buf not busy'')) (\<lambda>_.
     bnd (guard (b_flags bp AND (B_VALID OR B_DIRTY) \<noteq> B_VALID) (Panic ''iderw: nothing to do'')) (\<lambda>_.
     if flag B_DIRTY (b_flags bp)
     then bnd (unix_write (sint (b_sector bp)) (b_data bp)) (\<lambda>_.
          upd_buf b (\<lambda>bp. bp\<lparr>b_flags := clear_flag B_DIRTY (b_flags bp)\<rparr>))
     else bnd (unix_read (sint (b_sector bp))) (\<lambda>d.
          upd_buf b (\<lambda>bp. bp\<lparr>b_data := d, b_flags := set_flag B_VALID (b_flags bp)\<rparr>)))))"

definition ideflush :: "unit act" where
  "ideflush = unix_flush"

section \<open>Facts the layers above use\<close>

lemma only_valid_iff: "f AND (B_VALID OR B_DIRTY) = B_VALID \<longleftrightarrow> flag B_VALID f \<and> \<not> flag B_DIRTY f"
proof
  assume eq: "f AND (B_VALID OR B_DIRTY) = B_VALID"
  then have "bit (f AND (B_VALID OR B_DIRTY)) 1 = bit B_VALID 1"
    "bit (f AND (B_VALID OR B_DIRTY)) 2 = bit B_VALID 2" by simp_all
  then show "flag B_VALID f \<and> \<not> flag B_DIRTY f"
    unfolding flag_bits unfolding bit_and_iff bit_or_iff B_VALID_def B_DIRTY_def
    by (simp only: bit_low_numerals) simp
next
  assume a: "flag B_VALID f \<and> \<not> flag B_DIRTY f"
  have "f AND (B_VALID OR B_DIRTY) = (f AND B_VALID) OR (f AND B_DIRTY)"
    by (simp add: bit.conj_disj_distrib)
  moreover have "f AND B_DIRTY = 0" using a by (simp add: flag_def)
  moreover have "f AND B_VALID = B_VALID"
  proof (rule bit_word_eqI)
    fix n
    show "bit (f AND B_VALID) n = bit B_VALID n"
      using a unfolding flag_bits
      by (cases "n = 1") (auto simp: B_VALID_def bit_and_iff bit_2_iff)
  qed
  ultimately show "f AND (B_VALID OR B_DIRTY) = B_VALID" by simp
qed

text \<open>A sector number that the driver can address without overflowing \<open>sector*BSIZE\<close>.\<close>

definition sector_ok :: "kern \<Rightarrow> u32 \<Rightarrow> bool" where
  "sector_ok s a \<longleftrightarrow> os_ok s \<and> unat a < nblk s \<and> nblk s \<le> 2 ^ 19"

lemma uint_small: "unat (a :: u32) < 2 ^ 19 \<Longrightarrow> uint a < 2 ^ 19"
  by (metis of_nat_less_iff of_nat_numeral of_nat_power uint_nat)

lemma sector_ok_sint: "unat (a :: u32) < 2 ^ 19 \<Longrightarrow> sint a = uint a"
proof -
  assume "unat a < 2 ^ 19"
  then have "uint a < 2 ^ 19" by (rule uint_small)
  moreover have "- (2 ^ 31) \<le> uint a" by (rule order_trans [OF _ uint_ge_0]) simp
  ultimately have "signed_take_bit 31 (uint a) = uint a"
    by (intro signed_take_bit_int_eq_self) simp_all
  then show ?thesis by (simp add: sint_uint)
qed

lemma sector_ok_range:
  assumes "sector_ok s a"
  shows "sint a = uint a" and "int_range (uint a * int BSIZE)"
proof -
  from assms have lt: "unat a < 2 ^ 19" by (simp add: sector_ok_def)
  then show "sint a = uint a" by (rule sector_ok_sint)
  have "0 \<le> uint a * 4096" by simp
  then have "- (2 ^ 31) \<le> uint a * 4096" by (rule order_trans [rotated]) simp
  moreover have "uint a * 4096 \<le> 2 ^ 31 - 1" using uint_small [OF lt] by simp
  ultimately show "int_range (uint a * int BSIZE)"
    unfolding int_range_def INT_MIN_def INT_MAX_def BSIZE_def by simp
qed

lemma unix_read_ok:
  "sector_ok s a \<Longrightarrow> unix_read (sint a) s =
     Inr (disk s (unat a), s\<lparr>fsstats := (fsstats s)\<lparr>nread := nread (fsstats s) + 1\<rparr>\<rparr>)"
  using sector_ok_range [of s a] by (simp add: unix_read_def) (simp add: sector_ok_def)

lemma unix_write_ok:
  "sector_ok s a \<Longrightarrow> unix_write (sint a) d s =
     Inr ((), s\<lparr>disk := (disk s)(unat a := d), events := events s @ [DWrite (unat a) d],
               fsstats := (fsstats s)\<lparr>nwrite := nwrite (fsstats s) + 1\<rparr>\<rparr>)"
proof -
  assume ok: "sector_ok s a"
  then have "pwrite_block (unat a) d s =
      s\<lparr>disk := (disk s)(unat a := d), events := events s @ [DWrite (unat a) d]\<rparr>"
    by (auto simp: pwrite_block_def sector_ok_def fun_eq_iff intro!: kern.equality)
  with ok sector_ok_range [OF ok] show ?thesis
    by (simp add: unix_write_def) (simp add: sector_ok_def)
qed

end
