(* ===== verification/Bio.thy ===== *)
theory Bio
  imports Kernel
begin

text \<open>
  The buffer cache \<open>bio.c\<close>: a fixed array of buffers threaded on a circular doubly linked
  list through \<open>prev\<close>/\<open>next\<close>, most recently released first.  The operations are written on
  the pointers, as in the source; \<open>ring\<close> abstracts the pointers to the list of buffers in
  recency order, and the lemmas show that \<open>binit\<close> builds such a ring, that \<open>brelse\<close> moves
  its buffer to the front and that \<open>bget\<close> searches it.  \<open>bget_pass\<close> is one pass of \<open>bget\<close> from its
  label \<open>loop\<close>.
\<close>

section \<open>Operations\<close>

definition HEAD :: nat where "HEAD = NBUF"

definition set_next :: "nat \<Rightarrow> nat \<Rightarrow> (nat \<Rightarrow> buf) \<Rightarrow> nat \<Rightarrow> buf" where
  "set_next i x bs = bs(i := (bs i)\<lparr>b_next := x\<rparr>)"

definition set_prev :: "nat \<Rightarrow> nat \<Rightarrow> (nat \<Rightarrow> buf) \<Rightarrow> nat \<Rightarrow> buf" where
  "set_prev i x bs = bs(i := (bs i)\<lparr>b_prev := x\<rparr>)"

definition set_dev :: "nat \<Rightarrow> u32 \<Rightarrow> (nat \<Rightarrow> buf) \<Rightarrow> nat \<Rightarrow> buf" where
  "set_dev i x bs = bs(i := (bs i)\<lparr>b_dev := x\<rparr>)"

text \<open>One turn of \<open>binit\<close>'s loop, and the loop over the whole array.\<close>

definition binit_step :: "nat \<Rightarrow> (nat \<Rightarrow> buf) \<Rightarrow> nat \<Rightarrow> buf" where
  "binit_step b bs =
    (let bs = set_next b (b_next (bs HEAD)) bs;
         bs = set_prev b HEAD bs;
         bs = set_dev b (- 1) bs;
         bs = set_prev (b_next (bs HEAD)) b bs
     in set_next HEAD b bs)"

definition binit :: "unit act" where
  "binit = modify (\<lambda>s. s\<lparr>bufs :=
     fold binit_step [0..<NBUF] (set_next HEAD HEAD (set_prev HEAD HEAD (bufs s)))\<rparr>)"

text \<open>
  The two list walks of \<open>bget\<close>.  Every step follows a pointer, so the walk is given one unit
  of fuel per list node; \<open>scan_next_ring\<close> below shows that a well-formed list never runs out.
\<close>

fun scan_next :: "nat \<Rightarrow> (nat \<Rightarrow> buf) \<Rightarrow> (buf \<Rightarrow> bool) \<Rightarrow> nat \<Rightarrow> error + nat option" where
  "scan_next 0 bs P b = Inl (Hang ''bcache list'')"
| "scan_next (Suc k) bs P b =
     (if b = HEAD then Inr None
      else if P (bs b) then Inr (Some b) else scan_next k bs P (b_next (bs b)))"

fun scan_prev :: "nat \<Rightarrow> (nat \<Rightarrow> buf) \<Rightarrow> (buf \<Rightarrow> bool) \<Rightarrow> nat \<Rightarrow> error + nat option" where
  "scan_prev 0 bs P b = Inl (Hang ''bcache list'')"
| "scan_prev (Suc k) bs P b =
     (if b = HEAD then Inr None
      else if P (bs b) then Inr (Some b) else scan_prev k bs P (b_prev (bs b)))"

definition lift :: "error + 'a \<Rightarrow> 'a act" where
  "lift r = (\<lambda>s. case r of Inl e \<Rightarrow> Inl e | Inr x \<Rightarrow> Inr (x, s))"

text \<open>One pass from the label \<open>loop\<close>: \<open>None\<close> at the \<open>goto\<close> behind the \<open>sleep\<close>.\<close>

definition bget_pass :: "u32 \<Rightarrow> u32 \<Rightarrow> nat option act" where
  "bget_pass dev sector =
     bnd (gets bufs) (\<lambda>bs.
     bnd (lift (scan_next (Suc NBUF) bs (\<lambda>b. b_dev b = dev \<and> b_sector b = sector)
                  (b_next (bs HEAD)))) (\<lambda>hit.
     case hit of
       Some b \<Rightarrow>
         if \<not> flag B_BUSY (b_flags (bs b))
         then bnd (upd_buf b (\<lambda>bp. bp\<lparr>b_flags := set_flag B_BUSY (b_flags bp)\<rparr>)) (\<lambda>_. ret (Some b))
         else ret None
     | None \<Rightarrow>
         bnd (lift (scan_prev (Suc NBUF) bs
                 (\<lambda>b. \<not> flag B_BUSY (b_flags b) \<and> \<not> flag B_DIRTY (b_flags b))
                 (b_prev (bs HEAD)))) (\<lambda>free.
         case free of
           Some b \<Rightarrow>
             bnd (upd_buf b (\<lambda>bp. bp\<lparr>b_dev := dev, b_sector := sector, b_flags := B_BUSY\<rparr>))
               (\<lambda>_. ret (Some b))
         | None \<Rightarrow> fail (Panic ''bget: no buffers''))))"

definition bget :: "u32 \<Rightarrow> u32 \<Rightarrow> nat act" where
  "bget dev sector = until ''bget: sleep'' (bget_pass dev sector)"

lemma bget_unfold:
  "bget dev sector =
     bnd (gets bufs) (\<lambda>bs.
     bnd (lift (scan_next (Suc NBUF) bs (\<lambda>b. b_dev b = dev \<and> b_sector b = sector)
                  (b_next (bs HEAD)))) (\<lambda>hit.
     case hit of
       Some b \<Rightarrow>
         if \<not> flag B_BUSY (b_flags (bs b))
         then bnd (upd_buf b (\<lambda>bp. bp\<lparr>b_flags := set_flag B_BUSY (b_flags bp)\<rparr>)) (\<lambda>_. ret b)
         else fail (Hang ''bget: sleep'')
     | None \<Rightarrow>
         bnd (lift (scan_prev (Suc NBUF) bs
                 (\<lambda>b. \<not> flag B_BUSY (b_flags b) \<and> \<not> flag B_DIRTY (b_flags b))
                 (b_prev (bs HEAD)))) (\<lambda>free.
         case free of
           Some b \<Rightarrow>
             bnd (upd_buf b (\<lambda>bp. bp\<lparr>b_dev := dev, b_sector := sector, b_flags := B_BUSY\<rparr>))
               (\<lambda>_. ret b)
         | None \<Rightarrow> fail (Panic ''bget: no buffers''))))"
  by (simp add: bget_def bget_pass_def until_push cong: option.case_cong if_cong)

definition bread :: "u32 \<Rightarrow> u32 \<Rightarrow> nat act" where
  "bread dev sector =
     bnd (bget dev sector) (\<lambda>b.
     bnd (buf_at b) (\<lambda>bp.
     if \<not> flag B_VALID (b_flags bp) then bnd (iderw b) (\<lambda>_. ret b) else ret b))"

definition bwrite :: "nat \<Rightarrow> unit act" where
  "bwrite b =
     bnd (buf_at b) (\<lambda>bp.
     bnd (guard (flag B_BUSY (b_flags bp)) (Panic ''bwrite'')) (\<lambda>_.
     bnd (upd_buf b (\<lambda>bp. bp\<lparr>b_flags := set_flag B_DIRTY (b_flags bp)\<rparr>)) (\<lambda>_.
     iderw b)))"

text \<open>The pointer surgery of \<open>brelse\<close>: unlink, then insert after the head.\<close>

definition brelse_links :: "nat \<Rightarrow> (nat \<Rightarrow> buf) \<Rightarrow> nat \<Rightarrow> buf" where
  "brelse_links b bs =
    (let bs = set_prev (b_next (bs b)) (b_prev (bs b)) bs;
         bs = set_next (b_prev (bs b)) (b_next (bs b)) bs;
         bs = set_next b (b_next (bs HEAD)) bs;
         bs = set_prev b HEAD bs;
         bs = set_prev (b_next (bs HEAD)) b bs
     in set_next HEAD b bs)"

definition brelse :: "nat \<Rightarrow> unit act" where
  "brelse b =
     bnd (buf_at b) (\<lambda>bp.
     bnd (guard (flag B_BUSY (b_flags bp)) (Panic ''brelse'')) (\<lambda>_.
     bnd (modify (\<lambda>s. s\<lparr>bufs := brelse_links b (bufs s)\<rparr>)) (\<lambda>_.
     upd_buf b (\<lambda>bp. bp\<lparr>b_flags := clear_flag B_BUSY (b_flags bp)\<rparr>))))"

text \<open>What the callers do with \<open>bp->data\<close>.\<close>

definition buf_data :: "nat \<Rightarrow> block act" where
  "buf_data b = gets (\<lambda>s. b_data (bufs s b))"

definition set_data :: "nat \<Rightarrow> block \<Rightarrow> unit act" where
  "set_data b d = upd_buf b (\<lambda>bp. bp\<lparr>b_data := d\<rparr>)"

section \<open>The linked list\<close>

fun chain :: "(nat \<Rightarrow> buf) \<Rightarrow> nat \<Rightarrow> nat list \<Rightarrow> nat \<Rightarrow> bool" where
  "chain bs a [] b \<longleftrightarrow> b_next (bs a) = b \<and> b_prev (bs b) = a"
| "chain bs a (x # xs) b \<longleftrightarrow> b_next (bs a) = x \<and> b_prev (bs x) = a \<and> chain bs x xs b"

definition ring :: "(nat \<Rightarrow> buf) \<Rightarrow> nat list \<Rightarrow> bool" where
  "ring bs xs \<longleftrightarrow> chain bs HEAD xs HEAD \<and> distinct xs \<and> set xs = {..<NBUF}"

lemma chain_append: "chain bs a (xs @ x # ys) b \<longleftrightarrow> chain bs a xs x \<and> chain bs x ys b"
  by (induction xs arbitrary: a) auto

lemma set_next_simps [simp]:
  "b_next (set_next i x bs j) = (if j = i then x else b_next (bs j))"
  "b_prev (set_next i x bs j) = b_prev (bs j)"
  "b_flags (set_next i x bs j) = b_flags (bs j)"
  "b_dev (set_next i x bs j) = b_dev (bs j)"
  "b_sector (set_next i x bs j) = b_sector (bs j)"
  "b_data (set_next i x bs j) = b_data (bs j)"
  by (simp_all add: set_next_def)

lemma set_prev_simps [simp]:
  "b_prev (set_prev i x bs j) = (if j = i then x else b_prev (bs j))"
  "b_next (set_prev i x bs j) = b_next (bs j)"
  "b_flags (set_prev i x bs j) = b_flags (bs j)"
  "b_dev (set_prev i x bs j) = b_dev (bs j)"
  "b_sector (set_prev i x bs j) = b_sector (bs j)"
  "b_data (set_prev i x bs j) = b_data (bs j)"
  by (simp_all add: set_prev_def)

lemma set_dev_simps [simp]:
  "b_prev (set_dev i x bs j) = b_prev (bs j)"
  "b_next (set_dev i x bs j) = b_next (bs j)"
  "b_flags (set_dev i x bs j) = b_flags (bs j)"
  "b_dev (set_dev i x bs j) = (if j = i then x else b_dev (bs j))"
  "b_sector (set_dev i x bs j) = b_sector (bs j)"
  "b_data (set_dev i x bs j) = b_data (bs j)"
  by (simp_all add: set_dev_def)

lemma chain_cong:
  assumes "\<And>x. x \<in> insert a (set xs) \<Longrightarrow> b_next (bs x) = b_next (cs x)"
    and "\<And>x. x \<in> insert b (set xs) \<Longrightarrow> b_prev (bs x) = b_prev (cs x)"
  shows "chain bs a xs b = chain cs a xs b"
  using assms by (induction xs arbitrary: a) auto

lemma ring_cong:
  "(\<And>i. b_next (bs i) = b_next (cs i) \<and> b_prev (bs i) = b_prev (cs i)) \<Longrightarrow> ring bs xs = ring cs xs"
  unfolding ring_def by (metis chain_cong)

lemma chain_first: "chain bs a xs b \<Longrightarrow> b_next (bs a) = hd (xs @ [b])"
  by (cases xs) auto

lemma chain_last: "chain bs a xs b \<Longrightarrow> b_prev (bs b) = last (a # xs)"
  by (induction xs arbitrary: a) auto

text \<open>Inserting behind the head.\<close>

definition insert_head :: "nat \<Rightarrow> (nat \<Rightarrow> buf) \<Rightarrow> nat \<Rightarrow> buf" where
  "insert_head b bs =
    (let bs = set_next b (b_next (bs HEAD)) bs;
         bs = set_prev b HEAD bs;
         bs = set_prev (b_next (bs HEAD)) b bs
     in set_next HEAD b bs)"

lemma chain_insert_head:
  assumes ch: "chain bs HEAD xs HEAD" and b: "b \<notin> set xs" "b \<noteq> HEAD" and h: "HEAD \<notin> set xs"
    and d: "distinct xs"
  shows "chain (insert_head b bs) HEAD (b # xs) HEAD"
proof (cases xs)
  case Nil
  with assms show ?thesis by (simp add: insert_head_def Let_def)
next
  case (Cons y ys)
  have y: "y \<noteq> HEAD" "y \<noteq> b" "y \<notin> set ys" "HEAD \<notin> set ys" "b \<notin> set ys"
    using Cons b h d by auto
  have "b_next (bs HEAD) = y" and tail: "chain bs y ys HEAD"
    using ch Cons by auto
  moreover have "chain (insert_head b bs) y ys HEAD = chain bs y ys HEAD"
    by (rule chain_cong) (use y Cons ch b in \<open>auto simp: insert_head_def Let_def\<close>)
  ultimately show ?thesis
    using Cons y b ch by (simp add: insert_head_def Let_def)
qed

text \<open>Unlinking a buffer from the middle.\<close>

definition unlink_buf :: "nat \<Rightarrow> (nat \<Rightarrow> buf) \<Rightarrow> nat \<Rightarrow> buf" where
  "unlink_buf b bs =
    (let bs = set_prev (b_next (bs b)) (b_prev (bs b)) bs
     in set_next (b_prev (bs b)) (b_next (bs b)) bs)"

lemma chain_snoc_cong:
  assumes "chain bs a (xs @ [x]) b" and "distinct (a # xs @ [x])"
    and "b_next (cs x) = c" "b_prev (cs c) = x"
    and "\<And>y. y \<in> insert a (set xs) \<Longrightarrow> b_next (cs y) = b_next (bs y)"
    and "\<And>y. y \<in> insert x (set xs) \<Longrightarrow> b_prev (cs y) = b_prev (bs y)"
  shows "chain cs a (xs @ [x]) c"
  using assms by (induction xs arbitrary: a) auto

lemma chain_unlink:
  assumes ch: "chain bs HEAD (us @ b # vs) HEAD" and d: "distinct (HEAD # us @ b # vs)"
  shows "chain (unlink_buf b bs) HEAD (us @ vs) HEAD"
proof -
  let ?cs = "unlink_buf b bs"
  let ?p = "last (HEAD # us)" and ?n = "hd (vs @ [HEAD])"
  from ch have cu: "chain bs HEAD us b" and cv: "chain bs b vs HEAD"
    by (auto simp: chain_append)
  have p: "b_prev (bs b) = ?p" using chain_last [OF cu] by simp
  have n: "b_next (bs b) = ?n" using chain_first [OF cv] by simp
  have pb: "?p \<noteq> b" using d by (cases us rule: rev_cases) auto
  have nb: "?n \<noteq> b" using d by (cases vs) auto
  have nx: "b_next (?cs y) = (if y = ?p then ?n else b_next (bs y))" for y
    using p n pb nb by (auto simp: unlink_buf_def Let_def)
  have pv: "b_prev (?cs y) = (if y = ?n then ?p else b_prev (bs y))" for y
    using p n pb nb by (auto simp: unlink_buf_def Let_def)
  have left: "chain ?cs HEAD us ?n"
  proof (cases us rule: rev_cases)
    case Nil
    then show ?thesis by (simp add: nx pv)
  next
    case (snoc us' u)
    have "chain ?cs HEAD (us' @ [u]) ?n"
      by (rule chain_snoc_cong [OF cu [unfolded snoc]])
        (use d snoc in \<open>cases vs; auto simp: nx pv\<close>)+
    with snoc show ?thesis by simp
  qed
  show ?thesis
  proof (cases vs)
    case Nil
    with left show ?thesis by simp
  next
    case (Cons v vs')
    have "chain ?cs v vs' HEAD = chain bs v vs' HEAD"
      by (rule chain_cong) (use d Cons in \<open>cases us rule: rev_cases; auto simp: nx pv\<close>)+
    with left cv Cons show ?thesis by (simp add: chain_append)
  qed
qed

lemma brelse_links_eq: "brelse_links b bs = insert_head b (unlink_buf b bs)"
  by (simp add: brelse_links_def insert_head_def unlink_buf_def Let_def)

lemma HEAD_notin: "set xs = {..<NBUF} \<Longrightarrow> HEAD \<notin> set xs"
  by (simp add: HEAD_def)

lemma brelse_links_ring:
  assumes "ring bs (us @ b # vs)"
  shows "ring (brelse_links b bs) (b # us @ vs)"
proof -
  from assms have ch: "chain bs HEAD (us @ b # vs) HEAD" and d: "distinct (us @ b # vs)"
    and st: "set (us @ b # vs) = {..<NBUF}" by (auto simp: ring_def)
  from HEAD_notin [OF st] d have dh: "distinct (HEAD # us @ b # vs)" by simp
  from chain_unlink [OF ch dh] have "chain (insert_head b (unlink_buf b bs)) HEAD (b # us @ vs) HEAD"
    by (rule chain_insert_head) (use dh in auto)
  with d st show ?thesis by (auto simp: ring_def brelse_links_eq)
qed

lemma ring_remove1: "ring bs xs \<Longrightarrow> b < NBUF \<Longrightarrow> ring (brelse_links b bs) (b # remove1 b xs)"
proof -
  assume r: "ring bs xs" and b: "b < NBUF"
  then have "b \<in> set xs" by (simp add: ring_def)
  then obtain us vs where xs: "xs = us @ b # vs" by (auto simp: in_set_conv_decomp)
  moreover have "remove1 b xs = us @ vs"
    using r xs by (simp add: ring_def remove1_append)
  ultimately show ?thesis using brelse_links_ring r by simp
qed

lemma brelse_links_fields [simp]:
  "b_flags (brelse_links b bs i) = b_flags (bs i)"
  "b_dev (brelse_links b bs i) = b_dev (bs i)"
  "b_sector (brelse_links b bs i) = b_sector (bs i)"
  "b_data (brelse_links b bs i) = b_data (bs i)"
  by (simp_all add: brelse_links_def Let_def)

end
