(* ===== verification/Cache_Spec.thy ===== *)
theory Cache_Spec
  imports Kernel
begin

text \<open>
  The interface of the buffer cache as a locale, and what its clients derive from it alone:
  reading a sector leaves everything observable unchanged, rewriting a sector or copying one
  over another changes exactly that sector, on disk and in the view, and records exactly that
  write.
\<close>

text \<open>
  What a client of the cache may rely on, stated over abstract operations: read a sector
  into a held buffer (\<open>rd\<close>), look at and change its data, release it (\<open>rel\<close>), write it
  through (\<open>wr\<close>).  \<open>step\<close> is the frame: what a cache operation keeps of everything else.
\<close>

locale block_cache =
  fixes inv :: "'s \<Rightarrow> bool" and view :: "'s \<Rightarrow> u32 \<Rightarrow> block"
    and held dirty :: "'s \<Rightarrow> u32 set" and owns :: "'s \<Rightarrow> nat \<Rightarrow> u32 \<Rightarrow> bool"
    and usable :: "'s \<Rightarrow> u32 \<Rightarrow> bool" and home :: "'s \<Rightarrow> nat \<Rightarrow> block"
    and trace :: "'s \<Rightarrow> dev_event list" and frame :: "'s \<Rightarrow> 'r" and cap :: nat
    and rd :: "u32 \<Rightarrow> ('s, nat) fm" and rel :: "nat \<Rightarrow> ('s, unit) fm"
    and data :: "nat \<Rightarrow> ('s, block) fm" and put :: "nat \<Rightarrow> block \<Rightarrow> ('s, unit) fm"
    and wr :: "nat \<Rightarrow> ('s, unit) fm"
  assumes rd_ok: "inv s \<Longrightarrow> usable s a \<Longrightarrow> a \<notin> held s \<Longrightarrow>
      a \<in> dirty s \<or> card (held s \<union> dirty s) < cap \<Longrightarrow>
      \<exists>b s'. rd a s = Inr (b, s') \<and> inv s' \<and> home s' = home s \<and> trace s' = trace s \<and>
        frame s' = frame s \<and> view s' = view s \<and> held s' = insert a (held s) \<and> dirty s' = dirty s \<and>
        owns s' b a \<and> (\<forall>c x. owns s c x \<longrightarrow> owns s' c x)"
    and rel_ok: "inv s \<Longrightarrow> owns s b a \<Longrightarrow> a \<in> dirty s \<or> view s a = home s (unat a) \<Longrightarrow>
      \<exists>s'. rel b s = Inr ((), s') \<and> inv s' \<and> home s' = home s \<and> trace s' = trace s \<and>
        frame s' = frame s \<and> view s' = view s \<and> held s' = held s - {a} \<and> dirty s' = dirty s \<and>
        (\<forall>c x. owns s' c x \<longleftrightarrow> owns s c x \<and> x \<noteq> a)"
    and data_ok: "owns s b a \<Longrightarrow> data b s = Inr (view s a, s)"
    and put_ok: "inv s \<Longrightarrow> owns s b a \<Longrightarrow>
      \<exists>s'. put b d s = Inr ((), s') \<and> inv s' \<and> home s' = home s \<and> trace s' = trace s \<and>
        frame s' = frame s \<and> view s' = (view s)(a := d) \<and> held s' = held s \<and> dirty s' = dirty s \<and>
        owns s' = owns s"
    and wr_ok: "inv s \<Longrightarrow> owns s b a \<Longrightarrow> usable s a \<Longrightarrow>
      \<exists>s'. wr b s = Inr ((), s') \<and> inv s' \<and> home s' = (home s)(unat a := view s a) \<and>
        trace s' = trace s @ [DWrite (unat a) (view s a)] \<and> frame s' = frame s \<and>
        view s' = view s \<and> held s' = held s \<and> dirty s' = dirty s - {a} \<and> owns s' = owns s"
    and owns_fun: "owns s b a \<Longrightarrow> owns s c a \<Longrightarrow> b = c"
    and owns_iff_held: "a \<in> held s \<longleftrightarrow> (\<exists>b. owns s b a)"
    and unheld_clean: "inv s \<Longrightarrow> a \<notin> held s \<Longrightarrow> a \<notin> dirty s \<Longrightarrow> view s a = home s (unat a)"
    and usable_frame: "frame s' = frame s \<Longrightarrow> usable s' a = usable s a"
    and held_dirty_fin: "finite (held s \<union> dirty s)"
begin

text \<open>No observable change: only the recency order and the counters may differ.\<close>

definition quiet :: "'s \<Rightarrow> 's \<Rightarrow> bool" where
  "quiet s s' \<longleftrightarrow> inv s' \<and> home s' = home s \<and> trace s' = trace s \<and> frame s' = frame s \<and>
     view s' = view s \<and> held s' = held s \<and> dirty s' = dirty s \<and> owns s' = owns s"

lemma owns_after_release:
  assumes "held t = insert a (held s)" and "\<forall>c x. owns s c x \<longrightarrow> owns t c x" and "a \<notin> held s"
    and "\<forall>c x. owns s' c x \<longleftrightarrow> owns t c x \<and> x \<noteq> a"
  shows "owns s' = owns s"
proof -
  have "owns s' c x \<longleftrightarrow> owns s c x" for c x
  proof
    assume "owns s' c x"
    with assms(4) have t: "owns t c x" "x \<noteq> a" by auto
    then have "x \<in> held s" using owns_iff_held [of x t] assms(1) by auto
    then obtain c' where c': "owns s c' x" using owns_iff_held [of x s] by auto
    with assms(2) t(1) have "c' = c" using owns_fun by blast
    with c' show "owns s c x" by simp
  next
    assume "owns s c x"
    with assms(2,3,4) show "owns s' c x" using owns_iff_held [of x s] by auto
  qed
  then show ?thesis by (simp add: fun_eq_iff)
qed

text \<open>Read a sector, look at its contents, release it.\<close>

lemma peek_ok:
  assumes "inv s" and "usable s a" and free: "a \<notin> held s"
    and "a \<in> dirty s \<or> card (held s \<union> dirty s) < cap"
  shows "\<exists>s'. bnd (rd a) (\<lambda>b. bnd (data b) (\<lambda>d. bnd (rel b) (\<lambda>_. ret d))) s = Inr (view s a, s') \<and>
    quiet s s'"
proof -
  from rd_ok [OF assms] obtain b t where t: "rd a s = Inr (b, t)" "inv t" "home t = home s"
    "trace t = trace s" "frame t = frame s" "view t = view s" "held t = insert a (held s)"
    "dirty t = dirty s" "owns t b a" "\<forall>c x. owns s c x \<longrightarrow> owns t c x" by blast
  have "a \<in> dirty t \<or> view t a = home t (unat a)"
    using unheld_clean [OF assms(1) free] t by auto
  from rel_ok [OF t(2,9) this] obtain s' where s': "rel b t = Inr ((), s')" "inv s'"
    "home s' = home t" "trace s' = trace t" "frame s' = frame t" "view s' = view t"
    "held s' = held t - {a}" "dirty s' = dirty t" "\<forall>c x. owns s' c x \<longleftrightarrow> owns t c x \<and> x \<noteq> a" by blast
  have "owns s' = owns s" by (rule owns_after_release [OF t(7,10) free s'(9)])
  then show ?thesis
    using t s' free data_ok [OF t(9)] by (auto simp: quiet_def)
qed

text \<open>
  Read a sector, replace its contents, write it through, release it.
\<close>

lemma rewrite_ok:
  assumes "inv s" and us: "usable s a" and free: "a \<notin> held s"
    and "a \<in> dirty s \<or> card (held s \<union> dirty s) < cap"
    and mid: "\<And>t. inv t \<Longrightarrow> frame t = frame s \<Longrightarrow> \<exists>t'. k t = Inr ((), t') \<and> inv t' \<and> home t' = home t \<and>
        trace t' = trace t @ es \<and> frame t' = frame t \<and> view t' = view t \<and> held t' = held t \<and>
        dirty t' = dirty t \<and> owns t' = owns t"
  shows "\<exists>s'. bnd (rd a) (\<lambda>b. bnd (data b) (\<lambda>d. bnd (put b (f d)) (\<lambda>_. bnd (wr b) (\<lambda>_.
      bnd k (\<lambda>_. rel b))))) s = Inr ((), s') \<and> inv s' \<and>
    home s' = (home s)(unat a := f (view s a)) \<and>
    trace s' = trace s @ DWrite (unat a) (f (view s a)) # es \<and> frame s' = frame s \<and>
    view s' = (view s)(a := f (view s a)) \<and> held s' = held s \<and> dirty s' = dirty s - {a} \<and>
    owns s' = owns s"
proof -
  from rd_ok [OF assms(1-4)] obtain b t where t: "rd a s = Inr (b, t)" "inv t" "home t = home s"
    "trace t = trace s" "frame t = frame s" "view t = view s" "held t = insert a (held s)"
    "dirty t = dirty s" "owns t b a" "\<forall>c x. owns s c x \<longrightarrow> owns t c x" by blast
  from put_ok [OF t(2,9), of "f (view s a)"] obtain u where u: "put b (f (view s a)) t = Inr ((), u)"
    "inv u" "home u = home t" "trace u = trace t" "frame u = frame t"
    "view u = (view t)(a := f (view s a))" "held u = held t" "dirty u = dirty t" "owns u = owns t"
    by blast
  have "usable u a" using us usable_frame [of u s a] t u by simp
  with wr_ok [OF u(2), of b a] u t obtain v where v: "wr b u = Inr ((), v)" "inv v"
    "home v = (home u)(unat a := view u a)" "trace v = trace u @ [DWrite (unat a) (view u a)]"
    "frame v = frame u" "view v = view u" "held v = held u" "dirty v = dirty u - {a}" "owns v = owns u"
    by auto
  from mid [OF v(2)] v u t obtain w where w: "k v = Inr ((), w)" "inv w" "home w = home v"
    "trace w = trace v @ es" "frame w = frame v" "view w = view v" "held w = held v"
    "dirty w = dirty v" "owns w = owns v" by auto
  have "owns w b a" using w v u t by simp
  moreover have "view w a = home w (unat a)" using w v by simp
  ultimately obtain s' where s': "rel b w = Inr ((), s')" "inv s'" "home s' = home w"
    "trace s' = trace w" "frame s' = frame w" "view s' = view w" "held s' = held w - {a}"
    "dirty s' = dirty w" "\<forall>c x. owns s' c x \<longleftrightarrow> owns w c x \<and> x \<noteq> a" using rel_ok [OF w(2)] by blast
  have ow: "owns s' = owns s"
    by (rule owns_after_release [OF t(7,10) free]) (use s' w v u in auto)
  have vw: "view s' = (view s)(a := f (view s a))" using s' w v u t by simp
  have hm: "home s' = (home s)(unat a := f (view s a))" using s' w v u t by simp
  have tr: "trace s' = trace s @ DWrite (unat a) (f (view s a)) # es" using s' w v u t by simp
  have hd: "held s' = held s" using s' w v u t free by auto
  show ?thesis
    using t(1) u(1) v(1) w(1) s'(1) data_ok [OF t(9)] ow vw hm tr hd s' w v u t by simp
qed

text \<open>Copying one sector over another, with both buffers held, as the log does.\<close>

lemma copy_tail_ok:
  assumes iv: "inv t" and ol: "owns t l src" and od: "owns t d dst" and ne: "src \<noteq> dst"
    and us: "usable t dst" and cl: "src \<in> dirty t \<or> view t src = home t (unat src)"
  shows "\<exists>s'. bnd (data l) (\<lambda>x. bnd (put d x) (\<lambda>_. bnd (wr d) (\<lambda>_. bnd (rel l) (\<lambda>_. rel d)))) t =
      Inr ((), s') \<and> inv s' \<and> home s' = (home t)(unat dst := view t src) \<and>
    trace s' = trace t @ [DWrite (unat dst) (view t src)] \<and> frame s' = frame t \<and>
    view s' = (view t)(dst := view t src) \<and> held s' = held t - {src, dst} \<and>
    dirty s' = dirty t - {dst} \<and> (\<forall>c x. owns s' c x \<longleftrightarrow> owns t c x \<and> x \<noteq> src \<and> x \<noteq> dst)"
proof -
  from put_ok [OF iv od, of "view t src"] obtain u where u: "put d (view t src) t = Inr ((), u)"
    "inv u" "home u = home t" "trace u = trace t" "frame u = frame t"
    "view u = (view t)(dst := view t src)" "held u = held t" "dirty u = dirty t" "owns u = owns t"
    by blast
  have "usable u dst" using us usable_frame [of u t dst] u by simp
  with wr_ok [OF u(2), of d dst] od u obtain v where v: "wr d u = Inr ((), v)" "inv v"
    "home v = (home u)(unat dst := view u dst)" "trace v = trace u @ [DWrite (unat dst) (view u dst)]"
    "frame v = frame u" "view v = view u" "held v = held u" "dirty v = dirty u - {dst}" "owns v = owns u"
    by auto
  have "owns v l src" using ol u v by simp
  moreover have "src \<in> dirty v \<or> view v src = home v (unat src)"
    using cl ne u v by (auto simp flip: word_unat_eq_iff)
  ultimately obtain w where w: "rel l v = Inr ((), w)" "inv w" "home w = home v" "trace w = trace v"
    "frame w = frame v" "view w = view v" "held w = held v - {src}" "dirty w = dirty v"
    "\<forall>c x. owns w c x \<longleftrightarrow> owns v c x \<and> x \<noteq> src" using rel_ok [OF v(2)] by blast
  have "owns w d dst" using w v u od ne by simp
  moreover have "view w dst = home w (unat dst)" using w v by simp
  ultimately obtain s' where s': "rel d w = Inr ((), s')" "inv s'" "home s' = home w"
    "trace s' = trace w" "frame s' = frame w" "view s' = view w" "held s' = held w - {dst}"
    "dirty s' = dirty w" "\<forall>c x. owns s' c x \<longleftrightarrow> owns w c x \<and> x \<noteq> dst" using rel_ok [OF w(2)] by blast
  have "held s' = held t - {src, dst}" using s' w v u by auto
  moreover have "\<forall>c x. owns s' c x \<longleftrightarrow> owns t c x \<and> x \<noteq> src \<and> x \<noteq> dst" using s' w v u by auto
  ultimately show ?thesis
    using data_ok [OF ol] u(1) v(1) w(1) s'(1) s' w v u by simp
qed

text \<open>Room for two more buffers is enough to hold both.\<close>

lemma room_for:
  assumes "card (held s \<union> dirty s \<union> X) \<le> cap" and "a \<in> X" and "a \<notin> held s" and "finite X"
  shows "a \<in> dirty s \<or> card (held s \<union> dirty s) < cap"
proof (rule disjCI)
  assume "\<not> card (held s \<union> dirty s) < cap"
  moreover have "card (held s \<union> dirty s) < card (held s \<union> dirty s \<union> X)" if "a \<notin> dirty s"
    using assms that held_dirty_fin [of s] by (intro psubset_card_mono) auto
  ultimately show "a \<in> dirty s" using assms(1) by linarith
qed

lemma rd_two:
  assumes iv: "inv s" and ua: "usable s a" and ub: "usable s b" and ne: "a \<noteq> b"
    and fa: "a \<notin> held s" and fb: "b \<notin> held s"
    and room: "card (held s \<union> dirty s \<union> {a, b}) \<le> cap"
  obtains i j t1 t where "rd a s = Inr (i, t1)" and "rd b t1 = Inr (j, t)" and "inv t"
    and "home t = home s" and "trace t = trace s" and "frame t = frame s" and "view t = view s"
    and "held t = insert a (insert b (held s))" and "dirty t = dirty s" and "owns t i a"
    and "owns t j b" and "\<forall>c x. owns s c x \<longrightarrow> owns t c x"
proof -
  from rd_ok [OF iv ua fa room_for [OF room]] fa obtain i t1 where t1: "rd a s = Inr (i, t1)" "inv t1"
    "home t1 = home s" "trace t1 = trace s" "frame t1 = frame s" "view t1 = view s"
    "held t1 = insert a (held s)" "dirty t1 = dirty s" "owns t1 i a" "\<forall>c x. owns s c x \<longrightarrow> owns t1 c x"
    by auto
  have "card (held t1 \<union> dirty t1 \<union> {b}) \<le> cap"
    using room t1 by (simp add: insert_commute)
  moreover have "b \<notin> held t1" using fb ne t1 by simp
  moreover have "usable t1 b" using ub usable_frame t1 by blast
  ultimately obtain j t where t: "rd b t1 = Inr (j, t)" "inv t" "home t = home t1" "trace t = trace t1"
    "frame t = frame t1" "view t = view t1" "held t = insert b (held t1)" "dirty t = dirty t1"
    "owns t j b" "\<forall>c x. owns t1 c x \<longrightarrow> owns t c x"
    using rd_ok [OF t1(2), of b] room_for [of t1 "{b}" b] by auto
  show ?thesis
  proof (rule that [OF t1(1) t(1,2)])
    show "owns t i a" using t(10) t1(9) by blast
    show "\<forall>c x. owns s c x \<longrightarrow> owns t c x" using t(10) t1(10) by blast
  qed (use t t1 in auto)
qed

text \<open>The effect of copying \<open>src\<close> over \<open>dst\<close> and writing it through.\<close>

definition copied :: "'s \<Rightarrow> u32 \<Rightarrow> u32 \<Rightarrow> 's \<Rightarrow> bool" where
  "copied s src dst s' \<longleftrightarrow> inv s' \<and> home s' = (home s)(unat dst := view s src) \<and>
     trace s' = trace s @ [DWrite (unat dst) (view s src)] \<and> frame s' = frame s \<and>
     view s' = (view s)(dst := view s src) \<and> held s' = held s \<and> dirty s' = dirty s - {dst} \<and>
     owns s' = owns s"

lemma owns_after_two:
  assumes "held t = insert a (insert b (held s))" and "\<forall>c x. owns s c x \<longrightarrow> owns t c x"
    and "a \<notin> held s" and "b \<notin> held s" and "\<forall>c x. owns s' c x \<longleftrightarrow> owns t c x \<and> x \<noteq> a \<and> x \<noteq> b"
  shows "owns s' = owns s"
proof -
  have "owns s' c x \<longleftrightarrow> owns s c x" for c x
  proof
    assume "owns s' c x"
    with assms(5) have t: "owns t c x" "x \<noteq> a" "x \<noteq> b" by auto
    then have "x \<in> held s" using owns_iff_held [of x t] assms(1) by auto
    then obtain c' where c': "owns s c' x" using owns_iff_held [of x s] by auto
    with assms(2) t(1) have "c' = c" using owns_fun by blast
    with c' show "owns s c x" by simp
  next
    assume "owns s c x"
    with assms(2-5) show "owns s' c x" using owns_iff_held [of x s] by auto
  qed
  then show ?thesis by (simp add: fun_eq_iff)
qed

lemma copy_ok:
  assumes iv: "inv s" and ua: "usable s src" and ub: "usable s dst" and ne: "src \<noteq> dst"
    and fa: "src \<notin> held s" and fb: "dst \<notin> held s"
    and room: "card (held s \<union> dirty s \<union> {src, dst}) \<le> cap"
  shows "\<exists>s'. bnd (rd src) (\<lambda>l. bnd (rd dst) (\<lambda>d. bnd (data l) (\<lambda>x. bnd (put d x) (\<lambda>_.
        bnd (wr d) (\<lambda>_. bnd (rel l) (\<lambda>_. rel d)))))) s = Inr ((), s') \<and> copied s src dst s'"
    and "\<exists>s'. bnd (rd dst) (\<lambda>d. bnd (rd src) (\<lambda>l. bnd (data l) (\<lambda>x. bnd (put d x) (\<lambda>_.
        bnd (wr d) (\<lambda>_. bnd (rel l) (\<lambda>_. rel d)))))) s = Inr ((), s') \<and> copied s src dst s'"
proof -
  have cl: "src \<in> dirty s \<or> view s src = home s (unat src)" using unheld_clean [OF iv fa] by blast
  from rd_two [OF iv ua ub ne fa fb room] obtain l d t1 t where t: "rd src s = Inr (l, t1)"
    "rd dst t1 = Inr (d, t)" "inv t" "home t = home s" "trace t = trace s" "frame t = frame s"
    "view t = view s" "held t = insert src (insert dst (held s))" "dirty t = dirty s"
    "owns t l src" "owns t d dst" "\<forall>c x. owns s c x \<longrightarrow> owns t c x" .
  have "usable t dst" using ub usable_frame t by blast
  from copy_tail_ok [OF t(3,10,11) ne this] cl t(4,7,9) obtain s' where s':
    "bnd (data l) (\<lambda>x. bnd (put d x) (\<lambda>_. bnd (wr d) (\<lambda>_. bnd (rel l) (\<lambda>_. rel d)))) t = Inr ((), s')"
    "inv s'" "home s' = (home t)(unat dst := view t src)"
    "trace s' = trace t @ [DWrite (unat dst) (view t src)]" "frame s' = frame t"
    "view s' = (view t)(dst := view t src)" "held s' = held t - {src, dst}" "dirty s' = dirty t - {dst}"
    "\<forall>c x. owns s' c x \<longleftrightarrow> owns t c x \<and> x \<noteq> src \<and> x \<noteq> dst" by auto
  have "owns s' = owns s" by (rule owns_after_two [OF t(8,12) fa fb s'(9)])
  moreover have "held s' = held s" using s' t fa fb by auto
  ultimately show "\<exists>s'. bnd (rd src) (\<lambda>l. bnd (rd dst) (\<lambda>d. bnd (data l) (\<lambda>x. bnd (put d x) (\<lambda>_.
        bnd (wr d) (\<lambda>_. bnd (rel l) (\<lambda>_. rel d)))))) s = Inr ((), s') \<and> copied s src dst s'"
    using t s' by (simp add: copied_def)
next
  have cl: "src \<in> dirty s \<or> view s src = home s (unat src)" using unheld_clean [OF iv fa] by blast
  have "card (held s \<union> dirty s \<union> {dst, src}) \<le> cap" using room by (simp add: insert_commute)
  from rd_two [OF iv ub ua ne [symmetric] fb fa this] obtain d l t1 t where t: "rd dst s = Inr (d, t1)"
    "rd src t1 = Inr (l, t)" "inv t" "home t = home s" "trace t = trace s" "frame t = frame s"
    "view t = view s" "held t = insert dst (insert src (held s))" "dirty t = dirty s"
    "owns t d dst" "owns t l src" "\<forall>c x. owns s c x \<longrightarrow> owns t c x" .
  have "usable t dst" using ub usable_frame t by blast
  from copy_tail_ok [OF t(3,11,10) ne this] cl t(4,7,9) obtain s' where s':
    "bnd (data l) (\<lambda>x. bnd (put d x) (\<lambda>_. bnd (wr d) (\<lambda>_. bnd (rel l) (\<lambda>_. rel d)))) t = Inr ((), s')"
    "inv s'" "home s' = (home t)(unat dst := view t src)"
    "trace s' = trace t @ [DWrite (unat dst) (view t src)]" "frame s' = frame t"
    "view s' = (view t)(dst := view t src)" "held s' = held t - {src, dst}" "dirty s' = dirty t - {dst}"
    "\<forall>c x. owns s' c x \<longleftrightarrow> owns t c x \<and> x \<noteq> src \<and> x \<noteq> dst" by auto
  have "owns s' = owns s" by (rule owns_after_two [OF t(8,12) fb fa]) (use s' in auto)
  moreover have "held s' = held s" using s' t fa fb by auto
  ultimately show "\<exists>s'. bnd (rd dst) (\<lambda>d. bnd (rd src) (\<lambda>l. bnd (data l) (\<lambda>x. bnd (put d x) (\<lambda>_.
        bnd (wr d) (\<lambda>_. bnd (rel l) (\<lambda>_. rel d)))))) s = Inr ((), s') \<and> copied s src dst s'"
    using t s' by (simp add: copied_def)
qed

end

end
