(* ===== verification/Cache.thy ===== *)
theory Cache
  imports Bio Cache_Spec
begin

text \<open>
  The contract of the buffer cache, proved of the operations of \<open>Bio\<close>.  A sector's contents
  are what its buffer holds, or what the disk holds when it has none (\<open>view\<close>); \<open>held\<close> and
  \<open>dirty\<close> are the sectors whose buffer carries \<open>B_BUSY\<close> and \<open>B_DIRTY\<close>; \<open>owns s b a\<close> says
  that buffer \<open>b\<close> is the held buffer of sector \<open>a\<close>.
\<close>

section \<open>Searching the list\<close>

lemma scan_next_chain:
  "chain bs a xs HEAD \<Longrightarrow> HEAD \<notin> set xs \<Longrightarrow> length xs < fuel \<Longrightarrow>
     scan_next fuel bs P (b_next (bs a)) = Inr (List.find (\<lambda>i. P (bs i)) xs)"
proof (induction xs arbitrary: a fuel)
  case Nil
  then show ?case by (cases fuel) auto
next
  case (Cons x xs)
  then show ?case by (cases fuel) auto
qed

lemma scan_prev_chain:
  "chain bs HEAD xs b \<Longrightarrow> HEAD \<notin> set xs \<Longrightarrow> length xs < fuel \<Longrightarrow>
     scan_prev fuel bs P (b_prev (bs b)) = Inr (List.find (\<lambda>i. P (bs i)) (rev xs))"
proof (induction xs arbitrary: b fuel rule: rev_induct)
  case Nil
  then show ?case by (cases fuel) auto
next
  case (snoc x xs)
  from snoc.prems have "chain bs HEAD xs x" "b_prev (bs b) = x" by (auto simp: chain_append)
  with snoc show ?case by (cases fuel) auto
qed

lemma length_ring: "ring bs xs \<Longrightarrow> length xs = NBUF"
  by (metis card_lessThan distinct_card ring_def)

lemma scan_next_ring:
  "ring bs xs \<Longrightarrow> scan_next (Suc NBUF) bs P (b_next (bs HEAD)) = Inr (List.find (\<lambda>i. P (bs i)) xs)"
  using scan_next_chain [of bs HEAD xs "Suc NBUF"]
  by (simp add: ring_def HEAD_def length_ring [of bs xs] del: scan_next.simps)

lemma scan_prev_ring:
  "ring bs xs \<Longrightarrow> scan_prev (Suc NBUF) bs P (b_prev (bs HEAD)) = Inr (List.find (\<lambda>i. P (bs i)) (rev xs))"
  using scan_prev_chain [of bs xs HEAD "Suc NBUF"]
  by (simp add: ring_def HEAD_def length_ring [of bs xs] del: scan_prev.simps)

lemma lift_simps [simp]: "lift (Inr x) s = Inr (x, s)" "lift (Inl e) s = Inl e"
  by (simp_all add: lift_def)

text \<open>\<open>bget\<close> as a search of the recency list: hit, least recently used clean victim, or panic.\<close>

lemma bget_ring:
  assumes "ring (bufs s) xs"
  shows "bget dev a s =
    (case List.find (\<lambda>i. b_dev (bufs s i) = dev \<and> b_sector (bufs s i) = a) xs of
       Some b \<Rightarrow>
         if flag B_BUSY (b_flags (bufs s b)) then Inl (Hang ''bget: sleep'')
         else Inr (b, s\<lparr>bufs := (bufs s)(b := (bufs s b)\<lparr>b_flags := set_flag B_BUSY (b_flags (bufs s b))\<rparr>)\<rparr>)
     | None \<Rightarrow>
         (case List.find (\<lambda>i. \<not> flag B_BUSY (b_flags (bufs s i)) \<and> \<not> flag B_DIRTY (b_flags (bufs s i))) (rev xs) of
            Some b \<Rightarrow> Inr (b, s\<lparr>bufs := (bufs s)(b := (bufs s b)\<lparr>b_dev := dev, b_sector := a, b_flags := B_BUSY\<rparr>)\<rparr>)
          | None \<Rightarrow> Inl (Panic ''bget: no buffers'')))"
  unfolding bget_unfold
  by (simp add: scan_next_ring [OF assms] scan_prev_ring [OF assms] upd_buf_def
      del: scan_next.simps scan_prev.simps split: option.splits)

section \<open>View, invariant\<close>

definition slot :: "kern \<Rightarrow> u32 \<Rightarrow> nat option" where
  "slot s a = List.find (\<lambda>i. b_dev (bufs s i) = ROOTDEV \<and> b_sector (bufs s i) = a) [0..<NBUF]"

definition view :: "kern \<Rightarrow> u32 \<Rightarrow> block" where
  "view s a = (case slot s a of Some i \<Rightarrow> b_data (bufs s i) | None \<Rightarrow> disk s (unat a))"

definition held :: "kern \<Rightarrow> u32 set" where
  "held s = {a. \<exists>i. slot s a = Some i \<and> flag B_BUSY (b_flags (bufs s i))}"

definition dirty :: "kern \<Rightarrow> u32 set" where
  "dirty s = {a. \<exists>i. slot s a = Some i \<and> flag B_DIRTY (b_flags (bufs s i))}"

definition owns :: "kern \<Rightarrow> nat \<Rightarrow> u32 \<Rightarrow> bool" where
  "owns s b a \<longleftrightarrow> slot s a = Some b \<and> flag B_BUSY (b_flags (bufs s b))"

definition buf_ok :: "kern \<Rightarrow> nat \<Rightarrow> bool" where
  "buf_ok s i \<longleftrightarrow>
     b_dev (bufs s i) = ROOTDEV \<and> flag B_VALID (b_flags (bufs s i)) \<and>
       (flag B_BUSY (b_flags (bufs s i)) \<or> flag B_DIRTY (b_flags (bufs s i)) \<or>
        b_data (bufs s i) = disk s (unat (b_sector (bufs s i))))
     \<or> b_dev (bufs s i) = - 1 \<and> b_flags (bufs s i) = 0"

definition uniq :: "kern \<Rightarrow> bool" where
  "uniq s \<longleftrightarrow> (\<forall>i < NBUF. \<forall>j < NBUF. b_dev (bufs s i) = ROOTDEV \<longrightarrow> b_dev (bufs s j) = ROOTDEV \<longrightarrow>
     b_sector (bufs s i) = b_sector (bufs s j) \<longrightarrow> i = j)"

definition binv :: "kern \<Rightarrow> bool" where
  "binv s \<longleftrightarrow> (\<exists>xs. ring (bufs s) xs) \<and> (\<forall>i < NBUF. buf_ok s i) \<and> uniq s"

text \<open>The part of the state the cache operations leave alone.\<close>

definition rest :: "kern \<Rightarrow> nat \<times> bool \<times> u32 \<times> log \<times> (nat \<Rightarrow> inode) \<times> (nat \<Rightarrow> xfile) \<times> nat option" where
  "rest s = (nblk s, os_ok s, clock s, thelog s, inodes s, ftable s, curproc s)"

lemma rest_eq:
  "rest s' = rest s \<longleftrightarrow> nblk s' = nblk s \<and> os_ok s' = os_ok s \<and> clock s' = clock s \<and>
     thelog s' = thelog s \<and> inodes s' = inodes s \<and> ftable s' = ftable s \<and> curproc s' = curproc s"
  by (simp add: rest_def)

lemma slot_Some:
  assumes "uniq s"
  shows "slot s a = Some i \<longleftrightarrow>
    i < NBUF \<and> b_dev (bufs s i) = ROOTDEV \<and> b_sector (bufs s i) = a"
proof
  assume "slot s a = Some i"
  then show "i < NBUF \<and> b_dev (bufs s i) = ROOTDEV \<and> b_sector (bufs s i) = a"
    unfolding slot_def by (auto dest!: find_SomeD)
next
  assume "i < NBUF \<and> b_dev (bufs s i) = ROOTDEV \<and> b_sector (bufs s i) = a"
  with assms show "slot s a = Some i"
    unfolding slot_def uniq_def by (intro find_eq_Some_unique) auto
qed

lemma slot_None: "slot s a = None \<longleftrightarrow> (\<forall>i < NBUF. b_dev (bufs s i) = ROOTDEV \<longrightarrow> b_sector (bufs s i) \<noteq> a)"
  unfolding slot_def by (auto simp: find_None_iff)

lemma view_slot: "slot s a = Some i \<Longrightarrow> view s a = b_data (bufs s i)"
  by (simp add: view_def)

lemma owns_view: "owns s b a \<Longrightarrow> b_data (bufs s b) = view s a"
  by (simp add: owns_def view_def)

lemma owns_held: "owns s b a \<Longrightarrow> a \<in> held s"
  by (auto simp: owns_def held_def)

lemma ROOTDEV_neq: "ROOTDEV \<noteq> - 1" "- 1 \<noteq> ROOTDEV"
  by (simp_all add: ROOTDEV_def)

lemma held_dirty_finite: "finite (held s \<union> dirty s)"
proof -
  have "held s \<union> dirty s \<subseteq> (\<lambda>i. b_sector (bufs s i)) ` {..<NBUF}"
    unfolding held_def dirty_def slot_def by (auto dest!: find_SomeD)
  then show ?thesis by (rule finite_subset) simp
qed

lemma clean_buffer_exists:
  assumes inv: "binv s" and room: "card (held s \<union> dirty s) < NBUF"
  shows "\<exists>i < NBUF. \<not> flag B_BUSY (b_flags (bufs s i)) \<and> \<not> flag B_DIRTY (b_flags (bufs s i))"
proof (rule ccontr)
  assume "\<not> ?thesis"
  then have busy: "\<And>i. i < NBUF \<Longrightarrow> flag B_BUSY (b_flags (bufs s i)) \<or> flag B_DIRTY (b_flags (bufs s i))"
    by blast
  from inv have u: "uniq s" and ok: "\<And>i. i < NBUF \<Longrightarrow> buf_ok s i" by (auto simp: binv_def)
  have root: "b_dev (bufs s i) = ROOTDEV" if "i < NBUF" for i
    using busy [OF that] ok [OF that] by (auto simp: buf_ok_def)
  have "inj_on (\<lambda>i. b_sector (bufs s i)) {..<NBUF}"
    using u root by (auto simp: inj_on_def uniq_def)
  moreover have "(\<lambda>i. b_sector (bufs s i)) ` {..<NBUF} \<subseteq> held s \<union> dirty s"
    using busy root u by (auto simp: held_def dirty_def slot_Some)
  ultimately have "card {..<NBUF} \<le> card (held s \<union> dirty s)"
    using held_dirty_finite by (metis card_inj_on_le)
  with room show False by simp
qed

section \<open>Updating one buffer\<close>

text \<open>How the abstractions react to a change of one buffer's flags and data that keeps its key.\<close>

lemma slot_upd:
  assumes "b_dev b' = b_dev (bufs s i)" and "b_sector b' = b_sector (bufs s i)"
  shows "slot (s\<lparr>bufs := (bufs s)(i := b')\<rparr>) a = slot s a"
proof -
  have "(\<lambda>j. b_dev (((bufs s)(i := b')) j) = ROOTDEV \<and> b_sector (((bufs s)(i := b')) j) = a) =
        (\<lambda>j. b_dev (bufs s j) = ROOTDEV \<and> b_sector (bufs s j) = a)"
    using assms by (auto simp: fun_eq_iff)
  then show ?thesis by (simp add: slot_def)
qed

lemma uniq_upd:
  assumes "b_dev b' = b_dev (bufs s i)" and "b_sector b' = b_sector (bufs s i)"
  shows "uniq (s\<lparr>bufs := (bufs s)(i := b')\<rparr>) = uniq s"
proof -
  have "b_dev (((bufs s)(i := b')) j) = b_dev (bufs s j)"
    "b_sector (((bufs s)(i := b')) j) = b_sector (bufs s j)" for j
    using assms by auto
  then show ?thesis by (simp add: uniq_def del: fun_upd_apply)
qed

lemma ring_upd:
  assumes "b_next b' = b_next (bs i)" and "b_prev b' = b_prev (bs i)"
  shows "ring (bs(i := b')) xs = ring bs xs"
  by (rule ring_cong) (use assms in auto)

lemmas key_upd = slot_upd uniq_upd ring_upd

lemma abs_frame [simp]:
  "slot (s\<lparr>fsstats := v\<rparr>) = slot s" "slot (s\<lparr>events := e\<rparr>) = slot s"
  "slot (s\<lparr>disk := d\<rparr>) = slot s" "slot (s\<lparr>thelog := l\<rparr>) = slot s"
  "slot (s\<lparr>inodes := n\<rparr>) = slot s" "slot (s\<lparr>ftable := f\<rparr>) = slot s"
  by (simp_all add: slot_def fun_eq_iff)

lemma view_frame [simp]:
  "view (s\<lparr>fsstats := v\<rparr>) = view s" "view (s\<lparr>events := e\<rparr>) = view s"
  "view (s\<lparr>thelog := l\<rparr>) = view s" "view (s\<lparr>inodes := n\<rparr>) = view s"
  "view (s\<lparr>ftable := f\<rparr>) = view s"
  by (simp_all add: view_def fun_eq_iff split: option.split)

lemma held_frame [simp]:
  "held (s\<lparr>fsstats := v\<rparr>) = held s" "held (s\<lparr>events := e\<rparr>) = held s"
  "held (s\<lparr>disk := d\<rparr>) = held s" "held (s\<lparr>thelog := l\<rparr>) = held s"
  "held (s\<lparr>inodes := n\<rparr>) = held s" "held (s\<lparr>ftable := f\<rparr>) = held s"
  by (simp_all add: held_def)

lemma dirty_frame [simp]:
  "dirty (s\<lparr>fsstats := v\<rparr>) = dirty s" "dirty (s\<lparr>events := e\<rparr>) = dirty s"
  "dirty (s\<lparr>disk := d\<rparr>) = dirty s" "dirty (s\<lparr>thelog := l\<rparr>) = dirty s"
  "dirty (s\<lparr>inodes := n\<rparr>) = dirty s" "dirty (s\<lparr>ftable := f\<rparr>) = dirty s"
  by (simp_all add: dirty_def)

lemma owns_frame [simp]:
  "owns (s\<lparr>fsstats := v\<rparr>) = owns s" "owns (s\<lparr>events := e\<rparr>) = owns s"
  "owns (s\<lparr>disk := d\<rparr>) = owns s" "owns (s\<lparr>thelog := l\<rparr>) = owns s"
  "owns (s\<lparr>inodes := n\<rparr>) = owns s" "owns (s\<lparr>ftable := f\<rparr>) = owns s"
  by (simp_all add: owns_def fun_eq_iff)

lemma binv_frame [simp]:
  "binv (s\<lparr>fsstats := v\<rparr>) = binv s" "binv (s\<lparr>events := e\<rparr>) = binv s"
  "binv (s\<lparr>thelog := l\<rparr>) = binv s" "binv (s\<lparr>inodes := n\<rparr>) = binv s"
  "binv (s\<lparr>ftable := f\<rparr>) = binv s"
  by (simp_all add: binv_def buf_ok_def uniq_def)

text \<open>A state change that touches at most the flags and data of sector \<open>a\<close>'s buffer.\<close>

lemma upd_abs:
  assumes u: "uniq s" and sl: "slot s a = Some i"
    and k: "b_dev b' = b_dev (bufs s i)" "b_sector b' = b_sector (bufs s i)"
  defines "s' \<equiv> s\<lparr>bufs := (bufs s)(i := b')\<rparr>"
  shows "slot s' = slot s"
    and "view s' = (view s)(a := b_data b')"
    and "held s' = (if flag B_BUSY (b_flags b') then insert a (held s) else held s - {a})"
    and "dirty s' = (if flag B_DIRTY (b_flags b') then insert a (dirty s) else dirty s - {a})"
    and "owns s' c x \<longleftrightarrow> (if x = a then c = i \<and> flag B_BUSY (b_flags b') else owns s c x)"
proof -
  show sl': "slot s' = slot s" unfolding s'_def by (rule ext) (rule slot_upd [OF k])
  have i: "x = a" if "slot s x = Some i" for x
    using that sl u by (simp add: slot_Some)
  show "view s' = (view s)(a := b_data b')"
    unfolding view_def sl' by (auto simp: s'_def fun_eq_iff sl dest: i split: option.split)
  have "x \<in> held s' \<longleftrightarrow> x \<in> (if flag B_BUSY (b_flags b') then insert a (held s) else held s - {a})" for x
    unfolding held_def sl' by (cases "slot s x") (auto simp: s'_def sl dest: i)
  then show "held s' = (if flag B_BUSY (b_flags b') then insert a (held s) else held s - {a})"
    by blast
  have "x \<in> dirty s' \<longleftrightarrow> x \<in> (if flag B_DIRTY (b_flags b') then insert a (dirty s) else dirty s - {a})" for x
    unfolding dirty_def sl' by (cases "slot s x") (auto simp: s'_def sl dest: i)
  then show "dirty s' = (if flag B_DIRTY (b_flags b') then insert a (dirty s) else dirty s - {a})"
    by blast
  show "owns s' c x \<longleftrightarrow> (if x = a then c = i \<and> flag B_BUSY (b_flags b') else owns s c x)"
    unfolding owns_def sl' by (auto simp: s'_def sl dest: i)
qed

lemma upd_binv:
  assumes inv: "binv s" and sl: "slot s a = Some i"
    and k: "b_dev b' = b_dev (bufs s i)" "b_sector b' = b_sector (bufs s i)"
    and l: "b_next b' = b_next (bufs s i)" "b_prev b' = b_prev (bufs s i)"
    and ok: "flag B_VALID (b_flags b')"
      "flag B_BUSY (b_flags b') \<or> flag B_DIRTY (b_flags b') \<or> b_data b' = disk s (unat a)"
  shows "binv (s\<lparr>bufs := (bufs s)(i := b')\<rparr>)"
proof -
  from inv have u: "uniq s" by (simp add: binv_def)
  with sl have a: "b_dev (bufs s i) = ROOTDEV" "b_sector (bufs s i) = a" by (auto simp: slot_Some)
  show ?thesis
    using inv a k ok unfolding binv_def
    by (auto simp: ring_upd [where bs = "bufs s" and i = i, OF l] uniq_upd [OF k] buf_ok_def)
qed

section \<open>The operations\<close>

text \<open>
  The outcome of a cache operation: the invariant again, and everything but the cache and
  the read counter unchanged.
\<close>

definition cstep :: "kern \<Rightarrow> kern \<Rightarrow> bool" where
  "cstep s s' \<longleftrightarrow> binv s' \<and> disk s' = disk s \<and> events s' = events s \<and> rest s' = rest s"

lemma cstepD: "cstep s s' \<Longrightarrow> binv s' \<and> disk s' = disk s \<and> events s' = events s \<and> rest s' = rest s"
  by (simp add: cstep_def)

lemma set_data_ok:
  assumes inv: "binv s" and own: "owns s b a"
  shows "\<exists>s'. set_data b d s = Inr ((), s') \<and> cstep s s' \<and> view s' = (view s)(a := d) \<and>
    held s' = held s \<and> dirty s' = dirty s \<and> owns s' = owns s"
proof -
  from inv have u: "uniq s" by (simp add: binv_def)
  from own have sl: "slot s a = Some b" and busy: "flag B_BUSY (b_flags (bufs s b))"
    by (auto simp: owns_def)
  let ?b' = "(bufs s b)\<lparr>b_data := d\<rparr>"
  let ?s' = "s\<lparr>bufs := (bufs s)(b := ?b')\<rparr>"
  from sl u inv have "buf_ok s b" "b_dev (bufs s b) = ROOTDEV" by (auto simp: slot_Some binv_def)
  then have valid: "flag B_VALID (b_flags (bufs s b))"
    by (auto simp: buf_ok_def ROOTDEV_neq)
  have ab: "view ?s' = (view s)(a := d)" "held ?s' = insert a (held s)"
    "dirty ?s' = (if flag B_DIRTY (b_flags (bufs s b)) then insert a (dirty s) else dirty s - {a})"
    "\<And>c x. owns ?s' c x \<longleftrightarrow> (if x = a then c = b else owns s c x)"
    using upd_abs [OF u sl, of ?b'] busy by auto
  have "dirty ?s' = dirty s" using ab(3) sl by (auto simp: dirty_def)
  moreover have "owns ?s' = owns s" using ab(4) own by (auto simp: fun_eq_iff owns_def)
  moreover have "held ?s' = held s" using ab(2) owns_held [OF own] by auto
  moreover have "binv ?s'" by (rule upd_binv [OF inv sl]) (use busy valid in auto)
  ultimately show ?thesis
    using ab(1) by (simp add: set_data_def upd_buf_def cstep_def rest_def)
qed

lemma slot_valid:
  assumes "binv s" and "slot s a = Some b"
  shows "flag B_VALID (b_flags (bufs s b))" and "b < NBUF"
proof -
  from assms(1) have u: "uniq s" by (simp add: binv_def)
  with assms(2) have b: "b < NBUF" "b_dev (bufs s b) = ROOTDEV" by (auto simp: slot_Some)
  with assms(1) have "buf_ok s b" by (simp add: binv_def)
  with b show "flag B_VALID (b_flags (bufs s b))" by (auto simp: buf_ok_def ROOTDEV_neq)
  show "b < NBUF" by (rule b)
qed

text \<open>The recency list plays no part in the abstraction.\<close>

lemma links_abs:
  assumes "\<And>i. b_flags (cs i) = b_flags (bufs s i) \<and> b_dev (cs i) = b_dev (bufs s i) \<and>
    b_sector (cs i) = b_sector (bufs s i) \<and> b_data (cs i) = b_data (bufs s i)"
  defines "s' \<equiv> s\<lparr>bufs := cs\<rparr>"
  shows "slot s' = slot s" and "view s' = view s" and "held s' = held s" and "dirty s' = dirty s"
    and "owns s' = owns s" and "ring cs xs \<Longrightarrow> binv s \<Longrightarrow> binv s'"
proof -
  show sl: "slot s' = slot s" by (simp add: slot_def s'_def assms(1) fun_eq_iff)
  show "view s' = view s" unfolding view_def sl by (auto simp: s'_def assms(1) fun_eq_iff split: option.splits)
  show "held s' = held s" unfolding held_def sl by (simp add: s'_def assms(1))
  show "dirty s' = dirty s" unfolding dirty_def sl by (simp add: s'_def assms(1))
  show "owns s' = owns s" unfolding owns_def sl by (simp add: s'_def assms(1) fun_eq_iff)
  show "ring cs xs \<Longrightarrow> binv s \<Longrightarrow> binv s'"
    unfolding binv_def s'_def by (auto simp: buf_ok_def uniq_def assms(1))
qed

lemma brelse_ok:
  assumes inv: "binv s" and own: "owns s b a" and clean: "a \<in> dirty s \<or> view s a = disk s (unat a)"
  shows "\<exists>s'. brelse b s = Inr ((), s') \<and> cstep s s' \<and> view s' = view s \<and>
    held s' = held s - {a} \<and> dirty s' = dirty s \<and> (\<forall>c x. owns s' c x \<longleftrightarrow> owns s c x \<and> x \<noteq> a)"
proof -
  from own have sl: "slot s a = Some b" and busy: "flag B_BUSY (b_flags (bufs s b))"
    by (auto simp: owns_def)
  let ?s1 = "s\<lparr>bufs := brelse_links b (bufs s)\<rparr>"
  let ?b' = "(bufs ?s1 b)\<lparr>b_flags := clear_flag B_BUSY (b_flags (bufs s b))\<rparr>"
  let ?s' = "?s1\<lparr>bufs := (bufs ?s1)(b := ?b')\<rparr>"
  from inv obtain xs where "ring (bufs s) xs" by (auto simp: binv_def)
  then have r: "ring (brelse_links b (bufs s)) (b # remove1 b xs)"
    using slot_valid(2) [OF inv sl] by (rule ring_remove1)
  have l: "slot ?s1 = slot s" "view ?s1 = view s" "held ?s1 = held s" "dirty ?s1 = dirty s"
    "owns ?s1 = owns s" "binv ?s1"
    using links_abs [of "brelse_links b (bufs s)" s] r inv by auto
  have sl1: "slot ?s1 a = Some b" and u1: "uniq ?s1" using sl l(1,6) by (auto simp: binv_def)
  have data: "flag B_DIRTY (b_flags (bufs s b)) \<or> b_data (bufs s b) = disk s (unat a)"
    using clean sl by (auto simp: dirty_def view_slot)
  have ab: "view ?s' = (view s)(a := b_data (bufs s b))" "held ?s' = held s - {a}"
    "dirty ?s' = (if flag B_DIRTY (b_flags (bufs s b)) then insert a (dirty s) else dirty s - {a})"
    "\<And>c x. owns ?s' c x \<longleftrightarrow> (if x = a then False else owns s c x)"
    using upd_abs [OF u1 sl1, of ?b'] by (auto simp: l)
  have "view ?s' = view s" using ab(1) sl by (auto simp: view_slot)
  moreover have "dirty ?s' = dirty s" using ab(3) sl by (auto simp: dirty_def)
  moreover have "binv ?s'"
    by (rule upd_binv [OF l(6) sl1]) (use data slot_valid(1) [OF inv sl] in auto)
  moreover have "\<forall>c x. owns ?s' c x \<longleftrightarrow> owns s c x \<and> x \<noteq> a" using ab(4) by auto
  moreover have "brelse b s = Inr ((), ?s')"
    using busy by (simp add: brelse_def buf_at_def upd_buf_def)
  ultimately show ?thesis
    using ab(2) by (auto simp: cstep_def rest_def)
qed

text \<open>Recycling a clean buffer for a sector that has none.\<close>

lemma recycle_slot:
  assumes inv: "binv s" and none: "slot s a = None" and i: "i < NBUF"
    and k: "b_dev b' = ROOTDEV" "b_sector b' = a"
  defines "s' \<equiv> s\<lparr>bufs := (bufs s)(i := b')\<rparr>"
  shows "uniq s'"
    and "slot s' x = (if x = a then Some i else if slot s x = Some i then None else slot s x)"
proof -
  from inv have u: "uniq s" by (simp add: binv_def)
  show u': "uniq s'"
    unfolding uniq_def
  proof (intro allI impI)
    fix j m
    assume j: "j < NBUF" "m < NBUF" "b_dev (bufs s' j) = ROOTDEV" "b_dev (bufs s' m) = ROOTDEV"
      "b_sector (bufs s' j) = b_sector (bufs s' m)"
    have n: "b_sector (bufs s c) \<noteq> a" if "c < NBUF" "b_dev (bufs s c) = ROOTDEV" for c
      using none that by (simp add: slot_None)
    show "j = m"
    proof (rule ccontr)
      assume ne: "j \<noteq> m"
      then consider "j = i" "m \<noteq> i" | "j \<noteq> i" "m = i" | "j \<noteq> i" "m \<noteq> i" by blast
      then show False
      proof cases
        case 1
        then show False using j k n [of m] by (simp add: s'_def)
      next
        case 2
        then show False using j k n [of j] by (simp add: s'_def)
      next
        case 3
        then show False using j u ne by (simp add: s'_def uniq_def)
      qed
    qed
  qed
  have iff: "slot s' y = Some j \<longleftrightarrow> j < NBUF \<and> (if j = i then y = a else slot s y = Some j)" for y j
    unfolding slot_Some [OF u'] slot_Some [OF u] using k i by (auto simp: s'_def)
  have "slot s' x = Some i" if "x = a" using that iff i by simp
  moreover have "slot s' x = None" if "x \<noteq> a" "slot s x = Some i"
  proof (cases "slot s' x")
    case (Some j)
    with that iff [where y = x and j = j] show ?thesis by (simp split: if_splits)
  qed
  moreover have "slot s' x = slot s x" if "x \<noteq> a" "slot s x \<noteq> Some i"
  proof (cases "slot s x")
    case None
    show ?thesis
    proof (cases "slot s' x")
      case (Some j)
      with that None iff [where y = x and j = j] show ?thesis by (simp split: if_splits)
    qed (simp add: None)
  next
    case (Some j)
    with that iff [where y = x and j = j] slot_valid(2) [OF inv Some] show ?thesis by auto
  qed
  ultimately show "slot s' x = (if x = a then Some i else if slot s x = Some i then None else slot s x)"
    by simp
qed

lemma recycle_abs:
  assumes inv: "binv s" and none: "slot s a = None" and i: "i < NBUF"
    and idle: "\<not> flag B_BUSY (b_flags (bufs s i))" "\<not> flag B_DIRTY (b_flags (bufs s i))"
    and k: "b_dev b' = ROOTDEV" "b_sector b' = a"
    and l: "b_next b' = b_next (bufs s i)" "b_prev b' = b_prev (bufs s i)"
    and f: "flag B_BUSY (b_flags b')" "flag B_VALID (b_flags b')" "\<not> flag B_DIRTY (b_flags b')"
    and d: "b_data b' = disk s (unat a)"
  defines "s' \<equiv> s\<lparr>bufs := (bufs s)(i := b')\<rparr>"
  shows "binv s'" and "view s' = view s" and "held s' = insert a (held s)" and "dirty s' = dirty s"
    and "owns s' i a" and "owns s c x \<Longrightarrow> owns s' c x"
proof -
  note sl' = recycle_slot(2) [OF inv none i k, folded s'_def]
  from inv have u: "uniq s" and ok: "buf_ok s i" using i by (auto simp: binv_def)
  have old: "view s x = disk s (unat x)" if "slot s x = Some i" for x
    using that ok idle u by (auto simp: view_slot buf_ok_def slot_Some ROOTDEV_neq)
  show "binv s'"
    using inv recycle_slot(1) [OF inv none i k] k f unfolding binv_def s'_def
    by (auto simp: ring_upd [where bs = "bufs s" and i = i, OF l] buf_ok_def)
  have "view s' x = view s x" for x
  proof (cases "x = a")
    case True
    then show ?thesis using none d by (simp add: view_def sl') (simp add: s'_def)
  next
    case False
    then show ?thesis using old [of x] unfolding view_def sl'
      by (cases "slot s x") (auto simp: s'_def)
  qed
  then show "view s' = view s" by blast
  have "x \<in> held s' \<longleftrightarrow> x \<in> insert a (held s)" for x
    using idle f none unfolding held_def sl' by (cases "slot s x") (auto simp: s'_def)
  then show "held s' = insert a (held s)" by blast
  have "x \<in> dirty s' \<longleftrightarrow> x \<in> dirty s" for x
    using idle f none unfolding dirty_def sl' by (cases "slot s x") (auto simp: s'_def)
  then show "dirty s' = dirty s" by blast
  show "owns s' i a" using f by (simp add: owns_def sl') (simp add: s'_def)
  show "owns s' c x" if "owns s c x"
  proof -
    from that have "slot s x = Some c" "flag B_BUSY (b_flags (bufs s c))" by (auto simp: owns_def)
    moreover from this have "x \<noteq> a" "c \<noteq> i" using none idle by auto
    ultimately show ?thesis by (simp add: owns_def sl') (simp add: s'_def)
  qed
qed

lemma find_ring_slot:
  assumes u: "uniq s" and r: "ring (bufs s) xs"
  shows "List.find (\<lambda>i. b_dev (bufs s i) = ROOTDEV \<and> b_sector (bufs s i) = a) xs = slot s a"
proof (cases "slot s a")
  case None
  then have "\<not> (\<exists>i. i \<in> set xs \<and> b_dev (bufs s i) = ROOTDEV \<and> b_sector (bufs s i) = a)"
    using r by (auto simp: slot_None ring_def)
  then show ?thesis unfolding None find_None_iff by blast
next
  case (Some i)
  with u have "i < NBUF \<and> b_dev (bufs s i) = ROOTDEV \<and> b_sector (bufs s i) = a"
    by (simp add: slot_Some)
  moreover have "set xs = {..<NBUF}" using r by (simp add: ring_def)
  ultimately have "List.find (\<lambda>i. b_dev (bufs s i) = ROOTDEV \<and> b_sector (bufs s i) = a) xs = Some i"
    using u by (intro find_eq_Some_unique) (auto simp: uniq_def)
  with Some show ?thesis by simp
qed

text \<open>What \<open>bread\<close> gives its caller.\<close>

definition bread_post :: "kern \<Rightarrow> u32 \<Rightarrow> nat \<Rightarrow> kern \<Rightarrow> bool" where
  "bread_post s a b s' \<longleftrightarrow> cstep s s' \<and> view s' = view s \<and> held s' = insert a (held s) \<and>
     dirty s' = dirty s \<and> owns s' b a \<and> (\<forall>c x. owns s c x \<longrightarrow> owns s' c x)"

lemma bread_hit:
  assumes inv: "binv s" and sl: "slot s a = Some i" and free: "a \<notin> held s"
  shows "\<exists>s'. bread ROOTDEV a s = Inr (i, s') \<and> bread_post s a i s'"
proof -
  from inv obtain xs where r: "ring (bufs s) xs" and u: "uniq s" by (auto simp: binv_def)
  from free sl have idle: "\<not> flag B_BUSY (b_flags (bufs s i))" by (auto simp: held_def)
  let ?b' = "(bufs s i)\<lparr>b_flags := set_flag B_BUSY (b_flags (bufs s i))\<rparr>"
  let ?s' = "s\<lparr>bufs := (bufs s)(i := ?b')\<rparr>"
  note valid = slot_valid(1) [OF inv sl]
  have "bread ROOTDEV a s = Inr (i, ?s')"
    using bget_ring [OF r, of ROOTDEV a] find_ring_slot [OF u r, of a] sl idle valid
    by (simp add: bread_def buf_at_def)
  moreover have "binv ?s'" by (rule upd_binv [OF inv sl]) (use valid in auto)
  moreover have "view ?s' = view s" using upd_abs(2) [OF u sl, of ?b'] sl by (auto simp: view_slot)
  moreover have "held ?s' = insert a (held s)" using upd_abs(3) [OF u sl, of ?b'] by simp
  moreover have "dirty ?s' = dirty s"
    using upd_abs(4) [OF u sl, of ?b'] sl by (auto simp: dirty_def)
  moreover have "owns ?s' i a" using upd_abs(5) [OF u sl, of ?b' i a] by simp
  moreover have "owns ?s' c x" if "owns s c x" for c x
    using that idle upd_abs(5) [OF u sl, of ?b' c x] sl by (auto simp: owns_def)
  ultimately show ?thesis by (simp add: bread_post_def cstep_def rest_def)
qed

lemma bread_miss:
  assumes inv: "binv s" and sl: "slot s a = None" and ok: "sector_ok s a"
    and room: "card (held s \<union> dirty s) < NBUF"
  shows "\<exists>i s'. bread ROOTDEV a s = Inr (i, s') \<and> bread_post s a i s'"
proof -
  from inv obtain xs where r: "ring (bufs s) xs" and u: "uniq s" by (auto simp: binv_def)
  let ?idle = "\<lambda>i. \<not> flag B_BUSY (b_flags (bufs s i)) \<and> \<not> flag B_DIRTY (b_flags (bufs s i))"
  have "\<exists>i \<in> set (rev xs). ?idle i"
    using clean_buffer_exists [OF inv room] r by (auto simp: ring_def)
  then obtain i where fi: "List.find ?idle (rev xs) = Some i"
    by (metis find_ex)
  from find_SomeD [OF this] r have i: "i < NBUF" "?idle i" by (simp_all add: ring_def)
  let ?b1 = "(bufs s i)\<lparr>b_dev := ROOTDEV, b_sector := a, b_flags := B_BUSY\<rparr>"
  let ?b' = "?b1\<lparr>b_data := disk s (unat a), b_flags := set_flag B_VALID B_BUSY\<rparr>"
  let ?s1 = "s\<lparr>bufs := (bufs s)(i := ?b1)\<rparr>"
  let ?s2 = "s\<lparr>bufs := (bufs s)(i := ?b')\<rparr>"
  let ?s' = "?s2\<lparr>fsstats := (fsstats s)\<lparr>nread := nread (fsstats s) + 1\<rparr>\<rparr>"
  have get: "bget ROOTDEV a s = Inr (i, ?s1)"
    using bget_ring [OF r, of ROOTDEV a] find_ring_slot [OF u r, of a] sl fi by simp
  have ok1: "sector_ok ?s1 a" using ok by (simp add: sector_ok_def)
  have "iderw i ?s1 = Inr ((), ?s')"
    using unix_read_ok [OF ok1] by (simp add: iderw_def buf_at_def only_valid_iff upd_buf_def)
  then have "bread ROOTDEV a s = Inr (i, ?s')"
    by (simp add: bread_def get buf_at_def)
  moreover have "bread_post s a i ?s'"
    using recycle_abs [OF inv sl i(1) conjunct1 [OF i(2)] conjunct2 [OF i(2)], of ?b']
    by (simp add: bread_post_def cstep_def rest_def)
  ultimately show ?thesis by blast
qed

lemma bread_ok:
  assumes "binv s" and "sector_ok s a" and "a \<notin> held s"
    and "a \<in> dirty s \<or> card (held s \<union> dirty s) < NBUF"
  shows "\<exists>b s'. bread ROOTDEV a s = Inr (b, s') \<and> bread_post s a b s'"
proof (cases "slot s a")
  case None
  then have "a \<notin> dirty s" by (simp add: dirty_def)
  with None assms bread_miss show ?thesis by blast
next
  case (Some i)
  with assms bread_hit show ?thesis by blast
qed

text \<open>\<open>bwrite\<close> sends the held buffer to disk and cleans it.\<close>

lemma bwrite_ok:
  assumes inv: "binv s" and own: "owns s b a" and ok: "sector_ok s a"
  shows "\<exists>s'. bwrite b s = Inr ((), s') \<and> binv s' \<and> rest s' = rest s \<and>
    disk s' = (disk s)(unat a := view s a) \<and>
    events s' = events s @ [DWrite (unat a) (view s a)] \<and>
    view s' = view s \<and> held s' = held s \<and> dirty s' = dirty s - {a} \<and> owns s' = owns s"
proof -
  from inv have u: "uniq s" by (simp add: binv_def)
  from own have sl: "slot s a = Some b" and busy: "flag B_BUSY (b_flags (bufs s b))"
    by (auto simp: owns_def)
  note valid = slot_valid(1) [OF inv sl]
  from u sl have sec: "b_sector (bufs s b) = a" by (simp add: slot_Some)
  let ?b1 = "(bufs s b)\<lparr>b_flags := set_flag B_DIRTY (b_flags (bufs s b))\<rparr>"
  let ?b' = "(bufs s b)\<lparr>b_flags := clear_flag B_DIRTY (set_flag B_DIRTY (b_flags (bufs s b)))\<rparr>"
  let ?s1 = "s\<lparr>bufs := (bufs s)(b := ?b1)\<rparr>"
  let ?s2 = "s\<lparr>bufs := (bufs s)(b := ?b')\<rparr>"
  let ?d = "(disk s)(unat a := view s a)"
  let ?s' = "?s2\<lparr>disk := ?d, events := events s @ [DWrite (unat a) (view s a)],
     fsstats := (fsstats s)\<lparr>nwrite := nwrite (fsstats s) + 1\<rparr>\<rparr>"
  have ok1: "sector_ok ?s1 a" using ok by (simp add: sector_ok_def)
  have run: "bwrite b s = Inr ((), ?s')"
    using unix_write_ok [OF ok1, of "view s a"] busy sec owns_view [OF own]
    by (simp add: bwrite_def buf_at_def upd_buf_def iderw_def only_valid_iff)
  have ab: "slot ?s2 = slot s" "view ?s2 = (view s)(a := b_data ?b')" "held ?s2 = insert a (held s)"
    "dirty ?s2 = dirty s - {a}" "owns ?s2 = owns s"
    using upd_abs [OF u sl, of ?b'] busy own by (auto simp: fun_eq_iff owns_def)
  have v2: "view ?s2 = view s" using ab(2) owns_view [OF own] by auto
  have "view ?s' = view s"
  proof
    fix x
    show "view ?s' x = view s x"
      using ab(1) v2 sl by (cases "slot s x") (auto simp: view_def fun_eq_iff simp flip: word_unat_eq_iff dest!: spec [of _ x])
  qed
  moreover have "binv ?s'"
  proof -
    have b2: "binv ?s2" by (rule upd_binv [OF inv sl]) (use busy valid in auto)
    have "buf_ok ?s' i" if i: "i < NBUF" for i
    proof (cases "i = b")
      case True
      then show ?thesis using busy valid u sl by (simp add: buf_ok_def slot_Some)
    next
      case False
      then have "b_dev (bufs s i) = ROOTDEV \<longrightarrow> b_sector (bufs s i) \<noteq> a"
        using u sl i unfolding slot_Some [OF u] uniq_def by blast
      moreover have "buf_ok s i" using inv i by (simp add: binv_def)
      ultimately show ?thesis using False
        by (auto simp: buf_ok_def simp flip: word_unat_eq_iff)
    qed
    with b2 show ?thesis by (simp add: binv_def uniq_def)
  qed
  ultimately show ?thesis
    using run ab owns_held [OF own] by (auto simp: rest_def)
qed

text \<open>Setting \<open>B_DIRTY\<close> on a held buffer pins it.\<close>

lemma pin_ok:
  assumes inv: "binv s" and own: "owns s b a"
  shows "\<exists>s'. upd_buf b (\<lambda>bp. bp\<lparr>b_flags := set_flag B_DIRTY (b_flags bp)\<rparr>) s = Inr ((), s') \<and>
    cstep s s' \<and> view s' = view s \<and> held s' = held s \<and> dirty s' = insert a (dirty s) \<and> owns s' = owns s"
proof -
  from inv have u: "uniq s" by (simp add: binv_def)
  from own have sl: "slot s a = Some b" and busy: "flag B_BUSY (b_flags (bufs s b))"
    by (auto simp: owns_def)
  let ?b' = "(bufs s b)\<lparr>b_flags := set_flag B_DIRTY (b_flags (bufs s b))\<rparr>"
  let ?s' = "s\<lparr>bufs := (bufs s)(b := ?b')\<rparr>"
  have ab: "view ?s' = (view s)(a := b_data ?b')" "held ?s' = insert a (held s)"
    "dirty ?s' = insert a (dirty s)" "owns ?s' = owns s"
    using upd_abs [OF u sl, of ?b'] busy own by (auto simp: fun_eq_iff owns_def)
  have "binv ?s'" by (rule upd_binv [OF inv sl]) (use busy slot_valid(1) [OF inv sl] in auto)
  moreover have "view ?s' = view s" using ab(1) owns_view [OF own] by auto
  moreover have "held ?s' = held s" using ab(2) owns_held [OF own] by auto
  ultimately show ?thesis using ab by (simp add: upd_buf_def cstep_def rest_def)
qed

text \<open>A sector nobody holds agrees with the disk unless it is pinned.\<close>

lemma idle_clean:
  assumes inv: "binv s" and "a \<notin> held s" and "a \<notin> dirty s"
  shows "view s a = disk s (unat a)"
proof (cases "slot s a")
  case (Some i)
  with inv have "buf_ok s i" "b_dev (bufs s i) = ROOTDEV" "b_sector (bufs s i) = a"
    by (auto simp: binv_def slot_Some)
  with assms Some show ?thesis
    by (auto simp: buf_ok_def ROOTDEV_neq view_slot held_def dirty_def)
qed (simp add: view_def)

section \<open>The interface is kept\<close>

text \<open>The cache of \<open>bio.c\<close> keeps the contract.\<close>

interpretation bc: block_cache binv view held dirty owns sector_ok disk events rest NBUF
  "bread ROOTDEV" brelse buf_data set_data bwrite
proof unfold_locales
  fix s :: kern and a :: u32
  assume "binv s" "sector_ok s a" "a \<notin> held s" "a \<in> dirty s \<or> card (held s \<union> dirty s) < NBUF"
  from bread_ok [OF this]
  show "\<exists>b s'. bread ROOTDEV a s = Inr (b, s') \<and> binv s' \<and> disk s' = disk s \<and> events s' = events s \<and>
      rest s' = rest s \<and> view s' = view s \<and> held s' = insert a (held s) \<and> dirty s' = dirty s \<and>
      owns s' b a \<and> (\<forall>c x. owns s c x \<longrightarrow> owns s' c x)"
    by (simp add: bread_post_def cstep_def)
next
  fix s :: kern and b :: nat and a :: u32
  assume "binv s" "owns s b a" "a \<in> dirty s \<or> view s a = disk s (unat a)"
  from brelse_ok [OF this]
  show "\<exists>s'. brelse b s = Inr ((), s') \<and> binv s' \<and> disk s' = disk s \<and> events s' = events s \<and>
      rest s' = rest s \<and> view s' = view s \<and> held s' = held s - {a} \<and> dirty s' = dirty s \<and>
      (\<forall>c x. owns s' c x \<longleftrightarrow> owns s c x \<and> x \<noteq> a)"
    by (simp add: cstep_def)
next
  fix s :: kern and b :: nat and a :: u32 and d :: block
  assume "binv s" "owns s b a"
  from set_data_ok [OF this, of d]
  show "\<exists>s'. set_data b d s = Inr ((), s') \<and> binv s' \<and> disk s' = disk s \<and> events s' = events s \<and>
      rest s' = rest s \<and> view s' = (view s)(a := d) \<and> held s' = held s \<and> dirty s' = dirty s \<and>
      owns s' = owns s"
    by (simp add: cstep_def)
next
  fix s :: kern and b :: nat and a :: u32
  assume "binv s" "owns s b a" "sector_ok s a"
  from bwrite_ok [OF this]
  show "\<exists>s'. bwrite b s = Inr ((), s') \<and> binv s' \<and> disk s' = (disk s)(unat a := view s a) \<and>
      events s' = events s @ [DWrite (unat a) (view s a)] \<and> rest s' = rest s \<and> view s' = view s \<and>
      held s' = held s \<and> dirty s' = dirty s - {a} \<and> owns s' = owns s"
    by blast
qed (auto simp: buf_data_def owns_view owns_def held_def idle_clean sector_ok_def rest_eq
  held_dirty_finite [unfolded finite_Un])

section \<open>The state after \<open>binit\<close>\<close>

text \<open>C statics start zeroed; the image file holds the blocks \<open>d\<close>.\<close>

definition zero_buf :: buf where
  "zero_buf = \<lparr>b_flags = 0, b_dev = 0, b_sector = 0, b_prev = 0, b_next = 0, b_data = zero_block\<rparr>"

definition zero_inode :: inode where
  "zero_inode = \<lparr>i_dev = 0, i_inum = 0, i_ref = 0, i_flags = 0, i_type = 0, i_major = 0, i_minor = 0,
     i_nlink = 0, i_size = 0, i_ctime = 0, i_atime = 0, i_mtime = 0, i_addrs = (\<lambda>_. 0)\<rparr>"

definition zero_file :: xfile where
  "zero_file = \<lparr>f_type = FD_NONE, f_ref = 0, f_readable = False, f_writable = False, f_ip = None,
     f_off = 0\<rparr>"

definition zero_log :: log where
  "zero_log = \<lparr>log_start = 0, log_size = 0, outstanding = 0, committing = 0, log_dev = 0,
     lh = \<lparr>lh_n = 0, lh_sector = (\<lambda>_. 0)\<rparr>\<rparr>"

definition zero_stats :: fsstats where
  "zero_stats = \<lparr>nread = 0, nwrite = 0, nflush = 0, ngetattr = 0, nopen = 0, nrelease = 0,
     nreaddir = 0, nfuse_read = 0, nfuse_write = 0, ncreate = 0, ntrunc = 0, nmkdir = 0, nrmdir = 0,
     nunlink = 0\<rparr>"

definition process_start :: "(nat \<Rightarrow> block) \<Rightarrow> nat \<Rightarrow> kern" where
  "process_start d n = \<lparr>disk = d, nblk = n, os_ok = True, events = [], fsstats = zero_stats, clock = 0,
     bufs = (\<lambda>_. zero_buf), thelog = zero_log, inodes = (\<lambda>_. zero_inode), ftable = (\<lambda>_. zero_file),
     curproc = None, statsbuf = []\<rparr>"

lemma chain_binit_step: "chain (binit_step b bs) a xs c = chain (insert_head b bs) a xs c"
  by (rule chain_cong) (simp_all add: binit_step_def insert_head_def Let_def)

lemma binit_chain:
  assumes "chain bs HEAD [] HEAD" and "n \<le> NBUF"
  shows "chain (fold binit_step [0..<n] bs) HEAD (rev [0..<n]) HEAD"
  using assms(2)
proof (induction n)
  case 0
  with assms(1) show ?case by simp
next
  case (Suc n)
  then have "chain (insert_head n (fold binit_step [0..<n] bs)) HEAD (n # rev [0..<n]) HEAD"
    by (intro chain_insert_head) (auto simp: HEAD_def)
  then show ?case by (simp add: chain_binit_step del: chain.simps)
qed

lemma binit_fields:
  "b_flags (fold binit_step is bs i) = b_flags (bs i)"
  "b_dev (fold binit_step is bs i) = (if i \<in> set is then - 1 else b_dev (bs i))"
  by (induction "is" arbitrary: bs) (auto simp: binit_step_def Let_def)

lemma binit_binv:
  assumes "\<And>i. b_flags (bufs s i) = 0"
  shows "\<exists>s'. binit s = Inr ((), s') \<and> binv s' \<and> held s' = {} \<and> dirty s' = {} \<and> disk s' = disk s \<and>
    events s' = events s \<and> rest s' = rest s \<and> view s' = (\<lambda>a. disk s (unat a)) \<and> fsstats s' = fsstats s"
proof -
  let ?bs = "set_next HEAD HEAD (set_prev HEAD HEAD (bufs s))"
  let ?s' = "s\<lparr>bufs := fold binit_step [0..<NBUF] ?bs\<rparr>"
  have dev: "b_dev (bufs ?s' i) = - 1" if "i < NBUF" for i using that by (simp add: binit_fields)
  have flags: "b_flags (bufs ?s' i) = 0" for i using assms by (simp add: binit_fields)
  have slot: "slot ?s' a = None" for a using dev by (simp add: slot_None ROOTDEV_neq)
  have "ring (bufs ?s') (rev [0..<NBUF])"
    using binit_chain [of ?bs NBUF] by (auto simp: ring_def)
  moreover have "\<forall>i<NBUF. buf_ok ?s' i" using dev flags by (simp add: buf_ok_def)
  moreover have "uniq ?s'" using dev by (simp add: uniq_def ROOTDEV_neq)
  ultimately have "binv ?s'" unfolding binv_def by blast
  moreover have "held ?s' = {}" "dirty ?s' = {}" "view ?s' = (\<lambda>a. disk s (unat a))"
    using slot by (simp_all add: held_def dirty_def view_def fun_eq_iff)
  ultimately show ?thesis by (simp add: binit_def rest_def)
qed

end
