(* ===== verification/Log.thy ===== *)
theory Log
  imports Cache
begin

text \<open>
  The write-ahead log \<open>log.c\<close> (and \<open>readsb\<close> of \<open>fs.c\<close>, which it calls): the operations, the
  invariant that ties the in-memory header to the pinned buffers, and the functional
  behaviour of \<open>log_write\<close>, \<open>begin_op\<close>, \<open>end_op\<close>, \<open>commit\<close> and recovery.  \<open>Crash\<close> builds the
  crash-safety argument on the exact sequence of disk writes these lemmas give.
\<close>

section \<open>Operations\<close>

definition readsb :: "u32 \<Rightarrow> superblock act" where
  "readsb dev =
     bnd (bread dev 1) (\<lambda>bp.
     bnd (buf_data bp) (\<lambda>d.
     bnd (brelse bp) (\<lambda>_.
     ret (sb_of_block d))))"

definition upd_log :: "(log \<Rightarrow> log) \<Rightarrow> unit act" where
  "upd_log f = modify (\<lambda>s. s\<lparr>thelog := f (thelog s)\<rparr>)"

definition upd_lh :: "(logheader \<Rightarrow> logheader) \<Rightarrow> unit act" where
  "upd_lh f = upd_log (\<lambda>l. l\<lparr>lh := f (lh l)\<rparr>)"

text \<open>The argument \<open>thelog.start+k\<close> of \<open>bread\<close>, converted from \<open>int\<close> to \<open>uint\<close>.\<close>

definition log_block :: "log \<Rightarrow> nat \<Rightarrow> u32" where
  "log_block lg k = word_of_int (log_start lg + int k)"

text \<open>Copy committed blocks from the log to their home location.\<close>

definition install_one :: "nat \<Rightarrow> unit act" where
  "install_one tail =
     bnd (gets thelog) (\<lambda>lg.
     bnd (guard (tail < LOGSIZE) (Undef ''lh.sector[tail]'')) (\<lambda>_.
     bnd (bread (log_dev lg) (log_block lg (tail + 1))) (\<lambda>lbuf.
     bnd (bread (log_dev lg) (lh_sector (lh lg) tail)) (\<lambda>dbuf.
     bnd (buf_data lbuf) (\<lambda>d.
     bnd (set_data dbuf d) (\<lambda>_.
     bnd (bwrite dbuf) (\<lambda>_.
     bnd (brelse lbuf) (\<lambda>_.
     brelse dbuf))))))))"

fun install_from :: "nat \<Rightarrow> nat \<Rightarrow> unit act" where
  "install_from 0 tail = ret ()"
| "install_from (Suc k) tail = bnd (install_one tail) (\<lambda>_. install_from k (Suc tail))"

definition install_trans :: "unit act" where
  "install_trans = bnd (gets (\<lambda>s. lh_n (lh (thelog s)))) (\<lambda>n. install_from (nat n) 0)"

text \<open>
  The header block: a count and that many sector numbers.  Storing past \<open>sector[LOGSIZE]\<close> is
  undefined, so the copy loops are guarded by \<open>n \<le> LOGSIZE\<close>.
\<close>

definition head_n :: "block \<Rightarrow> int" where
  "head_n d = sint (get32 d 0)"

definition head_sector :: "block \<Rightarrow> nat \<Rightarrow> u32" where
  "head_sector d i = get32 d (4 + 4 * i)"

definition read_head :: "unit act" where
  "read_head =
     bnd (gets thelog) (\<lambda>lg.
     bnd (bread (log_dev lg) (log_block lg 0)) (\<lambda>b.
     bnd (buf_data b) (\<lambda>d.
     bnd (upd_lh (\<lambda>h. h\<lparr>lh_n := head_n d\<rparr>)) (\<lambda>_.
     bnd (guard (head_n d \<le> int LOGSIZE) (Undef ''lh.sector[i]'')) (\<lambda>_.
     bnd (upd_lh (\<lambda>h. h\<lparr>lh_sector :=
        (\<lambda>i. if int i < head_n d then head_sector d i else lh_sector h i)\<rparr>)) (\<lambda>_.
     brelse b))))))"

definition head_block :: "logheader \<Rightarrow> block \<Rightarrow> block" where
  "head_block h d =
     put32s (put32 d 0 (word_of_int (lh_n h))) 4 (map (lh_sector h) [0..<nat (lh_n h)])"

definition write_head :: "unit act" where
  "write_head =
     bnd ideflush (\<lambda>_.
     bnd (gets thelog) (\<lambda>lg.
     bnd (guard (lh_n (lh lg) \<le> int LOGSIZE) (Undef ''lh.sector[i]'')) (\<lambda>_.
     bnd (bread (log_dev lg) (log_block lg 0)) (\<lambda>buf.
     bnd (buf_data buf) (\<lambda>d.
     bnd (set_data buf (head_block (lh lg) d)) (\<lambda>_.
     bnd (bwrite buf) (\<lambda>_.
     bnd ideflush (\<lambda>_.
     brelse buf))))))))"

definition recover_from_log :: "unit act" where
  "recover_from_log =
     bnd read_head (\<lambda>_.
     bnd install_trans (\<lambda>_.
     bnd (upd_lh (\<lambda>h. h\<lparr>lh_n := 0\<rparr>)) (\<lambda>_.
     write_head)))"

text \<open>\<open>sizeof(struct logheader)\<close> is \<open>4 * (1 + LOGSIZE)\<close>.\<close>

definition initlog :: "unit act" where
  "initlog =
     bnd (guard (4 * (1 + LOGSIZE) < BSIZE) (Panic ''initlog: too big logheader'')) (\<lambda>_.
     bnd (readsb ROOTDEV) (\<lambda>sb.
     bnd (upd_log (\<lambda>l. l\<lparr>log_start := sint (sb_size sb - sb_nlog sb), log_size := sint (sb_nlog sb),
        log_dev := ROOTDEV\<rparr>)) (\<lambda>_.
     recover_from_log)))"

text \<open>
  One pass through \<open>begin_op\<close>'s loop.  The sum is computed in \<open>int\<close>; where the product fits, so
  does \<open>outstanding + 1\<close>.
\<close>

definition begin_op_pass :: "unit option act" where
  "begin_op_pass =
     bnd (gets thelog) (\<lambda>lg.
     if committing lg \<noteq> 0 then ret None
     else bnd (guard (int_range ((outstanding lg + 1) * int MAXOPBLOCKS) \<and>
                 int_range (lh_n (lh lg) + (outstanding lg + 1) * int MAXOPBLOCKS)) (Undef ''outstanding+1'')) (\<lambda>_.
          if lh_n (lh lg) + (outstanding lg + 1) * int MAXOPBLOCKS > int LOGSIZE
          then ret None
          else bnd (upd_log (\<lambda>l. l\<lparr>outstanding := outstanding l + 1\<rparr>)) (\<lambda>_. ret (Some ()))))"

definition begin_op :: "unit act" where
  "begin_op = until ''begin_op: sleep'' begin_op_pass"

lemma begin_op_unfold:
  "begin_op =
     bnd (gets thelog) (\<lambda>lg.
     if committing lg \<noteq> 0 then fail (Hang ''begin_op: sleep'')
     else bnd (guard (int_range ((outstanding lg + 1) * int MAXOPBLOCKS) \<and>
                 int_range (lh_n (lh lg) + (outstanding lg + 1) * int MAXOPBLOCKS)) (Undef ''outstanding+1'')) (\<lambda>_.
          if lh_n (lh lg) + (outstanding lg + 1) * int MAXOPBLOCKS > int LOGSIZE
          then fail (Hang ''begin_op: sleep'')
          else upd_log (\<lambda>l. l\<lparr>outstanding := outstanding l + 1\<rparr>)))"
  by (simp add: begin_op_def begin_op_pass_def until_push cong: if_cong)

text \<open>Copy modified blocks from the cache to the log.\<close>

definition write_log_one :: "nat \<Rightarrow> unit act" where
  "write_log_one tail =
     bnd (gets thelog) (\<lambda>lg.
     bnd (guard (tail < LOGSIZE) (Undef ''lh.sector[tail]'')) (\<lambda>_.
     bnd (bread (log_dev lg) (log_block lg (tail + 1))) (\<lambda>to.
     bnd (bread (log_dev lg) (lh_sector (lh lg) tail)) (\<lambda>from.
     bnd (buf_data from) (\<lambda>d.
     bnd (set_data to d) (\<lambda>_.
     bnd (bwrite to) (\<lambda>_.
     bnd (brelse from) (\<lambda>_.
     brelse to))))))))"

fun write_log_from :: "nat \<Rightarrow> nat \<Rightarrow> unit act" where
  "write_log_from 0 tail = ret ()"
| "write_log_from (Suc k) tail = bnd (write_log_one tail) (\<lambda>_. write_log_from k (Suc tail))"

definition write_log :: "unit act" where
  "write_log = bnd (gets (\<lambda>s. lh_n (lh (thelog s)))) (\<lambda>n. write_log_from (nat n) 0)"

definition commit :: "unit act" where
  "commit =
     bnd (gets (\<lambda>s. lh_n (lh (thelog s)))) (\<lambda>n.
     if n > 0
     then bnd write_log (\<lambda>_.
          bnd write_head (\<lambda>_.
          bnd install_trans (\<lambda>_.
          bnd (upd_lh (\<lambda>h. h\<lparr>lh_n := 0\<rparr>)) (\<lambda>_.
          write_head))))
     else ret ())"

definition end_op :: "unit act" where
  "end_op =
     bnd (gets thelog) (\<lambda>lg.
     bnd (guard (int_range (outstanding lg - 1)) (Undef ''outstanding -= 1'')) (\<lambda>_.
     bnd (upd_log (\<lambda>l. l\<lparr>outstanding := outstanding l - 1\<rparr>)) (\<lambda>_.
     bnd (gets thelog) (\<lambda>lg.
     bnd (guard (committing lg = 0) (Panic ''thelog.committing'')) (\<lambda>_.
     if outstanding lg = 0
     then bnd (upd_log (\<lambda>l. l\<lparr>committing := 1\<rparr>)) (\<lambda>_.
          bnd commit (\<lambda>_.
          upd_log (\<lambda>l. l\<lparr>committing := 0\<rparr>)))
     else ret ())))))"

text \<open>The slot \<open>log_write\<close>'s search loop stops at: the sector's own, or the first free one.\<close>

definition log_index :: "logheader \<Rightarrow> u32 \<Rightarrow> nat" where
  "log_index h a =
     (case List.find (\<lambda>i. lh_sector h i = a) [0..<nat (lh_n h)] of Some i \<Rightarrow> i | None \<Rightarrow> nat (lh_n h))"

definition log_write :: "nat \<Rightarrow> unit act" where
  "log_write b =
     bnd (gets thelog) (\<lambda>lg.
     bnd (guard (lh_n (lh lg) < int LOGSIZE \<and> lh_n (lh lg) < log_size lg - 1)
        (Panic ''too big a transaction'')) (\<lambda>_.
     bnd (guard (outstanding lg \<ge> 1) (Panic ''log_write outside of trans'')) (\<lambda>_.
     bnd (buf_at b) (\<lambda>bp.
     bnd (upd_lh (\<lambda>h. let i = log_index h (b_sector bp) in
        h\<lparr>lh_sector := (lh_sector h)(i := b_sector bp),
          lh_n := if int i = lh_n h then lh_n h + 1 else lh_n h\<rparr>)) (\<lambda>_.
     upd_buf b (\<lambda>bp. bp\<lparr>b_flags := set_flag B_DIRTY (b_flags bp)\<rparr>))))))"

section \<open>Effect of a sequence of disk events\<close>

fun wdisk :: "dev_event list \<Rightarrow> (nat \<Rightarrow> block) \<Rightarrow> nat \<Rightarrow> block" where
  "wdisk [] d = d"
| "wdisk (DWrite a v # es) d = wdisk es (d(a := v))"
| "wdisk (DFlush # es) d = wdisk es d"

fun wview :: "dev_event list \<Rightarrow> (u32 \<Rightarrow> block) \<Rightarrow> u32 \<Rightarrow> block" where
  "wview [] v = v"
| "wview (DWrite a b # es) v = wview es (v(of_nat a := b))"
| "wview (DFlush # es) v = wview es v"

lemma wdisk_append [simp]: "wdisk (es @ fs) d = wdisk fs (wdisk es d)"
proof (induction es arbitrary: d)
  case (Cons e es)
  then show ?case by (cases e) (simp_all del: fun_upd_apply)
qed simp

lemma wview_append [simp]: "wview (es @ fs) v = wview fs (wview es v)"
proof (induction es arbitrary: v)
  case (Cons e es)
  then show ?case by (cases e) (simp_all del: fun_upd_apply)
qed simp

lemma wdisk_other: "(\<And>v. DWrite a v \<notin> set es) \<Longrightarrow> wdisk es d a = d a"
proof (induction es arbitrary: d)
  case (Cons e es)
  have "wdisk es f a = f a" for f using Cons.prems by (intro Cons.IH) auto
  with Cons.prems show ?case by (cases e) auto
qed simp

lemma wview_other: "(\<And>n v. DWrite n v \<in> set es \<Longrightarrow> of_nat n \<noteq> a) \<Longrightarrow> wview es d a = d a"
proof (induction es arbitrary: d)
  case (Cons e es)
  have "wview es f a = f a" for f using Cons.prems by (intro Cons.IH) auto
  with Cons.prems show ?case by (cases e) auto
qed simp

section \<open>Geometry and invariant\<close>

definition lsec :: "kern \<Rightarrow> u32 list" where
  "lsec s = map (lh_sector (lh (thelog s))) [0..<nat (lh_n (lh (thelog s)))]"

text \<open>The log lies inside the image, behind every home block, and fits the header.\<close>

definition log_geom :: "kern \<Rightarrow> bool" where
  "log_geom s \<longleftrightarrow> os_ok s \<and> nblk s \<le> 2 ^ 19 \<and> log_dev (thelog s) = ROOTDEV \<and>
     2 \<le> log_start (thelog s) \<and> 1 \<le> log_size (thelog s) \<and> log_size (thelog s) \<le> int LOGSIZE \<and>
     log_start (thelog s) + log_size (thelog s) \<le> int (nblk s)"

definition home_sector :: "kern \<Rightarrow> u32 \<Rightarrow> bool" where
  "home_sector s a \<longleftrightarrow> 2 \<le> unat a \<and> unat a < nat (log_start (thelog s))"

definition lsecs_ok :: "kern \<Rightarrow> bool" where
  "lsecs_ok s \<longleftrightarrow> 0 \<le> lh_n (lh (thelog s)) \<and> lh_n (lh (thelog s)) < log_size (thelog s) \<and>
     distinct (lsec s) \<and> list_all (home_sector s) (lsec s)"

text \<open>The log invariant: exactly the logged sectors are pinned.\<close>

definition linv :: "kern \<Rightarrow> bool" where
  "linv s \<longleftrightarrow> binv s \<and> log_geom s \<and> lsecs_ok s \<and> dirty s = set (lsec s)"

lemma rest_log:
  assumes "rest s' = rest s"
  shows "thelog s' = thelog s" "lsec s' = lsec s" "log_geom s' = log_geom s" "lsecs_ok s' = lsecs_ok s"
    "home_sector s' = home_sector s" "sector_ok s' = sector_ok s"
  using assms
  by (simp_all add: rest_eq lsec_def log_geom_def lsecs_ok_def home_sector_def [abs_def]
      sector_ok_def [abs_def])

lemma length_lsec: "length (lsec s) = nat (lh_n (lh (thelog s)))"
  by (simp add: lsec_def)

lemma lsec_nth: "i < length (lsec s) \<Longrightarrow> lh_sector (lh (thelog s)) i = lsec s ! i"
  by (simp add: lsec_def)

lemma unat_log_block:
  assumes "log_geom s" and "int k < log_size (thelog s)"
  shows "unat (log_block (thelog s) k) = nat (log_start (thelog s)) + k"
    and "sector_ok s (log_block (thelog s) k)"
proof -
  from assms have b: "0 \<le> log_start (thelog s) + int k" "log_start (thelog s) + int k < int (nblk s)"
    "nblk s \<le> 2 ^ 19" "os_ok s" by (auto simp: log_geom_def)
  then have "log_start (thelog s) + int k < 2 ^ 32" by simp
  with b(1) have u: "unat (log_block (thelog s) k) = nat (log_start (thelog s) + int k)"
    unfolding log_block_def by (rule unat_of_int_small)
  with assms(1) show "unat (log_block (thelog s) k) = nat (log_start (thelog s)) + k"
    by (simp add: log_geom_def nat_add_distrib)
  show "sector_ok s (log_block (thelog s) k)"
    using u b by (simp add: sector_ok_def)
qed

lemma log_block_inj:
  "log_geom s \<Longrightarrow> int i < log_size (thelog s) \<Longrightarrow> int j < log_size (thelog s) \<Longrightarrow>
   log_block (thelog s) i = log_block (thelog s) j \<longleftrightarrow> i = j"
  by (metis add_left_cancel unat_log_block(1))

lemma log_block_not_home:
  "log_geom s \<Longrightarrow> int k < log_size (thelog s) \<Longrightarrow> home_sector s a \<Longrightarrow> log_block (thelog s) k \<noteq> a"
  using unat_log_block(1) [of s k] by (auto simp: home_sector_def log_geom_def)

lemma home_sector_ok: "log_geom s \<Longrightarrow> home_sector s a \<Longrightarrow> sector_ok s a"
  by (auto simp: home_sector_def log_geom_def sector_ok_def)

lemma lsec_home: "lsecs_ok s \<Longrightarrow> i < length (lsec s) \<Longrightarrow> home_sector s (lsec s ! i)"
  by (auto simp: lsecs_ok_def list_all_length)

lemma lsec_bound: "lsecs_ok s \<Longrightarrow> log_geom s \<Longrightarrow>
    int (length (lsec s)) < log_size (thelog s) \<and> length (lsec s) < LOGSIZE"
  by (auto simp: lsecs_ok_def log_geom_def length_lsec)

text \<open>One more buffer than the logged sectors always fits.\<close>

lemma log_room:
  assumes "lsecs_ok s" "log_geom s" "held s = {}" "dirty s \<subseteq> set (lsec s)" "a \<in> set (lsec s)"
  shows "card (held s \<union> dirty s \<union> {a, b}) \<le> NBUF"
proof -
  have "card (held s \<union> dirty s \<union> {a, b}) \<le> card (insert b (set (lsec s)))"
    using assms by (intro card_mono) auto
  also have "\<dots> \<le> Suc (card (set (lsec s)))" by (rule card_insert_le_m1) auto
  also have "\<dots> \<le> Suc (length (lsec s))" by (simp add: card_length)
  also have "\<dots> \<le> NBUF" using lsec_bound [OF assms(1,2)] by (simp add: layout)
  finally show ?thesis .
qed

section \<open>The copy loops\<close>

definition log_writes :: "kern \<Rightarrow> nat list \<Rightarrow> dev_event list" where
  "log_writes s is =
     map (\<lambda>i. DWrite (unat (log_block (thelog s) (i + 1))) (view s (lsec s ! i))) is"

definition home_writes :: "kern \<Rightarrow> nat list \<Rightarrow> dev_event list" where
  "home_writes s is =
     map (\<lambda>i. DWrite (unat (lsec s ! i)) (view s (log_block (thelog s) (i + 1)))) is"

text \<open>A run of write-through steps with the cache idle before and after.\<close>

definition wstep :: "kern \<Rightarrow> dev_event list \<Rightarrow> kern \<Rightarrow> bool" where
  "wstep s es s' \<longleftrightarrow> binv s' \<and> rest s' = rest s \<and> held s' = held s \<and> disk s' = wdisk es (disk s) \<and>
     view s' = wview es (view s) \<and> events s' = events s @ es"

lemma wstep_trans: "wstep s es t \<Longrightarrow> wstep t fs u \<Longrightarrow> wstep s (es @ fs) u"
  by (simp add: wstep_def)

lemma copied_wstep:
  "bc.copied s src dst s' \<Longrightarrow> wstep s [DWrite (unat dst) (view s src)] s' \<and> dirty s' = dirty s - {dst}"
  by (simp add: bc.copied_def wstep_def)

lemma copy_step:
  assumes "binv s" "log_geom s" "lsecs_ok s" "held s = {}" "dirty s \<subseteq> set (lsec s)" "i < length (lsec s)"
  shows "\<exists>s'. write_log_one i s = Inr ((), s') \<and>
      bc.copied s (lsec s ! i) (log_block (thelog s) (i + 1)) s'"
    and "\<exists>s'. install_one i s = Inr ((), s') \<and>
      bc.copied s (log_block (thelog s) (i + 1)) (lsec s ! i) s'"
proof -
  let ?h = "lsec s ! i" and ?l = "log_block (thelog s) (i + 1)"
  from lsec_bound [OF assms(3,2)] assms(6) have k: "int (i + 1) < log_size (thelog s)" "i < LOGSIZE"
    by auto
  from assms(3,6) have h: "home_sector s ?h" by (rule lsec_home)
  have ne: "?l \<noteq> ?h" by (rule log_block_not_home [OF assms(2) k(1) h])
  have ok: "sector_ok s ?l" "sector_ok s ?h"
    using unat_log_block(2) [OF assms(2) k(1)] home_sector_ok [OF assms(2) h] by auto
  have room: "card (held s \<union> dirty s \<union> {?h, ?l}) \<le> NBUF"
    by (rule log_room) (use assms in auto)
  then have room': "card (held s \<union> dirty s \<union> {?l, ?h}) \<le> NBUF" by (simp add: insert_commute)
  have dev: "log_dev (thelog s) = ROOTDEV" using assms(2) by (simp add: log_geom_def)
  show "\<exists>s'. write_log_one i s = Inr ((), s') \<and> bc.copied s ?h ?l s'"
    using bc.copy_ok(2) [OF assms(1) ok(2,1) ne [symmetric] _ _ room] assms(4) k(2)
    by (simp add: write_log_one_def dev lsec_nth [OF assms(6)])
  show "\<exists>s'. install_one i s = Inr ((), s') \<and> bc.copied s ?l ?h s'"
    using bc.copy_ok(1) [OF assms(1) ok(1,2) ne _ _ room'] assms(4) k(2)
    by (simp add: install_one_def dev lsec_nth [OF assms(6)])
qed

lemma write_log_from_ok:
  assumes "binv s" "log_geom s" "lsecs_ok s" "held s = {}" "dirty s = set (lsec s)"
    "tail + k \<le> length (lsec s)"
  shows "\<exists>s'. write_log_from k tail s = Inr ((), s') \<and> wstep s (log_writes s [tail..<tail + k]) s' \<and>
    dirty s' = dirty s"
  using assms
proof (induction k arbitrary: s tail)
  case 0
  then show ?case by (simp add: log_writes_def wstep_def)
next
  case (Suc k)
  let ?l = "log_block (thelog s) (tail + 1)"
  from copy_step(1) [of s tail] Suc.prems obtain t where t: "write_log_one tail s = Inr ((), t)"
    "bc.copied s (lsec s ! tail) ?l t" by auto
  from lsec_bound [OF Suc.prems(3,2)] Suc.prems(6) have k: "int (tail + 1) < log_size (thelog s)" by simp
  have "?l \<notin> set (lsec s)"
    using log_block_not_home [OF Suc.prems(2) k] Suc.prems(3)
    by (auto simp: lsecs_ok_def list_all_iff)
  with copied_wstep [OF t(2)] Suc.prems(5) have w: "dirty t = dirty s"
    "wstep s [DWrite (unat ?l) (view s (lsec s ! tail))] t" by auto
  then have rt: "rest t = rest s" and bt: "binv t" "held t = {}"
    using Suc.prems(4) by (auto simp: wstep_def)
  note r = rest_log [OF rt]
  have "view t (lsec s ! i) = view s (lsec s ! i)" if "i < length (lsec s)" for i
  proof -
    have "lsec s ! i \<noteq> ?l" using nth_mem [OF that] \<open>?l \<notin> set (lsec s)\<close> by metis
    then show ?thesis using w(2) by (simp add: wstep_def)
  qed
  then have same: "log_writes t [Suc tail..<Suc tail + k] = log_writes s [Suc tail..<Suc tail + k]"
    using Suc.prems(6) by (auto simp: log_writes_def r)
  from Suc.IH [of t "Suc tail"] Suc.prems bt w(1) r obtain s' where s':
    "write_log_from k (Suc tail) t = Inr ((), s')"
    "wstep t (log_writes s [Suc tail..<Suc tail + k]) s'" "dirty s' = dirty t"
    unfolding same [symmetric] by auto
  have "[tail..<tail + Suc k] = tail # [Suc tail..<Suc tail + k]"
    by (simp add: upt_rec)
  then have "log_writes s [tail..<tail + Suc k] =
      [DWrite (unat ?l) (view s (lsec s ! tail))] @ log_writes s [Suc tail..<Suc tail + k]"
    by (simp add: log_writes_def)
  with wstep_trans [OF w(2) s'(2)] t(1) s'(1,3) w(1) show ?case by simp
qed

lemma install_from_ok:
  assumes "binv s" "log_geom s" "lsecs_ok s" "held s = {}" "dirty s \<subseteq> set (lsec s)"
    "tail + k \<le> length (lsec s)"
  shows "\<exists>s'. install_from k tail s = Inr ((), s') \<and> wstep s (home_writes s [tail..<tail + k]) s' \<and>
    dirty s' = dirty s - (!) (lsec s) ` {tail..<tail + k}"
  using assms
proof (induction k arbitrary: s tail)
  case 0
  then show ?case by (simp add: home_writes_def wstep_def)
next
  case (Suc k)
  let ?l = "log_block (thelog s) (tail + 1)" and ?h = "lsec s ! tail"
  from copy_step(2) [of s tail] Suc.prems obtain t where t: "install_one tail s = Inr ((), t)"
    "bc.copied s ?l ?h t" by auto
  from copied_wstep [OF t(2)] have w: "dirty t = dirty s - {?h}"
    "wstep s [DWrite (unat ?h) (view s ?l)] t" by auto
  then have rt: "rest t = rest s" and bt: "binv t" "held t = {}"
    using Suc.prems(4) by (auto simp: wstep_def)
  note r = rest_log [OF rt]
  have h: "home_sector s ?h" using lsec_home Suc.prems(3,6) by simp
  have "view t (log_block (thelog s) (i + 1)) = view s (log_block (thelog s) (i + 1))"
    if "i < length (lsec s)" for i
    using w(2) that log_block_not_home [OF Suc.prems(2) _ h, of "i + 1"] lsec_bound [OF Suc.prems(3,2)]
    by (auto simp: wstep_def)
  then have same: "home_writes t [Suc tail..<Suc tail + k] = home_writes s [Suc tail..<Suc tail + k]"
    using Suc.prems(6) by (auto simp: home_writes_def r)
  from Suc.IH [of t "Suc tail"] Suc.prems bt w(1) r obtain s' where s':
    "install_from k (Suc tail) t = Inr ((), s')"
    "wstep t (home_writes s [Suc tail..<Suc tail + k]) s'"
    "dirty s' = dirty t - (!) (lsec s) ` {Suc tail..<Suc tail + k}"
    unfolding same [symmetric] by auto
  have "[tail..<tail + Suc k] = tail # [Suc tail..<Suc tail + k]"
    by (simp add: upt_rec)
  then have "home_writes s [tail..<tail + Suc k] =
      [DWrite (unat ?h) (view s ?l)] @ home_writes s [Suc tail..<Suc tail + k]"
    by (simp add: home_writes_def)
  moreover have "{tail..<tail + Suc k} = insert tail {Suc tail..<Suc tail + k}" by auto
  then have "dirty s' = dirty s - (!) (lsec s) ` {tail..<tail + Suc k}" using s'(3) w(1) by auto
  ultimately show ?case using wstep_trans [OF w(2) s'(2)] t(1) s'(1) by simp
qed

section \<open>The header\<close>

definition head_events :: "kern \<Rightarrow> dev_event list" where
  "head_events s = [DFlush, DWrite (unat (log_block (thelog s) 0))
     (head_block (lh (thelog s)) (view s (log_block (thelog s) 0))), DFlush]"

lemma ideflush_ok:
  assumes "binv s" "os_ok s"
  shows "\<exists>s'. ideflush s = Inr ((), s') \<and> wstep s [DFlush] s' \<and> dirty s' = dirty s \<and> owns s' = owns s"
  using assms by (simp add: ideflush_def unix_flush_def wstep_def rest_def)

lemma write_head_ok:
  assumes "binv s" "log_geom s" "held s = {}" "log_block (thelog s) 0 \<notin> dirty s"
    "card (dirty s) < NBUF" "lh_n (lh (thelog s)) \<le> int LOGSIZE"
  shows "\<exists>s'. write_head s = Inr ((), s') \<and> wstep s (head_events s) s' \<and> dirty s' = dirty s"
proof -
  have os: "os_ok s" and dev: "log_dev (thelog s) = ROOTDEV" and sz: "int 0 < log_size (thelog s)"
    using assms(2) by (auto simp: log_geom_def)
  from ideflush_ok [OF assms(1) os] obtain t where t: "ideflush s = Inr ((), t)" "wstep s [DFlush] t"
    "dirty t = dirty s" by blast
  then have rt: "rest t = rest s" and bt: "binv t" "held t = held s" "view t = view s"
    "disk t = disk s" "events t = events s @ [DFlush]" by (auto simp: wstep_def)
  note r = rest_log [OF rt]
  let ?a = "log_block (thelog s) 0"
  let ?f = "head_block (lh (thelog s))"
  have ok: "sector_ok t ?a" using unat_log_block(2) [OF assms(2) sz] r by simp
  have mid: "\<exists>t'. ideflush u = Inr ((), t') \<and> binv t' \<and> disk t' = disk u \<and> events t' = events u @ [DFlush] \<and>
      rest t' = rest u \<and> view t' = view u \<and> held t' = held u \<and> dirty t' = dirty u \<and> owns t' = owns u"
    if "binv u" "rest u = rest t" for u
    using ideflush_ok [OF that(1)] that(2) rt os by (auto simp: wstep_def rest_eq)
  have free: "?a \<notin> held t" using assms(3) bt by simp
  have room: "?a \<in> dirty t \<or> card (held t \<union> dirty t) < NBUF" using assms(3,5) bt t(3) by simp
  from bc.rewrite_ok [where k = ideflush and es = "[DFlush]" and f = ?f, OF bt(1) ok free room mid]
  obtain s' where s': "bnd (bread ROOTDEV ?a) (\<lambda>b. bnd (buf_data b) (\<lambda>d.
        bnd (set_data b (?f d)) (\<lambda>_. bnd (bwrite b) (\<lambda>_. bnd ideflush (\<lambda>_. brelse b))))) t = Inr ((), s')"
    "binv s'" "disk s' = (disk t)(unat ?a := ?f (view t ?a))"
    "events s' = events t @ DWrite (unat ?a) (?f (view t ?a)) # [DFlush]" "rest s' = rest t"
    "view s' = (view t)(?a := ?f (view t ?a))" "held s' = held t" "dirty s' = dirty t - {?a}"
    by blast
  have "write_head s = Inr ((), s')"
    using t(1) s'(1) assms(6) by (simp add: write_head_def dev r)
  moreover have "wstep s (head_events s) s'"
    using s' bt rt by (simp add: wstep_def head_events_def)
  moreover have "dirty s' = dirty s" using s'(8) t(3) assms(4) by simp
  ultimately show ?thesis by blast
qed

text \<open>What a reader of the header block sees.\<close>

lemma head_n_block: "0 \<le> lh_n h \<Longrightarrow> lh_n h < 2 ^ 31 \<Longrightarrow> head_n (head_block h d) = lh_n h"
proof -
  assume b: "0 \<le> lh_n h" "lh_n h < 2 ^ 31"
  have "get32 (head_block h d) 0 = word_of_int (lh_n h)"
    unfolding head_block_def by (subst get32_put32s_other) simp_all
  with b show ?thesis
    by (simp add: head_n_def signed_of_int signed_take_bit_int_eq_self)
qed

lemma head_sector_block: "int i < lh_n h \<Longrightarrow> head_sector (head_block h d) i = lh_sector h i"
  unfolding head_sector_def head_block_def
  using get32_put32s [of i "map (lh_sector h) [0..<nat (lh_n h)]" _ 4] by simp

end
