(* ===== verification/Commit.thy ===== *)
theory Commit
  imports Log
begin

text \<open>
  Commit and recovery as a whole: each performs exactly one stated sequence of disk writes
  and flushes and leaves the log empty.  \<open>commit_events\<close> and \<open>recovery_events\<close> are those
  sequences; \<open>Crash\<close> reasons about every prefix of them.
\<close>

section \<open>Writes to distinct places\<close>

lemma wview_map_in:
  assumes "inj_on f (set is)" "j \<in> set is"
  shows "wview (map (\<lambda>i. DWrite (unat (f i)) (g i)) is) v (f j) = g j"
  using assms
proof (induction "is" arbitrary: v)
  case (Cons i "is")
  show ?case
  proof (cases "j \<in> set is")
    case True
    with Cons show ?thesis by (simp add: inj_on_def del: fun_upd_apply)
  next
    case False
    with Cons.prems have j: "j = i" by simp
    have "wview (map (\<lambda>i. DWrite (unat (f i)) (g i)) is) (v(f i := g i)) (f i) = (v(f i := g i)) (f i)"
      by (rule wview_other) (use Cons.prems False j in \<open>auto simp: inj_on_def\<close>)
    with j show ?thesis by simp
  qed
qed simp

lemma wview_map_out:
  "a \<notin> f ` set is \<Longrightarrow> wview (map (\<lambda>i. DWrite (unat (f i)) (g i)) is) v a = v a"
  by (rule wview_other) auto

lemma wdisk_map_in:
  assumes "inj_on f (set is)" "j \<in> set is"
  shows "wdisk (map (\<lambda>i. DWrite (f i) (g i)) is) d (f j) = g j"
  using assms
proof (induction "is" arbitrary: d)
  case (Cons i "is")
  show ?case
  proof (cases "j \<in> set is")
    case True
    with Cons show ?thesis by (simp add: inj_on_def del: fun_upd_apply)
  next
    case False
    with Cons.prems have j: "j = i" by simp
    have "wdisk (map (\<lambda>i. DWrite (f i) (g i)) is) (d(f i := g i)) (f i) = (d(f i := g i)) (f i)"
      by (rule wdisk_other) (use Cons.prems False j in \<open>auto simp: inj_on_def\<close>)
    with j show ?thesis by simp
  qed
qed simp

lemma wdisk_map_out: "a \<notin> f ` set is \<Longrightarrow> wdisk (map (\<lambda>i. DWrite (f i) (g i)) is) d a = d a"
  by (rule wdisk_other) auto

section \<open>Commit\<close>

definition commit_events :: "kern \<Rightarrow> dev_event list" where
  "commit_events s =
     (let h = unat (log_block (thelog s) 0);
          hd1 = head_block (lh (thelog s)) (view s (log_block (thelog s) 0));
          hd0 = head_block ((lh (thelog s))\<lparr>lh_n := 0\<rparr>) hd1
      in log_writes s [0..<length (lsec s)] @ [DFlush, DWrite h hd1, DFlush] @
         map (\<lambda>i. DWrite (unat (lsec s ! i)) (view s (lsec s ! i))) [0..<length (lsec s)] @
         [DFlush, DWrite h hd0, DFlush])"

text \<open>Clearing the in-memory header.\<close>

definition clear_log :: "log \<Rightarrow> log" where
  "clear_log l = l\<lparr>lh := (lh l)\<lparr>lh_n := 0\<rparr>\<rparr>"

lemma clear_log_simps [simp]:
  "log_start (clear_log l) = log_start l" "log_size (clear_log l) = log_size l"
  "log_dev (clear_log l) = log_dev l" "outstanding (clear_log l) = outstanding l"
  "committing (clear_log l) = committing l" "lh (clear_log l) = (lh l)\<lparr>lh_n := 0\<rparr>"
  "log_block (clear_log l) = log_block l"
  by (simp_all add: clear_log_def log_block_def [abs_def])

lemma upd_lh_clear: "upd_lh (\<lambda>h. h\<lparr>lh_n := 0\<rparr>) s = Inr ((), s\<lparr>thelog := clear_log (thelog s)\<rparr>)"
  by (simp add: upd_lh_def upd_log_def clear_log_def)

lemma lsec_log_blocks:
  assumes "log_geom s" "lsecs_ok s"
  shows "inj_on (\<lambda>i. log_block (thelog s) (i + 1)) {..<length (lsec s)}"
    and "i < length (lsec s) \<Longrightarrow> log_block (thelog s) 0 \<noteq> log_block (thelog s) (i + 1)"
    and "i < length (lsec s) \<Longrightarrow> log_block (thelog s) 0 \<noteq> lsec s ! i"
    and "i < length (lsec s) \<Longrightarrow> j < length (lsec s) \<Longrightarrow> log_block (thelog s) (j + 1) \<noteq> lsec s ! i"
proof -
  have b: "int (i + 1) < log_size (thelog s)" if "i < length (lsec s)" for i
    using lsec_bound [OF assms(2,1)] that by linarith
  have z: "int 0 < log_size (thelog s)" using assms(1) by (simp add: log_geom_def)
  show "inj_on (\<lambda>i. log_block (thelog s) (i + 1)) {..<length (lsec s)}"
    using log_block_inj [OF assms(1) b b] by (auto simp: inj_on_def)
  show "i < length (lsec s) \<Longrightarrow> log_block (thelog s) 0 \<noteq> log_block (thelog s) (i + 1)"
    using log_block_inj [OF assms(1) z b, of i] by auto
  show "i < length (lsec s) \<Longrightarrow> log_block (thelog s) 0 \<noteq> lsec s ! i"
    using log_block_not_home [OF assms(1) z lsec_home [OF assms(2)]] by auto
  show "i < length (lsec s) \<Longrightarrow> j < length (lsec s) \<Longrightarrow> log_block (thelog s) (j + 1) \<noteq> lsec s ! i"
    using log_block_not_home [OF assms(1) b lsec_home [OF assms(2)]] by auto
qed

lemma clear_state:
  assumes "binv s" "log_geom s" "lsecs_ok s" "dirty s = {}"
  shows "linv (s\<lparr>thelog := clear_log (thelog s)\<rparr>)"
  using assms
  by (auto simp: linv_def log_geom_def lsecs_ok_def lsec_def)

lemma linv_facts:
  assumes "linv s"
  shows "binv s" "log_geom s" "lsecs_ok s" "dirty s = set (lsec s)" "card (dirty s) < NBUF"
    "log_block (thelog s) 0 \<notin> dirty s" "lh_n (lh (thelog s)) \<le> int LOGSIZE"
proof -
  show l: "binv s" "log_geom s" "lsecs_ok s" and d: "dirty s = set (lsec s)"
    using assms by (auto simp: linv_def)
  show "card (dirty s) < NBUF"
    using d lsec_bound [OF l(3,2)] card_length [of "lsec s"] by (simp add: layout)
  show "log_block (thelog s) 0 \<notin> dirty s"
    using d lsec_log_blocks(3) [OF l(2,3)] by (metis in_set_conv_nth)
  show "lh_n (lh (thelog s)) \<le> int LOGSIZE"
    using l by (auto simp: lsecs_ok_def log_geom_def)
qed

lemma commit_ok:
  assumes inv: "linv s" and idle: "held s = {}" and n: "lh_n (lh (thelog s)) > 0"
  shows "\<exists>s'. commit s = Inr ((), s') \<and> linv s' \<and> held s' = {} \<and> dirty s' = {} \<and>
    rest s' = rest (s\<lparr>thelog := clear_log (thelog s)\<rparr>) \<and>
    events s' = events s @ commit_events s \<and> disk s' = wdisk (commit_events s) (disk s) \<and>
    view s' = wview (commit_events s) (view s)"
proof -
  note l = linv_facts [OF inv]
  note lb = lsec_log_blocks [OF l(2,3)]
  let ?N = "length (lsec s)"
  let ?H = "log_block (thelog s) 0" and ?L = "\<lambda>i. log_block (thelog s) (i + 1)"
  let ?hd1 = "head_block (lh (thelog s)) (view s ?H)"
  let ?hw = "map (\<lambda>i. DWrite (unat (lsec s ! i)) (view s (lsec s ! i))) [0..<?N]"
  from write_log_from_ok [OF l(1-3) idle l(4), of 0 ?N] obtain s1 where s1:
    "write_log_from ?N 0 s = Inr ((), s1)" "wstep s (log_writes s [0..<?N]) s1" "dirty s1 = dirty s" by auto
  then have r1: "rest s1 = rest s" and b1: "binv s1" "held s1 = {}"
    and v1: "view s1 = wview (log_writes s [0..<?N]) (view s)" using idle by (auto simp: wstep_def)
  have "?H \<notin> ?L ` set [0..<?N]"
    using lb(2) by (metis (no_types, lifting) atLeastLessThan_iff imageE set_upt)
  then have H1: "view s1 ?H = view s ?H"
    unfolding v1 log_writes_def by (rule wview_map_out)
  have L1: "view s1 (?L i) = view s (lsec s ! i)" if "i < ?N" for i
    unfolding v1 log_writes_def
    by (rule wview_map_in [of ?L]) (use lb(1) that in \<open>auto simp: atLeast0LessThan\<close>)
  from write_head_ok [of s1] l b1 s1(3) obtain s2 where s2: "write_head s1 = Inr ((), s2)"
    "wstep s1 (head_events s1) s2" "dirty s2 = dirty s" by (auto simp: rest_log [OF r1])
  have he1: "head_events s1 = [DFlush, DWrite (unat ?H) ?hd1, DFlush]"
    by (simp add: head_events_def rest_log [OF r1] H1)
  with s2 b1 r1 have r2: "rest s2 = rest s" and b2: "binv s2" "held s2 = {}"
    and v2: "view s2 = (view s1)(?H := ?hd1)" by (auto simp: wstep_def)
  have L2: "view s2 (?L i) = view s (lsec s ! i)" if "i < ?N" for i
    unfolding v2 using L1 [OF that] lb(2) [OF that] by simp
  then have hw2: "home_writes s2 [0..<?N] = ?hw" by (simp add: home_writes_def rest_log [OF r2])
  from install_from_ok [of s2 0 ?N] l b2 s2(3) obtain s3 where s3: "install_from ?N 0 s2 = Inr ((), s3)"
    "wstep s2 ?hw s3" "dirty s3 = set (lsec s) - (!) (lsec s) ` {0..<?N}"
    by (auto simp: rest_log [OF r2] hw2)
  then have r3: "rest s3 = rest s" and b3: "binv s3" "held s3 = {}" and v3: "view s3 = wview ?hw (view s2)"
    using b2 r2 by (auto simp: wstep_def)
  have d3: "dirty s3 = {}" using s3(3) by (auto simp: in_set_conv_nth)
  have "?H \<notin> (!) (lsec s) ` set [0..<?N]"
    using lb(3) by (metis (no_types, lifting) atLeastLessThan_iff imageE set_upt)
  then have H3: "view s3 ?H = ?hd1"
    unfolding v3 by (subst wview_map_out) (simp_all add: v2)
  let ?s4 = "s3\<lparr>thelog := clear_log (thelog s)\<rparr>"
  have t3: "thelog s3 = thelog s" using rest_log(1) [OF r3] .
  have i4: "linv ?s4"
    using clear_state [of s3] b3 l d3 unfolding t3 by (simp add: rest_log [OF r3])
  have lh4: "lh (thelog ?s4) = (lh (thelog s))\<lparr>lh_n := 0\<rparr>" by simp
  from write_head_ok [of ?s4] linv_facts [OF i4] b3 d3 obtain s5 where s5:
    "write_head ?s4 = Inr ((), s5)" "wstep ?s4 (head_events ?s4) s5" "dirty s5 = {}" by auto
  have he4: "head_events ?s4 = [DFlush, DWrite (unat ?H) (head_block ((lh (thelog s))\<lparr>lh_n := 0\<rparr>) ?hd1), DFlush]"
    by (simp add: head_events_def H3)
  have "commit s = Inr ((), s5)"
    using n s1(1) s2(1) s3(1) s5(1)
    by (simp add: commit_def write_log_def install_trans_def upd_lh_clear rest_log(1) [OF r2] t3 length_lsec)
  moreover have ev: "wstep s (log_writes s [0..<?N] @ [DFlush, DWrite (unat ?H) ?hd1, DFlush] @ ?hw) s3"
    using wstep_trans [OF s1(2) wstep_trans [OF s2(2) s3(2)]] by (simp add: he1)
  have w5: "rest s5 = rest ?s4" "binv s5" "held s5 = {}" "events s5 = events s3 @ head_events ?s4"
    "disk s5 = wdisk (head_events ?s4) (disk s3)" "view s5 = wview (head_events ?s4) (view s3)"
    using s5 b3 by (auto simp: wstep_def)
  have "linv s5"
    using i4 w5 s5(3) linv_facts(4) [OF i4] d3 by (auto simp: linv_def rest_log [OF w5(1)])
  moreover have "rest s5 = rest (s\<lparr>thelog := clear_log (thelog s)\<rparr>)"
    using w5(1) r3 by (simp add: rest_eq)
  ultimately show ?thesis
    using w5 ev s5(3) unfolding he4 by (simp add: wstep_def commit_events_def Let_def)
qed

section \<open>Recovery\<close>

text \<open>What recovery relies on of the image: a sane super block and log header.\<close>

definition sb_len :: "superblock \<Rightarrow> nat" where
  "sb_len sb = unat (sb_nlog sb)"

definition sb_start :: "superblock \<Rightarrow> nat" where
  "sb_start sb = unat (sb_size sb) - sb_len sb"

definition sb_geom :: "superblock \<Rightarrow> nat \<Rightarrow> bool" where
  "sb_geom sb n \<longleftrightarrow> 1 \<le> sb_len sb \<and> sb_len sb \<le> LOGSIZE \<and>
     2 + sb_len sb \<le> unat (sb_size sb) \<and> unat (sb_size sb) \<le> n \<and> n \<le> 2 ^ 19"

definition head_secs :: "block \<Rightarrow> u32 list" where
  "head_secs b = map (head_sector b) [0..<nat (head_n b)]"

definition head_ok :: "superblock \<Rightarrow> block \<Rightarrow> bool" where
  "head_ok sb b \<longleftrightarrow> 0 \<le> head_n b \<and> head_n b < int (sb_len sb) \<and> distinct (head_secs b) \<and>
     (\<forall>a \<in> set (head_secs b). 2 \<le> unat a \<and> unat a < sb_start sb)"

definition recovery_events :: "nat \<Rightarrow> (nat \<Rightarrow> block) \<Rightarrow> dev_event list" where
  "recovery_events st d =
     map (\<lambda>i. DWrite (unat (head_secs (d st) ! i)) (d (st + (i + 1)))) [0..<length (head_secs (d st))] @
     [DFlush, DWrite st (put32 (d st) 0 0), DFlush]"

lemma length_head_secs: "length (head_secs b) = nat (head_n b)"
  by (simp add: head_secs_def)

lemma read_head_ok:
  assumes inv: "binv s" and geom: "log_geom s" and idle: "held s = {}" and clean: "dirty s = {}"
    and n: "head_n (view s (log_block (thelog s) 0)) \<le> int LOGSIZE"
  defines "b \<equiv> view s (log_block (thelog s) 0)"
  shows "\<exists>s'. read_head s = Inr ((), s') \<and> binv s' \<and> held s' = {} \<and> dirty s' = {} \<and>
    view s' = view s \<and> disk s' = disk s \<and> events s' = events s \<and>
    (\<exists>h. rest s' = rest (s\<lparr>thelog := (thelog s)\<lparr>lh := h\<rparr>\<rparr>) \<and> lh_n h = head_n b \<and>
       (\<forall>i. int i < head_n b \<longrightarrow> lh_sector h i = head_sector b i))"
proof -
  let ?a = "log_block (thelog s) 0"
  have dev: "log_dev (thelog s) = ROOTDEV" and sz: "int 0 < log_size (thelog s)"
    using geom by (auto simp: log_geom_def)
  have ok: "sector_ok s ?a" by (rule unat_log_block(2) [OF geom sz])
  have "0 < NBUF" by (simp add: layout)
  with bc.rd_ok [OF inv ok] idle clean obtain c t where t: "bread ROOTDEV ?a s = Inr (c, t)" "binv t"
    "disk t = disk s" "events t = events s" "rest t = rest s" "view t = view s" "held t = {?a}"
    "dirty t = {}" "owns t c ?a" by auto
  let ?h = "(lh (thelog s))\<lparr>lh_n := head_n b,
     lh_sector := (\<lambda>i. if int i < head_n b then head_sector b i else lh_sector (lh (thelog s)) i)\<rparr>"
  let ?t = "t\<lparr>thelog := (thelog t)\<lparr>lh := ?h\<rparr>\<rparr>"
  have tl: "thelog t = thelog s" using rest_log(1) [OF t(5)] .
  have "view ?t ?a = disk ?t (unat ?a)"
    using idle_clean [OF inv, of ?a] idle clean t by simp
  with bc.rel_ok [of ?t c ?a] t obtain s' where s': "brelse c ?t = Inr ((), s')" "binv s'"
    "disk s' = disk t" "events s' = events t" "rest s' = rest ?t" "view s' = view t"
    "held s' = held t - {?a}" "dirty s' = {}" by auto
  have "read_head s = Inr ((), s')"
    using t(1) s'(1) n bc.data_ok [OF t(9)] t(6)
    by (simp add: read_head_def dev upd_lh_def upd_log_def tl b_def cong: if_cong)
  moreover have "rest s' = rest (s\<lparr>thelog := (thelog s)\<lparr>lh := ?h\<rparr>\<rparr>)"
    using s'(5) t(5) by (simp add: rest_eq)
  ultimately show ?thesis
    using s' t by (intro exI [of _ s'] conjI exI [of _ ?h]) simp_all
qed

text \<open>The geometry the super block fixes, as the running log sees it.\<close>

definition log_at :: "kern \<Rightarrow> superblock \<Rightarrow> bool" where
  "log_at s sb \<longleftrightarrow> os_ok s \<and> sb_geom sb (nblk s) \<and> log_dev (thelog s) = ROOTDEV \<and>
     log_start (thelog s) = int (sb_start sb) \<and> log_size (thelog s) = int (sb_len sb)"

lemma log_at_geom:
  assumes "log_at s sb"
  shows "log_geom s" and "unat (log_block (thelog s) 0) = sb_start sb"
    and "k < sb_len sb \<Longrightarrow> unat (log_block (thelog s) k) = sb_start sb + k"
    and "home_sector s a \<longleftrightarrow> 2 \<le> unat a \<and> unat a < sb_start sb"
proof -
  have b: "2 \<le> sb_start sb" "sb_start sb + sb_len sb \<le> nblk s"
    using assms by (auto simp: log_at_def sb_geom_def sb_start_def)
  with assms show g: "log_geom s" by (auto simp: log_geom_def log_at_def sb_geom_def)
  show k: "k < sb_len sb \<Longrightarrow> unat (log_block (thelog s) k) = sb_start sb + k" for k
    using unat_log_block(1) [OF g, of k] assms by (simp add: log_at_def)
  show "unat (log_block (thelog s) 0) = sb_start sb"
    using k [of 0] assms by (auto simp: log_at_def sb_geom_def)
  show "home_sector s a \<longleftrightarrow> 2 \<le> unat a \<and> unat a < sb_start sb"
    using assms by (simp add: home_sector_def log_at_def)
qed

lemma recover_ok:
  assumes inv: "binv s" and idle: "held s = {}" "dirty s = {}" and at: "log_at s sb"
    and hd: "head_ok sb (disk s (sb_start sb))"
  shows "\<exists>s'. recover_from_log s = Inr ((), s') \<and> linv s' \<and> held s' = {} \<and> dirty s' = {} \<and> log_at s' sb \<and>
    lsec s' = [] \<and> outstanding (thelog s') = outstanding (thelog s) \<and>
    committing (thelog s') = committing (thelog s) \<and> nblk s' = nblk s \<and> inodes s' = inodes s \<and>
    ftable s' = ftable s \<and>
    events s' = events s @ recovery_events (sb_start sb) (disk s) \<and>
    disk s' = wdisk (recovery_events (sb_start sb) (disk s)) (disk s)"
proof -
  note g = log_at_geom [OF at]
  let ?H = "log_block (thelog s) 0" and ?b = "disk s (sb_start sb)"
  have vd: "view s a = disk s (unat a)" for a using idle_clean [OF inv] idle by simp
  have vH: "view s ?H = ?b" using vd g(2) by simp
  have nle: "head_n ?b \<le> int LOGSIZE" using hd at by (auto simp: head_ok_def log_at_def sb_geom_def)
  from read_head_ok [OF inv g(1) idle] nle vH obtain t h where t: "read_head s = Inr ((), t)" "binv t"
    "held t = {}" "dirty t = {}" "view t = view s" "disk t = disk s" "events t = events s"
    "rest t = rest (s\<lparr>thelog := (thelog s)\<lparr>lh := h\<rparr>\<rparr>)" "lh_n h = head_n ?b"
    "\<forall>i. int i < head_n ?b \<longrightarrow> lh_sector h i = head_sector ?b i" by auto
  have tl: "thelog t = (thelog s)\<lparr>lh := h\<rparr>" using t(8) by (simp add: rest_eq)
  have lb: "log_block (thelog t) = log_block (thelog s)" by (simp add: tl log_block_def [abs_def])
  have ls: "lsec t = head_secs ?b"
    using t(9,10) hd unfolding lsec_def head_secs_def tl by (auto simp: head_ok_def)
  have at': "log_at t sb" using at t(8) by (simp add: log_at_def rest_eq tl)
  note g' = log_at_geom [OF at']
  have ok: "lsecs_ok t"
    using hd t(9) at' by (auto simp: lsecs_ok_def ls head_ok_def tl list_all_iff g'(4) log_at_def)
  let ?N = "length (lsec t)"
  from install_from_ok [OF t(2) g'(1) ok t(3), of 0 ?N] t(4) obtain u where u:
    "install_from ?N 0 t = Inr ((), u)" "wstep t (home_writes t [0..<?N]) u" "dirty u = {}" by auto
  then have ru: "rest u = rest t" and bu: "binv u" "held u = {}"
    "disk u = wdisk (home_writes t [0..<?N]) (disk t)" "events u = events t @ home_writes t [0..<?N]"
    using t(3) by (auto simp: wstep_def)
  have len: "?N < sb_len sb" using lsec_bound [OF ok g'(1)] at' by (simp add: log_at_def)
  have hw: "home_writes t [0..<?N] =
      map (\<lambda>i. DWrite (unat (head_secs ?b ! i)) (disk s (sb_start sb + (i + 1)))) [0..<length (head_secs ?b)]"
    unfolding home_writes_def ls lb t(5) using len g(3) by (auto simp: vd ls)
  have Hb: "sb_start sb \<noteq> unat (head_secs ?b ! i)" if "i < length (head_secs ?b)" for i
  proof -
    have "unat (head_secs ?b ! i) < sb_start sb"
      using hd nth_mem [OF that] unfolding head_ok_def by blast
    then show ?thesis by simp
  qed
  have uH: "disk u (sb_start sb) = ?b"
    unfolding bu(3) hw t(6) using Hb by (subst wdisk_map_out) auto
  let ?v = "u\<lparr>thelog := clear_log (thelog u)\<rparr>"
  have iv: "linv ?v"
    using clear_state [OF bu(1)] g'(1) ok u(3) by (simp add: rest_log [OF ru])
  have vH': "view ?v ?H = ?b"
    using idle_clean [OF bu(1), of ?H] bu(2) u(3) uH g(2) by simp
  from write_head_ok [of ?v] linv_facts [OF iv] bu u(3) obtain w where w:
    "write_head ?v = Inr ((), w)" "wstep ?v (head_events ?v) w" "dirty w = {}" by auto
  have he: "head_events ?v = [DFlush, DWrite (sb_start sb) (put32 ?b 0 0), DFlush]"
    using vH' g(2) by (simp add: head_events_def head_block_def rest_log(1) [OF ru] lb)
  have w': "rest w = rest ?v" "binv w" "held w = {}" "events w = events u @ head_events ?v"
    "disk w = wdisk (head_events ?v) (disk u)"
    using w bu by (auto simp: wstep_def)
  have tw: "thelog w = clear_log ((thelog s)\<lparr>lh := h\<rparr>)" "nblk w = nblk s" "os_ok w = os_ok s"
    "inodes w = inodes s" "ftable w = ftable s"
    using w'(1) ru t(8) by (auto simp: rest_eq)
  have "recover_from_log s = Inr ((), w)"
    using t(1) u(1) w(1)
    by (simp add: recover_from_log_def install_trans_def upd_lh_clear length_lsec)
  moreover have "linv w"
    using iv w' w(3) u(3) linv_facts(4) [OF iv] by (auto simp: linv_def rest_log [OF w'(1)])
  moreover have "log_at w sb" using at tw by (simp add: log_at_def)
  ultimately show ?thesis
    using w' w(3) tw bu t unfolding he hw by (simp add: recovery_events_def lsec_def)
qed

end
