(* ===== verification/Crash.thy ===== *)
theory Crash
  imports Commit "HOL-Library.Sublist"
begin

text \<open>
  Crash safety of the log.  A crash may strike between any two host calls; it keeps every
  block flushed so far and, of each block written since the last \<open>fsync\<close>, the flushed value
  or any value written to it since (\<open>crash_image\<close>; a block write is taken to be atomic, as
  \<open>log.c\<close> takes the header write to be).  \<open>mount\<close> is the start-up of \<open>fuse.c\<close>'s \<open>main\<close>.
\<close>

section \<open>Mounting\<close>

definition mount :: "unit act" where
  "mount =
     bnd binit (\<lambda>_.
     bnd ideinit (\<lambda>_.
     initlog))"

lemma unat_word_diff: "unat b \<le> unat a \<Longrightarrow> unat (a - b) = unat a - unat (b :: u32)"
  by (simp add: unat_sub word_le_nat_alt)

lemma initlog_ok:
  assumes inv: "binv s" and idle: "held s = {}" "dirty s = {}" and os: "os_ok s"
    and sb: "sb_of_block (disk s 1) = sb" and geom: "sb_geom sb (nblk s)"
    and hd: "head_ok sb (disk s (sb_start sb))"
  shows "\<exists>s'. initlog s = Inr ((), s') \<and> linv s' \<and> held s' = {} \<and> dirty s' = {} \<and> log_at s' sb \<and>
    lsec s' = [] \<and> outstanding (thelog s') = outstanding (thelog s) \<and>
    committing (thelog s') = committing (thelog s) \<and> nblk s' = nblk s \<and> inodes s' = inodes s \<and>
    ftable s' = ftable s \<and>
    events s' = events s @ recovery_events (sb_start sb) (disk s) \<and>
    disk s' = wdisk (recovery_events (sb_start sb) (disk s)) (disk s)"
proof -
  have one: "unat (1 :: u32) = 1" by simp
  have ok: "sector_ok s 1" using os geom by (auto simp: sector_ok_def sb_geom_def)
  have "0 < NBUF" by (simp add: layout)
  with bc.peek_ok [OF inv ok] idle obtain t where t:
    "bnd (bread ROOTDEV 1) (\<lambda>b. bnd (buf_data b) (\<lambda>d. bnd (brelse b) (\<lambda>_. ret d))) s = Inr (view s 1, t)"
    "bc.quiet s t" by auto
  have v1: "view s 1 = disk s 1" using idle_clean [OF inv, of 1] idle by simp
  have rd: "readsb ROOTDEV s = Inr (sb, t)"
    using t(1) v1 sb unfolding readsb_def by (auto simp: bnd_eq_Inr)
  have q: "binv t" "held t = {}" "dirty t = {}" "disk t = disk s" "events t = events s" "rest t = rest s"
    using t(2) idle by (auto simp: bc.quiet_def)
  let ?u = "t\<lparr>thelog := (thelog t)\<lparr>log_start := sint (sb_size sb - sb_nlog sb),
     log_size := sint (sb_nlog sb), log_dev := ROOTDEV\<rparr>\<rparr>"
  have st: "unat (sb_size sb - sb_nlog sb) = sb_start sb"
    using geom by (simp add: unat_word_diff sb_start_def sb_geom_def sb_len_def)
  have small: "unat (sb_size sb - sb_nlog sb) < 2 ^ 19" "unat (sb_nlog sb) < 2 ^ 19"
    using geom st by (auto simp: sb_geom_def sb_start_def sb_len_def layout)
  have "sint (sb_size sb - sb_nlog sb) = int (unat (sb_size sb - sb_nlog sb))"
    "sint (sb_nlog sb) = int (unat (sb_nlog sb))"
    using small by (simp_all add: sector_ok_sint)
  then have at: "log_at ?u sb"
    unfolding st using os geom q(6) by (simp add: log_at_def rest_eq sb_len_def)
  have run: "initlog s = recover_from_log ?u"
    using rd by (simp add: initlog_def upd_log_def layout)
  show ?thesis
    unfolding run
    using recover_ok [of ?u, OF _ _ _ at] hd q by (simp add: rest_eq)
qed

lemma mount_ok:
  assumes sb: "sb_of_block (d 1) = sb" and geom: "sb_geom sb n" and hd: "head_ok sb (d (sb_start sb))"
  shows "\<exists>t. mount (process_start d n) = Inr ((), t) \<and> linv t \<and> held t = {} \<and> dirty t = {} \<and>
    log_at t sb \<and> lsec t = [] \<and> outstanding (thelog t) = 0 \<and> committing (thelog t) = 0 \<and>
    nblk t = n \<and> inodes t = (\<lambda>_. zero_inode) \<and> ftable t = (\<lambda>_. zero_file) \<and>
    events t = recovery_events (sb_start sb) d \<and>
    disk t = wdisk (recovery_events (sb_start sb) d) d"
proof -
  let ?s = "process_start d n"
  from binit_binv [of ?s] obtain b where b: "binit ?s = Inr ((), b)" "binv b" "held b = {}" "dirty b = {}"
    "disk b = d" "events b = []" "rest b = rest ?s"
    by (auto simp: process_start_def zero_buf_def)
  then have r: "os_ok b" "nblk b = n" "thelog b = zero_log" "inodes b = (\<lambda>_. zero_inode)"
    "ftable b = (\<lambda>_. zero_file)" by (simp_all add: rest_eq process_start_def)
  from initlog_ok [OF b(2-4) r(1)] b r sb geom hd show ?thesis
    by (auto simp: mount_def ideinit_def zero_log_def)
qed

section \<open>Crash images\<close>

fun crun :: "dev_event list \<Rightarrow> (nat \<Rightarrow> block) \<Rightarrow> (nat \<times> block) list \<Rightarrow> (nat \<Rightarrow> block) \<times> (nat \<times> block) list" where
  "crun [] d p = (d, p)"
| "crun (DWrite a v # es) d p = crun es d (p @ [(a, v)])"
| "crun (DFlush # es) d p = crun es (fold (\<lambda>(a, v) d. d(a := v)) p d) []"

definition crash_image :: "dev_event list \<Rightarrow> (nat \<Rightarrow> block) \<Rightarrow> (nat \<Rightarrow> block) \<Rightarrow> bool" where
  "crash_image es d d' \<longleftrightarrow> (\<forall>a. d' a = fst (crun es d []) a \<or> (a, d' a) \<in> set (snd (crun es d [])))"

definition pending :: "dev_event list \<Rightarrow> (nat \<times> block) list" where
  "pending es = concat (map (\<lambda>e. case e of DWrite a v \<Rightarrow> [(a, v)] | DFlush \<Rightarrow> []) es)"

definition writes_only :: "dev_event list \<Rightarrow> bool" where
  "writes_only es \<longleftrightarrow> DFlush \<notin> set es"

lemma crun_append: "crun (es @ fs) d p = (case crun es d p of (e, q) \<Rightarrow> crun fs e q)"
  by (induction es d p rule: crun.induct) auto

lemma crun_writes: "writes_only es \<Longrightarrow> crun es d p = (d, p @ pending es)"
proof (induction es arbitrary: p)
  case (Cons e es)
  then show ?case by (cases e) (auto simp: writes_only_def pending_def)
qed (simp add: pending_def)

lemma apply_pending: "writes_only es \<Longrightarrow> fold (\<lambda>(a, v) d. d(a := v)) (pending es) d = wdisk es d"
proof (induction es arbitrary: d)
  case (Cons e es)
  then show ?case by (cases e) (auto simp: writes_only_def pending_def simp del: fun_upd_apply)
qed (simp add: pending_def)

lemma pending_iff: "(a, v) \<in> set (pending es) \<longleftrightarrow> DWrite a v \<in> set es"
  by (force simp: pending_def split: dev_event.splits)

lemma writes_only_prefix: "prefix es fs \<Longrightarrow> writes_only fs \<Longrightarrow> writes_only es"
  by (auto simp: writes_only_def prefix_def)

text \<open>
  The two-phase protocol of \<open>commit\<close>: the blocks \<open>A\<close>, a barrier, the header \<open>h1\<close>, a barrier,
  the blocks \<open>B\<close>, a barrier, the header \<open>h0\<close>, a barrier.  Every crash image is of one of four
  kinds.
\<close>

definition protocol :: "dev_event list \<Rightarrow> nat \<Rightarrow> block \<Rightarrow> dev_event list \<Rightarrow> block \<Rightarrow> dev_event list" where
  "protocol A h h1 B h0 = A @ [DFlush, DWrite h h1, DFlush] @ B @ [DFlush, DWrite h h0, DFlush]"

lemma crash_protocol:
  assumes A: "writes_only A" and B: "writes_only B" and pre: "prefix es (protocol A h h1 B h0)"
    and cr: "crash_image es d d'"
  defines "dA \<equiv> wdisk A d" and "dB \<equiv> wdisk B ((wdisk A d)(h := h1))"
  shows "(\<forall>a. d' a = d a \<or> DWrite a (d' a) \<in> set A) \<or>
    (\<forall>a. a \<noteq> h \<longrightarrow> d' a = dA a) \<and> (d' h = dA h \<or> d' h = h1) \<or>
    (\<forall>a. d' a = (dA(h := h1)) a \<or> DWrite a (d' a) \<in> set B) \<or>
    (\<forall>a. a \<noteq> h \<longrightarrow> d' a = dB a) \<and> (d' h = dB h \<or> d' h = h0)"
proof -
  note simps = crash_image_def crun_append crun_writes [OF A] crun_writes [OF B] apply_pending [OF A]
    apply_pending [OF B] dA_def dB_def
  from pre consider (a) "prefix es A"
    | (b) us where "es = A @ us" "prefix us [DFlush, DWrite h h1, DFlush]"
    | (c) us where "es = A @ [DFlush, DWrite h h1, DFlush] @ us" "prefix us B"
    | (d) us where "es = A @ [DFlush, DWrite h h1, DFlush] @ B @ us"
        "prefix us [DFlush, DWrite h h0, DFlush]"
    unfolding protocol_def prefix_append by fastforce
  then show ?thesis
  proof cases
    case a
    from this A have "writes_only es" by (rule writes_only_prefix)
    with cr have "d' x = d x \<or> DWrite x (d' x) \<in> set es" for x
      by (auto simp: crash_image_def crun_writes pending_iff)
    with a show ?thesis by (meson set_mono_prefix subsetD)
  next
    case b
    then consider "us = []" | "us = [DFlush]" | "us = [DFlush, DWrite h h1]"
      | "us = [DFlush, DWrite h h1, DFlush]" by (auto simp: prefix_Cons)
    then show ?thesis
    proof cases
      case 1
      with b cr have "d' x = d x \<or> DWrite x (d' x) \<in> set A" for x
        by (auto simp: crash_image_def crun_writes [OF A] pending_iff)
      then show ?thesis by blast
    qed (use b cr in \<open>auto simp: simps\<close>)
  next
    case c
    from c(2) B have w: "writes_only us" by (rule writes_only_prefix)
    with c(1) cr have "d' x = (dA(h := h1)) x \<or> DWrite x (d' x) \<in> set us" for x
      by (auto simp: simps crun_writes [OF w] pending_iff)
    with c(2) show ?thesis by (meson set_mono_prefix subsetD)
  next
    case d
    then consider "us = []" | "us = [DFlush]" | "us = [DFlush, DWrite h h0]"
      | "us = [DFlush, DWrite h h0, DFlush]" by (auto simp: prefix_Cons)
    then show ?thesis
    proof cases
      case 1
      with d cr have "d' x = (dA(h := h1)) x \<or> DWrite x (d' x) \<in> set B" for x
        by (auto simp: simps pending_iff)
      then show ?thesis by blast
    qed (use d cr in \<open>auto simp: simps\<close>)
  qed
qed

section \<open>Replaying a committed header\<close>

definition recovered :: "nat \<Rightarrow> (nat \<Rightarrow> block) \<Rightarrow> nat \<Rightarrow> block" where
  "recovered st d = wdisk (recovery_events st d) d"

lemma head_secs_below: "head_ok sb b \<Longrightarrow> i < length (head_secs b) \<Longrightarrow> unat (head_secs b ! i) < sb_start sb"
  by (auto simp: head_ok_def)

lemma recovered_in:
  assumes hd: "head_ok sb (d (sb_start sb))" and i: "i < length (head_secs (d (sb_start sb)))"
  shows "recovered (sb_start sb) d (unat (head_secs (d (sb_start sb)) ! i)) = d (sb_start sb + (i + 1))"
proof -
  let ?b = "d (sb_start sb)"
  have "inj_on (\<lambda>i. unat (head_secs ?b ! i)) (set [0..<length (head_secs ?b)])"
    using hd by (auto simp: head_ok_def inj_on_def nth_eq_iff_index_eq simp flip: word_unat_eq_iff)
  from wdisk_map_in [OF this, of i "\<lambda>i. d (sb_start sb + (i + 1))" d] i head_secs_below [OF hd i]
  show ?thesis by (simp add: recovered_def recovery_events_def)
qed

lemma recovered_out:
  assumes "a \<noteq> st" "a \<notin> unat ` set (head_secs (d st))"
  shows "recovered st d a = d a"
  using assms by (simp add: recovered_def recovery_events_def)
    (subst wdisk_map_out, auto)

lemma recovered_empty: "head_n (d st) = 0 \<Longrightarrow> a \<noteq> st \<Longrightarrow> recovered st d a = d a"
  by (rule recovered_out) (simp_all add: head_secs_def)

lemma unat_image_iff: "unat (a :: u32) \<in> unat ` A \<longleftrightarrow> a \<in> A"
  by (auto simp flip: word_unat_eq_iff)

lemma empty_head_ok: "head_n b = 0 \<Longrightarrow> sb_geom sb n \<Longrightarrow> head_ok sb b"
  by (simp add: head_ok_def head_secs_def sb_geom_def)

section \<open>Commit as an instance of the protocol\<close>

definition log_copy :: "kern \<Rightarrow> dev_event list" where
  "log_copy s = log_writes s [0..<length (lsec s)]"

definition home_copy :: "kern \<Rightarrow> dev_event list" where
  "home_copy s = map (\<lambda>i. DWrite (unat (lsec s ! i)) (view s (lsec s ! i))) [0..<length (lsec s)]"

definition committed_head :: "kern \<Rightarrow> block" where
  "committed_head s = head_block (lh (thelog s)) (view s (log_block (thelog s) 0))"

definition cleared_head :: "kern \<Rightarrow> block" where
  "cleared_head s = head_block ((lh (thelog s))\<lparr>lh_n := 0\<rparr>) (committed_head s)"

lemma commit_protocol:
  "log_at s sb \<Longrightarrow> commit_events s =
     protocol (log_copy s) (sb_start sb) (committed_head s) (home_copy s) (cleared_head s)"
  by (simp add: commit_events_def protocol_def log_copy_def home_copy_def committed_head_def
      cleared_head_def Let_def log_at_geom(2))

lemma copies_write: "writes_only (log_copy s)" "writes_only (home_copy s)"
  by (auto simp: writes_only_def log_copy_def home_copy_def log_writes_def)

lemma committed_head_ok:
  assumes "linv s" "log_at s sb"
  shows "head_secs (committed_head s) = lsec s" "head_ok sb (committed_head s)"
    "head_n (cleared_head s) = 0"
proof -
  note l = linv_facts [OF assms(1)]
  have b: "0 \<le> lh_n (lh (thelog s))" "lh_n (lh (thelog s)) < int (sb_len sb)"
    "lh_n (lh (thelog s)) < 2 ^ 31"
    using l assms(2) by (auto simp: lsecs_ok_def log_at_def layout)
  then have n: "head_n (committed_head s) = lh_n (lh (thelog s))"
    by (simp add: committed_head_def head_n_block)
  then show secs: "head_secs (committed_head s) = lsec s"
    by (auto simp: head_secs_def lsec_def committed_head_def head_sector_block)
  show "head_ok sb (committed_head s)"
    using b n l(3) log_at_geom(4) [OF assms(2)]
    by (auto simp: head_ok_def secs lsecs_ok_def list_all_iff)
  show "head_n (cleared_head s) = 0"
    by (simp add: cleared_head_def head_n_block)
qed

lemma log_copy_disk:
  assumes "linv s" "log_at s sb"
  shows "DWrite a v \<in> set (log_copy s) \<Longrightarrow> sb_start sb < a"
    and "a \<le> sb_start sb \<Longrightarrow> wdisk (log_copy s) d a = d a"
    and "i < length (lsec s) \<Longrightarrow> wdisk (log_copy s) d (sb_start sb + (i + 1)) = view s (lsec s ! i)"
proof -
  note l = linv_facts [OF assms(1)]
  have len: "length (lsec s) < sb_len sb"
    using lsec_bound [OF l(3,2)] assms(2) by (simp add: log_at_def)
  note at = log_at_geom(3) [OF assms(2)]
  have eq: "log_copy s = map (\<lambda>i. DWrite (sb_start sb + (i + 1)) (view s (lsec s ! i))) [0..<length (lsec s)]"
    using len at by (simp add: log_copy_def log_writes_def)
  show "DWrite a v \<in> set (log_copy s) \<Longrightarrow> sb_start sb < a" by (auto simp: eq)
  show "a \<le> sb_start sb \<Longrightarrow> wdisk (log_copy s) d a = d a"
    by (rule wdisk_other) (auto simp: eq)
  show "i < length (lsec s) \<Longrightarrow> wdisk (log_copy s) d (sb_start sb + (i + 1)) = view s (lsec s ! i)"
    unfolding eq using wdisk_map_in [of "\<lambda>i. sb_start sb + (i + 1)" "[0..<length (lsec s)]" i]
    by (simp add: inj_on_def)
qed

lemma home_copy_disk:
  assumes "linv s"
  shows "DWrite a v \<in> set (home_copy s) \<Longrightarrow> a \<in> unat ` set (lsec s)"
    and "a \<notin> unat ` set (lsec s) \<Longrightarrow> wdisk (home_copy s) d a = d a"
    and "b \<in> set (lsec s) \<Longrightarrow> wdisk (home_copy s) d (unat b) = view s b"
proof -
  note l = linv_facts [OF assms]
  show "DWrite a v \<in> set (home_copy s) \<Longrightarrow> a \<in> unat ` set (lsec s)" by (auto simp: home_copy_def)
  show "a \<notin> unat ` set (lsec s) \<Longrightarrow> wdisk (home_copy s) d a = d a"
    by (rule wdisk_other) (auto simp: home_copy_def)
  have "inj_on (\<lambda>i. unat (lsec s ! i)) (set [0..<length (lsec s)])"
    using l(3) by (auto simp: lsecs_ok_def inj_on_def nth_eq_iff_index_eq simp flip: word_unat_eq_iff)
  from wdisk_map_in [OF this] show "b \<in> set (lsec s) \<Longrightarrow> wdisk (home_copy s) d (unat b) = view s b"
    by (auto simp: home_copy_def in_set_conv_nth)
qed

section \<open>Atomicity\<close>

text \<open>A disk whose header is committed and whose log holds the transaction recovers to it.\<close>

lemma recovered_new:
  assumes inv: "linv s" and at: "log_at s sb" and h: "d (sb_start sb) = committed_head s"
    and lg: "\<And>i. i < length (lsec s) \<Longrightarrow> d (sb_start sb + (i + 1)) = view s (lsec s ! i)"
    and hm: "\<And>a. unat a < sb_start sb \<Longrightarrow> a \<notin> set (lsec s) \<Longrightarrow> d (unat a) = view s a"
    and a: "unat a < sb_start sb"
  shows "recovered (sb_start sb) d (unat a) = view s a"
proof (cases "a \<in> set (lsec s)")
  case True
  then obtain i where i: "i < length (lsec s)" "lsec s ! i = a" by (auto simp: in_set_conv_nth)
  note c = committed_head_ok [OF inv at]
  have "head_ok sb (d (sb_start sb))" "i < length (head_secs (d (sb_start sb)))"
    using c i h by simp_all
  from recovered_in [where d = d, OF this] i h c(1) lg [OF i(1)] show ?thesis by simp
next
  case False
  have "unat a \<notin> unat ` set (head_secs (d (sb_start sb)))"
    using False h committed_head_ok(1) [OF inv at] by (simp add: unat_image_iff)
  with a hm [OF a False] show ?thesis by (simp add: recovered_out)
qed

lemma atomic_images:
  assumes inv: "linv s" and idle: "held s = {}" and at: "log_at s sb"
    and hd: "head_n (disk s (sb_start sb)) = 0" and pre: "prefix es (commit_events s)"
    and cr: "crash_image es (disk s) d"
  shows "head_ok sb (d (sb_start sb))" "d 1 = disk s 1"
    and "(\<forall>a < sb_start sb. recovered (sb_start sb) d a = disk s a) \<or>
      (\<forall>a. unat a < sb_start sb \<longrightarrow> recovered (sb_start sb) d (unat a) = view s a)"
proof -
  let ?h = "sb_start sb" and ?hd = "committed_head s"
  note l = linv_facts [OF inv] and c = committed_head_ok [OF inv at]
  note lc = log_copy_disk [OF inv at] and hc = home_copy_disk [OF inv]
  have geom: "sb_geom sb (nblk s)" using at by (simp add: log_at_def)
  have h2: "2 \<le> ?h" using geom by (auto simp: sb_geom_def sb_start_def)
  have one: "1 \<notin> unat ` set (lsec s)" and hN: "?h \<notin> unat ` set (lsec s)"
    and hl: "\<And>i. ?h + (i + 1) \<notin> unat ` set (lsec s)"
    using l(3) log_at_geom(4) [OF at] by (auto simp: lsecs_ok_def list_all_iff)
  have clean: "disk s (unat a) = view s a" if "a \<notin> set (lsec s)" for a
    using idle_clean [OF l(1), of a] that idle l(4) by simp
  let ?old = "\<forall>a < ?h. recovered ?h d a = disk s a"
  let ?new = "\<forall>a. unat a < ?h \<longrightarrow> recovered ?h d (unat a) = view s a"
  note new = recovered_new [OF inv at]
  have eo: "head_ok sb b" if "head_n b = 0" for b using empty_head_ok [OF that geom] .
  from crash_protocol [OF copies_write pre [unfolded commit_protocol [OF at]] cr]
  consider (k1) "\<forall>a. d a = disk s a \<or> DWrite a (d a) \<in> set (log_copy s)"
    | (k2) "\<forall>a. a \<noteq> ?h \<longrightarrow> d a = wdisk (log_copy s) (disk s) a" "d ?h = disk s ?h \<or> d ?h = ?hd"
    | (k3) "\<forall>a. d a = ((wdisk (log_copy s) (disk s))(?h := ?hd)) a \<or> DWrite a (d a) \<in> set (home_copy s)"
    | (k4) "\<forall>a. a \<noteq> ?h \<longrightarrow> d a = wdisk (home_copy s) ((wdisk (log_copy s) (disk s))(?h := ?hd)) a"
        "d ?h = ?hd \<or> d ?h = cleared_head s"
    using lc(2) [of ?h] hc(2) [OF hN] by auto
  then have "head_ok sb (d ?h) \<and> d 1 = disk s 1 \<and> (?old \<or> ?new)"
  proof cases
    case k1
    then have same: "d a = disk s a" if "a \<le> ?h" for a using that lc(1) by (meson leD)
    then have "head_n (d ?h) = 0" using hd by simp
    with eo same h2 show ?thesis by (simp add: recovered_empty)
  next
    case k2
    then have low: "d a = disk s a" if "a < ?h" for a using that lc(2) by auto
    show ?thesis
    proof (cases "d ?h = ?hd")
      case True
      then have ?new using k2(1) lc(3) low clean by (auto intro!: new)
      with True c h2 low show ?thesis by simp
    next
      case False
      then have "head_n (d ?h) = 0" using k2 hd by simp
      with eo low h2 show ?thesis by (simp add: recovered_empty)
    qed
  next
    case k3
    then have out: "d a = ((wdisk (log_copy s) (disk s))(?h := ?hd)) a" if "a \<notin> unat ` set (lsec s)" for a
      using that hc(1) by blast
    have low: "d (unat a) = disk s (unat a)" if "unat a < ?h" "a \<notin> set (lsec s)" for a
      using out [of "unat a"] that lc(2) by (simp add: unat_image_iff)
    have "d ?h = ?hd" using out [OF hN] by simp
    moreover have "d (?h + (i + 1)) = view s (lsec s ! i)" if "i < length (lsec s)" for i
      using out [OF hl, of i] lc(3) [OF that] by simp
    ultimately have ?new using low clean by (auto intro!: new)
    moreover have "d 1 = disk s 1" using out [OF one] h2 lc(2) by simp
    ultimately show ?thesis using \<open>d ?h = ?hd\<close> c by simp
  next
    case k4
    have dB: "d (unat a) = view s a" if "unat a < ?h" for a
    proof (cases "a \<in> set (lsec s)")
      case True
      with k4(1) that hc(3) show ?thesis by auto
    next
      case False
      then have "unat a \<notin> unat ` set (lsec s)" by (simp add: unat_image_iff)
      with k4(1) that hc(2) lc(2) clean [OF False] show ?thesis by auto
    qed
    have d1: "d 1 = disk s 1" using k4(1) h2 hc(2) [OF one] lc(2) by simp
    show ?thesis
    proof (cases "d ?h = ?hd")
      case True
      have "d (?h + (i + 1)) = view s (lsec s ! i)" if "i < length (lsec s)" for i
        using k4(1) hc(2) [OF hl, of _ i] lc(3) [OF that] by simp
      with True dB have ?new by (auto intro!: new)
      with True c d1 show ?thesis by simp
    next
      case False
      then have "head_n (d ?h) = 0" using k4 c(3) by simp
      with eo dB d1 show ?thesis by (simp add: recovered_empty)
    qed
  qed
  then show "head_ok sb (d ?h)" "d 1 = disk s 1" "?old \<or> ?new" by blast+
qed

end
