(* ===== verification/Trans.thy ===== *)
theory Trans
  imports Crash
begin

text \<open>
  Transactions as the file-system code uses them: \<open>begin_op\<close> reserves log space, \<open>log_write\<close>
  pins a modified buffer and records its sector once, \<open>end_op\<close> of the last operation commits.
  The state between them is described by \<open>view\<close> alone (\<open>tstep\<close>), which is what the
  allocator, inode and directory lemmas are stated over.
\<close>

section \<open>log_write\<close>

text \<open>The header after \<open>log_write\<close> of sector \<open>a\<close>.\<close>

definition log_add :: "u32 \<Rightarrow> u32 list \<Rightarrow> u32 list" where
  "log_add a xs = (if a \<in> set xs then xs else xs @ [a])"

lemma log_add_simps [simp]:
  "set (log_add a xs) = insert a (set xs)" "distinct (log_add a xs) \<longleftrightarrow> distinct xs"
  "length (log_add a xs) \<le> Suc (length xs)"
  by (auto simp: log_add_def)

lemma log_index_cases:
  assumes "0 \<le> lh_n h"
  defines "xs \<equiv> map (lh_sector h) [0..<nat (lh_n h)]"
  shows "a \<in> set xs \<Longrightarrow> log_index h a < nat (lh_n h) \<and> lh_sector h (log_index h a) = a"
    and "a \<notin> set xs \<Longrightarrow> log_index h a = nat (lh_n h)"
proof -
  let ?f = "List.find (\<lambda>i. lh_sector h i = a) [0..<nat (lh_n h)]"
  show "a \<in> set xs \<Longrightarrow> log_index h a < nat (lh_n h) \<and> lh_sector h (log_index h a) = a"
  proof (cases ?f)
    case None
    moreover assume "a \<in> set xs"
    ultimately show ?thesis by (auto simp: xs_def find_None_iff)
  next
    case (Some i)
    then show ?thesis by (auto simp: log_index_def dest: find_SomeD)
  qed
  assume "a \<notin> set xs"
  then have "?f = None" by (auto simp: xs_def find_None_iff)
  then show "log_index h a = nat (lh_n h)" by (simp add: log_index_def)
qed

definition add_sector :: "u32 \<Rightarrow> logheader \<Rightarrow> logheader" where
  "add_sector a h = (let i = log_index h a in
     h\<lparr>lh_sector := (lh_sector h)(i := a), lh_n := if int i = lh_n h then lh_n h + 1 else lh_n h\<rparr>)"

lemma add_sector_list:
  assumes "0 \<le> lh_n h"
  defines "xs \<equiv> map (lh_sector h) [0..<nat (lh_n h)]"
  shows "map (lh_sector (add_sector a h)) [0..<nat (lh_n (add_sector a h))] = log_add a xs"
    and "lh_n (add_sector a h) = int (length (log_add a xs))"
proof -
  note ix = log_index_cases [OF assms(1), of a]
  have "map (lh_sector (add_sector a h)) [0..<nat (lh_n (add_sector a h))] = log_add a xs \<and>
    lh_n (add_sector a h) = int (length (log_add a xs))"
  proof (cases "a \<in> set xs")
    case True
    with ix(1) have i: "log_index h a < nat (lh_n h)" "lh_sector h (log_index h a) = a"
      by (simp_all add: xs_def)
    have u: "(lh_sector h)(log_index h a := a) = lh_sector h"
      using i(2) by (rule fun_upd_idem [where f = "lh_sector h"])
    have n: "int (log_index h a) \<noteq> lh_n h" using i by linarith
    show ?thesis using True u n assms(1) by (simp add: add_sector_def Let_def log_add_def xs_def)
  next
    case False
    with ix(2) have i: "log_index h a = nat (lh_n h)" by (simp add: xs_def)
    have sn: "nat (lh_n h + 1) = Suc (nat (lh_n h))" using assms(1) by linarith
    show ?thesis
      using False assms(1) by (auto simp: add_sector_def Let_def log_add_def xs_def i sn)
  qed
  then show "map (lh_sector (add_sector a h)) [0..<nat (lh_n (add_sector a h))] = log_add a xs"
    "lh_n (add_sector a h) = int (length (log_add a xs))" by auto
qed

lemma log_write_run:
  assumes inv: "binv s" and own: "owns s b a" and n0: "0 \<le> lh_n (lh (thelog s))"
    and sz: "log_size (thelog s) \<le> int LOGSIZE" and out: "outstanding (thelog s) \<ge> 1"
    and room: "int (length (lsec s)) < log_size (thelog s) - 1"
  shows "\<exists>s'. log_write b s = Inr ((), s') \<and> binv s' \<and> lsec s' = log_add a (lsec s) \<and>
    view s' = view s \<and> held s' = held s \<and> dirty s' = insert a (dirty s) \<and> owns s' = owns s \<and>
    disk s' = disk s \<and> events s' = events s \<and>
    rest s' = rest (s\<lparr>thelog := (thelog s)\<lparr>lh := add_sector a (lh (thelog s))\<rparr>\<rparr>)"
proof -
  have len: "lh_n (lh (thelog s)) = int (length (lsec s))" using n0 by (simp add: length_lsec)
  have sec: "b_sector (bufs s b) = a"
    using own inv slot_Some [of s a b] by (simp add: owns_def binv_def)
  let ?t = "s\<lparr>thelog := (thelog s)\<lparr>lh := add_sector a (lh (thelog s))\<rparr>\<rparr>"
  have "binv ?t" "owns ?t b a" using inv own by simp_all
  from pin_ok [OF this] obtain s' where s':
    "upd_buf b (\<lambda>bp. bp\<lparr>b_flags := set_flag B_DIRTY (b_flags bp)\<rparr>) ?t = Inr ((), s')" "cstep ?t s'"
    "view s' = view ?t" "held s' = held ?t" "dirty s' = insert a (dirty ?t)" "owns s' = owns ?t" by blast
  note cs = cstepD [OF s'(2)]
  have tl: "thelog s' = thelog ?t" using cs by (simp add: rest_eq)
  have ls: "lsec s' = log_add a (lsec s)"
    using add_sector_list(1) [OF n0, of a] by (simp add: lsec_def tl)
  have "log_write b s = Inr ((), s')"
    using s'(1) out room len sz sec
    by (simp add: log_write_def buf_at_def upd_lh_def upd_log_def add_sector_def Let_def)
  then show ?thesis using ls s' cs by simp
qed

lemma log_write_ok:
  assumes inv: "linv s" and own: "owns s b a" and hm: "home_sector s a"
    and out: "outstanding (thelog s) \<ge> 1"
    and room: "int (length (lsec s)) < log_size (thelog s) - 1"
  shows "\<exists>s'. log_write b s = Inr ((), s') \<and> linv s' \<and> lsec s' = log_add a (lsec s) \<and>
    view s' = view s \<and> held s' = held s \<and> dirty s' = insert a (dirty s) \<and> owns s' = owns s \<and>
    disk s' = disk s \<and> events s' = events s \<and>
    rest s' = rest (s\<lparr>thelog := (thelog s)\<lparr>lh := add_sector a (lh (thelog s))\<rparr>\<rparr>)"
proof -
  note l = linv_facts [OF inv]
  have n0: "0 \<le> lh_n (lh (thelog s))" using l(3) by (simp add: lsecs_ok_def)
  have sz: "log_size (thelog s) \<le> int LOGSIZE" using l(2) by (simp add: log_geom_def)
  from log_write_run [OF l(1) own n0 sz out room] obtain s' where s': "log_write b s = Inr ((), s')"
    "binv s'" "lsec s' = log_add a (lsec s)" "view s' = view s" "held s' = held s"
    "dirty s' = insert a (dirty s)" "owns s' = owns s" "disk s' = disk s" "events s' = events s"
    "rest s' = rest (s\<lparr>thelog := (thelog s)\<lparr>lh := add_sector a (lh (thelog s))\<rparr>\<rparr>)" by blast
  have tl: "thelog s' = (thelog s)\<lparr>lh := add_sector a (lh (thelog s))\<rparr>" using s'(10) by (simp add: rest_eq)
  have g: "log_geom s'" using l(2) s'(10) by (simp add: log_geom_def rest_eq)
  have "lh_n (lh (thelog s')) = int (length (log_add a (lsec s)))"
    using add_sector_list(2) [OF n0, of a] by (simp add: lsec_def tl)
  moreover have "int (length (log_add a (lsec s))) < log_size (thelog s)"
    using log_add_simps(3) [of a "lsec s"] room by linarith
  ultimately have "lsecs_ok s'"
    using l(3) hm
    by (auto simp: lsecs_ok_def s'(3) home_sector_def tl list_all_iff)
  then have "linv s'" using s' g l(4) by (simp add: linv_def)
  with s' show ?thesis by blast
qed

section \<open>begin_op and end_op\<close>

lemma begin_op_eq:
  "begin_op s =
     (if committing (thelog s) \<noteq> 0 then Inl (Hang ''begin_op: sleep'')
      else if \<not> int_range ((outstanding (thelog s) + 1) * int MAXOPBLOCKS) \<or>
        \<not> int_range (lh_n (lh (thelog s)) + (outstanding (thelog s) + 1) * int MAXOPBLOCKS) then Inl (Undef ''outstanding+1'')
      else if lh_n (lh (thelog s)) + (outstanding (thelog s) + 1) * int MAXOPBLOCKS > int LOGSIZE
      then Inl (Hang ''begin_op: sleep'')
      else Inr ((), s\<lparr>thelog := (thelog s)\<lparr>outstanding := outstanding (thelog s) + 1\<rparr>\<rparr>))"
  by (simp add: begin_op_unfold upd_log_def)

lemma linv_two_counts [simp]:
  "linv (s\<lparr>thelog := (thelog s)\<lparr>outstanding := k, committing := c\<rparr>\<rparr>) = linv s"
  by (simp add: linv_def log_geom_def lsecs_ok_def lsec_def home_sector_def [abs_def])

lemma linv_counts [simp]:
  "linv (s\<lparr>thelog := (thelog s)\<lparr>outstanding := k\<rparr>\<rparr>) = linv s"
  "linv (s\<lparr>thelog := (thelog s)\<lparr>committing := c\<rparr>\<rparr>) = linv s"
  by (simp_all add: linv_def log_geom_def lsecs_ok_def lsec_def home_sector_def [abs_def])

section \<open>Updates inside a transaction\<close>

text \<open>What no update inside a transaction changes, apart from the inode cache.\<close>

definition tenv :: "kern \<Rightarrow> nat \<times> bool \<times> u32 \<times> nat option \<times> (nat \<Rightarrow> xfile) \<times> int \<times> int \<times> int \<times> int \<times> u32" where
  "tenv s = (nblk s, os_ok s, clock s, curproc s, ftable s, log_start (thelog s), log_size (thelog s),
     outstanding (thelog s), committing (thelog s), log_dev (thelog s))"

lemma tenv_eq:
  "tenv s' = tenv s \<longleftrightarrow> nblk s' = nblk s \<and> os_ok s' = os_ok s \<and> clock s' = clock s \<and>
     curproc s' = curproc s \<and> ftable s' = ftable s \<and> log_start (thelog s') = log_start (thelog s) \<and>
     log_size (thelog s') = log_size (thelog s) \<and> outstanding (thelog s') = outstanding (thelog s) \<and>
     committing (thelog s') = committing (thelog s) \<and> log_dev (thelog s') = log_dev (thelog s)"
  by (auto simp: tenv_def)

lemma tenv_rest: "rest s' = rest s \<Longrightarrow> tenv s' = tenv s"
  by (simp add: rest_eq tenv_eq)

lemma tenv_geom:
  assumes "tenv s' = tenv s"
  shows "home_sector s' = home_sector s" "sector_ok s' = sector_ok s" "log_geom s' = log_geom s"
    "log_at s' = log_at s"
  using assms
  by (auto simp: tenv_eq home_sector_def [abs_def] sector_ok_def [abs_def] log_geom_def log_at_def [abs_def])

text \<open>A step that only changes the cache's view, the log header and the inode cache.\<close>

definition tstep :: "kern \<Rightarrow> kern \<Rightarrow> bool" where
  "tstep s s' \<longleftrightarrow> linv s' \<and> tenv s' = tenv s \<and> disk s' = disk s \<and> events s' = events s \<and> owns s' = owns s"

lemma tstep_refl: "linv s \<Longrightarrow> tstep s s"
  by (simp add: tstep_def)

lemma tstep_trans: "tstep s t \<Longrightarrow> tstep t u \<Longrightarrow> tstep s u"
  by (simp add: tstep_def)

lemma held_owns: "held s = {a. \<exists>b. owns s b a}"
  using bc.owns_iff_held by auto

lemma tstep_held: "tstep s s' \<Longrightarrow> held s' = held s"
  by (simp add: tstep_def held_owns)

lemma tstep_linv: "tstep s s' \<Longrightarrow> linv s'"
  by (simp add: tstep_def)

lemma tstep_geom:
  assumes "tstep s s'"
  shows "home_sector s' = home_sector s" "sector_ok s' = sector_ok s" "log_at s' = log_at s"
    "log_size (thelog s') = log_size (thelog s)" "outstanding (thelog s') = outstanding (thelog s)"
    "clock s' = clock s" "ftable s' = ftable s" "curproc s' = curproc s"
  using assms tenv_geom [of s' s] by (auto simp: tstep_def tenv_eq)

text \<open>Room for one more buffer: the pinned and the held ones do not fill the cache.\<close>

definition room :: "kern \<Rightarrow> nat \<Rightarrow> bool" where
  "room s k \<longleftrightarrow> card (held s) + length (lsec s) + k \<le> NBUF"

lemma room_card: "linv s \<Longrightarrow> room s k \<Longrightarrow> card (held s \<union> dirty s) + k \<le> NBUF"
proof -
  assume "linv s" "room s k"
  have "card (held s \<union> dirty s) \<le> card (held s) + card (dirty s)" by (rule card_Un_le)
  also have "card (dirty s) \<le> length (lsec s)"
    using linv_facts(4) [OF \<open>linv s\<close>] card_length [of "lsec s"] by simp
  finally show ?thesis using \<open>room s k\<close> by (simp add: room_def)
qed

lemma peek_step:
  assumes inv: "linv s" and ok: "sector_ok s a" and free: "a \<notin> held s" and rm: "room s 1"
  shows "\<exists>s'. bnd (bread ROOTDEV a) (\<lambda>b. bnd (buf_data b) (\<lambda>d. bnd (brelse b) (\<lambda>_. k d))) s = k (view s a) s' \<and>
    tstep s s' \<and> view s' = view s \<and> lsec s' = lsec s \<and> inodes s' = inodes s"
proof -
  note l = linv_facts [OF inv]
  have "card (held s \<union> dirty s) < NBUF" using room_card [OF inv rm] by simp
  with bc.peek_ok [OF l(1) ok free] obtain s' where s':
    "bnd (bread ROOTDEV a) (\<lambda>b. bnd (buf_data b) (\<lambda>d. bnd (brelse b) (\<lambda>_. ret d))) s = Inr (view s a, s')"
    "bc.quiet s s'" by auto
  have r: "rest s' = rest s" using s'(2) by (simp add: bc.quiet_def)
  have "linv s'" using s'(2) inv rest_log [OF r] by (simp add: linv_def bc.quiet_def)
  moreover have "bnd (bread ROOTDEV a) (\<lambda>b. bnd (buf_data b) (\<lambda>d. bnd (brelse b) (\<lambda>_. k d))) s = k (view s a) s'"
    using s'(1) by (auto simp: bnd_eq_Inr)
  ultimately show ?thesis
    using s'(2) tenv_rest [OF r] rest_log(2) [OF r] r by (auto simp: tstep_def bc.quiet_def rest_eq)
qed

text \<open>Reading the super block inside a transaction.\<close>

lemma readsb_step:
  assumes "linv s" "1 \<notin> held s" "room s 1"
  shows "\<exists>s'. readsb ROOTDEV s = Inr (sb_of_block (view s 1), s') \<and> tstep s s' \<and> view s' = view s \<and>
    lsec s' = lsec s \<and> inodes s' = inodes s"
proof -
  have "sector_ok s 1" using linv_facts(2) [OF assms(1)] by (auto simp: log_geom_def sector_ok_def)
  from peek_step [OF assms(1) this assms(2,3), of "\<lambda>d. ret (sb_of_block d)"]
  show ?thesis by (simp add: readsb_def)
qed

text \<open>
  The three phases of every update: read the buffer, possibly work on others, then either
  release it unchanged or store new data, log it and release it.
\<close>

lemma bread_step:
  assumes inv: "linv s" and ok: "sector_ok s a" and free: "a \<notin> held s" and rm: "room s 1"
  shows "\<exists>b t. bread ROOTDEV a s = Inr (b, t) \<and> linv t \<and> tenv t = tenv s \<and> disk t = disk s \<and>
    events t = events s \<and> view t = view s \<and> lsec t = lsec s \<and> inodes t = inodes s \<and> owns t b a \<and>
    held t = insert a (held s) \<and> (\<forall>c x. owns s c x \<longrightarrow> owns t c x)"
proof -
  note l = linv_facts [OF inv]
  have "card (held s \<union> dirty s) < NBUF" using room_card [OF inv rm] by simp
  with bc.rd_ok [OF l(1) ok free] obtain b t where t: "bread ROOTDEV a s = Inr (b, t)" "binv t"
    "disk t = disk s" "events t = events s" "rest t = rest s" "view t = view s"
    "held t = insert a (held s)" "dirty t = dirty s" "owns t b a" "\<forall>c x. owns s c x \<longrightarrow> owns t c x"
    by blast
  note r = rest_log [OF t(5)]
  have "linv t" using inv t r by (simp add: linv_def)
  with t r tenv_rest [OF t(5)] show ?thesis by (auto simp: rest_eq)
qed

lemma brelse_step:
  assumes inv: "linv t" and own: "owns t b a" and clean: "a \<in> dirty t \<or> view t a = disk t (unat a)"
  shows "\<exists>s'. brelse b t = Inr ((), s') \<and> linv s' \<and> tenv s' = tenv t \<and> disk s' = disk t \<and>
    events s' = events t \<and> view s' = view t \<and> lsec s' = lsec t \<and> inodes s' = inodes t \<and>
    held s' = held t - {a} \<and> (\<forall>c x. owns s' c x \<longleftrightarrow> owns t c x \<and> x \<noteq> a)"
proof -
  note l = linv_facts [OF inv]
  from bc.rel_ok [OF l(1) own clean] obtain s' where s': "brelse b t = Inr ((), s')" "binv s'"
    "disk s' = disk t" "events s' = events t" "rest s' = rest t" "view s' = view t"
    "held s' = held t - {a}" "dirty s' = dirty t" "\<forall>c x. owns s' c x \<longleftrightarrow> owns t c x \<and> x \<noteq> a" by blast
  note r = rest_log [OF s'(5)]
  have "linv s'" using inv s' r by (simp add: linv_def)
  with s' r tenv_rest [OF s'(5)] show ?thesis by (auto simp: rest_eq)
qed

lemma logged_step:
  assumes inv: "linv t" and own: "owns t b a" and hm: "home_sector t a"
    and out: "outstanding (thelog t) \<ge> 1" and fit: "int (length (lsec t)) + 1 < log_size (thelog t)"
  shows "\<exists>u v s'. set_data b d t = Inr ((), u) \<and> log_write b u = Inr ((), v) \<and> brelse b v = Inr ((), s') \<and>
    linv s' \<and> tenv s' = tenv t \<and> disk s' = disk t \<and> events s' = events t \<and>
    view s' = (view t)(a := d) \<and> lsec s' = log_add a (lsec t) \<and> inodes s' = inodes t \<and>
    held s' = held t - {a} \<and> (\<forall>c x. owns s' c x \<longleftrightarrow> owns t c x \<and> x \<noteq> a)"
proof -
  note l = linv_facts [OF inv]
  from bc.put_ok [OF l(1) own, of d] obtain u where u: "set_data b d t = Inr ((), u)" "binv u"
    "disk u = disk t" "events u = events t" "rest u = rest t" "view u = (view t)(a := d)"
    "held u = held t" "dirty u = dirty t" "owns u = owns t" by blast
  note r = rest_log [OF u(5)]
  have iu: "linv u" using inv u r by (simp add: linv_def)
  from log_write_ok [OF iu, of b a] own hm out fit u r obtain v where v: "log_write b u = Inr ((), v)"
    "linv v" "lsec v = log_add a (lsec t)" "view v = view u" "held v = held u"
    "dirty v = insert a (dirty u)" "owns v = owns u" "disk v = disk u" "events v = events u"
    "rest v = rest (u\<lparr>thelog := (thelog u)\<lparr>lh := add_sector a (lh (thelog u))\<rparr>\<rparr>)" by auto
  have ev: "tenv v = tenv t" "inodes v = inodes t" using v(10) u(5) by (auto simp: tenv_eq rest_eq)
  have "owns v b a" "a \<in> dirty v" using own v u by simp_all
  with brelse_step [OF v(2)] obtain s' where s': "brelse b v = Inr ((), s')" "linv s'" "tenv s' = tenv v"
    "disk s' = disk v" "events s' = events v" "view s' = view v" "lsec s' = lsec v" "inodes s' = inodes v"
    "held s' = held v - {a}" "\<forall>c x. owns s' c x \<longleftrightarrow> owns v c x \<and> x \<noteq> a" by blast
  show ?thesis
    by (intro exI [of _ u] exI [of _ v] exI [of _ s'] conjI) (use u v s' ev in simp_all)
qed

lemma home_usable: "linv s \<Longrightarrow> home_sector s a \<Longrightarrow> sector_ok s a"
  by (rule home_sector_ok [OF linv_facts(2)])

lemma clean_or_dirty: "linv s \<Longrightarrow> a \<notin> held s \<Longrightarrow> a \<in> dirty s \<or> view s a = disk s (unat a)"
  using idle_clean [OF linv_facts(1)] by blast

text \<open>
  The session lemma: having read sector \<open>a\<close> into \<open>b\<close>, the caller sees its data and can either
  release it or replace it; both end in a \<open>tstep\<close> from the state before.
\<close>

lemma session:
  assumes inv: "linv s" and ok: "sector_ok s a" and free: "a \<notin> held s" and rm: "room s 1"
  obtains b t where "bread ROOTDEV a s = Inr (b, t)" "buf_data b t = Inr (view s a, t)"
    "\<exists>s'. brelse b t = Inr ((), s') \<and> tstep s s' \<and> view s' = view s \<and> lsec s' = lsec s \<and> inodes s' = inodes s"
    "\<And>d. home_sector s a \<Longrightarrow> outstanding (thelog s) \<ge> 1 \<Longrightarrow> int (length (lsec s)) + 1 < log_size (thelog s) \<Longrightarrow>
      \<exists>u v s'. set_data b d t = Inr ((), u) \<and> log_write b u = Inr ((), v) \<and> brelse b v = Inr ((), s') \<and>
        tstep s s' \<and> view s' = (view s)(a := d) \<and> lsec s' = log_add a (lsec s) \<and> inodes s' = inodes s"
proof -
  from bread_step [OF assms] obtain b t where t: "bread ROOTDEV a s = Inr (b, t)" "linv t"
    "tenv t = tenv s" "disk t = disk s" "events t = events s" "view t = view s" "lsec t = lsec s"
    "inodes t = inodes s" "owns t b a" "held t = insert a (held s)" "\<forall>c x. owns s c x \<longrightarrow> owns t c x"
    by blast
  have rel_owns: "owns s' = owns s" if "\<forall>c x. owns s' c x \<longleftrightarrow> owns t c x \<and> x \<noteq> a" for s'
    by (rule bc.owns_after_release [OF t(10,11) free that])
  have data: "buf_data b t = Inr (view s a, t)" using bc.data_ok [OF t(9)] t(6) by simp
  have "dirty t = dirty s" using linv_facts(4) inv t(2,7) by simp
  then have cl: "a \<in> dirty t \<or> view t a = disk t (unat a)"
    using clean_or_dirty [OF inv free] t by simp
  from brelse_step [OF t(2,9) cl] rel_owns have rel:
    "\<exists>s'. brelse b t = Inr ((), s') \<and> tstep s s' \<and> view s' = view s \<and> lsec s' = lsec s \<and> inodes s' = inodes s"
    using t by (auto simp: tstep_def)
  have upd: "\<exists>u v s'. set_data b d t = Inr ((), u) \<and> log_write b u = Inr ((), v) \<and> brelse b v = Inr ((), s') \<and>
        tstep s s' \<and> view s' = (view s)(a := d) \<and> lsec s' = log_add a (lsec s) \<and> inodes s' = inodes s"
    if "home_sector s a" "outstanding (thelog s) \<ge> 1" "int (length (lsec s)) + 1 < log_size (thelog s)" for d
  proof -
    from that t(3,7) have "home_sector t a" "outstanding (thelog t) \<ge> 1"
      "int (length (lsec t)) + 1 < log_size (thelog t)" using tenv_geom [OF t(3)] by (auto simp: tenv_eq)
    from logged_step [OF t(2,9) this, of d] rel_owns show ?thesis
      unfolding tstep_def t(3-8) by metis
  qed
  show ?thesis by (rule that [OF t(1) data rel upd])
qed

end
