(* ===== verification/Log_Props.thy ===== *)
theory Log_Props
  imports Trans
begin

text \<open>
  What the log promises: commits are atomic and durable under crashes, mounting may itself
  crash any number of times, anywhere in its device events, and transactions stay inside the log.
\<close>

section \<open>Crashes during recovery\<close>

text \<open>
  A process starts on the image \<open>d\<close> of \<open>n\<close> blocks, mounts it, and the machine stops somewhere in
  the device events of that mount, with any of the writes since the last flush lost.
\<close>

definition recovery_crash :: "nat \<Rightarrow> (nat \<Rightarrow> block) \<Rightarrow> (nat \<Rightarrow> block) \<Rightarrow> bool" where
  "recovery_crash n d d' \<longleftrightarrow>
     (\<exists>t es. mount (process_start d n) = Inr ((), t) \<and> prefix es (events t) \<and> crash_image es d d')"

lemma recovery_crash_events:
  assumes "sb_of_block (d 1) = sb" "sb_geom sb n" "head_ok sb (d (sb_start sb))"
  shows "recovery_crash n d d' \<longleftrightarrow> (\<exists>es. prefix es (recovery_events (sb_start sb) d) \<and> crash_image es d d')"
  using mount_ok [where d = d, OF assms] unfolding recovery_crash_def by auto

definition replay_copy :: "nat \<Rightarrow> (nat \<Rightarrow> block) \<Rightarrow> dev_event list" where
  "replay_copy st d =
     map (\<lambda>i. DWrite (unat (head_secs (d st) ! i)) (d (st + (i + 1)))) [0..<length (head_secs (d st))]"

lemma recovery_split: "recovery_events st d = replay_copy st d @ [DFlush, DWrite st (put32 (d st) 0 0), DFlush]"
  by (simp add: recovery_events_def replay_copy_def)

lemma replay_writes: "writes_only (replay_copy st d)"
  by (auto simp: writes_only_def replay_copy_def)

lemma cleared_head_n: "head_n (put32 b 0 0) = 0"
  by (simp add: head_n_def)

lemma recovered_replay: "a \<noteq> st \<Longrightarrow> recovered st d a = wdisk (replay_copy st d) d a"
  by (simp add: recovered_def recovery_split)

lemma replay_addr: "DWrite a v \<in> set (replay_copy st d) \<Longrightarrow> a \<in> unat ` set (head_secs (d st))"
  by (auto simp: replay_copy_def)

text \<open>An image that agrees on the header, the log and the blocks no header names recovers the same.\<close>

lemma recovered_cong:
  assumes hd: "head_ok sb (d (sb_start sb))" and "d' (sb_start sb) = d (sb_start sb)"
    and "\<And>a. a \<notin> unat ` set (head_secs (d (sb_start sb))) \<Longrightarrow> d' a = d a" and "a < sb_start sb"
  shows "recovered (sb_start sb) d' a = recovered (sb_start sb) d a"
proof (cases "a \<in> unat ` set (head_secs (d (sb_start sb)))")
  case True
  then obtain i where i: "i < length (head_secs (d (sb_start sb)))" "a = unat (head_secs (d (sb_start sb)) ! i)"
    by (auto simp: in_set_conv_nth)
  have "sb_start sb + (i + 1) \<notin> unat ` set (head_secs (d (sb_start sb)))"
    using hd by (auto simp: head_ok_def)
  then have "d' (sb_start sb + (i + 1)) = d (sb_start sb + (i + 1))" by (rule assms(3))
  moreover have "recovered (sb_start sb) d' a = d' (sb_start sb + (i + 1))"
    using recovered_in [where d = d' and sb = sb and i = i] hd i assms(2) by simp
  moreover have "recovered (sb_start sb) d a = d (sb_start sb + (i + 1))"
    using recovered_in [where d = d and sb = sb and i = i] hd i by simp
  ultimately show ?thesis by simp
next
  case False
  with assms show ?thesis by (simp add: recovered_out)
qed

lemma recovery_crash_step:
  assumes sb: "sb_of_block (d 1) = sb" and geom: "sb_geom sb n" and hd: "head_ok sb (d (sb_start sb))"
    and cr: "recovery_crash n d d'"
  shows "head_ok sb (d' (sb_start sb))" "d' 1 = d 1"
    "a < sb_start sb \<Longrightarrow> recovered (sb_start sb) d' a = recovered (sb_start sb) d a"
proof -
  let ?h = "sb_start sb" and ?S = "unat ` set (head_secs (d (sb_start sb)))"
  let ?B = "replay_copy ?h d"
  have hS: "?h \<notin> ?S" "1 \<notin> ?S" using hd by (auto simp: head_ok_def)
  have h2: "2 \<le> ?h" using geom by (auto simp: sb_geom_def sb_start_def)
  have rB: "wdisk ?B d a = d a" if "a \<notin> ?S" for a
    by (rule wdisk_other) (use that replay_addr in blast)
  from cr obtain es where es: "prefix es (?B @ [DFlush, DWrite ?h (put32 (d ?h) 0 0), DFlush])"
    "crash_image es d d'" by (auto simp: recovery_crash_events [where d = d, OF sb geom hd] recovery_split)
  have "(\<forall>a. d' a = d a \<or> DWrite a (d' a) \<in> set ?B) \<or>
      (\<forall>a. a \<noteq> ?h \<longrightarrow> d' a = wdisk ?B d a) \<and> (d' ?h = wdisk ?B d ?h \<or> d' ?h = put32 (d ?h) 0 0)"
  proof (cases "prefix es ?B")
    case True
    from True have w: "writes_only es" using replay_writes by (rule writes_only_prefix)
    with es(2) have "d' a = d a \<or> DWrite a (d' a) \<in> set es" for a
      by (auto simp: crash_image_def crun_writes pending_iff)
    with True show ?thesis by (meson set_mono_prefix subsetD)
  next
    case False
    with es(1) obtain us where us: "es = ?B @ us" "prefix us [DFlush, DWrite ?h (put32 (d ?h) 0 0), DFlush]"
      "us \<noteq> []" by (auto simp: prefix_append)
    then consider "us = [DFlush]" | "us = [DFlush, DWrite ?h (put32 (d ?h) 0 0)]"
      | "us = [DFlush, DWrite ?h (put32 (d ?h) 0 0), DFlush]" by (auto simp: prefix_Cons)
    then show ?thesis
      by cases (use us es(2) in \<open>auto simp: crash_image_def crun_append crun_writes [OF replay_writes]
          apply_pending [OF replay_writes]\<close>)
  qed
  then have "head_ok sb (d' ?h) \<and> d' 1 = d 1 \<and> (\<forall>a<?h. recovered ?h d' a = recovered ?h d a)"
  proof
    assume k: "\<forall>a. d' a = d a \<or> DWrite a (d' a) \<in> set ?B"
    then have out: "d' a = d a" if "a \<notin> ?S" for a using that replay_addr by blast
    with recovered_cong [where d = d and d' = d', OF hd] hS hd show ?thesis by simp
  next
    assume k: "(\<forall>a. a \<noteq> ?h \<longrightarrow> d' a = wdisk ?B d a) \<and> (d' ?h = wdisk ?B d ?h \<or> d' ?h = put32 (d ?h) 0 0)"
    have one: "d' 1 = d 1" using k rB [OF hS(2)] h2 by auto
    show ?thesis
    proof (cases "d' ?h = d ?h")
      case True
      have "d' a = d a" if "a \<notin> ?S" for a using k rB [OF that] True by (cases "a = ?h") auto
      with recovered_cong [where d = d and d' = d', OF hd True] True hd one show ?thesis by simp
    next
      case False
      then have z: "head_n (d' ?h) = 0" using k rB [OF hS(1)] by (auto simp: cleared_head_n)
      with k one empty_head_ok [OF z geom] show ?thesis by (auto simp: recovered_empty recovered_replay)
    qed
  qed
  then show "head_ok sb (d' ?h)" "d' 1 = d 1" "a < ?h \<Longrightarrow> recovered ?h d' a = recovered ?h d a" by blast+
qed

lemma recovery_crashes:
  assumes "(recovery_crash n)\<^sup>*\<^sup>* d d'" and geom: "sb_geom sb n"
    and "sb_of_block (d 1) = sb" "head_ok sb (d (sb_start sb))"
  shows "head_ok sb (d' (sb_start sb)) \<and> d' 1 = d 1 \<and>
    (\<forall>a < sb_start sb. recovered (sb_start sb) d' a = recovered (sb_start sb) d a)"
  using assms(1,3,4)
proof induction
  case (step y z)
  then have "sb_of_block (y 1) = sb" "head_ok sb (y (sb_start sb))" by auto
  from recovery_crash_step [OF this(1) geom this(2) step(2)] step show ?case by auto
qed simp

section \<open>A running transaction\<close>

definition sample_sb :: superblock where
  "sample_sb = \<lparr>sb_size = 100, sb_nblocks = 60, sb_ninodes = 64, sb_nlog = 30\<rparr>"

definition sample_disk :: "nat \<Rightarrow> block" where
  "sample_disk = (\<lambda>_. zero_block)(1 := put_sb zero_block sample_sb)"

definition sample_txn :: "unit act" where
  "sample_txn =
     bnd mount (\<lambda>_.
     bnd begin_op (\<lambda>_.
     bnd (bread ROOTDEV 40) (\<lambda>b.
     bnd (set_data b (\<lambda>_. 7)) (\<lambda>_.
     bnd (log_write b) (\<lambda>_.
     brelse b)))))"

lemma sample_geom: "sb_start sample_sb = 70" "sb_len sample_sb = 30" "sb_geom sample_sb 100"
  by (simp_all add: sb_start_def sb_len_def sb_geom_def sample_sb_def layout)

lemma sample_head: "head_n (sample_disk 70) = 0" "head_ok sample_sb (sample_disk 70)"
    "sb_of_block (sample_disk 1) = sample_sb"
proof -
  show z: "head_n (sample_disk 70) = 0" by (simp add: sample_disk_def head_n_def)
  show "head_ok sample_sb (sample_disk 70)" by (rule empty_head_ok [OF z sample_geom(3)])
  show "sb_of_block (sample_disk 1) = sample_sb" by (simp add: sample_disk_def)
qed

lemma sample_recovered: "a \<noteq> 70 \<Longrightarrow> wdisk (recovery_events 70 sample_disk) sample_disk a = sample_disk a"
  using recovered_empty [where d = sample_disk, OF sample_head(1)] by (simp add: recovered_def)

lemma sample_recovered_head: "head_n (wdisk (recovery_events 70 sample_disk) sample_disk 70) = 0"
  by (simp add: recovery_split head_n_def)

lemma sample_ok:
  "\<exists>s. sample_txn (process_start sample_disk 100) = Inr ((), s) \<and> linv s \<and> held s = {} \<and> log_at s sample_sb \<and>
     sb_of_block (disk s 1) = sample_sb \<and> head_n (disk s 70) = 0 \<and> lsec s = [40] \<and> view s 40 = (\<lambda>_. 7) \<and>
     disk s 40 = zero_block \<and> outstanding (thelog s) = 1 \<and> committing (thelog s) = 0"
proof -
  from mount_ok [where d = sample_disk, OF sample_head(3) sample_geom(3)] sample_head(2) sample_geom obtain m where m:
    "mount (process_start sample_disk 100) = Inr ((), m)" "linv m" "held m = {}" "log_at m sample_sb"
    "lsec m = []" "outstanding (thelog m) = 0" "committing (thelog m) = 0"
    "disk m = wdisk (recovery_events 70 sample_disk) sample_disk" by auto
  have n0: "lh_n (lh (thelog m)) = 0"
    using linv_facts(3) [OF m(2)] m(5) length_lsec [of m] by (simp add: lsecs_ok_def)
  let ?s = "m\<lparr>thelog := (thelog m)\<lparr>outstanding := 1\<rparr>\<rparr>"
  have b: "begin_op m = Inr ((), ?s)" using m n0 by (simp add: begin_op_eq layout)
  have s: "linv ?s" "held ?s = {}" "log_at ?s sample_sb" "lsec ?s = []"
    using m by (simp_all add: log_at_def lsec_def)
  have hm: "home_sector ?s 40"
    using log_at_geom(4) [OF s(3)] sample_geom by simp
  have sz: "log_size (thelog ?s) = 30" using s(3) sample_geom by (simp add: log_at_def)
  have rm: "room ?s 1" using s by (simp add: room_def layout)
  from session [OF s(1) home_usable [OF s(1) hm] _ rm] s obtain c t where t: "bread ROOTDEV 40 ?s = Inr (c, t)"
    "\<And>d. home_sector ?s 40 \<Longrightarrow> outstanding (thelog ?s) \<ge> 1 \<Longrightarrow> int (length (lsec ?s)) + 1 < log_size (thelog ?s) \<Longrightarrow>
      \<exists>u v s'. set_data c d t = Inr ((), u) \<and> log_write c u = Inr ((), v) \<and> brelse c v = Inr ((), s') \<and>
        tstep ?s s' \<and> view s' = (view ?s)(40 := d) \<and> lsec s' = log_add 40 (lsec ?s) \<and> inodes s' = inodes ?s"
    by (metis empty_iff)
  from t(2) [of "\<lambda>_. 7"] hm s sz obtain u v s' where s': "set_data c (\<lambda>_. 7) t = Inr ((), u)"
    "log_write c u = Inr ((), v)" "brelse c v = Inr ((), s')" "tstep ?s s'"
    "view s' = (view ?s)(40 := (\<lambda>_. 7))" "lsec s' = [40]" by (auto simp: log_add_def)
  have run: "sample_txn (process_start sample_disk 100) = Inr ((), s')"
    using m(1) b t(1) s'(1-3) by (simp add: sample_txn_def)
  have "disk s' = disk m" "tenv s' = tenv ?s" using s'(4) by (auto simp: tstep_def)
  moreover have "sample_disk 40 = zero_block" by (simp add: sample_disk_def)
  ultimately show ?thesis
    using run s' s tstep_linv [OF s'(4)] tstep_held [OF s'(4)] tstep_geom(3) [OF s'(4)] m
      sample_recovered sample_recovered_head sample_head(3)
    by (auto simp: tenv_eq)
qed

text \<open>Mounting an image with an empty log and opening a transaction on it.\<close>

definition sample_open :: "unit act" where
  "sample_open = bnd mount (\<lambda>_. begin_op)"

lemma mount_begin:
  assumes "sb_of_block (d 1) = sb" "sb_geom sb n" and hd: "head_n (d (sb_start sb)) = 0"
  shows "\<exists>s. sample_open (process_start d n) = Inr ((), s) \<and> linv s \<and> held s = {} \<and> lsec s = [] \<and>
    log_at s sb \<and> outstanding (thelog s) = 1 \<and> committing (thelog s) = 0 \<and>
    inodes s = (\<lambda>_. zero_inode) \<and> ftable s = (\<lambda>_. zero_file) \<and>
    (\<forall>a. unat a \<noteq> sb_start sb \<longrightarrow> view s a = d (unat a)) \<and>
    head_n (disk s (sb_start sb)) = 0 \<and> sb_of_block (disk s 1) = sb"
proof -
  from mount_ok [where d = d, OF assms(1,2) empty_head_ok [OF hd assms(2)]] obtain m where m:
    "mount (process_start d n) = Inr ((), m)" "linv m" "held m = {}" "dirty m = {}" "log_at m sb"
    "lsec m = []" "outstanding (thelog m) = 0" "committing (thelog m) = 0" "inodes m = (\<lambda>_. zero_inode)"
    "ftable m = (\<lambda>_. zero_file)" "disk m = wdisk (recovery_events (sb_start sb) d) d" by auto
  have n0: "lh_n (lh (thelog m)) = 0"
    using linv_facts(3) [OF m(2)] m(6) length_lsec [of m] by (simp add: lsecs_ok_def)
  let ?s = "m\<lparr>thelog := (thelog m)\<lparr>outstanding := 1\<rparr>\<rparr>"
  have "begin_op m = Inr ((), ?s)" using m n0 by (simp add: begin_op_eq layout)
  moreover have "view ?s a = d (unat a)" if "unat a \<noteq> sb_start sb" for a
    using idle_clean [OF linv_facts(1) [OF m(2)], of a] m(3,4,11) recovered_empty [where d = d, OF hd that]
    by (simp add: recovered_def)
  moreover have "disk ?s 1 = d 1" "head_n (disk ?s (sb_start sb)) = 0"
    using m(11) recovered_empty [where d = d, OF hd] assms(2)
    by (auto simp: recovered_def recovery_split cleared_head_n sb_geom_def sb_start_def)
  ultimately show ?thesis
    using m assms(1) by (intro exI [of _ ?s]) (simp add: sample_open_def log_at_def lsec_def)
qed

lemma sample_ready:
  assumes "sb_of_block (d 1) = sample_sb" "head_n (d 70) = 0"
  shows "\<exists>s. sample_open (process_start d 100) = Inr ((), s) \<and> linv s \<and> held s = {} \<and> lsec s = [] \<and>
    log_at s sample_sb \<and> outstanding (thelog s) = 1 \<and> committing (thelog s) = 0 \<and>
    inodes s = (\<lambda>_. zero_inode) \<and> ftable s = (\<lambda>_. zero_file) \<and>
    (\<forall>a. unat a \<noteq> 70 \<longrightarrow> view s a = d (unat a)) \<and> head_n (disk s 70) = 0 \<and> sb_of_block (disk s 1) = sample_sb"
  using mount_begin [where d = d, OF assms(1) sample_geom(3)] assms(2) by (simp add: sample_geom)

text \<open>An image whose log holds one committed block, and a crash in the middle of its recovery.\<close>

definition sample_crash :: "nat \<Rightarrow> block" where
  "sample_crash = sample_disk(70 := put32 (put32 zero_block 0 1) 4 40, 71 := (\<lambda>_. 7))"

lemma sample_crash_secs: "head_n (sample_crash 70) = 1" "head_secs (sample_crash 70) = [40]"
proof -
  show n: "head_n (sample_crash 70) = 1" by (simp add: sample_crash_def head_n_def)
  show "head_secs (sample_crash 70) = [40]"
    unfolding head_secs_def n by (simp add: sample_crash_def head_sector_def)
qed

lemma sample_crash_ok: "sb_of_block (sample_crash 1) = sample_sb" "head_ok sample_sb (sample_crash (sb_start sample_sb))"
  using sample_head(3) by (simp_all add: sample_crash_secs sample_geom head_ok_def) (simp add: sample_crash_def)

lemma sample_crash_step: "recovery_crash 100 sample_crash (sample_crash(40 := (\<lambda>_. 7)))"
proof -
  have "sample_crash 71 = (\<lambda>_. 7)" by (simp add: sample_crash_def)
  then have "replay_copy 70 sample_crash = [DWrite 40 (\<lambda>_. 7)]"
    by (simp add: replay_copy_def sample_crash_secs)
  then have "prefix [DWrite 40 (\<lambda>_. 7)] (recovery_events 70 sample_crash)" by (simp add: recovery_split)
  moreover have "crash_image [DWrite 40 (\<lambda>_. 7)] sample_crash (sample_crash(40 := (\<lambda>_. 7)))"
    by (simp add: crash_image_def)
  ultimately show ?thesis
    unfolding recovery_crash_events [where d = sample_crash, OF sample_crash_ok(1) sample_geom(3) sample_crash_ok(2)] sample_geom(1)
    by (intro exI conjI)
qed

section \<open>Durability\<close>

lemma crun_wdisk: "fold (\<lambda>(a, v) d. d(a := v)) (snd (crun es d p)) (fst (crun es d p)) =
    wdisk es (fold (\<lambda>(a, v) d. d(a := v)) p d)"
  by (induction es d p rule: crun.induct) (simp_all del: fun_upd_apply)

lemma flushed_image: "crash_image (es @ [DFlush]) d d' \<longleftrightarrow> d' = wdisk es d"
  using crun_wdisk [of es d "[]"]
  by (cases "crun es d []") (auto simp: crash_image_def crun_append)

lemma commit_flushed: "crash_image (commit_events s) d d' \<longleftrightarrow> d' = wdisk (commit_events s) d"
proof -
  have "commit_events s = butlast (commit_events s) @ [DFlush]"
    by (simp add: commit_events_def Let_def butlast_append)
  then show ?thesis using flushed_image [of "butlast (commit_events s)"] by (metis wdisk.simps(1,3) wdisk_append)
qed

text \<open>The committed disk holds, in every home sector, what the cache showed.\<close>

lemma commit_home:
  assumes inv: "linv s" and idle: "held s = {}" and hm: "home_sector s a"
  shows "wdisk (commit_events s) (disk s) (unat a) = view s a"
    "wview (commit_events s) (view s) a = view s a"
proof -
  note l = linv_facts [OF inv]
  have z: "int 0 < log_size (thelog s)" using l(2) by (simp add: log_geom_def)
  have ne: "log_block (thelog s) k \<noteq> a" if "int k < log_size (thelog s)" for k
    using log_block_not_home [OF l(2) that hm] .
  have k: "int (i + 1) < log_size (thelog s)" if "i < length (lsec s)" for i
    using lsec_bound [OF l(3,2)] that by linarith
  have nek: "log_block (thelog s) (Suc i) = a \<Longrightarrow> i < length (lsec s) \<Longrightarrow> False" for i
    using ne [of "i + 1"] k [of i] by simp
  let ?L = "log_copy s" and ?H = "home_copy s" and ?h = "unat (log_block (thelog s) 0)"
  have h: "?h \<noteq> unat a" using ne [OF z] by (simp flip: word_unat_eq_iff)
  have ev: "commit_events s = ?L @ [DFlush, DWrite ?h (committed_head s), DFlush] @ ?H @
      [DFlush, DWrite ?h (cleared_head s), DFlush]"
    by (simp add: commit_events_def Let_def log_copy_def home_copy_def committed_head_def cleared_head_def)
  have L: "DWrite (unat a) v \<notin> set ?L" "of_nat n = a \<Longrightarrow> DWrite n v \<notin> set ?L" for n v
    by (auto simp: log_copy_def log_writes_def dest: nek [OF sym] simp flip: word_unat_eq_iff)
  have Ld: "wdisk ?L d (unat a) = d (unat a)" for d by (rule wdisk_other) (rule L(1))
  have Lv: "wview ?L d a = d a" for d by (rule wview_other) (use L(2) in blast)
  have Hd: "wdisk ?H d (unat a) = view s a" if "d (unat a) = disk s (unat a)" for d
  proof (cases "a \<in> set (lsec s)")
    case True
    then show ?thesis by (rule home_copy_disk(3) [OF inv])
  next
    case False
    then have "wdisk ?H d (unat a) = d (unat a)"
      by (intro home_copy_disk(2) [OF inv]) (simp add: unat_image_iff)
    with that idle_clean [OF l(1), of a] idle False l(4) show ?thesis by simp
  qed
  have Hv: "wview ?H d a = view s a" if "d a = view s a" for d
  proof (cases "a \<in> set (lsec s)")
    case True
    then obtain i where i: "i < length (lsec s)" "lsec s ! i = a" by (auto simp: in_set_conv_nth)
    have "inj_on ((!) (lsec s)) (set [0..<length (lsec s)])"
      using l(3) by (auto simp: lsecs_ok_def inj_on_def nth_eq_iff_index_eq)
    from wview_map_in [OF this, of i "\<lambda>i. view s (lsec s ! i)" d] i show ?thesis
      by (simp add: home_copy_def)
  next
    case False
    then have "a \<notin> (!) (lsec s) ` set [0..<length (lsec s)]" by (auto simp: in_set_conv_nth)
    from wview_map_out [OF this, of "\<lambda>i. view s (lsec s ! i)" d] that show ?thesis
      by (simp add: home_copy_def)
  qed
  show "wdisk (commit_events s) (disk s) (unat a) = view s a"
    using h Hd [of "(wdisk ?L (disk s))(?h := committed_head s)"] Ld [of "disk s"] by (simp add: ev)
  show "wview (commit_events s) (view s) a = view s a"
    using ne [OF z] Hv [of "(wview ?L (view s))(log_block (thelog s) 0 := committed_head s)"] Lv [of "view s"]
    by (simp add: ev)
qed

section \<open>Whole transactions\<close>

text \<open>
  \<open>settled s t\<close>: whatever was written to disk between \<open>s\<close> and \<open>t\<close> has been flushed, so that a
  crash in \<open>t\<close> leaves the disk of \<open>t\<close>.
\<close>

definition settled :: "kern \<Rightarrow> kern \<Rightarrow> bool" where
  "settled s t \<longleftrightarrow> (\<exists>es. events t = events s @ es \<and> disk t = wdisk es (disk s) \<and> (es = [] \<or> last es = DFlush))"

lemma settled_same: "events t = events s \<Longrightarrow> disk t = disk s \<Longrightarrow> settled s t"
  unfolding settled_def by (intro exI [of _ "[]"]) simp

lemma settled_trans: "settled s t \<Longrightarrow> settled t u \<Longrightarrow> settled s u"
  unfolding settled_def by (elim exE conjE) (rule exI, rule conjI, simp, auto simp: last_append)

lemma settled_crash: "settled s t \<Longrightarrow> \<exists>es. events t = events s @ es \<and> (\<forall>d. crash_image es (disk s) d \<longleftrightarrow> d = disk t)"
proof -
  assume "settled s t"
  then obtain es where es: "events t = events s @ es" "disk t = wdisk es (disk s)" "es = [] \<or> last es = DFlush"
    by (auto simp: settled_def)
  have "crash_image es (disk s) d \<longleftrightarrow> d = disk t" for d
  proof (cases "es = []")
    case True
    with es(2) show ?thesis by (auto simp: crash_image_def)
  next
    case False
    with es(3) have "es = butlast es @ [DFlush]" by (metis append_butlast_last_id)
    with es(2) flushed_image [of "butlast es" "disk s" d] show ?thesis by (metis wdisk.simps(1,3) wdisk_append)
  qed
  with es(1) show ?thesis by blast
qed

lemma commit_events_last: "last (commit_events s) = DFlush"
  by (simp add: commit_events_def Let_def)

text \<open>The last \<open>end_op\<close> commits; an earlier one only counts down.\<close>

lemma end_op_nested:
  "committing (thelog s) = 0 \<Longrightarrow> outstanding (thelog s) \<noteq> 1 \<Longrightarrow> int_range (outstanding (thelog s) - 1) \<Longrightarrow>
   end_op s = Inr ((), s\<lparr>thelog := (thelog s)\<lparr>outstanding := outstanding (thelog s) - 1\<rparr>\<rparr>)"
  by (simp add: end_op_def upd_log_def)

lemma linv_empty_n: "linv s \<Longrightarrow> lh_n (lh (thelog s)) = 0 \<longleftrightarrow> lsec s = []"
  using linv_facts(3) [of s] length_lsec [of s] by (auto simp: lsecs_ok_def lsec_def)

lemma end_op_last:
  assumes inv: "linv s" and idle: "held s = {}" and out: "outstanding (thelog s) = 1"
    and com: "committing (thelog s) = 0"
  shows "\<exists>s'. end_op s = Inr ((), s') \<and> linv s' \<and> held s' = {} \<and> lsec s' = [] \<and>
    outstanding (thelog s') = 0 \<and> committing (thelog s') = 0 \<and> inodes s' = inodes s \<and> ftable s' = ftable s \<and>
    nblk s' = nblk s \<and> os_ok s' = os_ok s \<and> log_at s' = log_at s \<and> clock s' = clock s \<and>
    curproc s' = curproc s \<and> log_size (thelog s') = log_size (thelog s) \<and> home_sector s' = home_sector s \<and>
    sector_ok s' = sector_ok s \<and> settled s s' \<and>
    (\<forall>a. home_sector s a \<longrightarrow> disk s' (unat a) = view s a \<and> view s' a = view s a)"
proof -
  let ?t = "s\<lparr>thelog := (thelog s)\<lparr>outstanding := 0, committing := 1\<rparr>\<rparr>"
  let ?fin = "\<lambda>u. u\<lparr>thelog := (thelog u)\<lparr>committing := 0\<rparr>\<rparr>"
  have it: "linv ?t" using inv by simp
  have ht: "held ?t = {}" "view ?t = view s" "disk ?t = disk s" "lsec ?t = lsec s" "dirty ?t = dirty s"
    "home_sector ?t = home_sector s"
    using idle by (simp_all add: lsec_def home_sector_def [abs_def])
  have run: "end_op s = bnd commit (\<lambda>_. upd_log (\<lambda>l. l\<lparr>committing := 0\<rparr>)) ?t"
    using out com by (simp add: end_op_def upd_log_def)
  show ?thesis
  proof (cases "lsec s = []")
    case True
    then have n: "\<not> lh_n (lh (thelog ?t)) > 0" using linv_empty_n [OF inv] by simp
    have "linv (?fin ?t)" using it by simp
    moreover have "disk s (unat a) = view s a" for a
      using idle_clean [OF linv_facts(1) [OF inv], of a] linv_facts(4) [OF inv] True idle by simp
    moreover have "end_op s = Inr ((), ?fin ?t)" using run n by (simp add: commit_def upd_log_def)
    ultimately show ?thesis
      using inv idle True com by (simp add: lsec_def log_at_def [abs_def] home_sector_def [abs_def] sector_ok_def [abs_def] settled_same)
  next
    case False
    then have "lh_n (lh (thelog ?t)) > 0"
      using linv_empty_n [OF inv] linv_facts(3) [OF inv] by (simp add: lsecs_ok_def)
    from commit_ok [OF it ht(1) this] obtain u where u: "commit ?t = Inr ((), u)" "linv u" "held u = {}"
      "dirty u = {}" "rest u = rest (?t\<lparr>thelog := clear_log (thelog ?t)\<rparr>)"
      "disk u = wdisk (commit_events ?t) (disk ?t)" "view u = wview (commit_events ?t) (view ?t)"
      "events u = events ?t @ commit_events ?t" by blast
    have "settled s (?fin u)"
      unfolding settled_def using u(6,8) commit_events_last [of ?t] by (intro exI [of _ "commit_events ?t"]) simp
    moreover have lu: "lsec u = []" using linv_facts(4) [OF u(2)] u(4) by simp
    have hm: "disk u (unat a) = view s a \<and> view u a = view s a" if "home_sector s a" for a
      using commit_home [OF it ht(1), of a] that u ht by simp
    have ru: "thelog u = clear_log (thelog ?t)" "nblk u = nblk s" "os_ok u = os_ok s" "inodes u = inodes s"
      "ftable u = ftable s" "clock u = clock s" "curproc u = curproc s" using u(5) by (simp_all add: rest_eq)
    have "linv (?fin u)" using u(2) by simp
    moreover have "end_op s = Inr ((), ?fin u)" using run u(1) by (simp add: upd_log_def)
    ultimately show ?thesis
      using u(3) lu hm ru
      by (intro exI [of _ "?fin u"])
        (simp add: lsec_def log_at_def [abs_def] home_sector_def [abs_def] sector_ok_def [abs_def] clear_log_def del: linv_counts)
  qed
qed

text \<open>A transaction body: update sectors one after the other, as the file-system code does.\<close>

definition update :: "u32 \<Rightarrow> (block \<Rightarrow> block) \<Rightarrow> unit act" where
  "update a f =
     bnd (bread ROOTDEV a) (\<lambda>b.
     bnd (buf_data b) (\<lambda>d.
     bnd (set_data b (f d)) (\<lambda>_.
     bnd (log_write b) (\<lambda>_.
     brelse b))))"

fun updates :: "(u32 \<times> (block \<Rightarrow> block)) list \<Rightarrow> unit act" where
  "updates [] = ret ()"
| "updates ((a, f) # us) = bnd (update a f) (\<lambda>_. updates us)"

fun updated :: "(u32 \<times> (block \<Rightarrow> block)) list \<Rightarrow> (u32 \<Rightarrow> block) \<Rightarrow> u32 \<Rightarrow> block" where
  "updated [] v = v"
| "updated ((a, f) # us) v = updated us (v(a := f (v a)))"

lemma updates_append: "updates (xs @ ys) = bnd (updates xs) (\<lambda>_. updates ys)"
  by (induction xs rule: updates.induct) (simp_all add: bnd_assoc)

lemma linv_room: "linv s \<Longrightarrow> held s = {} \<Longrightarrow> room s 1"
  using lsec_bound [OF linv_facts(3,2), of s] by (simp add: room_def layout)

lemma update_ok:
  assumes inv: "linv s" and idle: "held s = {}" and hm: "home_sector s a"
    and out: "outstanding (thelog s) \<ge> 1" and fit: "int (length (lsec s)) + 1 < log_size (thelog s)"
  shows "\<exists>s'. update a f s = Inr ((), s') \<and> tstep s s' \<and> view s' = (view s)(a := f (view s a)) \<and>
    lsec s' = log_add a (lsec s) \<and> inodes s' = inodes s"
proof -
  have free: "a \<notin> held s" using idle by simp
  from session [OF inv home_usable [OF inv hm] free linv_room [OF inv idle]] obtain b t where t:
    "bread ROOTDEV a s = Inr (b, t)" "buf_data b t = Inr (view s a, t)"
    "\<exists>u v s'. set_data b (f (view s a)) t = Inr ((), u) \<and> log_write b u = Inr ((), v) \<and>
      brelse b v = Inr ((), s') \<and> tstep s s' \<and> view s' = (view s)(a := f (view s a)) \<and>
      lsec s' = log_add a (lsec s) \<and> inodes s' = inodes s"
    using hm out fit by metis
  then show ?thesis by (auto simp: update_def)
qed

lemma updates_ok:
  assumes "linv s" "held s = {}" "\<forall>(a, f) \<in> set us. home_sector s a" "outstanding (thelog s) \<ge> 1"
    "int (length (lsec s)) + int (length us) < log_size (thelog s)"
  shows "\<exists>s'. updates us s = Inr ((), s') \<and> tstep s s' \<and> view s' = updated us (view s) \<and>
    set (lsec s') = set (lsec s) \<union> fst ` set us \<and> length (lsec s') \<le> length (lsec s) + length us"
  using assms
proof (induction us arbitrary: s)
  case Nil
  then show ?case by (simp add: tstep_refl)
next
  case (Cons u us)
  obtain a f where u: "u = (a, f)" by (cases u)
  with Cons.prems update_ok [of s a f] obtain t where t: "update a f s = Inr ((), t)" "tstep s t"
    "view t = (view s)(a := f (view s a))" "lsec t = log_add a (lsec s)" by auto
  note g = tstep_geom [OF t(2)]
  have len: "length (lsec t) \<le> Suc (length (lsec s))" using t(4) by simp
  from Cons.IH [of t] Cons.prems tstep_linv [OF t(2)] tstep_held [OF t(2)] g len obtain s' where s':
    "updates us t = Inr ((), s')" "tstep t s'" "view s' = updated us (view t)"
    "set (lsec s') = set (lsec t) \<union> fst ` set us" "length (lsec s') \<le> length (lsec t) + length us" by auto
  have "length (lsec s') \<le> length (lsec s) + length (u # us)" using s'(5) len by simp
  then show ?case
    using t(1) s' t tstep_trans [OF t(2) s'(2)] u by (intro exI [of _ s']) auto
qed

section \<open>Properties\<close>

text \<open>
  C1: Crash atomicity of \<open>commit\<close>.  However far the disk writes of a commit have got, and
  whichever of the writes since the last barrier the disk has kept, mounting the image
  afterwards succeeds and leaves every block before the log either as it was before the
  transaction or as the transaction made it: all of them old or all of them new.
\<close>

theorem commit_crash_atomic:
  assumes "linv s" and "held s = {}" and "log_at s sb" and "sb_of_block (disk s 1) = sb"
    and "head_n (disk s (sb_start sb)) = 0" and "lh_n (lh (thelog s)) > 0"
    and "commit s = Inr ((), s')" and "events s' = events s @ es @ fs"
    and "crash_image es (disk s) d"
  shows "\<exists>t. mount (process_start d (nblk s)) = Inr ((), t) \<and> linv t \<and> lsec t = [] \<and>
    ((\<forall>a < sb_start sb. disk t a = disk s a) \<or>
     (\<forall>a. unat a < sb_start sb \<longrightarrow> disk t (unat a) = view s a))"
proof -
  from commit_ok [OF assms(1,2,6)] assms(7,8) have "commit_events s = es @ fs" by auto
  then have pre: "prefix es (commit_events s)" by (simp add: prefix_def)
  note at = atomic_images [OF assms(1,2,3,5) pre assms(9)]
  have "sb_geom sb (nblk s)" using assms(3) by (simp add: log_at_def)
  from mount_ok [where d = d, OF _ this at(1)] at(2,3) assms(4) show ?thesis
    unfolding recovered_def by fastforce
qed

theorem commit_crash_atomic_witness:
  "\<exists>s s' d t. sample_txn (process_start sample_disk 100) = Inr ((), s) \<and> commit s = Inr ((), s') \<and>
     d \<noteq> disk s \<and> mount (process_start d (nblk s)) = Inr ((), t) \<and>
     ((\<forall>a < 70. disk t a = disk s a) \<or> (\<forall>a. unat a < 70 \<longrightarrow> disk t (unat a) = view s a))"
proof -
  from sample_ok obtain s where s: "sample_txn (process_start sample_disk 100) = Inr ((), s)" "linv s"
    "held s = {}" "log_at s sample_sb" "sb_of_block (disk s 1) = sample_sb" "head_n (disk s 70) = 0"
    "lsec s = [40]" "view s 40 = (\<lambda>_. 7)" "disk s 40 = zero_block" by blast
  have n: "lh_n (lh (thelog s)) > 0" using s(2,7) linv_empty_n [of s] linv_facts(3) [of s]
    by (auto simp: lsecs_ok_def)
  from commit_ok [OF s(2,3) n] obtain s' where c: "commit s = Inr ((), s')"
    "events s' = events s @ commit_events s @ []" "disk s' = wdisk (commit_events s) (disk s)" by auto
  have cr: "crash_image (commit_events s) (disk s) (disk s')" using c(3) by (simp add: commit_flushed)
  have hm: "home_sector s 40" using log_at_geom(4) [OF s(4)] sample_geom by simp
  have "disk s' 40 = (\<lambda>_. 7)" using commit_home(1) [OF s(2,3) hm] c(3) s(8) by simp
  then have "disk s' 40 0 \<noteq> disk s 40 0" using s(9) by (simp add: zero_block_def)
  then have "disk s' \<noteq> disk s" by auto
  moreover have "head_n (disk s (sb_start sample_sb)) = 0" using s(6) sample_geom by simp
  from commit_crash_atomic [OF s(2,3,4,5) this n c(1,2) cr] obtain t where
    "mount (process_start (disk s') (nblk s)) = Inr ((), t)"
    "(\<forall>a < 70. disk t a = disk s a) \<or> (\<forall>a. unat a < 70 \<longrightarrow> disk t (unat a) = view s a)"
    unfolding sample_geom by metis
  ultimately show ?thesis using s(1) c(1) by metis
qed

text \<open>
  C2: Recovery may be interrupted.  After any number of mounts that crashed, each at any point of
  the device events of that mount and with any of its unflushed writes lost, mounting succeeds, the log
  is empty and every block before it is what an undisturbed mount of the first image would have made it.
\<close>

theorem recovery_survives_crashes:
  assumes "sb_of_block (d 1) = sb" and "sb_geom sb n" and "head_ok sb (d (sb_start sb))"
    and "(recovery_crash n)\<^sup>*\<^sup>* d d'"
  shows "\<exists>t t'. mount (process_start d n) = Inr ((), t) \<and> mount (process_start d' n) = Inr ((), t') \<and>
    lsec t' = [] \<and> (\<forall>a < sb_start sb. disk t' a = disk t a)"
proof -
  from recovery_crashes [OF assms(4,2,1,3)] have c: "head_ok sb (d' (sb_start sb))" "d' 1 = d 1"
    "\<forall>a < sb_start sb. recovered (sb_start sb) d' a = recovered (sb_start sb) d a" by auto
  from mount_ok [where d = d, OF assms(1-3)] mount_ok [where d = d', OF _ assms(2) c(1)] c(2,3) assms(1)
  show ?thesis unfolding recovered_def by fastforce
qed

theorem recovery_survives_crashes_witness:
  "\<exists>d' t t'. (recovery_crash 100)\<^sup>*\<^sup>* sample_crash d' \<and> d' 40 = (\<lambda>_. 7) \<and> sample_crash 40 = zero_block \<and>
     mount (process_start sample_crash 100) = Inr ((), t) \<and>
     mount (process_start d' 100) = Inr ((), t') \<and> (\<forall>a < 70. disk t' a = disk t a)"
proof -
  let ?d' = "sample_crash(40 := (\<lambda>_. 7))"
  have cr: "(recovery_crash 100)\<^sup>*\<^sup>* sample_crash ?d'"
    using sample_crash_step by (rule r_into_rtranclp [of "recovery_crash 100"])
  obtain t t' where
    "mount (process_start sample_crash 100) = Inr ((), t)" "mount (process_start ?d' 100) = Inr ((), t')"
    "\<forall>a < 70. disk t' a = disk t a"
    using recovery_survives_crashes [where d = sample_crash, OF sample_crash_ok(1) sample_geom(3) sample_crash_ok(2) cr]
    unfolding sample_geom by (elim exE conjE)
  moreover have "sample_crash 40 = zero_block" by (simp add: sample_crash_def sample_disk_def)
  ultimately show ?thesis using cr
    by (intro exI [of _ ?d'] exI [of _ t] exI [of _ t'] conjI) simp_all
qed

text \<open>
  C4: Durability.  A commit that returns has emptied the log, has put the cache's view of every
  home sector on disk without changing it, and has left nothing to a crash: the only image a
  crash at that point can leave is the disk itself.
\<close>

theorem commit_durable:
  assumes "linv s" and "held s = {}" and "lh_n (lh (thelog s)) > 0"
  shows "\<exists>s' es. commit s = Inr ((), s') \<and> linv s' \<and> lsec s' = [] \<and> dirty s' = {} \<and>
    events s' = events s @ es \<and> (\<forall>d. crash_image es (disk s) d \<longleftrightarrow> d = disk s') \<and>
    (\<forall>a. home_sector s a \<longrightarrow> disk s' (unat a) = view s a \<and> view s' a = view s a)"
proof -
  from commit_ok [OF assms] obtain s' where s': "commit s = Inr ((), s')" "linv s'" "dirty s' = {}"
    "events s' = events s @ commit_events s" "disk s' = wdisk (commit_events s) (disk s)"
    "view s' = wview (commit_events s) (view s)" by blast
  have "lsec s' = []" using linv_facts(4) [OF s'(2)] s'(3) by simp
  with s' commit_home [OF assms(1,2)] show ?thesis
    by (intro exI [of _ s'] exI [of _ "commit_events s"]) (simp add: commit_flushed)
qed

theorem commit_durable_witness:
  "\<exists>s s'. sample_txn (process_start sample_disk 100) = Inr ((), s) \<and> commit s = Inr ((), s') \<and>
     disk s 40 = zero_block \<and> disk s' 40 = (\<lambda>_. 7)"
proof -
  from sample_ok obtain s where s: "sample_txn (process_start sample_disk 100) = Inr ((), s)" "linv s"
    "held s = {}" "log_at s sample_sb" "lsec s = [40]" "view s 40 = (\<lambda>_. 7)" "disk s 40 = zero_block" by blast
  have n: "lh_n (lh (thelog s)) > 0" using s(2,5) linv_empty_n [of s] linv_facts(3) [of s]
    by (auto simp: lsecs_ok_def)
  have hm: "home_sector s 40" using log_at_geom(4) [OF s(4)] sample_geom by simp
  from commit_durable [OF s(2,3) n] obtain s' where c: "commit s = Inr ((), s')"
    "\<forall>a. home_sector s a \<longrightarrow> disk s' (unat a) = view s a \<and> view s' a = view s a" by blast
  have "disk s' 40 = (\<lambda>_. 7)" using c(2) [rule_format, OF hm] s(6) by simp
  with s(1,7) c(1) show ?thesis by blast
qed

text \<open>
  C3: A whole transaction.  On an idle log that is larger than one operation's reservation,
  \<open>begin_op\<close>, any sequence of at most \<open>MAXOPBLOCKS\<close> logged block updates and \<open>end_op\<close> run to
  completion, leave the log idle again and have exactly the updates' combined effect on disk.
\<close>

theorem transaction_effect:
  assumes "linv s" and "held s = {}" and "lsec s = []" and "outstanding (thelog s) = 0"
    and "committing (thelog s) = 0" and "int MAXOPBLOCKS < log_size (thelog s)"
    and "length us \<le> MAXOPBLOCKS" and "\<forall>(a, f) \<in> set us. home_sector s a"
  shows "\<exists>s'. bnd begin_op (\<lambda>_. bnd (updates us) (\<lambda>_. end_op)) s = Inr ((), s') \<and> linv s' \<and>
    held s' = {} \<and> lsec s' = [] \<and> outstanding (thelog s') = 0 \<and> committing (thelog s') = 0 \<and>
    (\<forall>a. home_sector s a \<longrightarrow> disk s' (unat a) = updated us (view s) a \<and> view s' a = updated us (view s) a)"
proof -
  let ?b = "s\<lparr>thelog := (thelog s)\<lparr>outstanding := 1\<rparr>\<rparr>"
  have n: "lh_n (lh (thelog s)) = 0" using linv_empty_n [OF assms(1)] assms(3) by simp
  have b: "begin_op s = Inr ((), ?b)" using assms(4,5) n by (simp add: begin_op_eq layout)
  have hs: "home_sector ?b = home_sector s" "lsec ?b = lsec s"
    by (simp_all add: home_sector_def [abs_def] lsec_def)
  have "linv ?b" "held ?b = {}" "\<forall>(a, f) \<in> set us. home_sector ?b a" "outstanding (thelog ?b) \<ge> 1"
    "int (length (lsec ?b)) + int (length us) < log_size (thelog ?b)"
    using assms hs by (simp_all add: log_at_def)
  from updates_ok [OF this] obtain u where u: "updates us ?b = Inr ((), u)" "tstep ?b u"
    "view u = updated us (view s)" by auto
  note g = tstep_geom [OF u(2)]
  have "outstanding (thelog u) = 1" "committing (thelog u) = 0" "held u = {}"
    using u(2) assms(2,5) tstep_held [OF u(2)] by (auto simp: tstep_def tenv_eq)
  from end_op_last [OF tstep_linv [OF u(2)] this(3,1,2)] obtain s' where
    "end_op u = Inr ((), s')" "linv s'" "held s' = {}" "lsec s' = []" "outstanding (thelog s') = 0"
    "committing (thelog s') = 0" "\<forall>a. home_sector u a \<longrightarrow> disk s' (unat a) = view u a \<and> view s' a = view u a"
    by blast
  with b u g(1) hs(1) show ?thesis by (intro exI [of _ s']) simp
qed

theorem transaction_effect_witness:
  "\<exists>m s'. mount (process_start sample_disk 100) = Inr ((), m) \<and>
     bnd begin_op (\<lambda>_. bnd (updates [(40, \<lambda>_. (\<lambda>_. 7)), (40, \<lambda>b. b(0 := b 0 + 1)), (41, \<lambda>_. (\<lambda>_. 9))]) (\<lambda>_. end_op)) m
       = Inr ((), s') \<and> disk s' 40 0 = 8 \<and> disk s' 40 1 = 7 \<and> disk s' 41 5 = 9"
proof -
  from mount_ok [where d = sample_disk, OF sample_head(3) sample_geom(3)] sample_head(2) sample_geom obtain m where m:
    "mount (process_start sample_disk 100) = Inr ((), m)" "linv m" "held m = {}" "log_at m sample_sb"
    "lsec m = []" "outstanding (thelog m) = 0" "committing (thelog m) = 0" by auto
  have hm: "home_sector m 40" "home_sector m 41" using log_at_geom(4) [OF m(4)] sample_geom by simp_all
  have sz: "int MAXOPBLOCKS < log_size (thelog m)" using m(4) sample_geom by (simp add: log_at_def layout)
  let ?us = "[(40, \<lambda>_. (\<lambda>_. 7)), (40, \<lambda>b. b(0 := b 0 + 1)), (41, \<lambda>_. (\<lambda>_. 9))] :: (u32 \<times> (block \<Rightarrow> block)) list"
  have us: "length ?us \<le> MAXOPBLOCKS" "\<forall>(a, f) \<in> set ?us. home_sector m a"
    using hm by (simp_all add: layout)
  obtain s' where s': "bnd begin_op (\<lambda>_. bnd (updates ?us) (\<lambda>_. end_op)) m = Inr ((), s')"
    "\<forall>a. home_sector m a \<longrightarrow> disk s' (unat a) = updated ?us (view m) a \<and> view s' a = updated ?us (view m) a"
    using transaction_effect [OF m(2,3,5,6,7) sz us] by (elim exE conjE)
  from s'(2) [rule_format, OF hm(1)] s'(2) [rule_format, OF hm(2)]
  have "disk s' 40 0 = 8 \<and> disk s' 40 1 = 7 \<and> disk s' 41 5 = 9" by simp
  with m(1) s'(1) show ?thesis by (intro exI [of _ m] exI [of _ s'] conjI) simp_all
qed

text \<open>
  C5: \<open>begin_op\<close>'s reservation is one block short.  On an idle log of \<open>LOGSIZE\<close> blocks (what
  \<open>mkfs\<close> creates) three operations are admitted, but if together they log
  \<open>3 * MAXOPBLOCKS\<close> different blocks, none more than \<open>MAXOPBLOCKS\<close>, the last \<open>log_write\<close>
  panics: the header block takes one of the \<open>LOGSIZE\<close> blocks the reservation counts.
\<close>

theorem log_reservation_gap:
  assumes "linv s" and "held s = {}" and "lsec s = []" and "outstanding (thelog s) = 0"
    and "committing (thelog s) = 0" and "log_size (thelog s) = int LOGSIZE"
    and "length us = 3 * MAXOPBLOCKS" and "distinct (map fst us)" and "\<forall>(a, f) \<in> set us. home_sector s a"
  shows "bnd begin_op (\<lambda>_. bnd begin_op (\<lambda>_. bnd begin_op (\<lambda>_. updates us))) s =
    Inl (Panic ''too big a transaction'')"
proof -
  let ?b = "s\<lparr>thelog := (thelog s)\<lparr>outstanding := 3\<rparr>\<rparr>"
  have n: "lh_n (lh (thelog s)) = 0" using linv_empty_n [OF assms(1)] assms(3) by simp
  have run: "bnd begin_op (\<lambda>_. bnd begin_op (\<lambda>_. bnd begin_op (\<lambda>_. updates us))) s = updates us ?b"
    using assms(4,5) n by (simp add: begin_op_eq layout)
  obtain vs a f where us: "us = vs @ [(a, f)]" using assms(7)
    by (cases us rule: rev_cases) (auto simp: layout)
  have hs: "home_sector ?b = home_sector s" "lsec ?b = lsec s"
    by (simp_all add: home_sector_def [abs_def] lsec_def)
  have len: "length vs = 29" using assms(7) us by (simp add: layout)
  have "linv ?b" "held ?b = {}" "\<forall>(a, f) \<in> set vs. home_sector ?b a" "outstanding (thelog ?b) \<ge> 1"
    "int (length (lsec ?b)) + int (length vs) < log_size (thelog ?b)"
    using assms(1,2,3,6,9) hs us len by (auto simp: layout)
  from updates_ok [OF this] obtain u where u: "updates vs ?b = Inr ((), u)" "tstep ?b u"
    "set (lsec u) = fst ` set vs" "length (lsec u) \<le> 29" using assms(3) hs len by auto
  have "card (fst ` set vs) = 29"
    using assms(8) us len distinct_card [of "map fst vs"] by simp
  then have "length (lsec u) = 29" using u(3,4) card_length [of "lsec u"] by simp
  then have nu: "lh_n (lh (thelog u)) = 29"
    using linv_facts(3) [OF tstep_linv [OF u(2)]] length_lsec [of u] by (simp add: lsecs_ok_def)
  have hm: "home_sector u a" using tstep_geom(1) [OF u(2)] hs assms(9) us by simp
  note iu = tstep_linv [OF u(2)]
  have hu: "held u = {}" "a \<notin> held u" using tstep_held [OF u(2)] assms(2) by simp_all
  from bread_step [OF iu home_usable [OF iu hm] hu(2) linv_room [OF iu hu(1)]] obtain c t where t:
    "bread ROOTDEV a u = Inr (c, t)" "linv t" "tenv t = tenv u" "lsec t = lsec u" "owns t c a" by blast
  obtain d where d: "buf_data c t = Inr (d, t)" by (simp add: buf_data_def)
  have "\<exists>w. set_data c (f d) t = Inr ((), w) \<and> thelog w = thelog t" by (simp add: set_data_def upd_buf_def)
  then obtain w where w: "set_data c (f d) t = Inr ((), w)" "thelog w = thelog t" by blast
  have "lh_n (lh (thelog t)) = 29" "log_size (thelog t) = 30"
    using nu t(3,4) linv_facts(3) [OF t(2)] length_lsec [of t] \<open>length (lsec u) = 29\<close> tstep_geom(4) [OF u(2)] assms(6)
    by (auto simp: lsecs_ok_def tenv_eq layout)
  then have "update a f u = Inl (Panic ''too big a transaction'')"
    using t(1) d w by (simp add: update_def log_write_def layout)
  then show ?thesis unfolding run unfolding us updates_append using u(1) by simp
qed

theorem log_reservation_gap_witness:
  "\<exists>m. mount (process_start sample_disk 100) = Inr ((), m) \<and>
     bnd begin_op (\<lambda>_. bnd begin_op (\<lambda>_. bnd begin_op (\<lambda>_.
       updates (map (\<lambda>k. (of_nat k, \<lambda>_. (\<lambda>_. 7))) [10..<40])))) m = Inl (Panic ''too big a transaction'')"
proof -
  from mount_ok [where d = sample_disk, OF sample_head(3) sample_geom(3)] sample_head(2) sample_geom obtain m where m:
    "mount (process_start sample_disk 100) = Inr ((), m)" "linv m" "held m = {}" "log_at m sample_sb"
    "lsec m = []" "outstanding (thelog m) = 0" "committing (thelog m) = 0" by auto
  let ?us = "map (\<lambda>k. (of_nat k, \<lambda>_. (\<lambda>_. 7))) [10..<40] :: (u32 \<times> (block \<Rightarrow> block)) list"
  have sz: "log_size (thelog m) = int LOGSIZE" using m(4) sample_geom by (simp add: log_at_def layout)
  have len: "length ?us = 3 * MAXOPBLOCKS" by (simp add: layout)
  have inj: "inj_on (of_nat :: nat \<Rightarrow> u32) {10..<40}"
    by (rule inj_onI) (auto simp: word_of_nat_eq_iff take_bit_nat_eq_self)
  then have dist: "distinct (map fst ?us)" by (simp add: distinct_map comp_def)
  have hm: "\<forall>(a, f) \<in> set ?us. home_sector m a"
    using log_at_geom(4) [OF m(4)] sample_geom by (auto simp: unat_of_nat)
  from log_reservation_gap [OF m(2,3,5,6,7) sz len dist hm] m(1) show ?thesis by auto
qed

end
