(* ===== verification/Alloc.thy ===== *)
theory Alloc
  imports Log_Props
begin

text \<open>
  The block allocator of \<open>fs.c\<close>: \<open>xv6_bzero\<close>, \<open>balloc\<close> and \<open>bfree\<close> over the free bitmap, one
  bit per block of the image.  Both run inside a transaction.
\<close>

section \<open>Operations\<close>

definition xv6_bzero :: "u32 \<Rightarrow> u32 \<Rightarrow> unit act" where
  "xv6_bzero dev bno =
     bnd (bread dev bno) (\<lambda>bp.
     bnd (set_data bp zero_block) (\<lambda>_.
     bnd (log_write bp) (\<lambda>_.
     brelse bp)))"

text \<open>Bit \<open>bi\<close> of a bitmap block: \<open>data[bi/8] & (1 << (bi % 8))\<close>, and the two stores.\<close>

definition bit_mask :: "nat \<Rightarrow> u8" where
  "bit_mask bi = push_bit (bi mod 8) 1"

definition bit_used :: "block \<Rightarrow> nat \<Rightarrow> bool" where
  "bit_used d bi \<longleftrightarrow> d (bi div 8) AND bit_mask bi \<noteq> 0"

definition mark_bit :: "block \<Rightarrow> nat \<Rightarrow> block" where
  "mark_bit d bi = d(bi div 8 := d (bi div 8) OR bit_mask bi)"

definition clear_bit :: "block \<Rightarrow> nat \<Rightarrow> block" where
  "clear_bit d bi = d(bi div 8 := d (bi div 8) AND NOT (bit_mask bi))"

text \<open>The inner loop of \<open>balloc\<close>: the first free bit in \<open>bi..<n\<close>.\<close>

function free_bit :: "block \<Rightarrow> nat \<Rightarrow> nat \<Rightarrow> nat option" where
  "free_bit d bi n =
     (if bi < n then if \<not> bit_used d bi then Some bi else free_bit d (Suc bi) n else None)"
  by pat_completeness auto
termination by (relation "measure (\<lambda>(d, bi, n). n - bi)") auto

declare free_bit.simps [simp del]

text \<open>
  The outer loop; \<open>b\<close> is an \<open>int\<close> that \<open>b += BPB\<close> overflows on an image of \<open>2 ^ 31\<close> blocks
  or more.
\<close>

function balloc_from :: "u32 \<Rightarrow> superblock \<Rightarrow> nat \<Rightarrow> u32 act" where
  "balloc_from dev sb b =
     (if b < unat (sb_size sb)
      then bnd (bread dev (BBLOCK (of_nat b) (sb_ninodes sb))) (\<lambda>bp.
           bnd (buf_data bp) (\<lambda>d.
           case free_bit d 0 (min BPB (unat (sb_size sb) - b)) of
             Some bi \<Rightarrow>
               bnd (set_data bp (mark_bit d bi)) (\<lambda>_.
               bnd (log_write bp) (\<lambda>_.
               bnd (brelse bp) (\<lambda>_.
               bnd (xv6_bzero dev (of_nat (b + bi))) (\<lambda>_.
               ret (of_nat (b + bi))))))
           | None \<Rightarrow>
               bnd (brelse bp) (\<lambda>_.
               bnd (guard (int (b + BPB) \<le> INT_MAX) (Undef ''b += BPB'')) (\<lambda>_.
               balloc_from dev sb (b + BPB)))))
      else fail (Panic ''balloc: out of blocks''))"
  by pat_completeness auto
termination by (relation "measure (\<lambda>(dev, sb, b). unat (sb_size sb) - b)") (auto simp: layout)

declare balloc_from.simps [simp del]

definition balloc :: "u32 \<Rightarrow> u32 act" where
  "balloc dev = bnd (readsb dev) (\<lambda>sb. balloc_from dev sb 0)"

definition bfree :: "u32 \<Rightarrow> u32 \<Rightarrow> unit act" where
  "bfree dev b =
     bnd (readsb dev) (\<lambda>sb.
     bnd (bread dev (BBLOCK b (sb_ninodes sb))) (\<lambda>bp.
     bnd (buf_data bp) (\<lambda>d.
     bnd (guard (bit_used d (unat b mod BPB)) (Panic ''freeing free block'')) (\<lambda>_.
     bnd (set_data bp (clear_bit d (unat b mod BPB))) (\<lambda>_.
     bnd (log_write bp) (\<lambda>_.
     brelse bp))))))"

section \<open>Bits\<close>

lemma bit_of_mask: "bit (bit_mask i) n \<longleftrightarrow> n = i mod 8"
  by (auto simp: bit_mask_def bit_exp_iff possible_bit_word)

lemma bit_used_iff: "bit_used d i \<longleftrightarrow> bit (d (i div 8)) (i mod 8)"
  by (simp add: bit_used_def bit_mask_def bit_iff_and_push_bit_not_eq_0)

lemma bit_used_mark: "bit_used (mark_bit d i) j \<longleftrightarrow> i = j \<or> bit_used d j"
proof (cases "i div 8 = j div 8")
  case True
  then have "i mod 8 = j mod 8 \<longleftrightarrow> i = j" by (metis div_mod_decomp)
  with True show ?thesis
    by (auto simp: bit_used_iff mark_bit_def bit_of_mask bit_or_iff)
next
  case False
  then show ?thesis by (auto simp: bit_used_iff mark_bit_def)
qed

lemma bit_used_clear: "bit_used (clear_bit d i) j \<longleftrightarrow> i \<noteq> j \<and> bit_used d j"
proof (cases "i div 8 = j div 8")
  case True
  then have "i mod 8 = j mod 8 \<longleftrightarrow> i = j" by (metis div_mod_decomp)
  with True show ?thesis
    by (auto simp: bit_used_iff clear_bit_def bit_of_mask bit_and_iff bit_not_iff)
next
  case False
  then show ?thesis by (auto simp: bit_used_iff clear_bit_def)
qed

lemma clear_mark: "\<not> bit_used d i \<Longrightarrow> clear_bit (mark_bit d i) i = d"
proof -
  assume "\<not> bit_used d i"
  then have "(d (i div 8) OR bit_mask i) AND NOT (bit_mask i) = d (i div 8)"
    by (intro bit_word_eqI)
      (auto simp: bit_used_iff bit_of_mask bit_and_iff bit_or_iff bit_not_iff)
  then show ?thesis by (simp add: clear_bit_def mark_bit_def)
qed

lemma free_bit_None: "free_bit d k n = None \<longleftrightarrow> (\<forall>j. k \<le> j \<longrightarrow> j < n \<longrightarrow> bit_used d j)"
proof (induction d k n rule: free_bit.induct)
  case (1 d k n)
  show ?case
  proof (cases "k < n \<and> bit_used d k")
    case True
    with 1 have "free_bit d k n = free_bit d (Suc k) n"
      "free_bit d (Suc k) n = None \<longleftrightarrow> (\<forall>j. Suc k \<le> j \<longrightarrow> j < n \<longrightarrow> bit_used d j)"
      by (simp_all add: free_bit.simps [of d k])
    with True show ?thesis by (metis Suc_leD Suc_leI le_eq_less_or_eq)
  next
    case False
    then show ?thesis by (subst free_bit.simps) auto
  qed
qed

lemma free_bit_Some:
  "free_bit d k n = Some i \<longleftrightarrow> k \<le> i \<and> i < n \<and> \<not> bit_used d i \<and> (\<forall>j. k \<le> j \<longrightarrow> j < i \<longrightarrow> bit_used d j)"
proof (induction d k n rule: free_bit.induct)
  case (1 d k n)
  show ?case
  proof (cases "k < n \<and> bit_used d k")
    case True
    with 1 have "free_bit d k n = free_bit d (Suc k) n"
      "free_bit d (Suc k) n = Some i \<longleftrightarrow> Suc k \<le> i \<and> i < n \<and> \<not> bit_used d i \<and> (\<forall>j. Suc k \<le> j \<longrightarrow> j < i \<longrightarrow> bit_used d j)"
      by (simp_all add: free_bit.simps [of d k])
    with True show ?thesis by (metis Suc_leD Suc_leI le_antisym not_less_eq_eq)
  next
    case False
    then show ?thesis by (subst free_bit.simps) auto
  qed
qed

section \<open>The bitmap of a mounted file system\<close>

text \<open>The bitmap block of block \<open>b\<close>, and whether the cached bitmap has \<open>b\<close> in use.\<close>

definition bmp :: "superblock \<Rightarrow> nat \<Rightarrow> u32" where
  "bmp sb b = BBLOCK (of_nat b) (sb_ninodes sb)"

definition blk_used :: "kern \<Rightarrow> superblock \<Rightarrow> nat \<Rightarrow> bool" where
  "blk_used s sb b \<longleftrightarrow> bit_used (view s (bmp sb b)) (b mod BPB)"

text \<open>The cached super block is \<open>sb\<close>, and the bitmap it implies lies before the log.\<close>

definition fs_geom :: "kern \<Rightarrow> superblock \<Rightarrow> bool" where
  "fs_geom s sb \<longleftrightarrow> sb_of_block (view s 1) = sb \<and> log_at s sb \<and>
     (\<forall>b < unat (sb_size sb). home_sector s (bmp sb b))"

lemma fs_geom_small: "fs_geom s sb \<Longrightarrow> unat (sb_size sb) \<le> 2 ^ 19"
  by (auto simp: fs_geom_def log_at_def sb_geom_def)

lemma fs_geom_step:
  assumes "fs_geom s sb" "tstep s s'" "view s' 1 = view s 1"
  shows "fs_geom s' sb"
  using assms tstep_geom [OF assms(2)] by (simp add: fs_geom_def)

lemma unat_of_nat_small: "b < 2 ^ 32 \<Longrightarrow> unat (of_nat b :: u32) = b"
  by (simp add: unat_of_nat take_bit_nat_eq_self)

lemma bmp_group:
  assumes "b mod BPB = 0" "i < BPB" "b + i < 2 ^ 32"
  shows "bmp sb (b + i) = bmp sb b" "(b + i) mod BPB = i"
proof -
  from assms(1) obtain q where b: "b = q * BPB" by (metis mod_0_imp_dvd dvd_def mult.commute)
  have d: "(b + i) div BPB = b div BPB" using assms(2) unfolding b by simp
  show "(b + i) mod BPB = i" using assms(2) unfolding b by simp
  show "bmp sb (b + i) = bmp sb b"
    using assms(3) by (simp only: bmp_def BBLOCK_def unat_of_nat_small [OF assms(3)] unat_of_nat_small [of b] d)
qed

lemma not_one_home: "home_sector s a \<Longrightarrow> a \<noteq> 1"
  by (auto simp: home_sector_def)

section \<open>Allocation and freeing\<close>

lemma xv6_bzero_step:
  assumes inv: "linv s" and hm: "home_sector s a" and free: "a \<notin> held s" and rm: "room s 1"
    and out: "outstanding (thelog s) \<ge> 1" and fit: "int (length (lsec s)) + 1 < log_size (thelog s)"
  shows "\<exists>s'. xv6_bzero ROOTDEV a s = Inr ((), s') \<and> tstep s s' \<and> view s' = (view s)(a := zero_block) \<and>
    lsec s' = log_add a (lsec s) \<and> inodes s' = inodes s"
proof -
  from session [OF inv home_usable [OF inv hm] free rm] obtain b t where t: "bread ROOTDEV a s = Inr (b, t)"
    "\<exists>u v s'. set_data b zero_block t = Inr ((), u) \<and> log_write b u = Inr ((), v) \<and> brelse b v = Inr ((), s') \<and>
      tstep s s' \<and> view s' = (view s)(a := zero_block) \<and> lsec s' = log_add a (lsec s) \<and> inodes s' = inodes s"
    using hm out fit by metis
  then show ?thesis by (auto simp: xv6_bzero_def)
qed

text \<open>The first free block, and what allocating it does to the cached disk.\<close>

definition first_free :: "kern \<Rightarrow> superblock \<Rightarrow> nat \<Rightarrow> bool" where
  "first_free s sb n \<longleftrightarrow> n < unat (sb_size sb) \<and> \<not> blk_used s sb n \<and> (\<forall>b < n. blk_used s sb b)"

definition alloc_view :: "superblock \<Rightarrow> nat \<Rightarrow> (u32 \<Rightarrow> block) \<Rightarrow> u32 \<Rightarrow> block" where
  "alloc_view sb n v = v(bmp sb n := mark_bit (v (bmp sb n)) (n mod BPB), of_nat n := zero_block)"

lemma room_add:
  assumes "tstep s s'" "room s 2" "lsec s' = log_add a (lsec s)"
  shows "room s' 1"
proof -
  have "length (lsec s') \<le> Suc (length (lsec s))" using assms(3) by simp
  then show ?thesis using assms(2) tstep_held [OF assms(1)] unfolding room_def by simp
qed

lemma room_mono: "room s k \<Longrightarrow> j \<le> k \<Longrightarrow> room s j"
  by (simp add: room_def)

lemma room_same: "tstep s s' \<Longrightarrow> lsec s' = lsec s \<Longrightarrow> room s' k = room s k"
  by (simp add: room_def tstep_held)

lemma balloc_from_ok:
  assumes "linv s" "fs_geom s sb" "outstanding (thelog s) \<ge> 1" "room s 2"
    "int (length (lsec s)) + 2 < log_size (thelog s)" "first_free s sb n" "home_sector s (of_nat n)"
    "of_nat n \<notin> held s" "\<forall>b < unat (sb_size sb). bmp sb b \<notin> held s" "b \<le> n" "b mod BPB = 0"
  shows "\<exists>s'. balloc_from ROOTDEV sb b s = Inr (of_nat n, s') \<and> tstep s s' \<and>
    view s' = alloc_view sb n (view s) \<and> lsec s' = log_add (of_nat n) (log_add (bmp sb n) (lsec s)) \<and>
    inodes s' = inodes s"
  using assms
proof (induction "n - b" arbitrary: s b rule: less_induct)
  case less
  note pre = less.prems
  have sz: "b < unat (sb_size sb)" "n < unat (sb_size sb)" using pre(6,10) by (auto simp: first_free_def)
  have small: "n < 2 ^ 32" "b + BPB \<le> 2 ^ 31 - 1" "unat (sb_size sb) \<le> 2 ^ 19"
    using fs_geom_small [OF pre(2)] sz by (auto simp: layout)
  let ?B = "BBLOCK (of_nat b) (sb_ninodes sb)" and ?k = "min BPB (unat (sb_size sb) - b)"
  have B: "?B = bmp sb b" by (simp add: bmp_def)
  have hmB: "home_sector s ?B" "?B \<notin> held s" using pre(2,9) sz B by (auto simp: fs_geom_def)
  have group: "bmp sb (b + i) = ?B" "(b + i) mod BPB = i" if "i < BPB" for i
    using bmp_group(1) [OF pre(11) that, of sb] bmp_group(2) [OF pre(11) that] B small that
    by (auto simp: layout)
  have usedB: "bit_used (view s ?B) i \<longleftrightarrow> blk_used s sb (b + i)" if "i < BPB" for i
    using group [OF that] by (simp add: blk_used_def)
  from session [OF pre(1) home_usable [OF pre(1) hmB(1)] hmB(2) room_mono [OF pre(4), of 1]] hmB pre(3,5)
  obtain bp t where t: "bread ROOTDEV ?B s = Inr (bp, t)" "buf_data bp t = Inr (view s ?B, t)"
    "\<exists>s'. brelse bp t = Inr ((), s') \<and> tstep s s' \<and> view s' = view s \<and> lsec s' = lsec s \<and> inodes s' = inodes s"
    "\<And>d. \<exists>u v s'. set_data bp d t = Inr ((), u) \<and> log_write bp u = Inr ((), v) \<and> brelse bp v = Inr ((), s') \<and>
        tstep s s' \<and> view s' = (view s)(?B := d) \<and> lsec s' = log_add ?B (lsec s) \<and> inodes s' = inodes s"
    by (smt (verit) one_le_numeral)
  show ?case
  proof (cases "n < b + BPB")
    case True
    define i where "i = n - b"
    have i: "n = b + i" "i < BPB" "i < ?k" using True pre(10) sz by (auto simp: i_def)
    have fb: "free_bit (view s ?B) 0 ?k = Some i"
      using i pre(6) usedB by (auto simp: free_bit_Some first_free_def)
    have n: "bmp sb n = ?B" "n mod BPB = i" using group [OF i(2)] i(1) by auto
    from t(4) [of "mark_bit (view s ?B) i"] obtain u v s1 where s1:
      "set_data bp (mark_bit (view s ?B) i) t = Inr ((), u)" "log_write bp u = Inr ((), v)"
      "brelse bp v = Inr ((), s1)" "tstep s s1" "view s1 = (view s)(?B := mark_bit (view s ?B) i)"
      "lsec s1 = log_add ?B (lsec s)" "inodes s1 = inodes s" by blast
    note g = tstep_geom [OF s1(4)]
    have len: "length (lsec s1) \<le> Suc (length (lsec s))" using s1(6) by simp
    from xv6_bzero_step [of s1 "of_nat n"] tstep_linv [OF s1(4)] g pre(3,5,7,8) tstep_held [OF s1(4)] len
      room_add [OF s1(4) pre(4) s1(6)]
    obtain s' where s': "xv6_bzero ROOTDEV (of_nat n) s1 = Inr ((), s')" "tstep s1 s'"
      "view s' = (view s1)(of_nat n := zero_block)" "lsec s' = log_add (of_nat n) (lsec s1)"
      "inodes s' = inodes s1" by auto
    have "balloc_from ROOTDEV sb b s = Inr (of_nat n, s')"
      using sz t(1,2) fb s1(1-3) s'(1) i(1) by (subst balloc_from.simps) simp
    then show ?thesis
      using s1 s' tstep_trans [OF s1(4) s'(2)] by (simp add: alloc_view_def n)
  next
    case False
    then have fb: "free_bit (view s ?B) 0 ?k = None"
      using pre(6) usedB sz by (auto simp: free_bit_None first_free_def)
    from t(3) obtain s1 where s1: "brelse bp t = Inr ((), s1)" "tstep s s1" "view s1 = view s"
      "lsec s1 = lsec s" "inodes s1 = inodes s" by blast
    note g = tstep_geom [OF s1(2)]
    have f1: "fs_geom s1 sb" using fs_geom_step [OF pre(2) s1(2)] s1(3) by simp
    have ff: "first_free s1 sb n" using pre(6) s1(3) by (simp add: first_free_def blk_used_def)
    have "n - (b + BPB) < n - b" using False by (simp add: layout)
    from less.hyps [OF this tstep_linv [OF s1(2)] f1 _ _ _ ff] g pre s1 tstep_held [OF s1(2)]
      room_same [OF s1(2,4)] False
    obtain s' where s': "balloc_from ROOTDEV sb (b + BPB) s1 = Inr (of_nat n, s')" "tstep s1 s'"
      "view s' = alloc_view sb n (view s1)" "lsec s' = log_add (of_nat n) (log_add (bmp sb n) (lsec s1))"
      "inodes s' = inodes s1" by auto
    have "balloc_from ROOTDEV sb b s = Inr (of_nat n, s')"
      using sz t(1,2) fb s1(1) s'(1) small(2) by (subst balloc_from.simps) (simp add: INT_MAX_def)
    then show ?thesis
      using s1 s' tstep_trans [OF s1(2) s'(2)] by simp
  qed
qed

lemma balloc_ok:
  assumes "linv s" "fs_geom s sb" "outstanding (thelog s) \<ge> 1" "room s 2"
    "int (length (lsec s)) + 2 < log_size (thelog s)" "first_free s sb n" "home_sector s (of_nat n)"
    "of_nat n \<notin> held s" "1 \<notin> held s" "\<forall>b < unat (sb_size sb). bmp sb b \<notin> held s"
  shows "\<exists>s'. balloc ROOTDEV s = Inr (of_nat n, s') \<and> tstep s s' \<and> view s' = alloc_view sb n (view s) \<and>
    lsec s' = log_add (of_nat n) (log_add (bmp sb n) (lsec s)) \<and> inodes s' = inodes s"
proof -
  from readsb_step [OF assms(1,9) room_mono [OF assms(4)]] assms(2) obtain t where t:
    "readsb ROOTDEV s = Inr (sb, t)" "tstep s t" "view t = view s" "lsec t = lsec s" "inodes t = inodes s"
    by (auto simp: fs_geom_def)
  have "first_free t sb n" using assms(6) t(3) by (simp add: first_free_def blk_used_def)
  from balloc_from_ok [OF tstep_linv [OF t(2)] fs_geom_step [OF assms(2) t(2)] _ _ _ this, of 0]
    tstep_geom [OF t(2)] room_same [OF t(2,4)] tstep_held [OF t(2)] assms t
  obtain s' where "balloc_from ROOTDEV sb 0 t = Inr (of_nat n, s')" "tstep t s'"
    "view s' = alloc_view sb n (view t)" "lsec s' = log_add (of_nat n) (log_add (bmp sb n) (lsec t))"
    "inodes s' = inodes t" by auto
  with t tstep_trans [OF t(2)] show ?thesis by (auto simp: balloc_def)
qed

lemma balloc_from_full:
  assumes "linv s" "fs_geom s sb" "room s 1" "\<forall>b < unat (sb_size sb). blk_used s sb b"
    "\<forall>b < unat (sb_size sb). bmp sb b \<notin> held s" "b mod BPB = 0"
  shows "balloc_from ROOTDEV sb b s = Inl (Panic ''balloc: out of blocks'')"
  using assms
proof (induction "unat (sb_size sb) - b" arbitrary: s b rule: less_induct)
  case less
  note pre = less.prems
  show ?case
  proof (cases "b < unat (sb_size sb)")
    case False
    then show ?thesis by (subst balloc_from.simps) simp
  next
    case True
    let ?B = "BBLOCK (of_nat b) (sb_ninodes sb)" and ?k = "min BPB (unat (sb_size sb) - b)"
    have small: "b + BPB \<le> 2 ^ 31 - 1" using fs_geom_small [OF pre(2)] True by (simp add: layout)
    have B: "?B = bmp sb b" by (simp add: bmp_def)
    have hmB: "home_sector s ?B" "?B \<notin> held s" using pre(2,5) True B by (auto simp: fs_geom_def)
    have "bit_used (view s ?B) i" if "i < ?k" for i
    proof -
      have i: "i < BPB" "b + i < 2 ^ 32" "b + i < unat (sb_size sb)" using that small by (auto simp: layout)
      have "blk_used s sb (b + i)" using pre(4) i(3) by blast
      then show ?thesis using bmp_group(1) [OF pre(6) i(1,2), of sb] bmp_group(2) [OF pre(6) i(1,2)] B
        by (simp add: blk_used_def)
    qed
    then have fb: "free_bit (view s ?B) 0 ?k = None" by (simp add: free_bit_None)
    from session [OF pre(1) home_usable [OF pre(1) hmB(1)] hmB(2) pre(3)]
    obtain bp t s1 where t: "bread ROOTDEV ?B s = Inr (bp, t)" "buf_data bp t = Inr (view s ?B, t)"
      "brelse bp t = Inr ((), s1)" "tstep s s1" "view s1 = view s" "lsec s1 = lsec s" by metis
    have f1: "fs_geom s1 sb" using fs_geom_step [OF pre(2) t(4)] t(5) by simp
    have "balloc_from ROOTDEV sb (b + BPB) s1 = Inl (Panic ''balloc: out of blocks'')"
      using less.hyps [of "b + BPB" s1] tstep_linv [OF t(4)] f1 pre t(5) tstep_held [OF t(4)]
        room_same [OF t(4,6)] True by (simp add: blk_used_def) (simp add: layout)
    then show ?thesis
      using True t fb small by (subst balloc_from.simps) (simp add: INT_MAX_def)
  qed
qed

lemma bfree_step:
  assumes inv: "linv s" and geom: "fs_geom s sb" and out: "outstanding (thelog s) \<ge> 1" and rm: "room s 1"
    and fit: "int (length (lsec s)) + 1 < log_size (thelog s)" and b: "unat b < unat (sb_size sb)"
    and free: "1 \<notin> held s" "bmp sb (unat b) \<notin> held s"
  shows "\<exists>s'. bfree ROOTDEV b s =
      (if blk_used s sb (unat b) then Inr ((), s') else Inl (Panic ''freeing free block'')) \<and>
    tstep s s' \<and> lsec s' = log_add (bmp sb (unat b)) (lsec s) \<and> inodes s' = inodes s \<and>
    view s' = (view s)(bmp sb (unat b) := clear_bit (view s (bmp sb (unat b))) (unat b mod BPB))"
proof -
  let ?B = "bmp sb (unat b)"
  have B: "BBLOCK b (sb_ninodes sb) = ?B" by (simp add: bmp_def)
  from readsb_step [OF inv free(1) rm] geom obtain t where t:
    "readsb ROOTDEV s = Inr (sb, t)" "tstep s t" "view t = view s" "lsec t = lsec s" "inodes t = inodes s"
    by (auto simp: fs_geom_def)
  note g = tstep_geom [OF t(2)] and lt = tstep_linv [OF t(2)]
  have hm: "home_sector t ?B" using geom b g(1) by (simp add: fs_geom_def)
  have fr: "?B \<notin> held t" using free(2) tstep_held [OF t(2)] by simp
  have rt: "room t 1" using rm room_same [OF t(2,4)] by simp
  from session [OF lt home_usable [OF lt hm] fr rt] hm out fit g t(4) obtain bp u where u:
    "bread ROOTDEV ?B t = Inr (bp, u)" "buf_data bp u = Inr (view s ?B, u)"
    "\<And>d. \<exists>v w s'. set_data bp d u = Inr ((), v) \<and> log_write bp v = Inr ((), w) \<and> brelse bp w = Inr ((), s') \<and>
        tstep t s' \<and> view s' = (view t)(?B := d) \<and> lsec s' = log_add ?B (lsec t) \<and> inodes s' = inodes t"
    using t(3) by metis
  from u(3) [of "clear_bit (view s ?B) (unat b mod BPB)"] obtain v w s' where s':
    "set_data bp (clear_bit (view s ?B) (unat b mod BPB)) u = Inr ((), v)" "log_write bp v = Inr ((), w)"
    "brelse bp w = Inr ((), s')" "tstep t s'" "view s' = (view t)(?B := clear_bit (view s ?B) (unat b mod BPB))"
    "lsec s' = log_add ?B (lsec t)" "inodes s' = inodes t" by blast
  have "bfree ROOTDEV b s = (if blk_used s sb (unat b) then Inr ((), s') else Inl (Panic ''freeing free block''))"
    using t(1) u(1,2) s'(1-3) by (simp add: bfree_def B blk_used_def)
  with s' t tstep_trans [OF t(2) s'(4)] show ?thesis by (intro exI [of _ s']) simp
qed

text \<open>Zeroing a block that is not a home block, as \<open>balloc\<close> does when it hands out a log block.\<close>

lemma xv6_bzero_run:
  assumes inv: "linv s" and ok: "sector_ok s a" and free: "a \<notin> held s" and rm: "room s 1"
    and out: "outstanding (thelog s) \<ge> 1" and fit: "int (length (lsec s)) + 1 < log_size (thelog s)"
  shows "\<exists>s'. xv6_bzero ROOTDEV a s = Inr ((), s') \<and> lsec s' = log_add a (lsec s) \<and> view s' a = zero_block"
proof -
  from bread_step [OF inv ok free rm] obtain b t where t: "bread ROOTDEV a s = Inr (b, t)" "linv t"
    "tenv t = tenv s" "lsec t = lsec s" "owns t b a" by blast
  note l = linv_facts [OF t(2)]
  from bc.put_ok [OF l(1) t(5), of zero_block] obtain u where u: "set_data b zero_block t = Inr ((), u)"
    "binv u" "rest u = rest t" "view u = (view t)(a := zero_block)" "owns u = owns t" by blast
  note r = rest_log [OF u(3)]
  have n0: "0 \<le> lh_n (lh (thelog u))" "log_size (thelog u) \<le> int LOGSIZE" using l(2,3) r
    by (auto simp: lsecs_ok_def log_geom_def)
  have o: "owns u b a" "outstanding (thelog u) \<ge> 1" "int (length (lsec u)) < log_size (thelog u) - 1"
    using u(5) t(3-5) r(1,2) out fit by (simp_all add: tenv_eq)
  from log_write_run [OF u(2) o(1) n0 o(2,3)] obtain v where v: "log_write b u = Inr ((), v)"
    "binv v" "lsec v = log_add a (lsec u)" "view v = view u" "dirty v = insert a (dirty u)" "owns v = owns u"
    by blast
  have "owns v b a" "a \<in> dirty v" using v u t(5) by simp_all
  with bc.rel_ok [OF v(2)] obtain s' where "brelse b v = Inr ((), s')" "rest s' = rest v" "view s' = view v"
    by blast
  with t(1,4) u(1,4) v(1,3,4) r(2) rest_log(2) [of s' v] show ?thesis by (simp add: xv6_bzero_def)
qed

section \<open>Properties\<close>

definition sample_fs :: "nat \<Rightarrow> block" where
  "sample_fs = sample_disk(4 := zero_block(0 := 0xFF))"

lemma sample_bmp: "b < 100 \<Longrightarrow> bmp sample_sb b = 4"
  by (simp add: bmp_def BBLOCK_def sample_sb_def layout unat_of_nat_small)

lemma sample_bits: "bit_used (zero_block(0 := 0xFF)) i \<longleftrightarrow> i < 8"
proof -
  have "bit (0xFF :: u8) k" if "k < 8" for k
  proof -
    have "(0xFF :: u8) = mask 8" by (simp add: mask_eq_exp_minus_1)
    then show ?thesis using that by (simp only: bit_mask_iff possible_bit_word) simp
  qed
  then show ?thesis by (auto simp: bit_used_iff zero_block_def)
qed

lemma sample_fs_geom:
  assumes "linv s" "log_at s sample_sb" "\<forall>a. unat a \<noteq> 70 \<longrightarrow> view s a = sample_fs (unat a)"
  shows "fs_geom s sample_sb" "first_free s sample_sb 8" "home_sector s 8"
proof -
  have v: "view s 1 = put_sb zero_block sample_sb" "view s 4 = zero_block(0 := 0xFF)"
    using assms(3) by (simp_all add: sample_fs_def sample_disk_def)
  have sz: "unat (sb_size sample_sb) = 100" by (simp add: sample_sb_def)
  have hm: "home_sector s a \<longleftrightarrow> 2 \<le> unat a \<and> unat a < 70" for a
    using log_at_geom(4) [OF assms(2)] sample_geom by simp
  show "fs_geom s sample_sb" using assms(2) v sz by (auto simp: fs_geom_def sample_bmp hm)
  show "home_sector s 8" by (simp add: hm)
  have "blk_used s sample_sb b \<longleftrightarrow> b < 8" if "b < 100" for b
    using that v by (simp add: blk_used_def sample_bmp sample_bits layout)
  then show "first_free s sample_sb 8" by (simp add: first_free_def sz)
qed

lemma sample_fs_ready:
  "\<exists>s. sample_open (process_start sample_fs 100) = Inr ((), s) \<and> linv s \<and> held s = {} \<and> lsec s = [] \<and>
     outstanding (thelog s) = 1 \<and> log_size (thelog s) = 30 \<and> fs_geom s sample_sb \<and>
     first_free s sample_sb 8 \<and> home_sector s 8 \<and> room s 2"
proof -
  have "sb_of_block (sample_fs 1) = sample_sb" "head_n (sample_fs 70) = 0"
    using sample_head by (simp_all add: sample_fs_def)
  from sample_ready [where d = sample_fs, OF this] obtain s where s:
    "sample_open (process_start sample_fs 100) = Inr ((), s)" "linv s" "held s = {}" "lsec s = []"
    "log_at s sample_sb" "outstanding (thelog s) = 1" "\<forall>a. unat a \<noteq> 70 \<longrightarrow> view s a = sample_fs (unat a)"
    by blast
  moreover have "log_size (thelog s) = 30" using s(5) sample_geom by (simp add: log_at_def)
  moreover have "room s 2" using s by (simp add: room_def layout)
  ultimately show ?thesis using sample_fs_geom [OF s(2,5,7)] by blast
qed

text \<open>
  C35: \<open>balloc\<close> inside a transaction returns the first block whose bitmap bit is clear, sets
  that bit, zeroes the block and changes nothing else of the cached disk; both blocks are
  logged.
\<close>

theorem balloc_first_free:
  assumes "linv s" and "fs_geom s sb" and "outstanding (thelog s) \<ge> 1" and "room s 2"
    and "int (length (lsec s)) + 2 < log_size (thelog s)" and "first_free s sb n" and "home_sector s (of_nat n)"
    and "held s = {}"
  shows "\<exists>s'. balloc ROOTDEV s = Inr (of_nat n, s') \<and> linv s' \<and> disk s' = disk s \<and> held s' = {} \<and>
    view s' = (view s)(bmp sb n := mark_bit (view s (bmp sb n)) (n mod BPB), of_nat n := zero_block) \<and>
    set (lsec s') = set (lsec s) \<union> {bmp sb n, of_nat n}"
proof -
  from balloc_ok [OF assms(1-7)] assms(8) obtain s' where "balloc ROOTDEV s = Inr (of_nat n, s')" "tstep s s'"
    "view s' = alloc_view sb n (view s)" "lsec s' = log_add (of_nat n) (log_add (bmp sb n) (lsec s))" by auto
  with tstep_held [of s s'] assms(8) show ?thesis by (auto simp: tstep_def alloc_view_def)
qed

theorem balloc_first_free_witness:
  "\<exists>s s'. sample_open (process_start sample_fs 100) = Inr ((), s) \<and> balloc ROOTDEV s = Inr (8, s') \<and>
     view s' 8 = zero_block \<and> \<not> blk_used s sample_sb 8 \<and> blk_used s' sample_sb 8"
proof -
  from sample_fs_ready obtain s where s: "sample_open (process_start sample_fs 100) = Inr ((), s)" "linv s"
    "held s = {}" "lsec s = []" "outstanding (thelog s) = 1" "log_size (thelog s) = 30" "fs_geom s sample_sb"
    "first_free s sample_sb 8" "home_sector s 8" "room s 2" by blast
  have "home_sector s (of_nat 8)" "int (length (lsec s)) + 2 < log_size (thelog s)" "outstanding (thelog s) \<ge> 1"
    using s by simp_all
  from balloc_first_free [OF s(2,7) this(3) s(10) this(2) s(8) this(1) s(3)] obtain s' where s':
    "balloc ROOTDEV s = Inr (of_nat 8, s')"
    "view s' = (view s)(bmp sample_sb 8 := mark_bit (view s (bmp sample_sb 8)) (8 mod BPB), of_nat 8 := zero_block)"
    by blast
  have "blk_used s' sample_sb 8" using s'(2) by (simp add: blk_used_def sample_bmp bit_used_mark layout)
  moreover have "\<not> blk_used s sample_sb 8" using s(8) by (simp add: first_free_def)
  ultimately show ?thesis using s(1) s' by (intro exI [of _ s] exI [of _ s'] conjI) simp_all
qed

text \<open>
  \<open>balloc\<close> gives up exactly by panicking: on a bitmap with every bit set it scans all of it
  and ends in \<open>panic("balloc: out of blocks")\<close>.
\<close>

lemma balloc_out_of_blocks:
  assumes "linv s" and "fs_geom s sb" and "held s = {}" and "\<forall>b < unat (sb_size sb). blk_used s sb b"
  shows "balloc ROOTDEV s = Inl (Panic ''balloc: out of blocks'')"
proof -
  note rm = linv_room [OF assms(1,3)]
  have h: "1 \<notin> held s" using assms(3) by simp
  from readsb_step [OF assms(1) h rm] assms(2) obtain t where t:
    "readsb ROOTDEV s = Inr (sb, t)" "tstep s t" "view t = view s" "lsec t = lsec s" by (auto simp: fs_geom_def)
  have "balloc_from ROOTDEV sb 0 t = Inl (Panic ''balloc: out of blocks'')"
    using assms t rm tstep_linv [OF t(2)] fs_geom_step [OF assms(2) t(2)] room_same [OF t(2,4)] tstep_held [OF t(2)]
    by (intro balloc_from_full) (auto simp: blk_used_def)
  with t(1) show ?thesis by (simp add: balloc_def)
qed

text \<open>
  Allocating a block and freeing it again: \<open>bfree\<close> accepts what \<open>balloc\<close> returned and the
  bitmap block is back to what it was; the freed block's contents stay zeroed.
\<close>

lemma balloc_bfree_roundtrip:
  assumes "linv s" and "fs_geom s sb" and "outstanding (thelog s) \<ge> 1" and "room s 3" and "held s = {}"
    and "int (length (lsec s)) + 3 < log_size (thelog s)" and "first_free s sb n" and "home_sector s (of_nat n)"
    and "of_nat n \<noteq> bmp sb n"
  shows "\<exists>s' s''. balloc ROOTDEV s = Inr (of_nat n, s') \<and> bfree ROOTDEV (of_nat n) s' = Inr ((), s'') \<and>
    linv s'' \<and> view s'' = (view s)(of_nat n := zero_block)"
proof -
  have fit: "int (length (lsec s)) + 2 < log_size (thelog s)" using assms(6) by simp
  have "of_nat n \<notin> held s" "1 \<notin> held s" "\<forall>b < unat (sb_size sb). bmp sb b \<notin> held s" using assms(5) by simp_all
  from balloc_ok [OF assms(1-3) room_mono [OF assms(4)] fit assms(7,8) this] obtain s' where s':
    "balloc ROOTDEV s = Inr (of_nat n, s')" "tstep s s'" "view s' = alloc_view sb n (view s)"
    "lsec s' = log_add (of_nat n) (log_add (bmp sb n) (lsec s))" by auto
  have n: "n < unat (sb_size sb)" "unat (of_nat n :: u32) = n" "\<not> blk_used s sb n"
    using assms(7) fs_geom_small [OF assms(2)] by (auto simp: first_free_def unat_of_nat_small)
  have len: "length (lsec s') \<le> length (lsec s) + 2"
    using log_add_simps(3) [of "of_nat n" "log_add (bmp sb n) (lsec s)"] log_add_simps(3) [of "bmp sb n" "lsec s"]
    unfolding s'(4) by linarith
  have rm: "room s' 1" using assms(4) len tstep_held [OF s'(2)] unfolding room_def by simp
  have one: "of_nat n \<noteq> (1 :: u32)" "bmp sb n \<noteq> 1"
    using assms(2,8) n not_one_home by (auto simp: fs_geom_def)
  have g: "fs_geom s' sb"
    using fs_geom_step [OF assms(2) s'(2)] one s'(3) by (simp add: alloc_view_def)
  have m: "view s' (bmp sb n) = mark_bit (view s (bmp sb n)) (n mod BPB)"
    using s'(3) assms(9) by (simp add: alloc_view_def)
  have used: "blk_used s' sb n" by (simp add: blk_used_def m bit_used_mark)
  have h: "1 \<notin> held s'" "bmp sb (unat (of_nat n :: u32)) \<notin> held s'" using tstep_held [OF s'(2)] assms(5) by simp_all
  have f: "int (length (lsec s')) + 1 < log_size (thelog s')" "outstanding (thelog s') \<ge> 1"
    "unat (of_nat n :: u32) < unat (sb_size sb)"
    using len assms(3,6) tstep_geom [OF s'(2)] n by simp_all
  from bfree_step [OF tstep_linv [OF s'(2)] g f(2) rm f(1,3) h] used n(2) obtain s'' where s'':
    "bfree ROOTDEV (of_nat n) s' = Inr ((), s'')" "tstep s' s''"
    "view s'' = (view s')(bmp sb n := clear_bit (view s' (bmp sb n)) (n mod BPB))" by auto
  have "view s'' = (view s)(of_nat n := zero_block)"
    unfolding s''(3) m using clear_mark [of "view s (bmp sb n)" "n mod BPB"] n(3) assms(9) s'(3)
    by (auto simp: alloc_view_def blk_used_def fun_eq_iff)
  with s' s'' show ?thesis by (auto simp: tstep_def)
qed

text \<open>
  \<open>bfree\<close> on both branches: a block in use is marked free and nothing else of the cached disk
  changes; freeing a block that is already free panics.
\<close>

lemma bfree_exact:
  assumes "linv s" and "fs_geom s sb" and "outstanding (thelog s) \<ge> 1" and "held s = {}"
    and "int (length (lsec s)) + 1 < log_size (thelog s)" and "unat b < unat (sb_size sb)"
  shows "if blk_used s sb (unat b)
    then \<exists>s'. bfree ROOTDEV b s = Inr ((), s') \<and> linv s' \<and> disk s' = disk s \<and>
      view s' = (view s)(bmp sb (unat b) := clear_bit (view s (bmp sb (unat b))) (unat b mod BPB))
    else bfree ROOTDEV b s = Inl (Panic ''freeing free block'')"
proof -
  have "1 \<notin> held s" "bmp sb (unat b) \<notin> held s" using assms(4) by simp_all
  from bfree_step [OF assms(1-3) linv_room [OF assms(1,4)] assms(5,6) this] obtain s' where s':
    "bfree ROOTDEV b s = (if blk_used s sb (unat b) then Inr ((), s') else Inl (Panic ''freeing free block''))"
    "tstep s s'" "view s' = (view s)(bmp sb (unat b) := clear_bit (view s (bmp sb (unat b))) (unat b mod BPB))"
    by blast
  then show ?thesis by (auto simp: tstep_def)
qed

text \<open>
  C36: \<open>balloc\<close> scans every block up to \<open>sb.size\<close>, the log included.  When the bits of all blocks
  before the log are set and the log header's is clear (\<open>mkfs\<close> never sets the log's bits),
  \<open>balloc\<close> hands out the log header block and enters it into the transaction that overwrites it.
\<close>

theorem balloc_takes_log_block:
  assumes "linv s" and "fs_geom s sb" and "outstanding (thelog s) \<ge> 1" and "room s 2" and "held s = {}"
    and "int (length (lsec s)) + 2 < log_size (thelog s)" and "first_free s sb (sb_start sb)"
    and "unat (sb_size sb) \<le> BPB"
  shows "\<exists>s'. balloc ROOTDEV s = Inr (log_block (thelog s) 0, s') \<and>
    log_block (thelog s) 0 \<in> set (lsec s') \<and> view s' (log_block (thelog s) 0) = zero_block"
proof -
  let ?n = "sb_start sb" and ?B = "BBLOCK 0 (sb_ninodes sb)"
  have at: "log_at s sb" and sb1: "sb_of_block (view s 1) = sb" using assms(2) by (auto simp: fs_geom_def)
  have n: "?n < unat (sb_size sb)" "\<not> blk_used s sb ?n" "\<forall>b < ?n. blk_used s sb b"
    using assms(7) by (auto simp: first_free_def)
  have small: "?n < BPB" "?n < 2 ^ 32" using n(1) assms(8) by (auto simp: layout)
  have lb: "log_block (thelog s) 0 = of_nat ?n"
    using log_at_geom(2) [OF at] unat_of_nat_small [OF small(2)] by (simp add: word_unat_eq_iff)
  have bm: "bmp sb b = ?B" "b mod BPB = b" if "b < BPB" for b
    using bmp_group(1) [of 0 b sb] that by (simp_all add: bmp_def layout)
  have h1: "1 \<notin> held s" using assms(5) by simp
  from readsb_step [OF assms(1) h1 room_mono [OF assms(4)]] sb1 obtain t where t:
    "readsb ROOTDEV s = Inr (sb, t)" "tstep s t" "view t = view s" "lsec t = lsec s" by auto
  note g = tstep_geom [OF t(2)] and lt = tstep_linv [OF t(2)]
  have "home_sector s (bmp sb 0)" using assms(2) n(1) unfolding fs_geom_def by (metis gr_zeroI not_less_zero)
  then have hmB: "home_sector t ?B" using g(1) by (simp add: bmp_def)
  have hB: "?B \<notin> held t" using tstep_held [OF t(2)] assms(5) by simp
  have r2: "room t 2" using assms(4) room_same [OF t(2,4)] by simp
  have fb: "free_bit (view t ?B) 0 (min BPB (unat (sb_size sb))) = Some ?n"
    using n small bm t(3) by (auto simp: free_bit_Some blk_used_def)
  from session [OF lt home_usable [OF lt hmB] hB room_mono [OF r2]] hmB assms(3,6) g t(4) obtain bp u where u:
    "bread ROOTDEV ?B t = Inr (bp, u)" "buf_data bp u = Inr (view t ?B, u)"
    "\<And>d. \<exists>v w s'. set_data bp d u = Inr ((), v) \<and> log_write bp v = Inr ((), w) \<and> brelse bp w = Inr ((), s') \<and>
        tstep t s' \<and> view s' = (view t)(?B := d) \<and> lsec s' = log_add ?B (lsec t)"
    by (smt (verit) one_le_numeral)
  from u(3) [of "mark_bit (view t ?B) ?n"] obtain v w s1 where s1:
    "set_data bp (mark_bit (view t ?B) ?n) u = Inr ((), v)" "log_write bp v = Inr ((), w)"
    "brelse bp w = Inr ((), s1)" "tstep t s1" "lsec s1 = log_add ?B (lsec t)" by blast
  note g1 = tstep_geom [OF s1(4)]
  have len: "length (lsec s1) \<le> Suc (length (lsec s))" using s1(5) t(4) by simp
  have "0 < log_size (thelog s)" using at by (auto simp: log_at_def sb_geom_def)
  then have "sector_ok s (of_nat ?n)" using unat_log_block(2) [OF log_at_geom(1) [OF at], of 0] lb by simp
  then have ok: "sector_ok s1 (of_nat ?n)" using g(2) g1(2) by simp
  have "of_nat ?n \<notin> held s1" using tstep_held [OF s1(4)] tstep_held [OF t(2)] assms(5) by simp
  from xv6_bzero_run [OF tstep_linv [OF s1(4)] ok this room_add [OF s1(4) r2 s1(5)]] assms(3,6) g g1 len
  obtain s' where s': "xv6_bzero ROOTDEV (of_nat ?n) s1 = Inr ((), s')" "lsec s' = log_add (of_nat ?n) (lsec s1)"
    "view s' (of_nat ?n) = zero_block" by auto
  have "balloc_from ROOTDEV sb 0 t = Inr (of_nat ?n, s')"
    using n(1) u(1,2) fb s1(1-3) s'(1) by (subst balloc_from.simps) simp
  with t(1) s' lb show ?thesis by (auto simp: balloc_def)
qed

lemma sample_full_bits:
  "bit_used (\<lambda>k. if k < 8 then 0xFF else if k = 8 then 0x3F else 0) i \<longleftrightarrow> i < 70"
proof -
  have m: "(0xFF :: u8) = mask 8" "(0x3F :: u8) = mask 6" by (simp_all add: mask_eq_exp_minus_1)
  consider "i < 64" | "64 \<le> i \<and> i < 72" | "72 \<le> i" by linarith
  then show ?thesis
  proof cases
    case 1
    then have "i div 8 < 8" "i < 70" by linarith+
    then show ?thesis unfolding bit_used_iff m by (simp add: bit_mask_iff possible_bit_word)
  next
    case 2
    then have d: "i div 8 = 8" by linarith
    have "i mod 8 = i - 64" using minus_mult_div_eq_mod [of i 8] d by simp
    then show ?thesis using 2 unfolding bit_used_iff m d by (auto simp: bit_mask_iff possible_bit_word)
  next
    case 3
    then have "\<not> i div 8 < 8" "i div 8 \<noteq> 8" by linarith+
    with 3 show ?thesis unfolding bit_used_iff by simp
  qed
qed

theorem balloc_takes_log_block_witness:
  "\<exists>s s'. sample_open (process_start
       (sample_disk(4 := (\<lambda>k. if k < 8 then 0xFF else if k = 8 then 0x3F else 0))) 100) = Inr ((), s) \<and>
     log_start (thelog s) = 70 \<and> balloc ROOTDEV s = Inr (70, s') \<and> 70 \<in> set (lsec s')"
proof -
  let ?d = "sample_disk(4 := (\<lambda>k. if k < 8 then 0xFF else if k = 8 then 0x3F else 0))"
  have "sb_of_block (?d 1) = sample_sb" "head_n (?d 70) = 0" using sample_head by simp_all
  from sample_ready [where d = ?d, OF this] obtain s where s:
    "sample_open (process_start ?d 100) = Inr ((), s)" "linv s" "held s = {}" "lsec s = []"
    "log_at s sample_sb" "outstanding (thelog s) = 1" "\<forall>a. unat a \<noteq> 70 \<longrightarrow> view s a = ?d (unat a)" by blast
  have v: "view s 1 = put_sb zero_block sample_sb"
    "view s 4 = (\<lambda>k. if k < 8 then 0xFF else if k = 8 then 0x3F else 0)"
    using s(7) by (simp_all add: sample_disk_def)
  have sz: "unat (sb_size sample_sb) = 100" by (simp add: sample_sb_def)
  have geom: "fs_geom s sample_sb" using s(5) v log_at_geom(4) [OF s(5)]
    by (auto simp: fs_geom_def sample_bmp sz sample_geom)
  have "blk_used s sample_sb b \<longleftrightarrow> b < 70" if "b < 100" for b
    using that by (simp add: blk_used_def sample_bmp v sample_full_bits layout)
  then have ff: "first_free s sample_sb (sb_start sample_sb)" by (simp add: first_free_def sample_geom sz)
  have f: "outstanding (thelog s) \<ge> 1" "room s 2" "int (length (lsec s)) + 2 < log_size (thelog s)"
    "unat (sb_size sample_sb) \<le> BPB" "log_start (thelog s) = 70"
    using s sample_geom sz by (simp_all add: log_at_def room_def layout)
  have "log_block (thelog s) 0 = 70" using f(5) by (simp add: log_block_def)
  with balloc_takes_log_block [OF s(2) geom f(1,2) s(3) f(3) ff f(4)] obtain s' where
    "balloc ROOTDEV s = Inr (70, s')" "70 \<in> set (lsec s')" by auto
  with s(1) f(5) show ?thesis by (intro exI [of _ s] exI [of _ s'] conjI)
qed

end
