(* ===== verification/Inode.thy ===== *)
theory Inode
  imports Alloc
begin

text \<open>
  The inode layer of \<open>fs.c\<close>: the inode cache (\<open>iget\<close>, \<open>idup\<close>, \<open>ilock\<close>, \<open>iunlock\<close>, \<open>iput\<close>),
  the inode allocator, and inode contents (\<open>bmap\<close>, \<open>itrunc\<close>, \<open>stati\<close>, \<open>readi\<close>, \<open>zeroi\<close>,
  \<open>writei\<close>).  A \<open>struct inode *\<close> is an index into the cache's array; the null pointer, where a
  function tests for it, is \<open>None\<close>.
\<close>

section \<open>The inode cache\<close>

definition iinit :: "spinlock \<Rightarrow> spinlock" where
  "iinit lk = initlock lk ''icache''"

definition ino_at :: "nat \<Rightarrow> inode act" where
  "ino_at ip = gets (\<lambda>s. inodes s ip)"

definition upd_ino :: "nat \<Rightarrow> (inode \<Rightarrow> inode) \<Rightarrow> unit act" where
  "upd_ino ip f = modify (\<lambda>s. s\<lparr>inodes := (inodes s)(ip := f (inodes s ip))\<rparr>)"

text \<open>
  \<open>iget\<close>'s scan returns the first entry in use for the inode, and only without one the first
  entry with no reference.
\<close>

definition iget_hit :: "(nat \<Rightarrow> inode) \<Rightarrow> u32 \<Rightarrow> u32 \<Rightarrow> nat option" where
  "iget_hit is dev inum =
     List.find (\<lambda>i. i_ref (is i) > 0 \<and> i_dev (is i) = dev \<and> i_inum (is i) = inum) [0..<NINODE]"

definition iget_empty :: "(nat \<Rightarrow> inode) \<Rightarrow> nat option" where
  "iget_empty is = List.find (\<lambda>i. i_ref (is i) = 0) [0..<NINODE]"

definition iget :: "u32 \<Rightarrow> u32 \<Rightarrow> nat act" where
  "iget dev inum =
     bnd (gets inodes) (\<lambda>is.
     case iget_hit is dev inum of
       Some ip \<Rightarrow>
         bnd (guard (int_range (i_ref (is ip) + 1)) (Undef ''ip->ref++'')) (\<lambda>_.
         bnd (upd_ino ip (\<lambda>i. i\<lparr>i_ref := i_ref i + 1\<rparr>)) (\<lambda>_. ret ip))
     | None \<Rightarrow>
         (case iget_empty is of
            None \<Rightarrow> fail (Panic ''iget: no inodes'')
          | Some ip \<Rightarrow>
              bnd (upd_ino ip (\<lambda>i. i\<lparr>i_dev := dev, i_inum := inum, i_ref := 1, i_flags := 0\<rparr>))
                (\<lambda>_. ret ip)))"

definition idup :: "nat \<Rightarrow> nat act" where
  "idup ip =
     bnd (ino_at ip) (\<lambda>i.
     bnd (guard (int_range (i_ref i + 1)) (Undef ''ip->ref++'')) (\<lambda>_.
     bnd (upd_ino ip (\<lambda>i. i\<lparr>i_ref := i_ref i + 1\<rparr>)) (\<lambda>_. ret ip)))"

lemma iget_hit_eq:
  "iget_hit (inodes s) dev inum = Some ip \<Longrightarrow> iget dev inum s =
     (if int_range (i_ref (inodes s ip) + 1)
      then Inr (ip, s\<lparr>inodes := (inodes s)(ip := (inodes s ip)\<lparr>i_ref := i_ref (inodes s ip) + 1\<rparr>)\<rparr>)
      else Inl (Undef ''ip->ref++''))"
  by (simp add: iget_def upd_ino_def)

lemma idup_eq:
  "idup ip s =
     (if int_range (i_ref (inodes s ip) + 1)
      then Inr (ip, s\<lparr>inodes := (inodes s)(ip := (inodes s ip)\<lparr>i_ref := i_ref (inodes s ip) + 1\<rparr>)\<rparr>)
      else Inl (Undef ''ip->ref++''))"
  by (simp add: idup_def ino_at_def upd_ino_def)

text \<open>The loop of \<open>ialloc\<close>; \<open>inum\<close> is an \<open>int\<close>.\<close>

function ialloc_from :: "u32 \<Rightarrow> u16 \<Rightarrow> superblock \<Rightarrow> nat \<Rightarrow> nat act" where
  "ialloc_from dev type sb inum =
     (if inum < unat (sb_ninodes sb)
      then bnd (bread dev (IBLOCK (of_nat inum))) (\<lambda>bp.
           bnd (buf_data bp) (\<lambda>d.
           if di_type (get_dinode d (dinode_offset (of_nat inum))) = 0
           then bnd (set_data bp (put16 (blit d (dinode_offset (of_nat inum)) SIZEOF_DINODE zero_block)
                      (dinode_offset (of_nat inum)) type)) (\<lambda>_.
                bnd (log_write bp) (\<lambda>_.
                bnd (brelse bp) (\<lambda>_.
                iget dev (of_nat inum))))
           else bnd (brelse bp) (\<lambda>_.
                bnd (guard (int (Suc inum) \<le> INT_MAX) (Undef ''inum++'')) (\<lambda>_.
                ialloc_from dev type sb (Suc inum)))))
      else fail (Panic ''ialloc: no inodes''))"
  by pat_completeness auto
termination by (relation "measure (\<lambda>(dev, type, sb, inum). unat (sb_ninodes sb) - inum)") auto

declare ialloc_from.simps [simp del]

definition ialloc :: "u32 \<Rightarrow> u16 \<Rightarrow> nat act" where
  "ialloc dev type = bnd (readsb dev) (\<lambda>sb. ialloc_from dev type sb 1)"

text \<open>The fields an inode shares with its on-disk form.\<close>

definition dinode_of :: "inode \<Rightarrow> dinode" where
  "dinode_of i = \<lparr>di_type = i_type i, di_major = i_major i, di_minor = i_minor i, di_nlink = i_nlink i,
     di_size = i_size i, di_ctime = i_ctime i, di_atime = i_atime i, di_mtime = i_mtime i,
     di_addrs = i_addrs i\<rparr>"

text \<open>\<open>sizeof(ip->addrs)\<close> covers \<open>NDIRECT + 1\<close> addresses.\<close>

definition iupdate :: "nat \<Rightarrow> unit act" where
  "iupdate ip =
     bnd (ino_at ip) (\<lambda>i.
     bnd (bread (i_dev i) (IBLOCK (i_inum i))) (\<lambda>bp.
     bnd (buf_data bp) (\<lambda>d.
     bnd (set_data bp (put_dinode (NDIRECT + 1) d (dinode_offset (i_inum i)) (dinode_of i))) (\<lambda>_.
     bnd (log_write bp) (\<lambda>_.
     brelse bp)))))"

definition load_dinode :: "dinode \<Rightarrow> inode \<Rightarrow> inode" where
  "load_dinode di i = i\<lparr>i_type := di_type di, i_major := di_major di, i_minor := di_minor di,
     i_nlink := di_nlink di, i_size := di_size di, i_mtime := di_mtime di, i_atime := di_atime di,
     i_ctime := di_ctime di,
     i_addrs := (\<lambda>k. if k < NDIRECT + 1 then di_addrs di k else i_addrs i k)\<rparr>"

text \<open>\<open>while(ip->flags & I_BUSY) sleep\<close>, one pass.\<close>

definition ilock_pass :: "nat \<Rightarrow> unit option act" where
  "ilock_pass ip = bnd (ino_at ip) (\<lambda>i. if flag I_BUSY (i_flags i) then ret None else ret (Some ()))"

definition ilock :: "nat option \<Rightarrow> unit act" where
  "ilock ipo =
     (case ipo of None \<Rightarrow> fail (Panic ''ilock'') | Some ip \<Rightarrow>
     bnd (ino_at ip) (\<lambda>i.
     bnd (guard (i_ref i \<ge> 1) (Panic ''ilock'')) (\<lambda>_.
     bnd (until ''ilock: sleep'' (ilock_pass ip)) (\<lambda>_.
     bnd (upd_ino ip (\<lambda>i. i\<lparr>i_flags := set_flag I_BUSY (i_flags i)\<rparr>)) (\<lambda>_.
     if \<not> flag I_VALID (i_flags i)
     then bnd (bread (i_dev i) (IBLOCK (i_inum i))) (\<lambda>bp.
          bnd (buf_data bp) (\<lambda>d.
          bnd (upd_ino ip (load_dinode (get_dinode d (dinode_offset (i_inum i))))) (\<lambda>_.
          bnd (brelse bp) (\<lambda>_.
          bnd (upd_ino ip (\<lambda>i. i\<lparr>i_flags := set_flag I_VALID (i_flags i)\<rparr>)) (\<lambda>_.
          bnd (ino_at ip) (\<lambda>i.
          guard (i_type i \<noteq> 0) (Panic ''ilock: no type'')))))))
     else ret ())))))"

lemma ilock_wait:
  "until ''ilock: sleep'' (ilock_pass ip) s =
     bnd (ino_at ip) (\<lambda>i. guard (\<not> flag I_BUSY (i_flags i)) (Hang ''ilock: sleep'')) s"
  by (simp add: ilock_pass_def until_def bnd_def split: sum.splits)

lemma ilock_unfold:
  "ilock ipo =
     (case ipo of None \<Rightarrow> fail (Panic ''ilock'') | Some ip \<Rightarrow>
     bnd (ino_at ip) (\<lambda>i.
     bnd (guard (i_ref i \<ge> 1) (Panic ''ilock'')) (\<lambda>_.
     bnd (guard (\<not> flag I_BUSY (i_flags i)) (Hang ''ilock: sleep'')) (\<lambda>_.
     bnd (upd_ino ip (\<lambda>i. i\<lparr>i_flags := set_flag I_BUSY (i_flags i)\<rparr>)) (\<lambda>_.
     if \<not> flag I_VALID (i_flags i)
     then bnd (bread (i_dev i) (IBLOCK (i_inum i))) (\<lambda>bp.
          bnd (buf_data bp) (\<lambda>d.
          bnd (upd_ino ip (load_dinode (get_dinode d (dinode_offset (i_inum i))))) (\<lambda>_.
          bnd (brelse bp) (\<lambda>_.
          bnd (upd_ino ip (\<lambda>i. i\<lparr>i_flags := set_flag I_VALID (i_flags i)\<rparr>)) (\<lambda>_.
          bnd (ino_at ip) (\<lambda>i.
          guard (i_type i \<noteq> 0) (Panic ''ilock: no type'')))))))
     else ret ())))))"
  by (auto simp: ilock_def ilock_wait fun_eq_iff ino_at_def bnd_def split: option.splits)

definition iunlock :: "nat option \<Rightarrow> unit act" where
  "iunlock ipo =
     (case ipo of None \<Rightarrow> fail (Panic ''iunlock'') | Some ip \<Rightarrow>
     bnd (ino_at ip) (\<lambda>i.
     bnd (guard (flag I_BUSY (i_flags i) \<and> i_ref i \<ge> 1) (Panic ''iunlock'')) (\<lambda>_.
     upd_ino ip (\<lambda>i. i\<lparr>i_flags := clear_flag I_BUSY (i_flags i)\<rparr>))))"

section \<open>Inode content\<close>

text \<open>
  \<open>bmap\<close>.  Blocks past the singly indirect ones go through \<open>ip->addrs[NDIRECT+1]\<close>, one past
  the end of the in-memory array, so that branch is undefined from its first access on.
\<close>

definition bmap_indirect :: "u32 \<Rightarrow> u32 \<Rightarrow> nat \<Rightarrow> u32 act" where
  "bmap_indirect dev addr bn =
     bnd (bread dev addr) (\<lambda>bp.
     bnd (buf_data bp) (\<lambda>d.
     if get32 d (4 * bn) = 0
     then bnd (balloc dev) (\<lambda>a.
          bnd (buf_data bp) (\<lambda>d.
          bnd (set_data bp (put32 d (4 * bn) a)) (\<lambda>_.
          bnd (log_write bp) (\<lambda>_.
          bnd (brelse bp) (\<lambda>_.
          ret a)))))
     else bnd (brelse bp) (\<lambda>_. ret (get32 d (4 * bn)))))"

definition bmap_slot :: "nat \<Rightarrow> nat \<Rightarrow> u32 act" where
  "bmap_slot ip k =
     bnd (ino_at ip) (\<lambda>i.
     if i_addrs i k = 0
     then bnd (balloc (i_dev i)) (\<lambda>a.
          bnd (upd_ino ip (\<lambda>i. i\<lparr>i_addrs := (i_addrs i)(k := a)\<rparr>)) (\<lambda>_. ret a))
     else ret (i_addrs i k))"

definition bmap :: "nat \<Rightarrow> nat \<Rightarrow> u32 act" where
  "bmap ip bn =
     (if bn < NDIRECT then bmap_slot ip bn
      else if bn - NDIRECT < NINDIRECT
      then bnd (bmap_slot ip NDIRECT) (\<lambda>addr.
           bnd (ino_at ip) (\<lambda>i.
           bmap_indirect (i_dev i) addr (bn - NDIRECT)))
      else if bn - NDIRECT < MAXFILE - NDIRECT
      then fail (Undef ''ip->addrs[NDIRECT+1]'')
      else fail (Panic ''bmap: out of range''))"

text \<open>The two loops of \<open>itrunc\<close>: direct addresses, and the entries of the indirect block.\<close>

fun itrunc_direct :: "nat \<Rightarrow> nat list \<Rightarrow> unit act" where
  "itrunc_direct ip [] = ret ()"
| "itrunc_direct ip (k # ks) =
     bnd (ino_at ip) (\<lambda>i.
     bnd (if i_addrs i k \<noteq> 0
          then bnd (bfree (i_dev i) (i_addrs i k)) (\<lambda>_.
               upd_ino ip (\<lambda>i. i\<lparr>i_addrs := (i_addrs i)(k := 0)\<rparr>))
          else ret ()) (\<lambda>_.
     itrunc_direct ip ks))"

fun itrunc_indirect :: "u32 \<Rightarrow> nat \<Rightarrow> nat list \<Rightarrow> unit act" where
  "itrunc_indirect dev bp [] = ret ()"
| "itrunc_indirect dev bp (j # js) =
     bnd (buf_data bp) (\<lambda>d.
     bnd (if get32 d (4 * j) \<noteq> 0 then bfree dev (get32 d (4 * j)) else ret ()) (\<lambda>_.
     itrunc_indirect dev bp js))"

definition itrunc :: "nat \<Rightarrow> unit act" where
  "itrunc ip =
     bnd (itrunc_direct ip [0..<NDIRECT]) (\<lambda>_.
     bnd (ino_at ip) (\<lambda>i.
     bnd (if i_addrs i NDIRECT \<noteq> 0
          then bnd (bread (i_dev i) (i_addrs i NDIRECT)) (\<lambda>bp.
               bnd (itrunc_indirect (i_dev i) bp [0..<NINDIRECT]) (\<lambda>_.
               bnd (brelse bp) (\<lambda>_.
               bnd (bfree (i_dev i) (i_addrs i NDIRECT)) (\<lambda>_.
               upd_ino ip (\<lambda>i. i\<lparr>i_addrs := (i_addrs i)(NDIRECT := 0)\<rparr>)))))
          else ret ()) (\<lambda>_.
     bnd (upd_ino ip (\<lambda>i. i\<lparr>i_size := 0\<rparr>)) (\<lambda>_.
     iupdate ip))))"

definition iput :: "nat \<Rightarrow> unit act" where
  "iput ip =
     bnd (ino_at ip) (\<lambda>i.
     bnd (if i_ref i = 1 \<and> flag I_VALID (i_flags i) \<and> i_nlink i = 0
          then bnd (guard (\<not> flag I_BUSY (i_flags i)) (Panic ''iput busy'')) (\<lambda>_.
               bnd (upd_ino ip (\<lambda>i. i\<lparr>i_flags := set_flag I_BUSY (i_flags i)\<rparr>)) (\<lambda>_.
               bnd (itrunc ip) (\<lambda>_.
               bnd (upd_ino ip (\<lambda>i. i\<lparr>i_type := 0\<rparr>)) (\<lambda>_.
               bnd (iupdate ip) (\<lambda>_.
               upd_ino ip (\<lambda>i. i\<lparr>i_flags := 0\<rparr>))))))
          else ret ()) (\<lambda>_.
     bnd (ino_at ip) (\<lambda>i.
     bnd (guard (INT_MIN \<le> i_ref i - 1) (Undef ''ip->ref--'')) (\<lambda>_.
     upd_ino ip (\<lambda>i. i\<lparr>i_ref := i_ref i - 1\<rparr>)))))"

definition iunlockput :: "nat \<Rightarrow> unit act" where
  "iunlockput ip = bnd (iunlock (Some ip)) (\<lambda>_. iput ip)"

definition stati :: "nat \<Rightarrow> stat act" where
  "stati ip =
     bnd (ino_at ip) (\<lambda>i.
     ret \<lparr>st_type = i_type i, st_dev = i_dev i, st_ino = i_inum i, st_nlink = i_nlink i,
       st_size = i_size i, st_atime = i_atime i, st_mtime = i_mtime i, st_ctime = i_ctime i\<rparr>)"

section \<open>Reading and writing\<close>

text \<open>\<open>devsw\<close> is a zeroed table that nothing in the program fills in.\<close>

record devsw_entry =
  dev_read :: "(nat \<Rightarrow> int \<Rightarrow> (int \<times> bytes) act) option"
  dev_write :: "(nat \<Rightarrow> bytes \<Rightarrow> int \<Rightarrow> int act) option"

definition devsw :: "nat \<Rightarrow> devsw_entry" where
  "devsw k = \<lparr>dev_read = None, dev_write = None\<rparr>"

definition major_ok :: "inode \<Rightarrow> bool" where
  "major_ok i \<longleftrightarrow> 0 \<le> sint (i_major i) \<and> sint (i_major i) < NDEV"

text \<open>
  The copy loops.  \<open>k\<close> is \<open>n - tot\<close>, what is left to copy; \<open>off\<close> is a \<open>uint\<close> that may wrap
  in \<open>zeroi\<close>, which does not check it.  \<open>chunk\<close> is \<open>min(n - tot, BSIZE - off%BSIZE)\<close>.
\<close>

definition chunk :: "u32 \<Rightarrow> nat \<Rightarrow> nat" where
  "chunk off k = min k (BSIZE - unat off mod BSIZE)"

lemma chunk_pos: "0 < k \<Longrightarrow> 0 < chunk off k"
  by (simp add: chunk_def BSIZE_def)

function readi_loop :: "nat \<Rightarrow> u32 \<Rightarrow> nat \<Rightarrow> bytes \<Rightarrow> bytes act" where
  "readi_loop ip off k dst =
     (if 0 < k
      then bnd (bmap ip (unat off div BSIZE)) (\<lambda>addr.
           bnd (ino_at ip) (\<lambda>i.
           bnd (bread (i_dev i) addr) (\<lambda>bp.
           bnd (buf_data bp) (\<lambda>d.
           bnd (brelse bp) (\<lambda>_.
           readi_loop ip (off + of_nat (chunk off k)) (k - chunk off k)
             (dst @ block_slice d (unat off mod BSIZE) (chunk off k)))))))
      else ret dst)"
  by pat_completeness auto
termination by (relation "measure (\<lambda>(ip, off, k, dst). k)") (auto simp: chunk_pos)

declare readi_loop.simps [simp del]

text \<open>\<open>readi\<close> returns its value and the bytes it stores at \<open>dst\<close>.\<close>

definition readi :: "nat \<Rightarrow> u32 \<Rightarrow> u32 \<Rightarrow> (int \<times> bytes) act" where
  "readi ip off n =
     bnd (ino_at ip) (\<lambda>i.
     if i_type i = T_DEV
     then (if \<not> major_ok i then ret (-1, [])
           else case dev_read (devsw (nat (sint (i_major i)))) of
             None \<Rightarrow> ret (-1, []) | Some rd \<Rightarrow> rd ip (sint n))
     else if off > i_size i \<or> off + n < off then ret (-1, [])
     else (let n = (if off + n > i_size i then i_size i - off else n)
           in bnd (readi_loop ip off (unat n) []) (\<lambda>dst. ret (sint n, dst))))"

function zeroi_loop :: "nat \<Rightarrow> u32 \<Rightarrow> nat \<Rightarrow> u32 act" where
  "zeroi_loop ip off k =
     (if 0 < k
      then bnd (bmap ip (unat off div BSIZE)) (\<lambda>addr.
           bnd (ino_at ip) (\<lambda>i.
           bnd (bread (i_dev i) addr) (\<lambda>bp.
           bnd (buf_data bp) (\<lambda>d.
           bnd (set_data bp (blit d (unat off mod BSIZE) (chunk off k) zero_block)) (\<lambda>_.
           bnd (log_write bp) (\<lambda>_.
           bnd (brelse bp) (\<lambda>_.
           zeroi_loop ip (off + of_nat (chunk off k)) (k - chunk off k))))))))
      else ret off)"
  by pat_completeness auto
termination by (relation "measure (\<lambda>(ip, off, k). k)") (auto simp: chunk_pos)

declare zeroi_loop.simps [simp del]

definition zeroi :: "nat \<Rightarrow> u32 \<Rightarrow> u32 \<Rightarrow> unit act" where
  "zeroi ip off n =
     bnd (zeroi_loop ip off (unat n)) (\<lambda>off.
     bnd (upd_ino ip (\<lambda>i. i\<lparr>i_size := off\<rparr>)) (\<lambda>_.
     bnd unix_time (\<lambda>t.
     bnd (upd_ino ip (\<lambda>i. i\<lparr>i_mtime := t\<rparr>)) (\<lambda>_.
     iupdate ip))))"

function writei_loop :: "nat \<Rightarrow> u32 \<Rightarrow> bytes \<Rightarrow> u32 act" where
  "writei_loop ip off src =
     (if 0 < length src
      then bnd (bmap ip (unat off div BSIZE)) (\<lambda>addr.
           bnd (ino_at ip) (\<lambda>i.
           bnd (bread (i_dev i) addr) (\<lambda>bp.
           bnd (buf_data bp) (\<lambda>d.
           bnd (set_data bp (blit_list d (unat off mod BSIZE) (take (chunk off (length src)) src))) (\<lambda>_.
           bnd (log_write bp) (\<lambda>_.
           bnd (brelse bp) (\<lambda>_.
           writei_loop ip (off + of_nat (chunk off (length src))) (drop (chunk off (length src)) src))))))))
      else ret off)"
  by pat_completeness auto
termination by (relation "measure (\<lambda>(ip, off, src). length src)") (auto simp: chunk_pos)

declare writei_loop.simps [simp del]

text \<open>\<open>src\<close> holds \<open>n\<close> bytes; \<open>MAXFILE*BSIZE\<close> is a \<open>size_t\<close>, so the comparison is not done in 32 bits.\<close>

definition writei :: "nat \<Rightarrow> bytes \<Rightarrow> u32 \<Rightarrow> u32 \<Rightarrow> int act" where
  "writei ip src off n =
     bnd (ino_at ip) (\<lambda>i.
     if i_type i = T_DEV
     then (if \<not> major_ok i then ret (-1)
           else case dev_write (devsw (nat (sint (i_major i)))) of
             None \<Rightarrow> ret (-1) | Some wr \<Rightarrow> wr ip src (sint n))
     else if off > i_size i \<or> off + n < off then ret (-1)
     else if unat (off + n) > MAXFILE * BSIZE then ret (-1)
     else bnd (writei_loop ip off (take (unat n) src)) (\<lambda>off.
          bnd (ino_at ip) (\<lambda>i.
          bnd (if n > 0 \<and> off > i_size i
               then bnd (upd_ino ip (\<lambda>i. i\<lparr>i_size := off\<rparr>)) (\<lambda>_.
                    bnd unix_time (\<lambda>t.
                    bnd (upd_ino ip (\<lambda>i. i\<lparr>i_mtime := t\<rparr>)) (\<lambda>_.
                    iupdate ip)))
               else ret ()) (\<lambda>_.
          ret (sint n)))))"

end
