(* ===== verification/Dir.thy ===== *)
theory Dir
  imports Inode
begin

text \<open>
  Directories and path names of \<open>fs.c\<close>: \<open>namecmp\<close>, \<open>dirlookup\<close>, \<open>dirlink\<close>, \<open>skipelem\<close>,
  \<open>namex\<close>, \<open>namei\<close>, \<open>nameiparent\<close>.  A path is the list of its bytes before the terminating
  NUL; the \<open>name\<close> buffer is the (at most \<open>DIRSIZ\<close>) bytes of the element copied into it.
\<close>

section \<open>Directories\<close>

text \<open>The measure of the loops over a directory's entries.\<close>

lemma dirent_step_less:
  "off < unat (w :: u32) \<Longrightarrow> 4294967296 - (off + SIZEOF_DIRENT) < 4294967296 - off"
proof -
  assume "off < unat w"
  moreover have "unat w < 4294967296" using unsigned_less [of w] by simp
  ultimately show ?thesis by (simp add: layout)
qed

definition namecmp :: "bytes \<Rightarrow> bytes \<Rightarrow> int" where
  "namecmp s t = strncmp s t DIRSIZ"

text \<open>Read the directory entry at \<open>off\<close>; both callers panic with the same message.\<close>

definition read_dirent :: "nat \<Rightarrow> u32 \<Rightarrow> string \<Rightarrow> dirent act" where
  "read_dirent dp off msg =
     bnd (readi dp off (of_nat SIZEOF_DIRENT)) (\<lambda>(r, xs).
     bnd (guard (r = int SIZEOF_DIRENT) (Panic msg)) (\<lambda>_.
     ret (dirent_of_bytes xs)))"

text \<open>
  The loop of \<open>dirlookup\<close>; its result is the entry's inode and its offset.  An \<open>off\<close> within
  \<open>sizeof(de)\<close> of \<open>2 ^ 32\<close> makes \<open>readi\<close> fail, so \<open>off += sizeof(de)\<close> never wraps.
\<close>

function dirlookup_from :: "nat \<Rightarrow> bytes \<Rightarrow> nat \<Rightarrow> (nat \<times> u32) option act" where
  "dirlookup_from dp name off =
     bnd (ino_at dp) (\<lambda>i.
     if off < unat (i_size i)
     then bnd (read_dirent dp (of_nat off) ''dirlink read'') (\<lambda>de.
          if de_inum de = 0 then dirlookup_from dp name (off + SIZEOF_DIRENT)
          else if namecmp name (de_name de) = 0
          then bnd (iget (i_dev i) (ucast (de_inum de))) (\<lambda>ip. ret (Some (ip, of_nat off)))
          else dirlookup_from dp name (off + SIZEOF_DIRENT))
     else ret None)"
  by pat_completeness auto
termination
  by (relation "measure (\<lambda>(dp, name, off). 2 ^ 32 - off)") (auto simp: dirent_step_less)

declare dirlookup_from.simps [simp del]

definition dirlookup :: "nat \<Rightarrow> bytes \<Rightarrow> (nat \<times> u32) option act" where
  "dirlookup dp name =
     bnd (ino_at dp) (\<lambda>i.
     bnd (guard (i_type i = T_DIR) (Panic ''dirlookup not DIR'')) (\<lambda>_.
     dirlookup_from dp name 0))"

text \<open>\<open>dirlink\<close>'s search for an empty entry; here \<open>off\<close> is an \<open>int\<close>.\<close>

function dirlink_slot :: "nat \<Rightarrow> nat \<Rightarrow> nat act" where
  "dirlink_slot dp off =
     bnd (ino_at dp) (\<lambda>i.
     if off < unat (i_size i)
     then bnd (read_dirent dp (of_nat off) ''dirlink read'') (\<lambda>de.
          if de_inum de = 0 then ret off
          else bnd (guard (int (off + SIZEOF_DIRENT) \<le> INT_MAX) (Undef ''off += sizeof(de)'')) (\<lambda>_.
               dirlink_slot dp (off + SIZEOF_DIRENT)))
     else ret off)"
  by pat_completeness auto
termination
  by (relation "measure (\<lambda>(dp, off). 2 ^ 32 - off)") (auto simp: dirent_step_less)

declare dirlink_slot.simps [simp del]

definition dirlink :: "nat \<Rightarrow> bytes \<Rightarrow> u32 \<Rightarrow> int act" where
  "dirlink dp name inum =
     bnd (dirlookup dp name) (\<lambda>r.
     case r of
       Some (ip, _) \<Rightarrow> bnd (iput ip) (\<lambda>_. ret (-1))
     | None \<Rightarrow>
         bnd (dirlink_slot dp 0) (\<lambda>off.
         bnd (writei dp (bytes_of_dirent \<lparr>de_inum = ucast inum, de_name = strncpy name DIRSIZ\<rparr>)
                (of_nat off) (of_nat SIZEOF_DIRENT)) (\<lambda>r.
         bnd (guard (r = int SIZEOF_DIRENT) (Panic ''dirlink'')) (\<lambda>_.
         ret 0))))"

section \<open>Paths\<close>

definition SLASH :: u8 where "SLASH = 0x2F"

text \<open>The next path element and the path behind it.\<close>

definition skipelem :: "bytes \<Rightarrow> (bytes \<times> bytes) option" where
  "skipelem path =
     (let path = dropWhile (\<lambda>c. c = SLASH) path in
      if path = [] then None
      else let s = takeWhile (\<lambda>c. c \<noteq> SLASH) path;
               path = dropWhile (\<lambda>c. c \<noteq> SLASH) path;
               name = (if length s \<ge> DIRSIZ then take DIRSIZ s else s)
           in Some (name, dropWhile (\<lambda>c. c = SLASH) path))"

lemma skipelem_shorter: "skipelem path = Some (name, path') \<Longrightarrow> length path' < length path"
proof -
  assume sk: "skipelem path = Some (name, path')"
  let ?p = "dropWhile (\<lambda>c. c = SLASH) path"
  from sk have ne: "?p \<noteq> []" and p': "path' = dropWhile (\<lambda>c. c = SLASH) (dropWhile (\<lambda>c. c \<noteq> SLASH) ?p)"
    by (auto simp: skipelem_def Let_def split: if_splits)
  have "length path' \<le> length (dropWhile (\<lambda>c. c \<noteq> SLASH) ?p)"
    unfolding p' by (rule length_dropWhile_le)
  also have "\<dots> < length ?p"
  proof -
    from ne obtain c cs where c: "?p = c # cs" by (cases ?p) auto
    moreover have "c \<noteq> SLASH" using c hd_dropWhile [OF ne] by simp
    ultimately show ?thesis using length_dropWhile_le [of "\<lambda>c. c \<noteq> SLASH" cs] by simp
  qed
  also have "\<dots> \<le> length path" by (rule length_dropWhile_le)
  finally show ?thesis .
qed

text \<open>\<open>namex\<close>'s loop; its result is the inode and the contents of \<open>name\<close>.\<close>

function namex_loop :: "nat \<Rightarrow> bytes \<Rightarrow> bool \<Rightarrow> bytes \<Rightarrow> (nat option \<times> bytes) act" where
  "namex_loop ip path parent name =
     (case skipelem path of
        None \<Rightarrow>
          if parent then bnd (iput ip) (\<lambda>_. ret (None, name)) else ret (Some ip, name)
      | Some (name, path) \<Rightarrow>
          bnd (ilock (Some ip)) (\<lambda>_.
          bnd (ino_at ip) (\<lambda>i.
          if i_type i \<noteq> T_DIR then bnd (iunlockput ip) (\<lambda>_. ret (None, name))
          else if parent \<and> path = [] then bnd (iunlock (Some ip)) (\<lambda>_. ret (Some ip, name))
          else bnd (dirlookup ip name) (\<lambda>r.
               case r of
                 None \<Rightarrow> bnd (iunlockput ip) (\<lambda>_. ret (None, name))
               | Some (next, _) \<Rightarrow>
                   bnd (iunlockput ip) (\<lambda>_. namex_loop next path parent name)))))"
  by pat_completeness auto
termination
  by (relation "measure (\<lambda>(ip, path, parent, name). length path)") (auto simp: skipelem_shorter)

declare namex_loop.simps [simp del]

definition namex :: "bytes \<Rightarrow> bool \<Rightarrow> (nat option \<times> bytes) act" where
  "namex path parent =
     bnd (if path \<noteq> [] \<and> hd path = SLASH then iget ROOTDEV ROOTINO
          else bnd (gets curproc) (\<lambda>cwd.
               case cwd of None \<Rightarrow> fail (Undef ''curproc->cwd'') | Some ip \<Rightarrow> idup ip)) (\<lambda>ip.
     namex_loop ip path parent [])"

definition namei :: "bytes \<Rightarrow> nat option act" where
  "namei path = bnd (namex path False) (\<lambda>(ip, name). ret ip)"

definition nameiparent :: "bytes \<Rightarrow> (nat option \<times> bytes) act" where
  "nameiparent path = namex path True"

end
