(* ===== verification/File.thy ===== *)
theory File
  imports Dir
begin

text \<open>
  Open files (\<open>file.c\<close>) and the pipe stubs (\<open>pipe.c\<close>).  A \<open>struct file *\<close> is an index into
  \<open>ftable.file\<close>.
\<close>

section \<open>Pipes (pipe.c)\<close>

definition pipealloc :: "int act" where "pipealloc = ret (-1)"
definition pipeclose :: "unit act" where "pipeclose = ret ()"
definition piperead :: "int act" where "piperead = ret (-1)"
definition pipewrite :: "int act" where "pipewrite = ret (-1)"

section \<open>The file table (file.c)\<close>

definition fileinit :: "spinlock \<Rightarrow> spinlock" where
  "fileinit lk = initlock lk ''ftable''"

definition file_at :: "nat \<Rightarrow> xfile act" where
  "file_at f = gets (\<lambda>s. ftable s f)"

definition upd_file :: "nat \<Rightarrow> (xfile \<Rightarrow> xfile) \<Rightarrow> unit act" where
  "upd_file f g = modify (\<lambda>s. s\<lparr>ftable := (ftable s)(f := g (ftable s f))\<rparr>)"

definition filealloc :: "nat option act" where
  "filealloc =
     bnd (gets ftable) (\<lambda>ft.
     case List.find (\<lambda>f. f_ref (ft f) = 0) [0..<NFILE] of
       Some f \<Rightarrow> bnd (upd_file f (\<lambda>x. x\<lparr>f_ref := 1\<rparr>)) (\<lambda>_. ret (Some f))
     | None \<Rightarrow> ret None)"

definition filedup :: "nat \<Rightarrow> nat act" where
  "filedup f =
     bnd (file_at f) (\<lambda>x.
     bnd (guard (f_ref x \<ge> 1) (Panic ''filedup'')) (\<lambda>_.
     bnd (guard (int_range (f_ref x + 1)) (Undef ''f->ref++'')) (\<lambda>_.
     bnd (upd_file f (\<lambda>x. x\<lparr>f_ref := f_ref x + 1\<rparr>)) (\<lambda>_.
     ret f))))"

text \<open>Dereferencing \<open>f->ip\<close>.\<close>

definition deref :: "nat option \<Rightarrow> nat act" where
  "deref p = (case p of None \<Rightarrow> fail (Undef ''null inode'') | Some ip \<Rightarrow> ret ip)"

definition fileclose :: "nat \<Rightarrow> unit act" where
  "fileclose f =
     bnd (file_at f) (\<lambda>x.
     bnd (guard (f_ref x \<ge> 1) (Panic ''fileclose'')) (\<lambda>_.
     bnd (upd_file f (\<lambda>x. x\<lparr>f_ref := f_ref x - 1\<rparr>)) (\<lambda>_.
     if f_ref x - 1 > 0 then ret ()
     else bnd (upd_file f (\<lambda>x. x\<lparr>f_ref := 0, f_type := FD_NONE\<rparr>)) (\<lambda>_.
          case f_type x of
            FD_PIPE \<Rightarrow> pipeclose
          | FD_INODE \<Rightarrow>
              bnd begin_op (\<lambda>_.
              bnd (deref (f_ip x)) (\<lambda>ip.
              bnd (iput ip) (\<lambda>_.
              end_op)))
          | FD_NONE \<Rightarrow> ret ()))))"

definition filestat :: "nat \<Rightarrow> (int \<times> stat option) act" where
  "filestat f =
     bnd (file_at f) (\<lambda>x.
     if f_type x = FD_INODE
     then bnd (ilock (f_ip x)) (\<lambda>_.
          bnd (deref (f_ip x)) (\<lambda>ip.
          bnd (stati ip) (\<lambda>st.
          bnd (iunlock (f_ip x)) (\<lambda>_.
          ret (0, Some st)))))
     else ret (-1, None))"

definition fileread :: "nat \<Rightarrow> u32 \<Rightarrow> (int \<times> bytes) act" where
  "fileread f n =
     bnd (file_at f) (\<lambda>x.
     if \<not> f_readable x then ret (-1, [])
     else case f_type x of
       FD_PIPE \<Rightarrow> bnd piperead (\<lambda>r. ret (r, []))
     | FD_INODE \<Rightarrow>
         bnd (ilock (f_ip x)) (\<lambda>_.
         bnd (deref (f_ip x)) (\<lambda>ip.
         bnd (readi ip (f_off x) n) (\<lambda>(r, dst).
         bnd (if r > 0 then upd_file f (\<lambda>x. x\<lparr>f_off := f_off x + word_of_int r\<rparr>) else ret ()) (\<lambda>_.
         bnd (iunlock (f_ip x)) (\<lambda>_.
         ret (r, dst))))))
     | FD_NONE \<Rightarrow> fail (Panic ''fileread''))"

text \<open>\<open>max\<close> of \<open>filewrite\<close>: the bytes one transaction writes.\<close>

definition WRITE_MAX :: nat where
  "WRITE_MAX = (LOGSIZE - 1 - 1 - 2) div 2 * 512"

text \<open>The transaction loop; \<open>src\<close> is what is left to write.  The result says whether it all was.\<close>

function filewrite_loop :: "nat \<Rightarrow> nat \<Rightarrow> bytes \<Rightarrow> bool act" where
  "filewrite_loop f ip src =
     (if src = [] then ret True
      else bnd begin_op (\<lambda>_.
           bnd (ilock (Some ip)) (\<lambda>_.
           bnd (file_at f) (\<lambda>x.
           bnd (writei ip (take WRITE_MAX src) (f_off x) (of_nat (min WRITE_MAX (length src)))) (\<lambda>r.
           bnd (if r > 0 then upd_file f (\<lambda>x. x\<lparr>f_off := f_off x + word_of_int r\<rparr>) else ret ()) (\<lambda>_.
           bnd (iunlock (Some ip)) (\<lambda>_.
           bnd end_op (\<lambda>_.
           if r < 0 then ret False
           else bnd (guard (r = int (min WRITE_MAX (length src))) (Panic ''short filewrite'')) (\<lambda>_.
                filewrite_loop f ip (drop WRITE_MAX src))))))))))"
  by pat_completeness auto
termination
  by (relation "measure (\<lambda>(f, ip, src). length src)") (auto simp: WRITE_MAX_def layout)

declare filewrite_loop.simps [simp del]

text \<open>\<open>addr\<close> holds the \<open>n\<close> bytes to write; \<open>n\<close> is an \<open>int\<close>, converted from \<open>size_t\<close> by the caller.\<close>

definition filewrite :: "nat \<Rightarrow> bytes \<Rightarrow> u32 \<Rightarrow> int act" where
  "filewrite f addr n =
     bnd (file_at f) (\<lambda>x.
     if \<not> f_writable x then ret (-1)
     else case f_type x of
       FD_PIPE \<Rightarrow> pipewrite
     | FD_INODE \<Rightarrow>
         bnd (deref (f_ip x)) (\<lambda>ip.
         bnd (ino_at ip) (\<lambda>i.
         bnd (if f_off x > i_size i
              then bnd begin_op (\<lambda>_.
                   bnd (ilock (Some ip)) (\<lambda>_.
                   bnd (ino_at ip) (\<lambda>j.
                   bnd (zeroi ip (i_size j) (f_off x - i_size i)) (\<lambda>_.
                   bnd (iunlock (Some ip)) (\<lambda>_.
                   end_op)))))
              else ret ()) (\<lambda>_.
         if sint n \<le> 0 then ret (if sint n = 0 then 0 else -1)
         else bnd (filewrite_loop f ip (take (nat (sint n)) addr)) (\<lambda>done.
              ret (if done then sint n else -1)))))
     | FD_NONE \<Rightarrow> fail (Panic ''filewrite''))"

end
