(* ===== verification/Sysfile.thy ===== *)
theory Sysfile
  imports File
begin

text \<open>
  The system calls of \<open>sysfile.c\<close>.  A null file handle is \<open>None\<close>.
\<close>

definition ENOENT :: int where "ENOENT = -2"

definition DOT :: bytes where "DOT = [0x2E]"
definition DOTDOT :: bytes where "DOTDOT = [0x2E, 0x2E]"

text \<open>
  \<open>ip->atime = ip->mtime = ip->ctime = unix_time()\<close> and the other fields a new inode gets.
\<close>

definition new_inode :: "u16 \<Rightarrow> u16 \<Rightarrow> u32 \<Rightarrow> inode \<Rightarrow> inode" where
  "new_inode major minor t i = i\<lparr>i_major := major, i_minor := minor, i_nlink := 1,
     i_ctime := t, i_mtime := t, i_atime := t\<rparr>"

definition create_dots :: "nat \<Rightarrow> nat \<Rightarrow> unit act" where
  "create_dots dp ip =
     bnd (upd_ino dp (\<lambda>i. i\<lparr>i_nlink := i_nlink i + 1\<rparr>)) (\<lambda>_.
     bnd (iupdate dp) (\<lambda>_.
     bnd (ino_at ip) (\<lambda>i.
     bnd (dirlink ip DOT (i_inum i)) (\<lambda>r.
     bnd (guard (r \<ge> 0) (Panic ''create dots'')) (\<lambda>_.
     bnd (ino_at dp) (\<lambda>d.
     bnd (dirlink ip DOTDOT (i_inum d)) (\<lambda>r.
     guard (r \<ge> 0) (Panic ''create dots''))))))))"

definition create :: "bytes \<Rightarrow> u16 \<Rightarrow> u16 \<Rightarrow> u16 \<Rightarrow> nat option act" where
  "create path type major minor =
     bnd (nameiparent path) (\<lambda>(dpo, name).
     case dpo of None \<Rightarrow> ret None | Some dp \<Rightarrow>
     bnd (ilock (Some dp)) (\<lambda>_.
     bnd (dirlookup dp name) (\<lambda>r.
     case r of
       Some (ip, _) \<Rightarrow>
         bnd (iunlockput dp) (\<lambda>_.
         bnd (ilock (Some ip)) (\<lambda>_.
         bnd (ino_at ip) (\<lambda>i.
         if type = T_FILE \<and> i_type i = T_FILE then ret (Some ip)
         else bnd (iunlockput ip) (\<lambda>_. ret None))))
     | None \<Rightarrow>
         bnd (ino_at dp) (\<lambda>d.
         bnd (ialloc (i_dev d) type) (\<lambda>ip.
         bnd (ilock (Some ip)) (\<lambda>_.
         bnd unix_time (\<lambda>t.
         bnd (upd_ino ip (new_inode major minor t)) (\<lambda>_.
         bnd (iupdate ip) (\<lambda>_.
         bnd (if type = T_DIR then create_dots dp ip else ret ()) (\<lambda>_.
         bnd (ino_at ip) (\<lambda>i.
         bnd (dirlink dp name (i_inum i)) (\<lambda>r.
         bnd (guard (r \<ge> 0) (Panic ''create: dirlink'')) (\<lambda>_.
         bnd (iunlockput dp) (\<lambda>_.
         ret (Some ip)))))))))))))))"

text \<open>The part of \<open>sys_open\<close> after the inode has been found and locked.\<close>

definition open_file :: "nat \<Rightarrow> u32 \<Rightarrow> nat option act" where
  "open_file ip omode =
     bnd filealloc (\<lambda>fo.
     case fo of
       None \<Rightarrow> bnd (iunlockput ip) (\<lambda>_. bnd end_op (\<lambda>_. ret None))
     | Some f \<Rightarrow>
         bnd (iunlock (Some ip)) (\<lambda>_.
         bnd end_op (\<lambda>_.
         bnd (upd_file f (\<lambda>x. x\<lparr>f_type := FD_INODE, f_ip := Some ip, f_off := 0,
           f_readable := \<not> flag O_WRONLY omode,
           f_writable := flag O_WRONLY omode \<or> flag O_RDWR omode\<rparr>)) (\<lambda>_.
         ret (Some f)))))"

definition sys_open :: "bytes \<Rightarrow> u32 \<Rightarrow> nat option act" where
  "sys_open path omode =
     bnd begin_op (\<lambda>_.
     if flag O_CREATE omode
     then bnd (create path T_FILE 0 0) (\<lambda>ipo.
          case ipo of None \<Rightarrow> bnd end_op (\<lambda>_. ret None) | Some ip \<Rightarrow> open_file ip omode)
     else bnd (namei path) (\<lambda>ipo.
          case ipo of None \<Rightarrow> bnd end_op (\<lambda>_. ret None) | Some ip \<Rightarrow>
          bnd (ilock (Some ip)) (\<lambda>_.
          bnd (ino_at ip) (\<lambda>i.
          if i_type i = T_DIR \<and> omode \<noteq> O_RDONLY
          then bnd (iunlockput ip) (\<lambda>_. bnd end_op (\<lambda>_. ret None))
          else open_file ip omode))))"

definition sys_fileclose :: "nat \<Rightarrow> int act" where
  "sys_fileclose f = bnd (fileclose f) (\<lambda>_. ret 0)"

text \<open>\<open>sz\<close> is a \<open>size_t\<close>, converted to \<open>int\<close> in the call of \<open>fileread\<close> and \<open>filewrite\<close>.\<close>

definition sys_read :: "nat option \<Rightarrow> nat \<Rightarrow> u32 \<Rightarrow> (int \<times> bytes) act" where
  "sys_read fh sz off =
     (case fh of None \<Rightarrow> ret (-1, []) | Some f \<Rightarrow>
      bnd (upd_file f (\<lambda>x. x\<lparr>f_off := off\<rparr>)) (\<lambda>_.
      fileread f (of_nat sz)))"

definition sys_write :: "nat option \<Rightarrow> bytes \<Rightarrow> u32 \<Rightarrow> int act" where
  "sys_write fh buf off =
     (case fh of None \<Rightarrow> ret (-1) | Some f \<Rightarrow>
      bnd (upd_file f (\<lambda>x. x\<lparr>f_off := off\<rparr>)) (\<lambda>_.
      filewrite f buf (of_nat (length buf))))"

definition sys_fstat :: "bytes \<Rightarrow> (int \<times> stat option) act" where
  "sys_fstat path =
     bnd (sys_open path O_RDONLY) (\<lambda>fo.
     case fo of None \<Rightarrow> ret (-1, None) | Some f \<Rightarrow>
     bnd (filestat f) (\<lambda>r.
     bnd (fileclose f) (\<lambda>_.
     ret r)))"

definition sys_readdirent :: "nat option \<Rightarrow> u32 \<Rightarrow> (int \<times> bytes) act" where
  "sys_readdirent fh off =
     (case fh of None \<Rightarrow> ret (-1, []) | Some f \<Rightarrow>
      bnd (file_at f) (\<lambda>x.
      bnd (deref (f_ip x)) (\<lambda>ip.
      bnd (ino_at ip) (\<lambda>i.
      if i_type i \<noteq> T_DIR then ret (-1, [])
      else if off \<ge> i_size i then ret (0, [])
      else bnd (upd_file f (\<lambda>x. x\<lparr>f_off := off\<rparr>)) (\<lambda>_.
           fileread f (of_nat SIZEOF_DIRENT))))))"

definition sys_truncate :: "bytes \<Rightarrow> int act" where
  "sys_truncate path =
     bnd (sys_open path O_RDWR) (\<lambda>fo.
     case fo of None \<Rightarrow> ret (-1) | Some f \<Rightarrow>
     bnd begin_op (\<lambda>_.
     bnd (file_at f) (\<lambda>x.
     bnd (deref (f_ip x)) (\<lambda>ip.
     bnd (itrunc ip) (\<lambda>_.
     bnd end_op (\<lambda>_.
     bnd (fileclose f) (\<lambda>_.
     ret 0)))))))"

text \<open>\<open>sys_mkdir\<close> and \<open>sys_mksock\<close> differ in the type they create.\<close>

definition make_node :: "bytes \<Rightarrow> u16 \<Rightarrow> int act" where
  "make_node path type =
     bnd begin_op (\<lambda>_.
     bnd (create path type 0 0) (\<lambda>ipo.
     case ipo of None \<Rightarrow> bnd end_op (\<lambda>_. ret (-1)) | Some ip \<Rightarrow>
     bnd (iunlockput ip) (\<lambda>_.
     bnd end_op (\<lambda>_.
     ret 0))))"

definition sys_mkdir :: "bytes \<Rightarrow> int act" where
  "sys_mkdir path = make_node path T_DIR"

definition sys_mksock :: "bytes \<Rightarrow> int act" where
  "sys_mksock path = make_node path T_SOCK"

function isdirempty_from :: "nat \<Rightarrow> nat \<Rightarrow> bool act" where
  "isdirempty_from dp off =
     bnd (ino_at dp) (\<lambda>i.
     if off < unat (i_size i)
     then bnd (read_dirent dp (of_nat off) ''isdirempty: readi'') (\<lambda>de.
          if de_inum de \<noteq> 0 then ret False
          else bnd (guard (int (off + SIZEOF_DIRENT) \<le> INT_MAX) (Undef ''off+=sizeof(de)'')) (\<lambda>_.
               isdirempty_from dp (off + SIZEOF_DIRENT)))
     else ret True)"
  by pat_completeness auto
termination
  by (relation "measure (\<lambda>(dp, off). 2 ^ 32 - off)") (auto simp: dirent_step_less)

declare isdirempty_from.simps [simp del]

definition isdirempty :: "nat \<Rightarrow> bool act" where
  "isdirempty dp = isdirempty_from dp (2 * SIZEOF_DIRENT)"

text \<open>\<open>sys_dounlink\<close> after the entry has been found: \<open>goto bad\<close> is \<open>unlink_bad\<close>.\<close>

definition unlink_bad :: "nat \<Rightarrow> int \<Rightarrow> int act" where
  "unlink_bad dp r = bnd (iunlockput dp) (\<lambda>_. ret r)"

definition unlink_entry :: "nat \<Rightarrow> nat \<Rightarrow> u32 \<Rightarrow> int act" where
  "unlink_entry dp ip off =
     bnd (writei dp (replicate SIZEOF_DIRENT 0) off (of_nat SIZEOF_DIRENT)) (\<lambda>r.
     bnd (guard (r = int SIZEOF_DIRENT) (Panic ''unlink: writei'')) (\<lambda>_.
     bnd (ino_at ip) (\<lambda>i.
     bnd (if i_type i = T_DIR
          then bnd (upd_ino dp (\<lambda>d. d\<lparr>i_nlink := i_nlink d - 1\<rparr>)) (\<lambda>_. iupdate dp)
          else ret ()) (\<lambda>_.
     bnd (iunlockput dp) (\<lambda>_.
     bnd (upd_ino ip (\<lambda>i. i\<lparr>i_nlink := i_nlink i - 1\<rparr>)) (\<lambda>_.
     bnd (iupdate ip) (\<lambda>_.
     bnd (iunlockput ip) (\<lambda>_.
     ret 0))))))))"

definition sys_dounlink :: "bytes \<Rightarrow> int act" where
  "sys_dounlink path =
     bnd (nameiparent path) (\<lambda>(dpo, name).
     case dpo of None \<Rightarrow> ret (-1) | Some dp \<Rightarrow>
     bnd (ilock (Some dp)) (\<lambda>_.
     if namecmp name DOT = 0 \<or> namecmp name DOTDOT = 0 then unlink_bad dp (-1)
     else bnd (dirlookup dp name) (\<lambda>r.
     case r of None \<Rightarrow> unlink_bad dp ENOENT | Some (ip, off) \<Rightarrow>
     bnd (ilock (Some ip)) (\<lambda>_.
     bnd (ino_at ip) (\<lambda>i.
     bnd (guard (sint (i_nlink i) \<ge> 1) (Panic ''unlink: nlink < 1'')) (\<lambda>_.
     bnd (if i_type i = T_DIR then isdirempty ip else ret True) (\<lambda>ok.
     if \<not> ok then bnd (iunlockput ip) (\<lambda>_. unlink_bad dp (-1))
     else unlink_entry dp ip off)))))))"

definition sys_unlink :: "bytes \<Rightarrow> int act" where
  "sys_unlink path =
     bnd begin_op (\<lambda>_.
     bnd (sys_dounlink path) (\<lambda>r.
     bnd end_op (\<lambda>_.
     ret r)))"

definition link_bad :: "nat \<Rightarrow> int act" where
  "link_bad ip =
     bnd (ilock (Some ip)) (\<lambda>_.
     bnd (upd_ino ip (\<lambda>i. i\<lparr>i_nlink := i_nlink i - 1\<rparr>)) (\<lambda>_.
     bnd (iupdate ip) (\<lambda>_.
     bnd (iunlockput ip) (\<lambda>_.
     ret (-1)))))"

definition link_entry :: "nat \<Rightarrow> bytes \<Rightarrow> int act" where
  "link_entry ip new =
     bnd (nameiparent new) (\<lambda>(dpo, name).
     case dpo of None \<Rightarrow> link_bad ip | Some dp \<Rightarrow>
     bnd (ilock (Some dp)) (\<lambda>_.
     bnd (ino_at dp) (\<lambda>d.
     bnd (ino_at ip) (\<lambda>i.
     bnd (if i_dev d \<noteq> i_dev i then ret (-1) else dirlink dp name (i_inum i)) (\<lambda>r.
     bnd (iunlockput dp) (\<lambda>_.
     if r < 0 then link_bad ip
     else bnd (iput ip) (\<lambda>_. ret 0)))))))"

text \<open>The two early failures call \<open>end_op\<close>, which the only caller, \<open>sys_rename\<close>, calls again.\<close>

definition sys_dolink :: "bytes \<Rightarrow> bytes \<Rightarrow> int act" where
  "sys_dolink old new =
     bnd (namei old) (\<lambda>ipo.
     case ipo of None \<Rightarrow> bnd end_op (\<lambda>_. ret (-1)) | Some ip \<Rightarrow>
     bnd (ilock (Some ip)) (\<lambda>_.
     bnd (ino_at ip) (\<lambda>i.
     if i_type i = T_DIR then bnd (iunlockput ip) (\<lambda>_. bnd end_op (\<lambda>_. ret (-1)))
     else bnd (upd_ino ip (\<lambda>i. i\<lparr>i_nlink := i_nlink i + 1\<rparr>)) (\<lambda>_.
          bnd (iupdate ip) (\<lambda>_.
          bnd (iunlock (Some ip)) (\<lambda>_.
          link_entry ip new))))))"

definition sys_rename :: "bytes \<Rightarrow> bytes \<Rightarrow> int act" where
  "sys_rename path1 path2 =
     bnd begin_op (\<lambda>_.
     bnd (sys_dounlink path2) (\<lambda>r.
     bnd (if r = 0 \<or> r = ENOENT
          then bnd (sys_dolink path1 path2) (\<lambda>r.
               if r = 0 then sys_dounlink path1 else ret r)
          else ret r) (\<lambda>r.
     bnd end_op (\<lambda>_.
     ret r))))"

definition sys_utime :: "bytes \<Rightarrow> u32 \<Rightarrow> int act" where
  "sys_utime path time =
     bnd (sys_open path O_WRONLY) (\<lambda>fo.
     case fo of None \<Rightarrow> ret (-1) | Some f \<Rightarrow>
     bnd begin_op (\<lambda>_.
     bnd (file_at f) (\<lambda>x.
     bnd (ilock (f_ip x)) (\<lambda>_.
     bnd (deref (f_ip x)) (\<lambda>ip.
     bnd (upd_ino ip (\<lambda>i. i\<lparr>i_mtime := time\<rparr>)) (\<lambda>_.
     bnd (iupdate ip) (\<lambda>_.
     bnd (iunlock (f_ip x)) (\<lambda>_.
     bnd end_op (\<lambda>_.
     bnd (fileclose f) (\<lambda>_.
     ret 0))))))))))"

end
