(* ===== verification/Bio_Props.thy ===== *)
theory Bio_Props
  imports Log_Props
begin

text \<open>
  What the buffer cache promises: the pointer code implements a recency list, and its clients
  see a transparent copy of the disk.
\<close>

lemma binit_ring: "\<exists>s'. binit s = Inr ((), s') \<and> ring (bufs s') (rev [0..<NBUF]) \<and> disk s' = disk s"
proof -
  let ?bs = "set_next HEAD HEAD (set_prev HEAD HEAD (bufs s))"
  have "ring (fold binit_step [0..<NBUF] ?bs) (rev [0..<NBUF])"
    using binit_chain [of ?bs NBUF] by (auto simp: ring_def)
  then show ?thesis by (simp add: binit_def)
qed

section \<open>Properties\<close>

text \<open>
  C39: \<open>brelse\<close> moves its buffer to the front of the recency list, keeps the order of the others,
  clears only its \<open>B_BUSY\<close> bit and changes no data.
\<close>

theorem brelse_moves_to_front:
  assumes "ring (bufs s) xs" and "b < NBUF" and "flag B_BUSY (b_flags (bufs s b))"
  shows "\<exists>s'. brelse b s = Inr ((), s') \<and> ring (bufs s') (b # remove1 b xs) \<and>
    b_flags (bufs s' b) = clear_flag B_BUSY (b_flags (bufs s b)) \<and>
    (\<forall>i. i \<noteq> b \<longrightarrow> b_flags (bufs s' i) = b_flags (bufs s i)) \<and>
    (\<forall>i. b_data (bufs s' i) = b_data (bufs s i) \<and> b_sector (bufs s' i) = b_sector (bufs s i))"
proof -
  let ?bs = "brelse_links b (bufs s)"
  let ?cs = "?bs(b := (?bs b)\<lparr>b_flags := clear_flag B_BUSY (b_flags (?bs b))\<rparr>)"
  have "ring ?cs (b # remove1 b xs)"
    using ring_upd [of "(?bs b)\<lparr>b_flags := clear_flag B_BUSY (b_flags (?bs b))\<rparr>" ?bs b] ring_remove1 [OF assms(1,2)]
    by auto
  then show ?thesis using assms(3) by (simp add: brelse_def buf_at_def upd_buf_def)
qed

theorem brelse_moves_to_front_witness:
  "\<exists>s s' b t. binit (process_start sample_disk 100) = Inr ((), s) \<and> bget ROOTDEV 9 s = Inr (b, t) \<and> b = 0 \<and>
     brelse b t = Inr ((), s') \<and> ring (bufs t) (rev [0..<NBUF]) \<and> ring (bufs s') (0 # remove1 0 (rev [0..<NBUF]))"
proof -
  let ?bs = "set_next HEAD HEAD (set_prev HEAD HEAD (bufs (process_start sample_disk 100)))"
  let ?s = "(process_start sample_disk 100)\<lparr>bufs := fold binit_step [0..<NBUF] ?bs\<rparr>"
  have r: "ring (bufs ?s) (rev [0..<NBUF])" using binit_chain [of ?bs NBUF] by (auto simp: ring_def)
  have f: "b_flags (bufs ?s i) = 0" for i by (simp add: binit_fields process_start_def zero_buf_def)
  have d: "b_dev (bufs ?s i) = - 1" if "i < NBUF" for i using that by (simp add: binit_fields)
  let ?b = "(bufs ?s 0)\<lparr>b_dev := ROOTDEV, b_sector := 9, b_flags := B_BUSY\<rparr>"
  let ?t = "?s\<lparr>bufs := (bufs ?s)(0 := ?b)\<rparr>"
  have "List.find (\<lambda>i. b_dev (bufs ?s i) = ROOTDEV \<and> b_sector (bufs ?s i) = 9) (rev [0..<NBUF]) = None"
    using d by (auto simp: find_None_iff ROOTDEV_neq)
  moreover have "List.find (\<lambda>i. \<not> flag B_BUSY (b_flags (bufs ?s i)) \<and> \<not> flag B_DIRTY (b_flags (bufs ?s i)))
      (rev (rev [0..<NBUF])) = Some 0"
    unfolding f by (simp add: upt_rec layout)
  ultimately have g: "bget ROOTDEV 9 ?s = Inr (0, ?t)"
    unfolding bget_ring [OF r] by (simp only: option.case)
  have rt: "ring (bufs ?t) (rev [0..<NBUF])" using r ring_upd [of ?b "bufs ?s" 0] by auto
  have "0 < NBUF" "flag B_BUSY (b_flags (bufs ?t 0))" by (simp_all add: layout)
  from brelse_moves_to_front [OF rt this] obtain s' where "brelse 0 ?t = Inr ((), s')"
    "ring (bufs s') (0 # remove1 0 (rev [0..<NBUF]))" by blast
  moreover have "binit (process_start sample_disk 100) = Inr ((), ?s)" by (simp add: binit_def)
  ultimately show ?thesis using g rt by (intro exI [of _ ?s] exI [of _ s'] exI [of _ 0] exI [of _ ?t] conjI) simp_all
qed

text \<open>
  C37: \<open>bget\<close>'s two pointer walks implement a search of the recency list: the cached buffer of the
  sector if there is one (spinning forever if it is in use), otherwise the least recently
  released buffer that is neither in use nor pinned by the log, otherwise a panic.
\<close>

theorem bget_refines_search:
  assumes "ring (bufs s) xs"
  shows "bget dev a s =
    (case List.find (\<lambda>i. b_dev (bufs s i) = dev \<and> b_sector (bufs s i) = a) xs of
       Some b \<Rightarrow>
         if flag B_BUSY (b_flags (bufs s b)) then Inl (Hang ''bget: sleep'')
         else Inr (b, s\<lparr>bufs := (bufs s)(b := (bufs s b)\<lparr>b_flags := set_flag B_BUSY (b_flags (bufs s b))\<rparr>)\<rparr>)
     | None \<Rightarrow>
         (case List.find (\<lambda>i. \<not> flag B_BUSY (b_flags (bufs s i)) \<and> \<not> flag B_DIRTY (b_flags (bufs s i))) (rev xs) of
            Some b \<Rightarrow> Inr (b, s\<lparr>bufs := (bufs s)(b := (bufs s b)\<lparr>b_dev := dev, b_sector := a, b_flags := B_BUSY\<rparr>)\<rparr>)
          | None \<Rightarrow> Inl (Panic ''bget: no buffers'')))"
  by (rule bget_ring [OF assms])

theorem bget_refines_search_witness:
  "\<exists>s b t. binit (process_start sample_disk 100) = Inr ((), s) \<and> bget ROOTDEV 9 s = Inr (b, t) \<and> b = 0 \<and>
     b_sector (bufs t 0) = 9"
proof -
  obtain s where s: "binit (process_start sample_disk 100) = Inr ((), s)" "ring (bufs s) (rev [0..<NBUF])"
    using binit_ring by blast
  have f: "b_flags (bufs s i) = 0" "i < NBUF \<Longrightarrow> b_dev (bufs s i) = - 1" for i
    using s(1) by (auto simp: binit_def binit_fields process_start_def zero_buf_def)
  have "List.find (\<lambda>i. b_dev (bufs s i) = ROOTDEV \<and> b_sector (bufs s i) = 9) (rev [0..<NBUF]) = None"
    using f(2) by (auto simp: find_None_iff ROOTDEV_neq)
  moreover have "List.find (\<lambda>i. \<not> flag B_BUSY (b_flags (bufs s i)) \<and> \<not> flag B_DIRTY (b_flags (bufs s i)))
      (rev (rev [0..<NBUF])) = Some 0"
    unfolding f(1) by (simp add: upt_rec layout)
  ultimately show ?thesis using s(1) bget_refines_search [OF s(2), of ROOTDEV 9] by auto
qed

text \<open>
  C38: The cache is transparent.  If the pinned and held sectors leave a buffer free, \<open>bread\<close> of a
  sector nobody holds returns a held buffer with the sector's current contents; neither the
  disk, nor the contents of any sector, nor the set of pinned sectors changes, so no pinned
  or held buffer is ever recycled.
\<close>

theorem bread_transparent:
  assumes "binv s" and "sector_ok s a" and "a \<notin> held s" and "card (held s \<union> dirty s) < NBUF"
  shows "\<exists>b s'. bread ROOTDEV a s = Inr (b, s') \<and> binv s' \<and> owns s' b a \<and> b_data (bufs s' b) = view s a \<and>
    view s' = view s \<and> disk s' = disk s \<and> events s' = events s \<and> held s' = insert a (held s) \<and>
    dirty s' = dirty s \<and> (\<forall>c x. owns s c x \<longrightarrow> owns s' c x)"
proof -
  from bread_ok [OF assms(1-3)] assms(4) obtain b s' where "bread ROOTDEV a s = Inr (b, s')" "bread_post s a b s'"
    by blast
  with owns_view [of s' b a] show ?thesis by (auto simp: bread_post_def cstep_def)
qed

theorem bread_transparent_witness:
  "\<exists>s b s'. sample_txn (process_start sample_disk 100) = Inr ((), s) \<and> bread ROOTDEV 40 s = Inr (b, s') \<and>
     b_data (bufs s' b) = (\<lambda>_. 7) \<and> disk s' 40 = zero_block"
proof -
  from sample_ok obtain s where s: "sample_txn (process_start sample_disk 100) = Inr ((), s)" "linv s"
    "held s = {}" "log_at s sample_sb" "view s 40 = (\<lambda>_. 7)" "disk s 40 = zero_block" by blast
  have hm: "home_sector s 40" using log_at_geom(4) [OF s(4)] sample_geom by simp
  have "40 \<notin> held s" "card (held s \<union> dirty s) < NBUF" using s(3) linv_facts(5) [OF s(2)] by simp_all
  from bread_transparent [OF linv_facts(1) [OF s(2)] home_usable [OF s(2) hm] this] s show ?thesis by metis
qed

end
