(* ===== verification/Inode_Props.thy ===== *)
theory Inode_Props
  imports Inode Bio_Props
begin

text \<open>
  The contents of inodes: \<open>bmap\<close> as a lookup of block addresses, and the loops of \<open>readi\<close> and
  \<open>writei\<close> as access to a byte-addressed file.
\<close>

section \<open>Steps that change nothing a caller can see\<close>

definition calm :: "kern \<Rightarrow> kern \<Rightarrow> bool" where
  "calm s s' \<longleftrightarrow> tstep s s' \<and> view s' = view s \<and> lsec s' = lsec s \<and> inodes s' = inodes s"

lemma calm_refl: "linv s \<Longrightarrow> calm s s"
  by (simp add: calm_def tstep_refl)

lemma calm_trans: "calm s t \<Longrightarrow> calm t u \<Longrightarrow> calm s u"
  using tstep_trans by (auto simp: calm_def)

lemma calm_frame:
  assumes "calm s s'"
  shows "linv s'" "view s' = view s" "lsec s' = lsec s" "inodes s' = inodes s" "held s' = held s"
    "room s' = room s" "sector_ok s' = sector_ok s" "home_sector s' = home_sector s"
    "outstanding (thelog s') = outstanding (thelog s)" "log_size (thelog s') = log_size (thelog s)"
    "ftable s' = ftable s" "curproc s' = curproc s" "clock s' = clock s" "log_at s' = log_at s"
    "disk s' = disk s" "events s' = events s" "committing (thelog s') = committing (thelog s)"
proof -
  have t: "tstep s s'" and v: "view s' = view s" "lsec s' = lsec s" "inodes s' = inodes s"
    using assms by (auto simp: calm_def)
  note g = tstep_geom [OF t] and h = tstep_held [OF t]
  show "linv s'" by (rule tstep_linv [OF t])
  show "view s' = view s" "lsec s' = lsec s" "inodes s' = inodes s" "held s' = held s" by (simp_all add: v h)
  show "room s' = room s" by (rule ext) (simp add: room_def v h)
  show "sector_ok s' = sector_ok s" "home_sector s' = home_sector s" "log_at s' = log_at s"
    "outstanding (thelog s') = outstanding (thelog s)" "log_size (thelog s') = log_size (thelog s)"
    "ftable s' = ftable s" "curproc s' = curproc s" "clock s' = clock s" using g by simp_all
  show "disk s' = disk s" "events s' = events s" "committing (thelog s') = committing (thelog s)"
    using t by (simp_all add: tstep_def tenv_eq)
qed

lemma peek_calm:
  assumes "linv s" "sector_ok s a" "a \<notin> held s" "room s 1"
  obtains b t s' where "bread ROOTDEV a s = Inr (b, t)" "buf_data b t = Inr (view s a, t)"
    "brelse b t = Inr ((), s')" "calm s s'"
  using session [OF assms] unfolding calm_def by metis

section \<open>Mapped blocks\<close>

text \<open>The disk block of file block \<open>bn\<close>, 0 if there is none: what \<open>bmap\<close> looks up.\<close>

definition iaddr :: "kern \<Rightarrow> inode \<Rightarrow> nat \<Rightarrow> u32" where
  "iaddr s i bn =
     (if bn < NDIRECT then i_addrs i bn
      else if i_addrs i NDIRECT = 0 then 0
      else get32 (view s (i_addrs i NDIRECT)) (4 * (bn - NDIRECT)))"

text \<open>File block \<open>bn\<close> is allocated, to a block that can be read now.\<close>

definition usable_blk :: "kern \<Rightarrow> u32 \<Rightarrow> bool" where
  "usable_blk s a \<longleftrightarrow> a \<noteq> 0 \<and> sector_ok s a \<and> a \<notin> held s"

definition mapped :: "kern \<Rightarrow> inode \<Rightarrow> nat \<Rightarrow> bool" where
  "mapped s i bn \<longleftrightarrow> bn < NDIRECT + NINDIRECT \<and> usable_blk s (iaddr s i bn) \<and>
     (NDIRECT \<le> bn \<longrightarrow> usable_blk s (i_addrs i NDIRECT))"

lemma calm_mapped: "calm s s' \<Longrightarrow> mapped s' = mapped s \<and> iaddr s' = iaddr s"
  by (auto simp: fun_eq_iff mapped_def usable_blk_def iaddr_def calm_frame)

lemma bmap_slot_hit: "i_addrs (inodes s ip) k \<noteq> 0 \<Longrightarrow> bmap_slot ip k s = Inr (i_addrs (inodes s ip) k, s)"
  by (simp add: bmap_slot_def ino_at_def)

lemma bmap_mapped:
  assumes inv: "linv s" and rm: "room s 1" and dev: "i_dev (inodes s ip) = ROOTDEV"
    and mp: "mapped s (inodes s ip) bn"
  shows "\<exists>s'. bmap ip bn s = Inr (iaddr s (inodes s ip) bn, s') \<and> calm s s'"
proof (cases "bn < NDIRECT")
  case True
  with mp have "i_addrs (inodes s ip) bn \<noteq> 0" by (simp add: mapped_def usable_blk_def iaddr_def)
  with True calm_refl [OF inv] show ?thesis by (simp add: bmap_def bmap_slot_hit iaddr_def)
next
  case False
  let ?a = "i_addrs (inodes s ip) NDIRECT"
  from False mp have a: "?a \<noteq> 0" "sector_ok s ?a" "?a \<notin> held s" "bn - NDIRECT < NINDIRECT"
    by (auto simp: mapped_def usable_blk_def)
  from peek_calm [OF inv a(2,3) rm] obtain b t s' where t: "bread ROOTDEV ?a s = Inr (b, t)"
    "buf_data b t = Inr (view s ?a, t)" "brelse b t = Inr ((), s')" "calm s s'" by blast
  have "get32 (view s ?a) (4 * (bn - NDIRECT)) \<noteq> 0"
    using mp False a(1) by (simp add: mapped_def usable_blk_def iaddr_def)
  with t False a dev show ?thesis
    by (intro exI [of _ s']) (simp add: bmap_def bmap_slot_hit ino_at_def bmap_indirect_def iaddr_def)
qed

section \<open>Reading\<close>

definition fbyte :: "kern \<Rightarrow> inode \<Rightarrow> nat \<Rightarrow> u8" where
  "fbyte s i p = view s (iaddr s i (p div BSIZE)) (p mod BSIZE)"

definition file_bytes :: "kern \<Rightarrow> inode \<Rightarrow> nat \<Rightarrow> nat \<Rightarrow> bytes" where
  "file_bytes s i off k = map (\<lambda>j. fbyte s i (off + j)) [0..<k]"

lemma calm_bytes: "calm s s' \<Longrightarrow> file_bytes s' = file_bytes s"
  using calm_mapped [of s s'] calm_frame(2) [of s s'] by (auto simp: fun_eq_iff file_bytes_def fbyte_def)

text \<open>One chunk lies inside one block.\<close>

lemma same_block:
  assumes "off mod BSIZE + j < BSIZE"
  shows "(off + j) div BSIZE = off div BSIZE" "(off + j) mod BSIZE = off mod BSIZE + j"
proof -
  have eq: "off + j = (off mod BSIZE + j) + BSIZE * (off div BSIZE)" by simp
  have nz: "BSIZE \<noteq> 0" by (simp add: layout)
  show "(off + j) div BSIZE = off div BSIZE" unfolding eq div_mult_self2 [OF nz] using assms by simp
  show "(off + j) mod BSIZE = off mod BSIZE + j" unfolding eq mod_mult_self2 using assms by simp
qed

lemma chunk_block:
  assumes "j < chunk off k"
  shows "(unat off + j) div BSIZE = unat off div BSIZE" "(unat off + j) mod BSIZE = unat off mod BSIZE + j"
proof -
  have "unat off mod BSIZE + j < BSIZE" using assms by (simp add: chunk_def less_diff_conv add.commute)
  from same_block [OF this] show "(unat off + j) div BSIZE = unat off div BSIZE"
    "(unat off + j) mod BSIZE = unat off mod BSIZE + j" by blast+
qed

lemma file_bytes_split: "m \<le> k \<Longrightarrow> file_bytes s i off k = file_bytes s i off m @ file_bytes s i (off + m) (k - m)"
proof -
  assume "m \<le> k"
  then have "[0..<k] = [0..<m] @ [m..<k]" using upt_add_eq_append [of 0 m "k - m"] by simp
  moreover have "[m..<k] = map (\<lambda>j. m + j) [0..<k - m]"
    using map_add_upt [of m "k - m"] \<open>m \<le> k\<close> by (simp add: add.commute)
  ultimately have "[0..<k] = [0..<m] @ map (\<lambda>j. m + j) [0..<k - m]" by simp
  then show ?thesis by (simp add: file_bytes_def add.assoc)
qed

lemma length_file_bytes [simp]: "length (file_bytes s i off k) = k"
  by (simp add: file_bytes_def)

lemma readi_loop_ok:
  assumes "linv s" "room s 1" "i_dev (inodes s ip) = ROOTDEV" "unat off + k < 2 ^ 32"
    "\<forall>p. unat off \<le> p \<longrightarrow> p < unat off + k \<longrightarrow> mapped s (inodes s ip) (p div BSIZE)"
  shows "\<exists>s'. readi_loop ip off k dst s = Inr (dst @ file_bytes s (inodes s ip) (unat off) k, s') \<and> calm s s'"
  using assms
proof (induction k arbitrary: s off dst rule: less_induct)
  case (less k)
  note pre = less.prems
  show ?case
  proof (cases "k = 0")
    case True
    with calm_refl [OF pre(1)] show ?thesis by (subst readi_loop.simps) (simp add: file_bytes_def)
  next
    case False
    let ?i = "inodes s ip" and ?m = "chunk off k"
    have m: "0 < ?m" "?m \<le> k" using chunk_pos [of k off] False by (auto simp: chunk_def)
    have mp: "mapped s ?i (unat off div BSIZE)" using pre(5) False by auto
    let ?a = "iaddr s ?i (unat off div BSIZE)"
    from bmap_mapped [OF pre(1-3) mp] obtain t where t: "bmap ip (unat off div BSIZE) s = Inr (?a, t)" "calm s t"
      by blast
    note ct = calm_frame [OF t(2)]
    from mp have "sector_ok t ?a" "?a \<notin> held t" by (auto simp: mapped_def usable_blk_def ct)
    with peek_calm [of t ?a] pre(2) ct obtain b u v where u: "bread ROOTDEV ?a t = Inr (b, u)"
      "buf_data b u = Inr (view s ?a, u)" "brelse b u = Inr ((), v)" "calm t v" by metis
    have cv: "calm s v" by (rule calm_trans [OF t(2) u(4)])
    note cf = calm_frame [OF cv]
    have off': "unat (off + of_nat ?m) = unat off + ?m"
      using pre(4) m(2) by (simp add: unat_word_ariths unat_of_nat take_bit_nat_eq_self)
    have blk: "block_slice (view s ?a) (unat off mod BSIZE) ?m = file_bytes s ?i (unat off) ?m"
      by (rule nth_equalityI) (simp_all add: file_bytes_def fbyte_def chunk_block)
    have "mapped v (inodes v ip) (p div BSIZE)" if "unat off + ?m \<le> p" "p < unat off + ?m + (k - ?m)" for p
      using pre(5) that m(2) calm_mapped [OF cv] cf(4) by auto
    with less.IH [of "k - ?m" v "off + of_nat ?m" "dst @ block_slice (view s ?a) (unat off mod BSIZE) ?m"]
      m cf pre(2,3,4) off'
    obtain s' where s': "readi_loop ip (off + of_nat ?m) (k - ?m) (dst @ block_slice (view s ?a) (unat off mod BSIZE) ?m) v =
        Inr ((dst @ block_slice (view s ?a) (unat off mod BSIZE) ?m) @ file_bytes v (inodes v ip) (unat off + ?m) (k - ?m), s')"
      "calm v s'" by auto
    have "readi_loop ip off k dst s = Inr (dst @ file_bytes s ?i (unat off) k, s')"
      using False t(1) u(1-3) s'(1) ct(4) pre(3) calm_bytes [OF cv] cf(4) file_bytes_split [OF m(2), of s ?i "unat off"] blk
      by (subst readi_loop.simps) (simp add: ino_at_def)
    with calm_trans [OF cv s'(2)] show ?thesis by blast
  qed
qed

lemma word_add_bounds:
  assumes "unat (off :: u32) + unat n < 2 ^ 32"
  shows "\<not> off + n < off" "unat (off + n) = unat off + unat n"
proof -
  show u: "unat (off + n) = unat off + unat n" using assms by (simp add: unat_word_ariths)
  show "\<not> off + n < off" by (simp add: word_less_nat_alt u)
qed

lemma readi_ok:
  assumes inv: "linv s" "room s 1" and dev: "i_dev (inodes s ip) = ROOTDEV"
    and ty: "i_type (inodes s ip) \<noteq> T_DEV" and off: "unat off \<le> unat (i_size (inodes s ip))"
    and ov: "unat off + unat n < 2 ^ 32" and k: "k = min (unat n) (unat (i_size (inodes s ip)) - unat off)"
    and mp: "\<forall>p. unat off \<le> p \<longrightarrow> p < unat off + k \<longrightarrow> mapped s (inodes s ip) (p div BSIZE)"
  shows "\<exists>s'. readi ip off n s = Inr ((sint (of_nat k :: u32), file_bytes s (inodes s ip) (unat off) k), s') \<and> calm s s'"
proof -
  let ?sz = "i_size (inodes s ip)" and ?n = "if off + n > i_size (inodes s ip) then i_size (inodes s ip) - off else n"
  note w = word_add_bounds [OF ov]
  have le: "\<not> off > ?sz" using off by (simp add: word_less_nat_alt)
  have n': "unat ?n = k"
    using off k w by (auto simp: word_less_nat_alt unat_word_diff)
  have ko: "unat off + k < 2 ^ 32" using ov k by simp
  from readi_loop_ok [OF inv dev ko mp, of "[]"] obtain s' where s':
    "readi_loop ip off k [] s = Inr (file_bytes s (inodes s ip) (unat off) k, s')" "calm s s'" by auto
  have "unat (of_nat k :: u32) = k" using ko by (intro unat_of_nat_small) simp
  with n' have "?n = of_nat k" by (simp only: word_unat_eq_iff)
  then have "readi ip off n s = Inr ((sint (of_nat k :: u32), file_bytes s (inodes s ip) (unat off) k), s')"
    using le w(1) ty s'(1) n' by (simp add: readi_def ino_at_def Let_def)
  with s'(2) show ?thesis by blast
qed

section \<open>Writing\<close>

definition NB :: nat where "NB = NDIRECT + NINDIRECT"

text \<open>The blocks of a file are different blocks, and none is its indirect block.\<close>

definition file_inj :: "kern \<Rightarrow> inode \<Rightarrow> bool" where
  "file_inj s i \<longleftrightarrow>
     (\<forall>bn < NB. \<forall>bn' < NB. iaddr s i bn \<noteq> 0 \<longrightarrow> iaddr s i bn = iaddr s i bn' \<longrightarrow> bn = bn') \<and>
     (\<forall>bn < NB. iaddr s i bn \<noteq> 0 \<longrightarrow> iaddr s i bn \<noteq> i_addrs i NDIRECT)"

text \<open>The effect of storing \<open>xs\<close> at \<open>off\<close> in a file, on everything the cache shows.\<close>

definition wrote :: "kern \<Rightarrow> inode \<Rightarrow> nat \<Rightarrow> bytes \<Rightarrow> kern \<Rightarrow> bool" where
  "wrote s i off xs s' \<longleftrightarrow> iaddr s' i = iaddr s i \<and>
     (\<forall>p. p div BSIZE < NB \<longrightarrow> iaddr s i (p div BSIZE) \<noteq> 0 \<longrightarrow>
        fbyte s' i p = (if off \<le> p \<and> p < off + length xs then xs ! (p - off) else fbyte s i p)) \<and>
     (\<forall>a. a \<notin> iaddr s i ` {bn. off div BSIZE \<le> bn \<and> bn < NB} \<longrightarrow> view s' a = view s a)"

lemma wrote_nil: "wrote s i off [] s"
  by (auto simp: wrote_def)

lemma wrote_trans:
  assumes "wrote s i off xs t" "wrote t i (off + length xs) ys u"
  shows "wrote s i off (xs @ ys) u"
proof -
  have ia: "iaddr t i = iaddr s i" "iaddr u i = iaddr s i" using assms by (auto simp: wrote_def)
  have fb: "fbyte u i p = (if off \<le> p \<and> p < off + length (xs @ ys) then (xs @ ys) ! (p - off) else fbyte s i p)"
    if "p div BSIZE < NB" "iaddr s i (p div BSIZE) \<noteq> 0" for p
    using assms that ia(1) by (auto simp: wrote_def nth_append)
  have "off div BSIZE \<le> (off + length xs) div BSIZE" by (simp add: div_le_mono)
  then have "view u a = view s a" if "a \<notin> iaddr s i ` {bn. off div BSIZE \<le> bn \<and> bn < NB}" for a
    using assms that ia(1) unfolding wrote_def by (smt (verit) image_iff mem_Collect_eq order_trans)
  with fb ia show ?thesis by (simp add: wrote_def)
qed

lemma wrote_chunk:
  assumes inj: "file_inj s i" and bn: "off div BSIZE < NB" and nz: "iaddr s i (off div BSIZE) \<noteq> 0"
    and fits: "off mod BSIZE + length xs \<le> BSIZE"
    and v: "view t = (view s)(iaddr s i (off div BSIZE) :=
      blit_list (view s (iaddr s i (off div BSIZE))) (off mod BSIZE) xs)"
  shows "wrote s i off xs t"
proof -
  let ?a = "iaddr s i (off div BSIZE)"
  have "?a \<noteq> i_addrs i NDIRECT" using inj bn nz by (auto simp: file_inj_def)
  then have ia: "iaddr t i = iaddr s i" by (auto simp: iaddr_def fun_eq_iff v)
  have fb: "fbyte t i p = (if off \<le> p \<and> p < off + length xs then xs ! (p - off) else fbyte s i p)"
    if p: "p div BSIZE < NB" "iaddr s i (p div BSIZE) \<noteq> 0" for p
  proof (cases "p div BSIZE = off div BSIZE")
    case True
    have pe: "p = BSIZE * (off div BSIZE) + p mod BSIZE" "off = BSIZE * (off div BSIZE) + off mod BSIZE"
      using True by (metis mult_div_mod_eq, simp)
    then have "off \<le> p \<and> p < off + length xs \<longleftrightarrow> off mod BSIZE \<le> p mod BSIZE \<and> p mod BSIZE < off mod BSIZE + length xs"
      "p - off = p mod BSIZE - off mod BSIZE" by linarith+
    then show ?thesis using True by (simp add: fbyte_def ia v blit_list_def)
  next
    case False
    have "iaddr s i (p div BSIZE) \<noteq> ?a" using inj p bn nz False by (auto simp: file_inj_def)
    moreover have "\<not> (off \<le> p \<and> p < off + length xs)"
    proof
      assume "off \<le> p \<and> p < off + length xs"
      then obtain j where j: "p = off + j" "off mod BSIZE + j < BSIZE" using fits by (metis add_le_imp_le_left le_Suc_ex less_le_trans nat_add_left_cancel_less)
      with same_block(1) False show False by simp
    qed
    ultimately show ?thesis by (auto simp: fbyte_def ia v)
  qed
  have "?a \<in> iaddr s i ` {b. off div BSIZE \<le> b \<and> b < NB}" using bn by auto
  then have "view t a = view s a" if "a \<notin> iaddr s i ` {b. off div BSIZE \<le> b \<and> b < NB}" for a
    using that by (auto simp: v)
  with ia fb show ?thesis by (simp add: wrote_def)
qed

text \<open>The number of blocks a write of \<open>k\<close> bytes at \<open>off\<close> touches.\<close>

definition nchunks :: "nat \<Rightarrow> nat \<Rightarrow> nat" where
  "nchunks off k = (if k = 0 then 0 else (off mod BSIZE + k - 1) div BSIZE + 1)"

lemma nchunks_step:
  assumes "0 < k" "m = min k (BSIZE - off mod BSIZE)"
  shows "nchunks off k = Suc (nchunks (off + m) (k - m))"
proof (cases "off mod BSIZE + k \<le> BSIZE")
  case True
  then have "m = k" using assms by simp
  moreover have "(off mod BSIZE + k - 1) div BSIZE = 0" using True assms(1) by (simp add: layout)
  ultimately show ?thesis using assms(1) by (simp add: nchunks_def)
next
  case False
  have r: "off mod BSIZE < BSIZE" by (simp add: layout)
  have m: "m = BSIZE - off mod BSIZE" "m < k" using False assms(2) r by auto
  have "off = BSIZE * (off div BSIZE) + off mod BSIZE" by simp
  then have "off + m = BSIZE * (off div BSIZE) + BSIZE" using m(1) r by linarith
  then have z: "(off + m) mod BSIZE = 0" by simp
  have "off mod BSIZE + k - 1 = (k - m - 1) + BSIZE" using m r by linarith
  then have "(off mod BSIZE + k - 1) div BSIZE = Suc ((k - m - 1) div BSIZE)"
    using div_add_self2 [of BSIZE "k - m - 1"] r by simp
  moreover have "nchunks (off + m) (k - m) = (k - m - 1) div BSIZE + 1"
    unfolding nchunks_def z using m(2) by simp
  ultimately show ?thesis using assms(1) by (simp add: nchunks_def)
qed

lemma file_inj_wrote: "wrote s i off xs t \<Longrightarrow> file_inj t i = file_inj s i"
  by (simp add: wrote_def file_inj_def)

text \<open>Every file block in the range is allocated to a block the log may write.\<close>

definition writable :: "kern \<Rightarrow> inode \<Rightarrow> nat \<Rightarrow> nat \<Rightarrow> bool" where
  "writable s i off k \<longleftrightarrow> (\<forall>p. off \<le> p \<longrightarrow> p < off + k \<longrightarrow>
     mapped s i (p div BSIZE) \<and> home_sector s (iaddr s i (p div BSIZE)))"

lemma writable_shift: "writable s i off k \<Longrightarrow> m \<le> k \<Longrightarrow> writable s i (off + m) (k - m)"
  unfolding writable_def by (metis add_leD1 le_add_diff_inverse add.assoc)

lemma mapped_step:
  assumes "tstep s t" "iaddr t i = iaddr s i"
  shows "mapped t i = mapped s i" "writable t i = writable s i"
  using assms tstep_geom [OF assms(1)] tstep_held [OF assms(1)]
  by (simp_all add: fun_eq_iff mapped_def usable_blk_def writable_def)

lemma writei_loop_ok:
  assumes "linv s" "held s = {}" "i_dev (inodes s ip) = ROOTDEV" "unat off + length src < 2 ^ 32"
    "outstanding (thelog s) \<ge> 1" "file_inj s (inodes s ip)" "writable s (inodes s ip) (unat off) (length src)"
    "int (length (lsec s)) + int (nchunks (unat off) (length src)) < log_size (thelog s)"
  shows "\<exists>s'. writei_loop ip off src s = Inr (off + of_nat (length src), s') \<and> tstep s s' \<and>
    inodes s' = inodes s \<and> wrote s (inodes s ip) (unat off) src s' \<and> length (lsec s') \<le> length (lsec s) + nchunks (unat off) (length src)"
  using assms
proof (induction "length src" arbitrary: s off src rule: less_induct)
  case less
  note pre = less.prems
  show ?case
  proof (cases "src = []")
    case True
    with pre(1) show ?thesis by (subst writei_loop.simps) (simp add: tstep_refl wrote_nil)
  next
    case False
    let ?i = "inodes s ip" and ?m = "chunk off (length src)" and ?bn = "unat off div BSIZE"
    let ?a = "iaddr s ?i ?bn"
    have m: "0 < ?m" "?m \<le> length src" "?m = min (length src) (BSIZE - unat off mod BSIZE)"
      using chunk_pos [of "length src" off] False by (auto simp: chunk_def)
    have "mapped s ?i ?bn \<and> home_sector s ?a" using pre(7) False unfolding writable_def by auto
    then have mp: "mapped s ?i ?bn" "home_sector s ?a" by auto
    then have bn: "?bn < NB" "?a \<noteq> 0" by (auto simp: mapped_def usable_blk_def NB_def)
    note rm = linv_room [OF pre(1,2)]
    from bmap_mapped [OF pre(1) rm pre(3) mp(1)] obtain t where t: "bmap ip ?bn s = Inr (?a, t)" "calm s t" by blast
    note ct = calm_frame [OF t(2)]
    have tst: "tstep s t" using t(2) by (simp add: calm_def)
    have nch: "nchunks (unat off) (length src) = Suc (nchunks (unat off + ?m) (length src - ?m))"
      by (rule nchunks_step) (use False m in auto)
    have ft: "int (length (lsec t)) + 1 < log_size (thelog t)" using pre(8) by (simp add: ct(3,10) nch)
    have hm: "home_sector t ?a" using mp(2) ct by simp
    have hf: "?a \<notin> held t" using pre(2) ct by simp
    have rt: "room t 1" using rm ct by simp
    from session [OF ct(1) home_usable [OF ct(1) hm] hf rt] hm ft pre(5) ct(2,4,9)
    obtain b u where u: "bread ROOTDEV ?a t = Inr (b, u)" "buf_data b u = Inr (view s ?a, u)"
      "\<And>d. \<exists>v w s'. set_data b d u = Inr ((), v) \<and> log_write b v = Inr ((), w) \<and> brelse b w = Inr ((), s') \<and>
        tstep t s' \<and> view s' = (view s)(?a := d) \<and> lsec s' = log_add ?a (lsec t) \<and> inodes s' = inodes s"
      by metis
    let ?d = "blit_list (view s ?a) (unat off mod BSIZE) (take ?m src)"
    from u(3) [of ?d] obtain v w s1 where s1: "set_data b ?d u = Inr ((), v)" "log_write b v = Inr ((), w)"
      "brelse b w = Inr ((), s1)" "tstep t s1" "view s1 = (view s)(?a := ?d)" "lsec s1 = log_add ?a (lsec t)"
      "inodes s1 = inodes s" by blast
    have ts1: "tstep s s1" by (rule tstep_trans [OF tst s1(4)])
    note g1 = tstep_geom [OF ts1]
    have lt: "length (take ?m src) = ?m" using m(2) by simp
    have "unat off mod BSIZE < BSIZE" "?m \<le> BSIZE - unat off mod BSIZE" using m(3) by (simp_all add: layout)
    then have fits: "unat off mod BSIZE + length (take ?m src) \<le> BSIZE" using lt by linarith
    have w1: "wrote s ?i (unat off) (take ?m src) s1" by (rule wrote_chunk [OF pre(6) bn fits s1(5)])
    have ia: "iaddr s1 ?i = iaddr s ?i" using w1 by (simp add: wrote_def)
    have h1: "held s1 = {}" using tstep_held [OF ts1] pre(2) by simp
    have len1: "length (lsec s1) \<le> Suc (length (lsec s))" using s1(6) ct(3) by simp
    have off': "unat (off + of_nat ?m) = unat off + ?m"
      using pre(4) m(2) by (simp add: unat_word_ariths unat_of_nat take_bit_nat_eq_self)
    have wr: "writable s1 (inodes s1 ip) (unat off + ?m) (length src - ?m)"
      using writable_shift [OF pre(7) m(2)] mapped_step(2) [OF ts1 ia] s1(7) by simp
    have sh: "length (drop ?m src) < length src" "length (drop ?m src) = length src - ?m" using m by auto
    have fit1: "int (length (lsec s1)) + int (nchunks (unat off + ?m) (length src - ?m)) < log_size (thelog s1)"
      using pre(8) len1 nch g1 by simp
    have "\<exists>s'. writei_loop ip (off + of_nat ?m) (drop ?m src) s1 =
        Inr (off + of_nat ?m + of_nat (length (drop ?m src)), s') \<and> tstep s1 s' \<and> inodes s' = inodes s1 \<and>
        wrote s1 (inodes s1 ip) (unat (off + of_nat ?m)) (drop ?m src) s' \<and>
        length (lsec s') \<le> length (lsec s1) + nchunks (unat (off + of_nat ?m)) (length (drop ?m src))"
    proof (rule less.hyps)
      show "length (drop ?m src) < length src" by (rule sh(1))
      show "linv s1" by (rule tstep_linv [OF ts1])
      show "held s1 = {}" by (rule h1)
      show "i_dev (inodes s1 ip) = ROOTDEV" using pre(3) s1(7) by simp
      show "unat (off + of_nat ?m) + length (drop ?m src) < 2 ^ 32" using pre(4) m(2) off' sh(2) by simp
      show "outstanding (thelog s1) \<ge> 1" using pre(5) g1 by simp
      show "file_inj s1 (inodes s1 ip)" using file_inj_wrote [OF w1] pre(6) s1(7) by simp
      show "writable s1 (inodes s1 ip) (unat (off + of_nat ?m)) (length (drop ?m src))" using wr off' sh(2) by simp
      show "int (length (lsec s1)) + int (nchunks (unat (off + of_nat ?m)) (length (drop ?m src))) < log_size (thelog s1)"
        using fit1 off' sh(2) by simp
    qed
    then obtain s' where s': "writei_loop ip (off + of_nat ?m) (drop ?m src) s1 =
        Inr (off + of_nat ?m + of_nat (length src - ?m), s')" "tstep s1 s'" "inodes s' = inodes s1"
      "wrote s1 ?i (unat off + ?m) (drop ?m src) s'" "length (lsec s') \<le> length (lsec s1) + nchunks (unat off + ?m) (length src - ?m)"
      unfolding off' sh(2) s1(7) by (elim exE conjE)
    have fin: "off + of_nat ?m + of_nat (length src - ?m) = off + (of_nat (length src) :: u32)"
      using m(2) by (simp add: of_nat_diff)
    have "writei_loop ip off src s = Inr (off + of_nat (length src), s')"
      using False t(1) u(1,2) s1(1-3) s'(1) ct(4) pre(3) fin by (subst writei_loop.simps) (simp add: ino_at_def)
    moreover have "wrote s ?i (unat off) src s'"
      using wrote_trans [OF w1, of "drop ?m src" s'] s'(4) lt by simp
    moreover have "length (lsec s') \<le> length (lsec s) + nchunks (unat off) (length src)" using s'(5) len1 nch by simp
    ultimately show ?thesis using tstep_trans [OF ts1 s'(2)] s'(3) s1(7) by auto
  qed
qed

end
