(* ===== verification/Inode_Disk.thy ===== *)
theory Inode_Disk
  imports Inode_Props
begin

text \<open>
  The inode cache and the disk: \<open>ilock\<close> loads an entry from its inode block, \<open>iupdate\<close> stores it
  there, and the two are inverse to each other.  The theory also builds the mounted one-file
  image that the witnesses of the inode layer use.
\<close>

section \<open>Loading and storing an inode\<close>

lemma inodes_frame [simp]:
  "lsec (s\<lparr>inodes := f\<rparr>) = lsec s" "linv (s\<lparr>inodes := f\<rparr>) = linv s" "sector_ok (s\<lparr>inodes := f\<rparr>) = sector_ok s"
  "home_sector (s\<lparr>inodes := f\<rparr>) = home_sector s" "room (s\<lparr>inodes := f\<rparr>) = room s" "tenv (s\<lparr>inodes := f\<rparr>) = tenv s"
  "log_at (s\<lparr>inodes := f\<rparr>) = log_at s" "iaddr (s\<lparr>inodes := f\<rparr>) = iaddr s" "mapped (s\<lparr>inodes := f\<rparr>) = mapped s"
  by (auto simp: fun_eq_iff lsec_def linv_def sector_ok_def home_sector_def [abs_def] room_def tenv_def log_geom_def lsecs_ok_def
      log_at_def iaddr_def mapped_def usable_blk_def)

lemma ino_step: "linv s \<Longrightarrow> tstep s (s\<lparr>inodes := f\<rparr>)"
  by (simp add: tstep_def)

text \<open>Reading a block, changing the inode cache meanwhile, and releasing the block.\<close>

lemma peek_ino:
  assumes inv: "linv s" and ok: "sector_ok s a" and free: "a \<notin> held s" and rm: "room s 1"
  obtains b t where "bread ROOTDEV a s = Inr (b, t)" "buf_data b t = Inr (view s a, t)" "inodes t = inodes s"
    "\<And>f. \<exists>s'. brelse b (t\<lparr>inodes := f\<rparr>) = Inr ((), s') \<and> tstep s s' \<and> view s' = view s \<and> lsec s' = lsec s \<and> inodes s' = f"
proof -
  from bread_step [OF assms] obtain b t where t: "bread ROOTDEV a s = Inr (b, t)" "linv t"
    "tenv t = tenv s" "disk t = disk s" "events t = events s" "view t = view s" "lsec t = lsec s"
    "inodes t = inodes s" "owns t b a" "held t = insert a (held s)" "\<forall>c x. owns s c x \<longrightarrow> owns t c x"
    by blast
  have data: "buf_data b t = Inr (view s a, t)" using bc.data_ok [OF t(9)] t(6) by simp
  have "dirty t = dirty s" using linv_facts(4) inv t(2,7) by simp
  then have cl: "a \<in> dirty t \<or> view t a = disk t (unat a)" using clean_or_dirty [OF inv free] t by simp
  have rel: "\<exists>s'. brelse b (t\<lparr>inodes := f\<rparr>) = Inr ((), s') \<and> tstep s s' \<and> view s' = view s \<and> lsec s' = lsec s \<and> inodes s' = f" for f
  proof -
    from brelse_step [of "t\<lparr>inodes := f\<rparr>" b a] t(2,9) cl obtain s' where s': "brelse b (t\<lparr>inodes := f\<rparr>) = Inr ((), s')"
      "linv s'" "tenv s' = tenv t" "disk s' = disk t" "events s' = events t" "view s' = view t" "lsec s' = lsec t"
      "inodes s' = f" "\<forall>c x. owns s' c x \<longleftrightarrow> owns t c x \<and> x \<noteq> a" by auto
    have "owns s' = owns s" by (rule bc.owns_after_release [OF t(10,11) free s'(9)])
    with s' t show ?thesis by (simp add: tstep_def)
  qed
  show ?thesis by (rule that [OF t(1) data t(8) rel])
qed

text \<open>What \<open>ilock\<close> makes of an entry that is not valid yet.\<close>

definition loaded :: "kern \<Rightarrow> inode \<Rightarrow> inode" where
  "loaded s i = (load_dinode (get_dinode (view s (IBLOCK (i_inum i))) (dinode_offset (i_inum i))) i)
     \<lparr>i_flags := set_flag I_VALID (set_flag I_BUSY (i_flags i))\<rparr>"

lemma ilock_load:
  assumes inv: "linv s" "room s 1" and i: "i_ref (inodes s ip) \<ge> 1" "i_dev (inodes s ip) = ROOTDEV"
    "\<not> flag I_BUSY (i_flags (inodes s ip))" "\<not> flag I_VALID (i_flags (inodes s ip))"
    and blk: "sector_ok s (IBLOCK (i_inum (inodes s ip)))" "IBLOCK (i_inum (inodes s ip)) \<notin> held s"
    and ty: "i_type (loaded s (inodes s ip)) \<noteq> 0"
  shows "\<exists>s'. ilock (Some ip) s = Inr ((), s') \<and> tstep s s' \<and> view s' = view s \<and> lsec s' = lsec s \<and>
    inodes s' = (inodes s)(ip := loaded s (inodes s ip))"
proof -
  let ?i = "inodes s ip"
  let ?a = "IBLOCK (i_inum ?i)" and ?s = "s\<lparr>inodes := (inodes s)(ip := ?i\<lparr>i_flags := set_flag I_BUSY (i_flags ?i)\<rparr>)\<rparr>"
  have "linv ?s" "sector_ok ?s ?a" "?a \<notin> held ?s" "room ?s 1" using inv blk by simp_all
  from peek_ino [OF this] obtain b t where t: "bread ROOTDEV ?a ?s = Inr (b, t)" "buf_data b t = Inr (view s ?a, t)"
    "inodes t = inodes ?s"
    "\<And>f. \<exists>s'. brelse b (t\<lparr>inodes := f\<rparr>) = Inr ((), s') \<and> tstep ?s s' \<and> view s' = view s \<and> lsec s' = lsec s \<and> inodes s' = f"
    by (metis inodes_frame(1) view_frame)
  let ?l = "load_dinode (get_dinode (view s ?a) (dinode_offset (i_inum ?i))) (inodes t ip)"
  from t(4) [of "(inodes t)(ip := ?l)"] obtain u where u: "brelse b (t\<lparr>inodes := (inodes t)(ip := ?l)\<rparr>) = Inr ((), u)"
    "tstep ?s u" "view u = view s" "lsec u = lsec s" "inodes u = (inodes t)(ip := ?l)" by blast
  let ?s' = "u\<lparr>inodes := (inodes s)(ip := loaded s ?i)\<rparr>"
  have ld: "?l\<lparr>i_flags := set_flag I_VALID (i_flags ?l)\<rparr> = loaded s ?i"
    by (rule inode.equality) (simp_all add: t(3) loaded_def load_dinode_def fun_eq_iff)
  have "ilock (Some ip) s = Inr ((), ?s')"
    using i t(1,2) u(1) ty ld by (simp add: ilock_unfold ino_at_def upd_ino_def u(5) t(3) fun_upd_upd)
  moreover have "tstep s ?s'" using tstep_trans [OF ino_step [OF inv(1)] u(2)] tstep_trans ino_step tstep_linv u(2) by metis
  ultimately show ?thesis using u(3,4) by (intro exI [of _ ?s']) simp
qed

lemma iupdate_ok:
  assumes inv: "linv s" "room s 1" and i: "i_dev (inodes s ip) = ROOTDEV"
    and blk: "home_sector s (IBLOCK (i_inum (inodes s ip)))" "IBLOCK (i_inum (inodes s ip)) \<notin> held s"
    and tx: "outstanding (thelog s) \<ge> 1" "int (length (lsec s)) + 1 < log_size (thelog s)"
  shows "\<exists>s'. iupdate ip s = Inr ((), s') \<and> tstep s s' \<and> inodes s' = inodes s \<and>
    lsec s' = log_add (IBLOCK (i_inum (inodes s ip))) (lsec s) \<and>
    view s' = (view s)(IBLOCK (i_inum (inodes s ip)) :=
      put_dinode (NDIRECT + 1) (view s (IBLOCK (i_inum (inodes s ip)))) (dinode_offset (i_inum (inodes s ip))) (dinode_of (inodes s ip)))"
proof -
  let ?i = "inodes s ip"
  let ?a = "IBLOCK (i_inum ?i)"
  let ?d = "put_dinode (NDIRECT + 1) (view s ?a) (dinode_offset (i_inum ?i)) (dinode_of ?i)"
  have sok: "sector_ok s ?a" by (rule home_usable [OF inv(1) blk(1)])
  from session [OF inv(1) sok blk(2) inv(2)] tx blk(1) obtain b t where t: "bread ROOTDEV ?a s = Inr (b, t)"
    "buf_data b t = Inr (view s ?a, t)" "\<exists>u v s'. set_data b ?d t = Inr ((), u) \<and> log_write b u = Inr ((), v) \<and>
      brelse b v = Inr ((), s') \<and> tstep s s' \<and> view s' = (view s)(?a := ?d) \<and> lsec s' = log_add ?a (lsec s) \<and> inodes s' = inodes s"
    by metis
  from t(3) obtain u v s' where s': "set_data b ?d t = Inr ((), u)" "log_write b u = Inr ((), v)" "brelse b v = Inr ((), s')"
    "tstep s s'" "view s' = (view s)(?a := ?d)" "lsec s' = log_add ?a (lsec s)" "inodes s' = inodes s" by blast
  have "iupdate ip s = Inr ((), s')" using t(1,2) s'(1-3) i by (simp add: iupdate_def ino_at_def)
  with s'(4-7) show ?thesis by blast
qed

text \<open>The fields the two forms of an inode share, the nine addresses of the in-memory one included.\<close>

definition same_file :: "inode \<Rightarrow> inode \<Rightarrow> bool" where
  "same_file i j \<longleftrightarrow> i_type j = i_type i \<and> i_major j = i_major i \<and> i_minor j = i_minor i \<and> i_nlink j = i_nlink i \<and>
     i_size j = i_size i \<and> i_mtime j = i_mtime i \<and> i_atime j = i_atime i \<and> i_ctime j = i_ctime i \<and>
     (\<forall>k \<le> NDIRECT. i_addrs j k = i_addrs i k)"

lemma loaded_after_put:
  assumes "view s (IBLOCK (i_inum j)) = put_dinode (NDIRECT + 1) d (dinode_offset (i_inum j)) (dinode_of i)"
  shows "same_file i (loaded s j)"
  using assms by (simp add: same_file_def loaded_def load_dinode_def get_put_dinode_fields get_put_dinode_addrs dinode_of_def)

section \<open>A mounted file\<close>

definition sample_dinode :: dinode where
  "sample_dinode = \<lparr>di_type = T_FILE, di_major = 0, di_minor = 0, di_nlink = 1, di_size = 5000, di_ctime = 0, di_atime = 0,
     di_mtime = 0, di_addrs = (\<lambda>_. 0)(0 := 40, 1 := 41)\<rparr>"

text \<open>An image with one inode, number 1, and the contents of block 40.\<close>

definition sample_image :: "dinode \<Rightarrow> block \<Rightarrow> nat \<Rightarrow> block" where
  "sample_image di b = sample_disk(2 := put_dinode (NDIRECT + 1) zero_block (dinode_offset 1) di, 40 := b)"

definition sample_img :: "nat \<Rightarrow> block" where
  "sample_img = sample_image sample_dinode (\<lambda>_. 7)"

definition sample_iopen :: "nat act" where
  "sample_iopen = bnd sample_open (\<lambda>_. bnd (iget ROOTDEV 1) (\<lambda>ip. bnd (ilock (Some ip)) (\<lambda>_. ret ip)))"

lemma iget_fresh:
  "iget dev inum s = Inr (0, s\<lparr>inodes := (inodes s)(0 := zero_inode\<lparr>i_dev := dev, i_inum := inum, i_ref := 1\<rparr>)\<rparr>)"
  if "inodes s = (\<lambda>_. zero_inode)"
proof -
  have "iget_hit (\<lambda>_. zero_inode) dev inum = None" by (simp add: iget_hit_def zero_inode_def find_NoneI)
  moreover have "iget_empty (\<lambda>_. zero_inode) = Some 0"
    by (simp add: iget_empty_def zero_inode_def layout upt_rec)
  ultimately show ?thesis using that by (simp add: iget_def upd_ino_def zero_inode_def)
qed

lemma image_open:
  assumes "sb_of_block (d 1) = sample_sb" "head_n (d 70) = 0"
    "d 2 = put_dinode (NDIRECT + 1) zero_block (dinode_offset 1) di" "di_type di \<noteq> 0"
  shows "\<exists>s. sample_iopen (process_start d 100) = Inr (0, s) \<and> linv s \<and> held s = {} \<and> lsec s = [] \<and>
     outstanding (thelog s) = 1 \<and> log_size (thelog s) = 30 \<and> i_dev (inodes s 0) = ROOTDEV \<and> i_inum (inodes s 0) = 1 \<and>
     i_ref (inodes s 0) = 1 \<and> i_type (inodes s 0) = di_type di \<and> i_nlink (inodes s 0) = di_nlink di \<and>
     i_size (inodes s 0) = di_size di \<and> (\<forall>k \<le> NDIRECT. i_addrs (inodes s 0) k = di_addrs di k) \<and>
     (\<forall>a. home_sector s a \<longleftrightarrow> 2 \<le> unat a \<and> unat a < 70) \<and> (\<forall>a. unat a \<noteq> 70 \<longrightarrow> view s a = d (unat a)) \<and>
     ftable s = (\<lambda>_. zero_file) \<and> committing (thelog s) = 0 \<and> flag I_BUSY (i_flags (inodes s 0)) \<and> flag I_VALID (i_flags (inodes s 0)) \<and>
     log_at s sample_sb \<and> head_n (disk s 70) = 0 \<and> sb_of_block (disk s 1) = sample_sb \<and> same_file (inodes s 0) (loaded s (inodes s 0))"
proof -
  from sample_ready [where d = d, OF assms(1,2)] obtain s where s:
    "sample_open (process_start d 100) = Inr ((), s)" "linv s" "held s = {}" "lsec s = []"
    "log_at s sample_sb" "outstanding (thelog s) = 1" "inodes s = (\<lambda>_. zero_inode)"
    "\<forall>a. unat a \<noteq> 70 \<longrightarrow> view s a = d (unat a)" "ftable s = (\<lambda>_. zero_file)" "committing (thelog s) = 0"
    "head_n (disk s 70) = 0" "sb_of_block (disk s 1) = sample_sb" by blast
  let ?i = "zero_inode\<lparr>i_dev := ROOTDEV, i_inum := 1, i_ref := 1\<rparr>"
  let ?t = "s\<lparr>inodes := (inodes s)(0 := ?i)\<rparr>"
  have hm: "home_sector s a \<longleftrightarrow> 2 \<le> unat a \<and> unat a < 70" for a
    using log_at_geom(4) [OF s(5)] sample_geom by simp
  have ib: "IBLOCK 1 = 2" by (simp add: IBLOCK_def layout)
  have sok: "sector_ok s 2" by (rule home_usable [OF s(2)]) (simp add: hm)
  have "view s 2 = put_dinode (NDIRECT + 1) zero_block (dinode_offset 1) di"
    using s(8) assms(3) by simp
  then have fld: "i_type (loaded ?t ?i) = di_type di" "i_size (loaded ?t ?i) = di_size di" "i_nlink (loaded ?t ?i) = di_nlink di"
    "\<forall>k \<le> NDIRECT. i_addrs (loaded ?t ?i) k = di_addrs di k"
    "i_dev (loaded ?t ?i) = ROOTDEV" "i_inum (loaded ?t ?i) = 1" "i_ref (loaded ?t ?i) = 1"
    by (simp_all add: loaded_def load_dinode_def ib get_put_dinode_fields get_put_dinode_addrs)
  from ilock_load [of ?t 0] s(2,3,4) sok fld(1) assms obtain u where u: "ilock (Some 0) ?t = Inr ((), u)" "tstep ?t u"
    "view u = view s" "lsec u = lsec s" "inodes u = (inodes ?t)(0 := loaded ?t ?i)"
    by (auto simp: ib room_def layout zero_inode_def)
  have "sample_iopen (process_start d 100) = Inr (0, u)"
    using s(1) u(1) by (simp add: sample_iopen_def iget_fresh [OF s(7)])
  moreover have "log_size (thelog s) = 30" using s(5) sample_geom by (simp add: log_at_def)
  moreover have "ftable u = (\<lambda>_. zero_file)" "committing (thelog u) = 0" "disk u = disk s"
    using u(2) s(9,10) by (simp_all add: tstep_def tenv_eq)
  moreover have "flag I_BUSY (i_flags (loaded ?t ?i))" "flag I_VALID (i_flags (loaded ?t ?i))" by (simp_all add: loaded_def)
  moreover have "same_file (loaded ?t ?i) (loaded u (loaded ?t ?i))" using u(3) by (simp add: same_file_def loaded_def load_dinode_def)
  ultimately show ?thesis
    using s u fld hm tstep_linv [OF u(2)] tstep_held [OF u(2)] tstep_geom [OF u(2)]
    by (intro exI [of _ u] conjI) simp_all
qed

lemma sample_image_open:
  assumes "di_type di \<noteq> 0"
  shows "\<exists>s. sample_iopen (process_start (sample_image di b) 100) = Inr (0, s) \<and> linv s \<and> held s = {} \<and> lsec s = [] \<and>
     outstanding (thelog s) = 1 \<and> log_size (thelog s) = 30 \<and> i_dev (inodes s 0) = ROOTDEV \<and> i_inum (inodes s 0) = 1 \<and>
     i_ref (inodes s 0) = 1 \<and> i_type (inodes s 0) = di_type di \<and> i_nlink (inodes s 0) = di_nlink di \<and>
     i_size (inodes s 0) = di_size di \<and> (\<forall>k \<le> NDIRECT. i_addrs (inodes s 0) k = di_addrs di k) \<and>
     (\<forall>a. home_sector s a \<longleftrightarrow> 2 \<le> unat a \<and> unat a < 70) \<and> (\<forall>a. unat a \<noteq> 70 \<longrightarrow> view s a = sample_image di b (unat a)) \<and>
     ftable s = (\<lambda>_. zero_file) \<and> committing (thelog s) = 0 \<and> flag I_BUSY (i_flags (inodes s 0)) \<and> flag I_VALID (i_flags (inodes s 0)) \<and>
     log_at s sample_sb \<and> head_n (disk s 70) = 0 \<and> sb_of_block (disk s 1) = sample_sb \<and> same_file (inodes s 0) (loaded s (inodes s 0))"
proof -
  have "sb_of_block (sample_image di b 1) = sample_sb" "head_n (sample_image di b 70) = 0"
    "sample_image di b 2 = put_dinode (NDIRECT + 1) zero_block (dinode_offset 1) di"
    using sample_head by (simp_all add: sample_image_def)
  from image_open [where d = "sample_image di b", OF this assms] show ?thesis .
qed

lemma sample_file:
  "\<exists>s. sample_iopen (process_start sample_img 100) = Inr (0, s) \<and> linv s \<and> held s = {} \<and> lsec s = [] \<and>
     outstanding (thelog s) = 1 \<and> log_size (thelog s) = 30 \<and> i_dev (inodes s 0) = ROOTDEV \<and> i_inum (inodes s 0) = 1 \<and> i_ref (inodes s 0) = 1 \<and>
     i_type (inodes s 0) = T_FILE \<and> i_size (inodes s 0) = 5000 \<and>
     (\<forall>k \<le> NDIRECT. i_addrs (inodes s 0) k = (if k = 0 then 40 else if k = 1 then 41 else 0)) \<and>
     (\<forall>a. home_sector s a \<longleftrightarrow> 2 \<le> unat a \<and> unat a < 70) \<and> (\<forall>a. unat a \<noteq> 70 \<longrightarrow> view s a = sample_img (unat a))"
proof -
  have d: "di_type sample_dinode = T_FILE" "di_size sample_dinode = 5000"
    "di_addrs sample_dinode k = (if k = 0 then 40 else if k = 1 then 41 else 0)" for k
    by (simp_all add: sample_dinode_def)
  then have "di_type sample_dinode \<noteq> 0" by (simp add: layout)
  from sample_image_open [OF this, of "\<lambda>_. 7"] show ?thesis
    unfolding sample_img_def d by (elim exE conjE) (intro exI conjI)
qed

section \<open>Properties\<close>

text \<open>
  C21: An inode survives its trip to disk: inside a transaction with room, \<open>iupdate\<close> on a cached
  inode, followed by \<open>ilock\<close> of an invalid entry for the same inode number, loads an entry that
  agrees with the first in every field the disk form has, the nine addresses included; the other
  inodes in the block keep their bytes.
\<close>

theorem iupdate_ilock_roundtrip:
  assumes "linv s" "held s = {}" "outstanding (thelog s) \<ge> 1" "int (length (lsec s)) + 1 < log_size (thelog s)"
    and "room s 2" "i_dev (inodes s ip) = ROOTDEV" "i_type (inodes s ip) \<noteq> 0" "home_sector s (IBLOCK (i_inum (inodes s ip)))"
    and "i_inum (inodes s jp) = i_inum (inodes s ip)" "i_dev (inodes s jp) = ROOTDEV" "i_ref (inodes s jp) \<ge> 1"
    and "\<not> flag I_BUSY (i_flags (inodes s jp))" "\<not> flag I_VALID (i_flags (inodes s jp))"
  shows "\<exists>s' s''. iupdate ip s = Inr ((), s') \<and> ilock (Some jp) s' = Inr ((), s'') \<and>
    same_file (inodes s ip) (inodes s'' jp) \<and> flag I_VALID (i_flags (inodes s'' jp)) \<and>
    (\<forall>k. k < dinode_offset (i_inum (inodes s ip)) \<or> dinode_offset (i_inum (inodes s ip)) + SIZEOF_DINODE \<le> k \<longrightarrow>
       view s'' (IBLOCK (i_inum (inodes s ip))) k = view s (IBLOCK (i_inum (inodes s ip))) k) \<and>
    (\<forall>a. a \<noteq> IBLOCK (i_inum (inodes s ip)) \<longrightarrow> view s'' a = view s a)"
proof -
  let ?i = "inodes s ip" and ?j = "inodes s jp"
  let ?a = "IBLOCK (i_inum ?i)"
  from iupdate_ok [OF assms(1) room_mono [OF assms(5)] assms(6,8) _ assms(3,4)] assms(2) obtain s' where s':
    "iupdate ip s = Inr ((), s')" "tstep s s'" "inodes s' = inodes s" "lsec s' = log_add ?a (lsec s)"
    "view s' = (view s)(?a := put_dinode (NDIRECT + 1) (view s ?a) (dinode_offset (i_inum ?i)) (dinode_of ?i))" by auto
  note g = tstep_geom [OF s'(2)]
  have sf: "same_file ?i (loaded s' ?j)" by (rule loaded_after_put [of s' ?j "view s ?a"]) (simp add: s'(5) assms(9))
  have h: "held s' = {}" using tstep_held [OF s'(2)] assms(2) by simp
  have "length (lsec s') \<le> Suc (length (lsec s))" using s'(4) by simp
  then have r: "room s' 1" using assms(2,5) h by (simp add: room_def)
  have ok: "sector_ok s' (IBLOCK (i_inum (inodes s' jp)))"
    using home_usable [OF tstep_linv [OF s'(2)]] g(1) assms(8,9) s'(3) by simp
  from ilock_load [OF tstep_linv [OF s'(2)] r, of jp] ok h s'(3) assms(7,10-13) sf obtain s'' where s'':
    "ilock (Some jp) s' = Inr ((), s'')" "view s'' = view s'" "inodes s'' = (inodes s)(jp := loaded s' ?j)"
    by (auto simp: same_file_def)
  have "flag I_VALID (i_flags (loaded s' ?j))" by (simp add: loaded_def)
  with s' s'' sf show ?thesis
    by (intro exI [of _ s'] exI [of _ s''] conjI) (auto simp: put_dinode_other layout)
qed

text \<open>The second entry of the witness is a copy of the first with its flags clear, as \<open>iget\<close> leaves a new one.\<close>

theorem iupdate_ilock_roundtrip_witness:
  "\<exists>s s' s''. sample_iopen (process_start sample_img 100) = Inr (0, s) \<and> iupdate 0 (s\<lparr>inodes := (inodes s)(1 := (inodes s 0)\<lparr>i_flags := 0\<rparr>)\<rparr>) = Inr ((), s') \<and>
     ilock (Some 1) s' = Inr ((), s'') \<and> same_file (inodes s 0) (inodes s'' 1)"
proof -
  from sample_file obtain s where s: "sample_iopen (process_start sample_img 100) = Inr (0, s)" "linv s" "held s = {}" "lsec s = []"
    "outstanding (thelog s) = 1" "log_size (thelog s) = 30" "i_dev (inodes s 0) = ROOTDEV" "i_inum (inodes s 0) = 1"
    "i_ref (inodes s 0) = 1" "i_type (inodes s 0) = T_FILE" "\<forall>a. home_sector s a \<longleftrightarrow> 2 \<le> unat a \<and> unat a < 70" by blast
  let ?s = "s\<lparr>inodes := (inodes s)(1 := (inodes s 0)\<lparr>i_flags := 0\<rparr>)\<rparr>"
  have "IBLOCK 1 = 2" by (simp add: IBLOCK_def layout)
  with s iupdate_ilock_roundtrip [of ?s 0 1] show ?thesis
    by (auto simp: room_def layout)
qed

end
