(* ===== verification/File_Content.thy ===== *)
theory File_Content
  imports Inode_Disk
begin

text \<open>
  What \<open>readi\<close> and \<open>writei\<close> do to a file seen as a sequence of bytes: reading returns the bytes,
  writing in place changes exactly the bytes it is given, and the two agree; and where they
  refuse or go wrong.
\<close>

lemma of_nat_unat_eq: "of_nat (unat (n :: u32)) = n"
  by simp

text \<open>
  C20: \<open>readi\<close> returns the bytes of the file.  On an inode whose blocks in the range are mapped,
  it returns the number of bytes between the offset and the end of the file or of the request,
  and those bytes; it changes neither the disk nor any cached block, nor the log nor the inode.
\<close>

theorem readi_reads_file:
  assumes "linv s" "room s 1" "i_dev (inodes s ip) = ROOTDEV" "i_type (inodes s ip) \<noteq> T_DEV"
    and "unat off \<le> unat (i_size (inodes s ip))" "unat off + unat n < 2 ^ 32"
    and "k = min (unat n) (unat (i_size (inodes s ip)) - unat off)" "k < 2 ^ 31"
    and "\<forall>p. unat off \<le> p \<longrightarrow> p < unat off + k \<longrightarrow> mapped s (inodes s ip) (p div BSIZE)"
  shows "\<exists>s'. readi ip off n s = Inr ((int k, file_bytes s (inodes s ip) (unat off) k), s') \<and> linv s' \<and>
    view s' = view s \<and> disk s' = disk s \<and> lsec s' = lsec s \<and> inodes s' = inodes s"
proof -
  from readi_ok [OF assms(1-7,9)] obtain s' where
    "readi ip off n s = Inr ((sint (of_nat k :: u32), file_bytes s (inodes s ip) (unat off) k), s')" "calm s s'" by blast
  with sint_of_small [OF assms(8)] calm_frame [of s s'] show ?thesis by auto
qed

text \<open>The blocks of the sample file.\<close>

lemma sample_file_mapped:
  assumes "linv s" "held s = {}" "\<forall>k \<le> NDIRECT. i_addrs i k = (if k = 0 then 40 else if k = 1 then 41 else 0)"
    "\<forall>a. home_sector s a \<longleftrightarrow> 2 \<le> unat a \<and> unat a < 70"
  shows "p < 8192 \<Longrightarrow> mapped s i (p div BSIZE) \<and> home_sector s (iaddr s i (p div BSIZE))"
    "iaddr s i bn = (if bn = 0 then 40 else if bn = 1 then 41 else 0)" "file_inj s i"
proof -
  have a: "i_addrs i 0 = 40" "i_addrs i 1 = 41" "i_addrs i NDIRECT = 0" "2 \<le> k \<Longrightarrow> k \<le> NDIRECT \<Longrightarrow> i_addrs i k = 0" for k
    using assms(3) by (auto simp: layout)
  show ia: "iaddr s i bn = (if bn = 0 then 40 else if bn = 1 then 41 else 0)" for bn
    using a by (auto simp: iaddr_def layout)
  then show "file_inj s i" using a(3) by (auto simp: file_inj_def split: if_splits)
  have ok: "sector_ok s 40" "sector_ok s 41" by (rule home_usable [OF assms(1)], simp add: assms(4))+
  assume "p < 8192"
  then have "p div BSIZE = 0 \<or> p div BSIZE = 1" by (simp add: layout) linarith
  then show "mapped s i (p div BSIZE) \<and> home_sector s (iaddr s i (p div BSIZE))"
    using ok assms(2,4) by (auto simp: mapped_def usable_blk_def ia layout)
qed

theorem readi_reads_file_witness:
  "\<exists>s s'. sample_iopen (process_start sample_img 100) = Inr (0, s) \<and>
     readi 0 4095 10000 s = Inr ((905, 7 # replicate 904 0), s') \<and> view s' = view s"
proof -
  from sample_file obtain s where s: "sample_iopen (process_start sample_img 100) = Inr (0, s)" "linv s" "held s = {}"
    "lsec s = []" "i_dev (inodes s 0) = ROOTDEV" "i_type (inodes s 0) = T_FILE" "i_size (inodes s 0) = 5000"
    "\<forall>k \<le> NDIRECT. i_addrs (inodes s 0) k = (if k = 0 then 40 else if k = 1 then 41 else 0)"
    "\<forall>a. home_sector s a \<longleftrightarrow> 2 \<le> unat a \<and> unat a < 70" "\<forall>a. unat a \<noteq> 70 \<longrightarrow> view s a = sample_img (unat a)" by blast
  note m = sample_file_mapped [OF s(2,3,8,9)]
  have v: "view s 40 = (\<lambda>_. 7)" "view s 41 = zero_block"
    using s(10) by (simp_all add: sample_img_def sample_image_def sample_disk_def)
  have fb: "fbyte s (inodes s 0) 4095 = 7" "\<forall>j < 904. fbyte s (inodes s 0) (4096 + j) = 0"
    by (auto simp: fbyte_def m(2) v layout zero_block_def div_add1_eq)
  have bytes: "file_bytes s (inodes s 0) 4095 905 = 7 # replicate 904 0"
    by (rule nth_equalityI) (use fb in \<open>auto simp: file_bytes_def nth_Cons split: nat.splits\<close>)
  have mp: "\<forall>p. unat (4095 :: u32) \<le> p \<longrightarrow> p < unat (4095 :: u32) + 905 \<longrightarrow> mapped s (inodes s 0) (p div BSIZE)"
    using m(1) by simp
  have pre: "room s 1" "i_type (inodes s 0) \<noteq> T_DEV" "unat (4095 :: u32) \<le> unat (i_size (inodes s 0))"
    "unat (4095 :: u32) + unat (10000 :: u32) < 2 ^ 32"
    "905 = min (unat (10000 :: u32)) (unat (i_size (inodes s 0)) - unat (4095 :: u32))" "(905 :: nat) < 2 ^ 31"
    using s by (simp_all add: room_def layout)
  from readi_reads_file [OF s(2) pre(1) s(5) pre(2-6) mp] obtain s' where
    "readi 0 4095 10000 s = Inr ((int 905, file_bytes s (inodes s 0) (unat (4095 :: u32)) 905), s')" "view s' = view s" by blast
  with s(1) bytes show ?thesis by (intro exI [of _ s] exI [of _ s'] conjI) simp_all
qed

section \<open>Writing in place\<close>

lemma writei_ok:
  assumes "linv s" "held s = {}" "i_dev (inodes s ip) = ROOTDEV" "i_type (inodes s ip) \<noteq> T_DEV"
    "outstanding (thelog s) \<ge> 1" "file_inj s (inodes s ip)" "writable s (inodes s ip) (unat off) (length src)"
    "int (length (lsec s)) + int (nchunks (unat off) (length src)) < log_size (thelog s)"
    "unat n = length src" "unat off + unat n \<le> unat (i_size (inodes s ip))"
  shows "\<exists>s'. writei ip src off n s = Inr (sint n, s') \<and> tstep s s' \<and> inodes s' = inodes s \<and>
    wrote s (inodes s ip) (unat off) src s' \<and> length (lsec s') \<le> length (lsec s) + nchunks (unat off) (length src)"
proof -
  have lt: "unat off + unat n < 2 ^ 32" using assms(10) unsigned_less [of "i_size (inodes s ip)", where ?'a = nat] by simp
  note w = word_add_bounds [OF lt]
  have small: "\<not> MAXFILE * BSIZE < unat (off + n)" using lt w(2) by (simp add: layout)
  have off: "\<not> i_size (inodes s ip) < off" using assms(10) by (simp add: word_less_nat_alt)
  have "of_nat (length src) = n" using assms(9) by (metis of_nat_unat_eq)
  with writei_loop_ok [OF assms(1,2,3) _ assms(5-8)] lt assms(9) obtain s' where s':
    "writei_loop ip off src s = Inr (off + n, s')" "tstep s s'" "inodes s' = inodes s"
    "wrote s (inodes s ip) (unat off) src s'" "length (lsec s') \<le> length (lsec s) + nchunks (unat off) (length src)" by auto
  have "\<not> off + n > i_size (inodes s ip)" using assms(10) w(2) by (simp add: word_less_nat_alt)
  then have "writei ip src off n s = Inr (sint n, s')"
    using assms(4,9) off w(1) small s'(1,3) by (simp add: writei_def ino_at_def)
  with s'(2-5) show ?thesis by blast
qed

text \<open>
  C19: Writing then reading.  A \<open>writei\<close> of a mapped range inside the file, in a transaction with
  room for the blocks it touches, returns its count and changes exactly the bytes of that range:
  every other byte of the file, and every block that is not a block of the file from the offset's
  on, is as before; \<open>readi\<close> of the range then returns the bytes written.
\<close>

theorem writei_readi_roundtrip:
  assumes "linv s" "held s = {}" "i_dev (inodes s ip) = ROOTDEV" "i_type (inodes s ip) \<noteq> T_DEV"
    and "outstanding (thelog s) \<ge> 1" "file_inj s (inodes s ip)" "writable s (inodes s ip) (unat off) (length src)"
    and "int (length (lsec s)) + int (nchunks (unat off) (length src)) < log_size (thelog s)"
    and "unat n = length src" "unat off + unat n \<le> unat (i_size (inodes s ip))" "length src < 2 ^ 31"
  shows "\<exists>s' s''. writei ip src off n s = Inr (int (length src), s') \<and> readi ip off n s' = Inr ((int (length src), src), s'') \<and>
    (\<forall>p. p div BSIZE < NDIRECT + NINDIRECT \<longrightarrow> iaddr s (inodes s ip) (p div BSIZE) \<noteq> 0 \<longrightarrow> fbyte s' (inodes s' ip) p =
       (if unat off \<le> p \<and> p < unat off + length src then src ! (p - unat off) else fbyte s (inodes s ip) p)) \<and>
    (\<forall>a. a \<notin> iaddr s (inodes s ip) ` {bn. unat off div BSIZE \<le> bn \<and> bn < NDIRECT + NINDIRECT} \<longrightarrow> view s' a = view s a)"
proof -
  let ?i = "inodes s ip"
  have sn: "sint n = int (length src)" using sint_of_small [OF assms(11)] assms(9) by (metis of_nat_unat_eq)
  from writei_ok [OF assms(1-10)] obtain s' where s': "writei ip src off n s = Inr (sint n, s')" "tstep s s'"
    "inodes s' = inodes s" "wrote s ?i (unat off) src s'" by blast
  note g = tstep_geom [OF s'(2)]
  have ia: "iaddr s' ?i = iaddr s ?i" using s'(4) by (simp add: wrote_def)
  have wr: "writable s' ?i (unat off) (length src)" using mapped_step(2) [OF s'(2) ia] assms(7) by simp
  have fb: "fbyte s' ?i p = (if unat off \<le> p \<and> p < unat off + length src then src ! (p - unat off) else fbyte s ?i p)"
    if "p div BSIZE < NDIRECT + NINDIRECT" "iaddr s ?i (p div BSIZE) \<noteq> 0" for p
    using s'(4) that by (simp add: wrote_def NB_def)
  have mapd: "p div BSIZE < NDIRECT + NINDIRECT \<and> iaddr s ?i (p div BSIZE) \<noteq> 0"
    if "unat off \<le> p" "p < unat off + length src" for p
    using assms(7) that unfolding writable_def mapped_def usable_blk_def by blast
  have bytes: "file_bytes s' ?i (unat off) (length src) = src"
    by (rule nth_equalityI) (use fb mapd in \<open>simp_all add: file_bytes_def\<close>)
  have "held s' = {}" using tstep_held [OF s'(2)] assms(2) by simp
  note rm = linv_room [OF tstep_linv [OF s'(2)] this]
  have lt: "unat off + unat n < 2 ^ 32" using assms(10) unsigned_less [of "i_size ?i", where ?'a = nat] by simp
  have k: "length src = min (unat n) (unat (i_size (inodes s' ip)) - unat off)" using assms(9,10) s'(3) by simp
  have mp: "\<forall>p. unat off \<le> p \<longrightarrow> p < unat off + length src \<longrightarrow> mapped s' (inodes s' ip) (p div BSIZE)"
    using wr s'(3) by (simp add: writable_def)
  from readi_ok [OF tstep_linv [OF s'(2)] rm, of ip off n "length src"] assms(3,4,10) s'(3) lt k mp
  obtain s'' where "readi ip off n s' = Inr ((sint (of_nat (length src) :: u32), file_bytes s' ?i (unat off) (length src)), s'')"
    by auto
  with s' sn bytes sint_of_small [OF assms(11)] fb show ?thesis
    by (intro exI [of _ s'] exI [of _ s''] conjI) (simp_all add: wrote_def NB_def)
qed

theorem writei_readi_roundtrip_witness:
  "\<exists>s s' s''. sample_iopen (process_start sample_img 100) = Inr (0, s) \<and>
     writei 0 [1, 2, 3] 4095 3 s = Inr (3, s') \<and> readi 0 4095 3 s' = Inr ((3, [1, 2, 3]), s'') \<and> view s' 2 = view s 2"
proof -
  from sample_file obtain s where s: "sample_iopen (process_start sample_img 100) = Inr (0, s)" "linv s" "held s = {}"
    "lsec s = []" "outstanding (thelog s) = 1" "log_size (thelog s) = 30" "i_dev (inodes s 0) = ROOTDEV"
    "i_type (inodes s 0) = T_FILE" "i_size (inodes s 0) = 5000"
    "\<forall>k \<le> NDIRECT. i_addrs (inodes s 0) k = (if k = 0 then 40 else if k = 1 then 41 else 0)"
    "\<forall>a. home_sector s a \<longleftrightarrow> 2 \<le> unat a \<and> unat a < 70" by blast
  note m = sample_file_mapped [OF s(2,3,10,11)]
  have wr: "writable s (inodes s 0) (unat (4095 :: u32)) (length [1, 2, 3 :: u8])" using m(1) by (simp add: writable_def)
  have pre: "i_type (inodes s 0) \<noteq> T_DEV" "outstanding (thelog s) \<ge> 1"
    "int (length (lsec s)) + int (nchunks (unat (4095 :: u32)) (length [1, 2, 3 :: u8])) < log_size (thelog s)"
    "unat (3 :: u32) = length [1, 2, 3 :: u8]" "unat (4095 :: u32) + unat (3 :: u32) \<le> unat (i_size (inodes s 0))"
    "length [1, 2, 3 :: u8] < 2 ^ 31"
    using s by (simp_all add: nchunks_def layout)
  from writei_readi_roundtrip [OF s(2,3,7) pre(1,2) m(3) wr pre(3-6)] obtain s' s'' where r:
    "writei 0 [1, 2, 3] 4095 3 s = Inr (int (length [1, 2, 3 :: u8]), s')"
    "readi 0 4095 3 s' = Inr ((int (length [1, 2, 3 :: u8]), [1, 2, 3]), s'')"
    "\<forall>a. a \<notin> iaddr s (inodes s 0) ` {bn. unat (4095 :: u32) div BSIZE \<le> bn \<and> bn < NDIRECT + NINDIRECT} \<longrightarrow> view s' a = view s a"
    by blast
  have "(2 :: u32) \<notin> iaddr s (inodes s 0) ` {bn. unat (4095 :: u32) div BSIZE \<le> bn \<and> bn < NDIRECT + NINDIRECT}"
    using m(2) by auto
  with r(3) have "view s' 2 = view s 2" by blast
  with s(1) r(1,2) show ?thesis by (intro exI [of _ s] exI [of _ s'] exI [of _ s''] conjI) simp_all
qed

section \<open>Refusals and limits\<close>

lemma bmap_beyond:
  assumes "NDIRECT + NINDIRECT \<le> b" "b < MAXFILE"
  shows "bmap ip b s = Inl (Undef ''ip->addrs[NDIRECT+1]'')"
proof -
  have "\<not> b < NDIRECT" "\<not> b - NDIRECT < NINDIRECT" "b - NDIRECT < MAXFILE - NDIRECT" using assms by linarith+
  then show ?thesis unfolding bmap_def by (simp only: if_True if_False fail_apply)
qed

text \<open>
  What is refused: a device inode, whose driver table is empty, an offset behind the end of
  the file and a range that wraps make both \<open>readi\<close> and \<open>writei\<close> return -1 and change nothing.
\<close>

lemma io_rejected:
  assumes "i_type (inodes s ip) = T_DEV \<or> off > i_size (inodes s ip) \<or> off + n < off"
  shows "readi ip off n s = Inr ((-1, []), s) \<and> writei ip src off n s = Inr (-1, s)"
  using assms by (auto simp: readi_def writei_def ino_at_def devsw_def)

text \<open>
  C34: The double-indirect block is out of reach.  A write that starts behind the
  \<open>NDIRECT + NINDIRECT\<close> blocks, where \<open>bmap\<close> would use the double-indirect block, passes every
  check, \<open>MAXFILE*BSIZE\<close> being more than 32 bits can say, and reads \<open>addrs\<close> one past its end.
\<close>

theorem writei_large_undefined:
  assumes "i_type (inodes s ip) \<noteq> T_DEV" "off \<le> i_size (inodes s ip)" "unat off + unat n < 2 ^ 32"
    and "0 < unat n" "unat n \<le> length src" "(NDIRECT + NINDIRECT) * BSIZE \<le> unat off"
  shows "writei ip src off n s = Inl (Undef ''ip->addrs[NDIRECT+1]'')"
proof -
  note w = word_add_bounds [OF assms(3)]
  have small: "\<not> MAXFILE * BSIZE < unat (off + n)" using assms(3) w(2) by (simp add: layout)
  have bs: "0 < BSIZE" "unat off < MAXFILE * BSIZE" using assms(3) by (simp_all add: layout)
  then have bn: "NDIRECT + NINDIRECT \<le> unat off div BSIZE" "unat off div BSIZE < MAXFILE"
    using assms(6) by (simp_all add: less_eq_div_iff_mult_less_eq less_mult_imp_div_less)
  then have bm: "bmap ip (unat off div BSIZE) s = Inl (Undef ''ip->addrs[NDIRECT+1]'')"
    by (rule bmap_beyond)
  have "writei_loop ip off (take (unat n) src) s = Inl (Undef ''ip->addrs[NDIRECT+1]'')"
    using assms(4,5) by (subst writei_loop.simps) (auto simp: bm)
  with assms(1,2) w(1) small show ?thesis by (simp add: writei_def ino_at_def not_less)
qed

text \<open>A file that has reached the last singly indirect block: the next byte appended.\<close>

definition sample_big :: kern where
  "sample_big = (process_start sample_img 100)\<lparr>inodes := (\<lambda>_. zero_inode\<lparr>i_type := T_FILE, i_size := 4227072\<rparr>)\<rparr>"

theorem writei_large_undefined_witness:
  "writei 0 [1] 4227072 1 sample_big = Inl (Undef ''ip->addrs[NDIRECT+1]'')"
  by (rule writei_large_undefined) (simp_all add: sample_big_def layout)

end
