(* ===== verification/Txn_Crash.thy ===== *)
theory Txn_Crash
  imports Alloc
begin

text \<open>
  Crashes across transactions.  \<open>crash_safe\<close> says of a run from one state to another that
  whatever prefix of its disk writes a crash leaves, with unflushed writes kept or lost, the
  image recovers to one of a given set of disks.  The closing \<open>end_op\<close> of a transaction is safe
  for the disk before it and the disk after it, and runs compose.
\<close>

text \<open>The image \<open>d\<close> can be mounted, and its blocks before the log are then those of \<open>d'\<close>.\<close>

definition recovers :: "superblock \<Rightarrow> (nat \<Rightarrow> block) \<Rightarrow> (nat \<Rightarrow> block) \<Rightarrow> bool" where
  "recovers sb d d' \<longleftrightarrow> sb_of_block (d 1) = sb \<and> head_ok sb (d (sb_start sb)) \<and>
     (\<forall>a < sb_start sb. recovered (sb_start sb) d a = d' a)"

text \<open>The log of the super block \<open>sb\<close>, empty on disk.\<close>

definition log_ready :: "kern \<Rightarrow> superblock \<Rightarrow> bool" where
  "log_ready s sb \<longleftrightarrow> log_at s sb \<and> sb_of_block (disk s 1) = sb \<and> head_n (disk s (sb_start sb)) = 0"

definition crash_safe :: "superblock \<Rightarrow> kern \<Rightarrow> kern \<Rightarrow> (nat \<Rightarrow> block) set \<Rightarrow> bool" where
  "crash_safe sb s t D \<longleftrightarrow> (\<forall>ev es d. events t = events s @ ev \<longrightarrow> prefix es ev \<longrightarrow> crash_image es (disk s) d \<longrightarrow>
     (\<exists>d' \<in> D. recovers sb d d'))"

lemma crash_safe_prefix:
  "crash_safe sb s t D \<Longrightarrow> events t = events s @ es @ fs \<Longrightarrow> crash_image es (disk s) d \<Longrightarrow> \<exists>d' \<in> D. recovers sb d d'"
  unfolding crash_safe_def by (meson prefixI)

lemma recovers_mount:
  assumes "recovers sb d d'" "sb_geom sb n"
  shows "\<exists>t. mount (process_start d n) = Inr ((), t) \<and> linv t \<and> held t = {} \<and> lsec t = [] \<and> (\<forall>a < sb_start sb. disk t a = d' a)"
proof -
  have d: "sb_of_block (d 1) = sb" "head_ok sb (d (sb_start sb))" "\<forall>a < sb_start sb. recovered (sb_start sb) d a = d' a"
    using assms(1) by (simp_all add: recovers_def)
  from mount_ok [where d = d, OF d(1) assms(2) d(2)] d(3) show ?thesis unfolding recovered_def by fastforce
qed

lemma ready_recovers: "log_ready s sb \<Longrightarrow> recovers sb (disk s) (disk s)"
  using empty_head_ok [of "disk s (sb_start sb)" sb "nblk s"]
  by (auto simp: recovers_def log_ready_def log_at_def recovered_empty)

lemma crun_settled: "es = [] \<or> last es = DFlush \<Longrightarrow> crun es d [] = (wdisk es d, [])"
proof (cases "es = []")
  case False
  assume "es = [] \<or> last es = DFlush"
  with False obtain fs where es: "es = fs @ [DFlush]" by (metis append_butlast_last_id)
  show ?thesis unfolding es using crun_wdisk [of fs d "[]"] by (cases "crun fs d []") (simp add: crun_append)
qed simp

lemma crash_safe_same: "events t = events s \<Longrightarrow> log_ready s sb \<Longrightarrow> crash_safe sb s t {disk s}"
  using ready_recovers [of s sb] by (auto simp: crash_safe_def crash_image_def fun_eq_iff [symmetric])

lemma crash_safe_mono: "crash_safe sb s t D \<Longrightarrow> D \<subseteq> E \<Longrightarrow> crash_safe sb s t E"
  unfolding crash_safe_def by blast

lemma crash_safe_trans:
  assumes "crash_safe sb s t D" "crash_safe sb t u E" "settled s t" "settled t u"
  shows "crash_safe sb s u (D \<union> E)"
  unfolding crash_safe_def
proof (intro allI impI)
  fix ev es d
  assume a: "events u = events s @ ev" "prefix es ev" "crash_image es (disk s) d"
  obtain e1 where e1: "events t = events s @ e1" "disk t = wdisk e1 (disk s)" "e1 = [] \<or> last e1 = DFlush"
    using assms(3) by (auto simp: settled_def)
  obtain e2 where e2: "events u = events t @ e2" using assms(4) by (auto simp: settled_def)
  have "ev = e1 @ e2" using a(1) e1(1) e2 by simp
  with a(2) consider "prefix es e1" | fs where "es = e1 @ fs" "prefix fs e2" by (auto simp: prefix_append)
  then show "\<exists>d' \<in> D \<union> E. recovers sb d d'"
  proof cases
    case 1
    with assms(1) e1(1) a(3) show ?thesis unfolding crash_safe_def by blast
  next
    case (2 fs)
    have "crash_image fs (disk t) d"
      using a(3) 2(1) crun_settled [OF e1(3)] e1(2) by (simp add: crash_image_def crun_append)
    with assms(2) e2 2(2) show ?thesis unfolding crash_safe_def by blast
  qed
qed

section \<open>The end of a transaction\<close>

lemma commit_log_ready:
  assumes "linv s" "held s = {}" "log_ready s sb" "lh_n (lh (thelog s)) > 0"
  shows "wdisk (commit_events s) (disk s) 1 = disk s 1"
    "head_n (wdisk (commit_events s) (disk s) (sb_start sb)) = 0"
proof -
  have at: "log_at s sb" "head_n (disk s (sb_start sb)) = 0" using assms(3) by (simp_all add: log_ready_def)
  have "crash_image (commit_events s) (disk s) (wdisk (commit_events s) (disk s))" by (simp add: commit_flushed)
  from atomic_images(2) [OF assms(1,2) at _ this] show "wdisk (commit_events s) (disk s) 1 = disk s 1" by simp
  show "head_n (wdisk (commit_events s) (disk s) (sb_start sb)) = 0"
    using committed_head_ok(3) [OF assms(1) at(1)] by (simp add: commit_protocol [OF at(1)] protocol_def)
qed

lemma commit_low:
  assumes "linv s" "held s = {}" "log_at s sb" "a < sb_start sb"
  shows "wdisk (commit_events s) (disk s) a = view s (of_nat a)"
proof -
  have "sb_start sb < 2 ^ 32" using assms(3) by (auto simp: log_at_def sb_geom_def sb_start_def layout)
  with assms(4) have u: "unat (of_nat a :: u32) = a" by (simp add: unat_of_nat_small)
  let ?d = "(wdisk (log_copy s) (disk s))(sb_start sb := committed_head s)"
  have "wdisk (commit_events s) (disk s) a = wdisk (home_copy s) ?d a"
    using assms(4) by (simp add: commit_protocol [OF assms(3)] protocol_def)
  also have "\<dots> = view s (of_nat a)"
  proof (cases "(of_nat a :: u32) \<in> set (lsec s)")
    case True
    from home_copy_disk(3) [OF assms(1) this] u show ?thesis by simp
  next
    case False
    then have "a \<notin> unat ` set (lsec s)" by auto
    then have "wdisk (home_copy s) ?d a = disk s a"
      using home_copy_disk(2) [OF assms(1)] log_copy_disk(2) [OF assms(1,3)] assms(4) by simp
    with idle_clean [OF linv_facts(1) [OF assms(1)], of "of_nat a"] linv_facts(4) [OF assms(1)] assms(2) False u
    show ?thesis by simp
  qed
  finally show ?thesis .
qed

lemma end_op_crash:
  assumes "linv s" "held s = {}" "outstanding (thelog s) = 1" "committing (thelog s) = 0" "log_ready s sb"
    "end_op s = Inr ((), s')"
  shows "log_ready s' sb" "crash_safe sb s s' {disk s, disk s'}"
proof -
  let ?t = "s\<lparr>thelog := (thelog s)\<lparr>outstanding := 0, committing := 1\<rparr>\<rparr>"
  have t: "linv ?t" "held ?t = {}" "lsec ?t = lsec s" "view ?t = view s" "disk ?t = disk s" "events ?t = events s"
    using assms(1,2) by (simp_all add: lsec_def)
  have rt: "log_ready ?t sb" "log_at ?t sb" using assms(5) by (simp_all add: log_ready_def log_at_def)
  have run: "end_op s = bnd commit (\<lambda>_. upd_log (\<lambda>l. l\<lparr>committing := 0\<rparr>)) ?t"
    using assms(3,4) by (simp add: end_op_def upd_log_def)
  have lt: "log_at s' sb"
    using end_op_last [OF assms(1-4)] assms(5,6) by (auto simp: log_ready_def)
  have "log_ready s' sb \<and> crash_safe sb s s' {disk s, disk s'}"
  proof (cases "lh_n (lh (thelog ?t)) > 0")
    case False
    then have "s' = ?t\<lparr>thelog := (thelog ?t)\<lparr>committing := 0\<rparr>\<rparr>" using run assms(6) by (simp add: commit_def upd_log_def)
    then show ?thesis using assms(5) lt crash_safe_same [of s' s sb] by (simp add: log_ready_def)
  next
    case True
    from commit_ok [OF t(1,2) True] run assms(6) have s': "events s' = events s @ commit_events ?t"
      "disk s' = wdisk (commit_events ?t) (disk ?t)" by (auto simp: upd_log_def)
    note cr = commit_log_ready [OF t(1,2) rt(1) True]
    have lr: "log_ready s' sb" using lt cr s'(2) rt(1) by (simp add: log_ready_def)
    have h0: "head_n (disk ?t (sb_start sb)) = 0" "sb_of_block (disk s 1) = sb" using rt(1) by (simp_all add: log_ready_def)
    have "recovers sb d (disk s) \<or> recovers sb d (disk s')" if "prefix es (commit_events ?t)" "crash_image es (disk s) d" for es d
    proof -
      note ai = atomic_images [OF t(1,2) rt(2) h0(1) that(1)] 
      have im: "head_ok sb (d (sb_start sb))" "d 1 = disk s 1"
        "(\<forall>a < sb_start sb. recovered (sb_start sb) d a = disk s a) \<or>
         (\<forall>a. unat a < sb_start sb \<longrightarrow> recovered (sb_start sb) d (unat a) = view s a)"
        using ai(1-3) that(2) t(4,5) by simp_all
      have new: "recovered (sb_start sb) d a = disk s' a" if "a < sb_start sb"
        "\<forall>a. unat a < sb_start sb \<longrightarrow> recovered (sb_start sb) d (unat a) = view s a" for a
      proof -
        have "sb_start sb < 2 ^ 32" using rt(2) by (auto simp: log_at_def sb_geom_def sb_start_def layout)
        with that(1) have "unat (of_nat a :: u32) = a" by (simp add: unat_of_nat_small)
        with that commit_low [OF t(1,2) rt(2) that(1)] s'(2) t(4,5) show ?thesis by (metis (no_types))
      qed
      from im(3) show ?thesis
      proof
        assume "\<forall>a < sb_start sb. recovered (sb_start sb) d a = disk s a"
        with im(1,2) h0(2) show ?thesis by (simp add: recovers_def)
      next
        assume "\<forall>a. unat a < sb_start sb \<longrightarrow> recovered (sb_start sb) d (unat a) = view s a"
        with new im(1,2) h0(2) show ?thesis by (simp add: recovers_def)
      qed
    qed
    then show ?thesis using lr s'(1) unfolding crash_safe_def by auto
  qed
  then show "log_ready s' sb" "crash_safe sb s s' {disk s, disk s'}" by auto
qed

end
