(* ===== verification/Write_Through.thy ===== *)
theory Write_Through
  imports Sysfile File_Content Txn_Crash
begin

text \<open>
  Writing to an open file through all layers: \<open>sys_write\<close> cuts the data into transactions, each
  of which locks the inode, stores its piece through the buffer cache and commits.  When it
  returns, the data is on disk, survives a crash, and \<open>sys_read\<close> returns it.
\<close>

section \<open>Idle states and open files\<close>

text \<open>Between system calls: no buffer held, no operation open, nothing in the log.\<close>

definition quiescent :: "kern \<Rightarrow> bool" where
  "quiescent s \<longleftrightarrow> linv s \<and> held s = {} \<and> lsec s = [] \<and> outstanding (thelog s) = 0 \<and> committing (thelog s) = 0"

text \<open>A referenced, loaded and unlocked inode that is not a device.\<close>

definition inode_ready :: "inode \<Rightarrow> bool" where
  "inode_ready i \<longleftrightarrow> i_ref i \<ge> 1 \<and> \<not> flag I_BUSY (i_flags i) \<and> flag I_VALID (i_flags i) \<and>
     i_dev i = ROOTDEV \<and> i_type i \<noteq> T_DEV"

text \<open>All blocks of a file, its indirect block included, lie outside the log.\<close>

definition file_home :: "kern \<Rightarrow> inode \<Rightarrow> bool" where
  "file_home s i \<longleftrightarrow> (i_addrs i NDIRECT \<noteq> 0 \<longrightarrow> home_sector s (i_addrs i NDIRECT)) \<and>
     (\<forall>bn < NB. iaddr s i bn \<noteq> 0 \<longrightarrow> home_sector s (iaddr s i bn))"

text \<open>\<open>wrote\<close>, with the blocks of the log left open.\<close>

definition stored :: "kern \<Rightarrow> inode \<Rightarrow> nat \<Rightarrow> bytes \<Rightarrow> kern \<Rightarrow> bool" where
  "stored s i off xs s' \<longleftrightarrow> iaddr s' i = iaddr s i \<and>
     (\<forall>p. p div BSIZE < NB \<longrightarrow> iaddr s i (p div BSIZE) \<noteq> 0 \<longrightarrow>
        fbyte s' i p = (if off \<le> p \<and> p < off + length xs then xs ! (p - off) else fbyte s i p)) \<and>
     (\<forall>a. home_sector s a \<longrightarrow> a \<notin> iaddr s i ` {bn. off div BSIZE \<le> bn \<and> bn < NB} \<longrightarrow> view s' a = view s a)"

lemma unlock_flags: "\<not> flag m f \<Longrightarrow> clear_flag m (set_flag m f) = f"
proof -
  assume "\<not> flag m f"
  then have "f AND m = 0" by (simp add: flag_def)
  then have "\<not> (bit f n \<and> bit m n)" for n by (metis bit_0_eq bit_and_iff bot_apply bot_bool_def)
  then show ?thesis by (intro bit_eqI) (auto simp: set_flag_def clear_flag_def bit_simps)
qed

lemma stored_nil: "stored s i off [] s"
  by (auto simp: stored_def)

lemma stored_trans:
  assumes "stored s i off xs t" "stored t i (off + length xs) ys u" "home_sector t = home_sector s"
  shows "stored s i off (xs @ ys) u"
proof -
  have ia: "iaddr t i = iaddr s i" "iaddr u i = iaddr s i" using assms by (auto simp: stored_def)
  have fb: "fbyte u i p = (if off \<le> p \<and> p < off + length (xs @ ys) then (xs @ ys) ! (p - off) else fbyte s i p)"
    if "p div BSIZE < NB" "iaddr s i (p div BSIZE) \<noteq> 0" for p
    using assms that ia(1) by (auto simp: stored_def nth_append)
  have "off div BSIZE \<le> (off + length xs) div BSIZE" by (simp add: div_le_mono)
  then have sub: "iaddr s i ` {bn. (off + length xs) div BSIZE \<le> bn \<and> bn < NB} \<subseteq> iaddr s i ` {bn. off div BSIZE \<le> bn \<and> bn < NB}"
    by (intro image_mono) auto
  have "view u a = view s a" if a: "home_sector s a" "a \<notin> iaddr s i ` {bn. off div BSIZE \<le> bn \<and> bn < NB}" for a
  proof -
    have "view t a = view s a" using assms(1) a unfolding stored_def by blast
    moreover have "a \<notin> iaddr s i ` {bn. (off + length xs) div BSIZE \<le> bn \<and> bn < NB}" using sub a(2) by blast
    then have "view u a = view t a" using assms(2,3) a(1) ia(1) by (simp add: stored_def)
    ultimately show ?thesis by simp
  qed
  with fb ia show ?thesis by (simp add: stored_def)
qed

text \<open>Committing changes no home block, hence nothing of a file.\<close>

lemma stored_commit:
  assumes "wrote s i off xs t" "file_home s i" "\<forall>a. home_sector s a \<longrightarrow> view u a = view t a"
  shows "stored s i off xs u"
proof -
  have ia: "iaddr t i = iaddr s i" using assms(1) by (simp add: wrote_def)
  have iu: "iaddr u i = iaddr s i"
  proof
    fix bn
    have "iaddr u i bn = iaddr t i bn" using assms(2,3) by (auto simp: iaddr_def file_home_def)
    then show "iaddr u i bn = iaddr s i bn" using ia by simp
  qed
  have "fbyte u i p = fbyte t i p" if "p div BSIZE < NB" "iaddr s i (p div BSIZE) \<noteq> 0" for p
    using assms(2,3) ia iu that by (simp add: fbyte_def file_home_def)
  with assms(1,3) iu show ?thesis by (auto simp: stored_def wrote_def)
qed

lemma begin_quiescent:
  assumes "quiescent s"
  shows "begin_op s = Inr ((), s\<lparr>thelog := (thelog s)\<lparr>outstanding := 1\<rparr>\<rparr>)"
proof -
  have "lh_n (lh (thelog s)) = 0" using assms linv_empty_n [of s] by (simp add: quiescent_def)
  with assms show ?thesis by (simp add: begin_op_eq quiescent_def layout)
qed

section \<open>One transaction\<close>

lemma file_state [simp]:
  "home_sector (s\<lparr>ftable := g\<rparr>) = home_sector s" "home_sector (s\<lparr>inodes := f\<rparr>) = home_sector s"
  "home_sector (s\<lparr>thelog := (thelog s)\<lparr>outstanding := k\<rparr>\<rparr>) = home_sector s"
  "lsec (s\<lparr>ftable := g\<rparr>) = lsec s" "lsec (s\<lparr>thelog := (thelog s)\<lparr>outstanding := k\<rparr>\<rparr>) = lsec s"
  "sector_ok (s\<lparr>ftable := g\<rparr>) = sector_ok s" "sector_ok (s\<lparr>inodes := f\<rparr>) = sector_ok s" "sector_ok (s\<lparr>thelog := l\<rparr>) = sector_ok s"
  "iaddr (s\<lparr>ftable := g\<rparr>) = iaddr s" "iaddr (s\<lparr>inodes := f\<rparr>) = iaddr s" "iaddr (s\<lparr>thelog := l\<rparr>) = iaddr s"
  by (simp_all add: iaddr_def fun_eq_iff home_sector_def sector_ok_def lsec_def)

lemma file_state_more [simp]:
  "linv (s\<lparr>ftable := g\<rparr>) = linv s"
  "fbyte (s\<lparr>ftable := g\<rparr>) = fbyte s" "fbyte (s\<lparr>inodes := f\<rparr>) = fbyte s" "fbyte (s\<lparr>thelog := l\<rparr>) = fbyte s"
  by (simp_all add: linv_def log_geom_def lsecs_ok_def fbyte_def fun_eq_iff)

lemma flags_irrelevant [simp]:
  "iaddr s (i\<lparr>i_flags := x\<rparr>) = iaddr s i" "file_inj s (i\<lparr>i_flags := x\<rparr>) = file_inj s i"
  "mapped s (i\<lparr>i_flags := x\<rparr>) = mapped s i" "writable s (i\<lparr>i_flags := x\<rparr>) = writable s i"
  "fbyte s (i\<lparr>i_flags := x\<rparr>) = fbyte s i" "file_bytes s (i\<lparr>i_flags := x\<rparr>) = file_bytes s i"
  "wrote s (i\<lparr>i_flags := x\<rparr>) off xs t = wrote s i off xs t"
proof -
  show ia: "iaddr s (i\<lparr>i_flags := x\<rparr>) = iaddr s i" for s by (simp add: fun_eq_iff iaddr_def)
  show fb: "fbyte s (i\<lparr>i_flags := x\<rparr>) = fbyte s i" for s by (simp add: fun_eq_iff fbyte_def ia)
  show "file_inj s (i\<lparr>i_flags := x\<rparr>) = file_inj s i" by (simp add: file_inj_def ia)
  show "mapped s (i\<lparr>i_flags := x\<rparr>) = mapped s i" by (simp add: fun_eq_iff mapped_def ia)
  then show "writable s (i\<lparr>i_flags := x\<rparr>) = writable s i" by (simp add: fun_eq_iff writable_def ia)
  show "file_bytes s (i\<lparr>i_flags := x\<rparr>) = file_bytes s i" by (simp add: fun_eq_iff file_bytes_def fb)
  show "wrote s (i\<lparr>i_flags := x\<rparr>) off xs t = wrote s i off xs t" by (simp add: wrote_def ia fb)
qed

text \<open>What makes a range of a file ready to be written in place.\<close>

definition range_ok :: "kern \<Rightarrow> inode \<Rightarrow> nat \<Rightarrow> nat \<Rightarrow> bool" where
  "range_ok s i off k \<longleftrightarrow> inode_ready i \<and> off + k \<le> unat (i_size i) \<and> file_inj s i \<and> writable s i off k \<and>
     file_home s i \<and> 3 < log_size (thelog s)"

lemma range_ok_cong:
  assumes "iaddr t i = iaddr s i" "home_sector t = home_sector s" "sector_ok t = sector_ok s" "held t = held s"
    "log_size (thelog t) = log_size (thelog s)"
  shows "range_ok t i off k = range_ok s i off k"
  using assms by (simp add: range_ok_def file_inj_def file_home_def writable_def mapped_def usable_blk_def)

text \<open>
  The disks a crash during the write of \<open>src\<close> may recover to: a whole number of transactions has
  been stored, the rest of the file and every other home block are as before.
\<close>

definition partial_write :: "kern \<Rightarrow> inode \<Rightarrow> nat \<Rightarrow> bytes \<Rightarrow> nat \<Rightarrow> (nat \<Rightarrow> block) \<Rightarrow> bool" where
  "partial_write s i off src k d \<longleftrightarrow>
     (\<forall>p. p div BSIZE < NB \<longrightarrow> iaddr s i (p div BSIZE) \<noteq> 0 \<longrightarrow>
        d (unat (iaddr s i (p div BSIZE))) (p mod BSIZE) = (if off \<le> p \<and> p < off + k then src ! (p - off) else fbyte s i p)) \<and>
     (\<forall>a. home_sector s a \<longrightarrow> a \<notin> iaddr s i ` {..<NB} \<longrightarrow> d (unat a) = view s a)"

definition partials :: "kern \<Rightarrow> inode \<Rightarrow> nat \<Rightarrow> bytes \<Rightarrow> (nat \<Rightarrow> block) set" where
  "partials s i off src = {d. \<exists>k \<le> length src. (k = length src \<or> WRITE_MAX dvd k) \<and> partial_write s i off src k d}"

definition crash_partial :: "kern \<Rightarrow> inode \<Rightarrow> nat \<Rightarrow> bytes \<Rightarrow> kern \<Rightarrow> bool" where
  "crash_partial s i off src s' \<longleftrightarrow>
     (\<forall>sb. log_ready s sb \<longrightarrow> log_ready s' sb \<and> crash_safe sb s s' (partials s i off src))"

text \<open>An idle state's disk holds what the cache shows.\<close>

lemma quiescent_disk: "quiescent s \<Longrightarrow> disk s (unat a) = view s a"
  using idle_clean [OF linv_facts(1), of s a] linv_facts(4) [of s] by (simp add: quiescent_def)

lemma partial_none: "quiescent s \<Longrightarrow> disk s \<in> partials s i off src"
  by (auto simp: partials_def partial_write_def quiescent_disk fbyte_def intro!: exI [of _ 0])

lemma partial_all:
  assumes "quiescent s'" "stored s i off src s'"
  shows "disk s' \<in> partials s i off src"
proof -
  have "partial_write s i off src (length src) (disk s')"
    using assms by (auto simp: stored_def partial_write_def quiescent_disk fbyte_def lessThan_def)
  then show ?thesis by (auto simp: partials_def)
qed

lemma partials_first:
  "partials s i off (take WRITE_MAX src) \<subseteq> partials s i off src"
proof
  fix d
  assume "d \<in> partials s i off (take WRITE_MAX src)"
  then obtain k where k: "k \<le> min WRITE_MAX (length src)" "k = min WRITE_MAX (length src) \<or> WRITE_MAX dvd k"
    "partial_write s i off (take WRITE_MAX src) k d" by (auto simp: partials_def min.commute)
  moreover have "take WRITE_MAX src ! (p - off) = src ! (p - off)" if "off \<le> p" "p < off + k" for p
    using that k(1) by (intro nth_take) linarith
  ultimately have "partial_write s i off src k d" by (auto simp: partial_write_def)
  moreover have "k \<le> length src" "k = length src \<or> WRITE_MAX dvd k" using k(1,2) by (auto simp: min_def split: if_splits)
  ultimately show "d \<in> partials s i off src" by (auto simp: partials_def)
qed

lemma partials_rest:
  assumes "stored s i off (take WRITE_MAX src) t" "home_sector t = home_sector s"
  shows "partials t i (off + min WRITE_MAX (length src)) (drop WRITE_MAX src) \<subseteq> partials s i off src"
proof
  let ?m = "min WRITE_MAX (length src)"
  fix d
  assume "d \<in> partials t i (off + ?m) (drop WRITE_MAX src)"
  then obtain k where k: "k \<le> length src - WRITE_MAX" "k = length src - WRITE_MAX \<or> WRITE_MAX dvd k"
    "partial_write t i (off + ?m) (drop WRITE_MAX src) k d" by (auto simp: partials_def)
  have ia: "iaddr t i = iaddr s i" using assms(1) by (simp add: stored_def)
  have fb: "fbyte t i p = (if off \<le> p \<and> p < off + ?m then src ! (p - off) else fbyte s i p)"
    if "p div BSIZE < NB" "iaddr s i (p div BSIZE) \<noteq> 0" for p
    using assms(1) that by (auto simp: stored_def min.commute)
  have vw: "view t a = view s a" if "home_sector s a" "a \<notin> iaddr s i ` {..<NB}" for a
  proof -
    have "iaddr s i ` {bn. off div BSIZE \<le> bn \<and> bn < NB} \<subseteq> iaddr s i ` {..<NB}" by (intro image_mono) auto
    with that(2) have "a \<notin> iaddr s i ` {bn. off div BSIZE \<le> bn \<and> bn < NB}" by (rule contra_subsetD [rotated])
    with assms(1) that(1) show ?thesis by (simp add: stored_def)
  qed
  have sh: "drop WRITE_MAX src ! (p - (off + ?m)) = src ! (p - off)" if "off + ?m \<le> p" "p < off + ?m + k" for p
  proof -
    have "WRITE_MAX < length src" using that k(1) by auto
    then have "?m = WRITE_MAX" by simp
    then show ?thesis using that(1) \<open>WRITE_MAX < length src\<close> by (simp add: nth_drop)
  qed
  have "d (unat (iaddr s i (p div BSIZE))) (p mod BSIZE) =
      (if off \<le> p \<and> p < off + (?m + k) then src ! (p - off) else fbyte s i p)"
    if p: "p div BSIZE < NB" "iaddr s i (p div BSIZE) \<noteq> 0" for p
  proof -
    have "d (unat (iaddr s i (p div BSIZE))) (p mod BSIZE) =
        (if off + ?m \<le> p \<and> p < off + ?m + k then drop WRITE_MAX src ! (p - (off + ?m)) else fbyte t i p)"
      using k(3) p ia by (simp add: partial_write_def)
    then show ?thesis using fb [OF p] sh [of p] by (simp add: add.assoc)
  qed
  then have "partial_write s i off src (?m + k) d"
    using k(3) ia vw assms(2) by (auto simp: partial_write_def)
  moreover have "?m + k \<le> length src" "?m + k = length src \<or> WRITE_MAX dvd ?m + k"
    using k(1,2) by (auto simp: min_def)
  ultimately show "d \<in> partials s i off src" unfolding partials_def by blast
qed

text \<open>What writing through a handle keeps and does.\<close>

definition written :: "kern \<Rightarrow> nat \<Rightarrow> nat \<Rightarrow> u32 \<Rightarrow> bytes \<Rightarrow> kern \<Rightarrow> bool" where
  "written s f ip off src s' \<longleftrightarrow> quiescent s' \<and> inodes s' = inodes s \<and>
     ftable s' = (ftable s)(f := (ftable s f)\<lparr>f_off := off + of_nat (length src)\<rparr>) \<and>
     stored s (inodes s ip) (unat off) src s' \<and> settled s s' \<and>
     crash_partial s (inodes s ip) (unat off) src s' \<and> home_sector s' = home_sector s \<and>
     sector_ok s' = sector_ok s \<and> clock s' = clock s \<and> log_size (thelog s') = log_size (thelog s)"

lemma crash_partial_nil: "quiescent s \<Longrightarrow> crash_partial s i off [] s"
  unfolding crash_partial_def using partial_none [of s i off "[]"] crash_safe_mono [OF crash_safe_same] by blast

lemma crash_partial_state: "crash_partial (s\<lparr>ftable := g\<rparr>) = crash_partial s"
proof -
  have "partial_write (s\<lparr>ftable := g\<rparr>) = partial_write s" by (simp add: partial_write_def fun_eq_iff cong: if_cong)
  then have "partials (s\<lparr>ftable := g\<rparr>) = partials s" by (simp add: partials_def fun_eq_iff)
  then show ?thesis by (simp add: crash_partial_def fun_eq_iff log_ready_def log_at_def crash_safe_def)
qed

lemma crash_partial_trans:
  assumes "crash_partial s i off (take WRITE_MAX src) t" "settled s t" "stored s i off (take WRITE_MAX src) t"
    and "crash_partial t i (off + min WRITE_MAX (length src)) (drop WRITE_MAX src) u" "settled t u"
    and "home_sector t = home_sector s"
  shows "crash_partial s i off src u"
  unfolding crash_partial_def
proof (intro allI impI)
  fix sb
  assume "log_ready s sb"
  with assms(1,4) have c: "log_ready u sb" "crash_safe sb s t (partials s i off (take WRITE_MAX src))"
    "crash_safe sb t u (partials t i (off + min WRITE_MAX (length src)) (drop WRITE_MAX src))"
    unfolding crash_partial_def by blast+
  from crash_safe_trans [OF c(2,3) assms(2,5)] partials_first partials_rest [OF assms(3,6)]
  show "log_ready u sb \<and> crash_safe sb s u (partials s i off src)" using c(1) by (meson crash_safe_mono Un_least)
qed

text \<open>The body of a transaction leaves the disk alone, so a crash sees only its \<open>end_op\<close>.\<close>

lemma crash_partial_end:
  assumes "quiescent s" "quiescent s'" "stored s i off src s'"
    and "linv t" "held t = {}" "outstanding (thelog t) = 1" "committing (thelog t) = 0" "end_op t = Inr ((), s')"
    and "events t = events s" "disk t = disk s" "log_at t = log_at s"
  shows "crash_partial s i off src s'"
  unfolding crash_partial_def
proof (intro allI impI)
  fix sb
  assume "log_ready s sb"
  then have "log_ready t sb" using assms(10,11) by (simp add: log_ready_def)
  note e = end_op_crash [OF assms(4-7) this assms(8)]
  have "crash_safe sb s s' {disk s, disk s'}" using e(2) assms(9,10) by (simp add: crash_safe_def)
  with partial_none [OF assms(1)] partial_all [OF assms(2,3)] have "crash_safe sb s s' (partials s i off src)"
    using crash_safe_mono by (metis (no_types) empty_subsetI insert_subset)
  with e(1) show "log_ready s' sb \<and> crash_safe sb s s' (partials s i off src)" ..
qed

lemma nchunks_piece: "k \<le> WRITE_MAX \<Longrightarrow> nchunks off k \<le> 3"
proof -
  assume "k \<le> WRITE_MAX"
  moreover have "off mod BSIZE < BSIZE" by (simp add: layout)
  ultimately have "off mod BSIZE + k - 1 < 3 * BSIZE" by (simp add: WRITE_MAX_def layout)
  then have "(off mod BSIZE + k - 1) div BSIZE < 3" by (rule less_mult_imp_div_less)
  then show ?thesis by (simp add: nchunks_def)
qed

lemma write_piece:
  assumes "quiescent s" "range_ok s (inodes s ip) (unat off) (length p)" "length p \<le> WRITE_MAX"
    "f_off (ftable s f) = off"
  defines "x \<equiv> (ftable s f)\<lparr>f_off := off + of_nat (length p)\<rparr>"
  shows "\<exists>s1 s2 s3 s4 s'. begin_op s = Inr ((), s1) \<and> ilock (Some ip) s1 = Inr ((), s2) \<and> ftable s2 = ftable s \<and>
    writei ip p off (of_nat (length p)) s2 = Inr (int (length p), s3) \<and> ftable s3 = ftable s \<and>
    iunlock (Some ip) (s3\<lparr>ftable := (ftable s3)(f := x)\<rparr>) = Inr ((), s4) \<and> end_op s4 = Inr ((), s') \<and>
    written s f ip off p s'"
proof -
  let ?i = "inodes s ip"
  let ?j = "?i\<lparr>i_flags := set_flag I_BUSY (i_flags ?i)\<rparr>"
  let ?s1 = "s\<lparr>thelog := (thelog s)\<lparr>outstanding := 1\<rparr>\<rparr>"
  let ?s2 = "?s1\<lparr>inodes := (inodes s)(ip := ?j)\<rparr>"
  have r: "inode_ready ?i" "unat off + length p \<le> unat (i_size ?i)" "file_inj s ?i" "writable s ?i (unat off) (length p)"
    "file_home s ?i" "3 < log_size (thelog s)" using assms(2) by (simp_all add: range_ok_def)
  have qs: "linv s" "held s = {}" "lsec s = []" "outstanding (thelog s) = 0" "committing (thelog s) = 0"
    using assms(1) by (simp_all add: quiescent_def)
  have run: "begin_op s = Inr ((), ?s1)" "ilock (Some ip) ?s1 = Inr ((), ?s2)"
    using begin_quiescent [OF assms(1)] r(1) by (simp_all add: ilock_unfold ino_at_def upd_ino_def inode_ready_def)
  have len: "length p < 2 ^ 31" "unat (of_nat (length p) :: u32) = length p"
    using assms(3) by (simp_all add: WRITE_MAX_def layout unat_of_nat_small)
  have fit: "int (length (lsec ?s2)) + int (nchunks (unat off) (length p)) < log_size (thelog ?s2)"
    using nchunks_piece [OF assms(3), of "unat off"] r(6) qs(3) by simp
  have w2: "writable ?s2 (inodes ?s2 ip) (unat off) (length p)" "file_inj ?s2 (inodes ?s2 ip)"
    using r(3,4) by (simp_all add: writable_def mapped_def usable_blk_def file_inj_def)
  have rd: "i_dev ?i = ROOTDEV" "i_type ?i \<noteq> T_DEV" "\<not> flag I_BUSY (i_flags ?i)" "i_ref ?i \<ge> 1" using r(1) by (simp_all add: inode_ready_def)
  from writei_ok [of ?s2 ip off p "of_nat (length p)"] qs rd r(2) w2 fit len(2) obtain s3 where s3:
    "writei ip p off (of_nat (length p)) ?s2 = Inr (sint (of_nat (length p) :: u32), s3)" "tstep ?s2 s3"
    "inodes s3 = inodes ?s2" "wrote ?s2 (inodes ?s2 ip) (unat off) p s3" by auto
  note g = tstep_geom [OF s3(2)] and h = tstep_held [OF s3(2)]
  have t3: "committing (thelog s3) = 0" "disk s3 = disk s" "events s3 = events s"
    using s3(2) qs(5) by (simp_all add: tstep_def tenv_eq)
  let ?s4 = "s3\<lparr>ftable := (ftable s3)(f := x), inodes := inodes s\<rparr>"
  have "clear_flag I_BUSY (i_flags ?j) = i_flags ?i" using unlock_flags [OF rd(3)] by simp
  then have un: "iunlock (Some ip) (s3\<lparr>ftable := (ftable s3)(f := x)\<rparr>) = Inr ((), ?s4)"
    using s3(3) rd(4) by (simp add: iunlock_def ino_at_def upd_ino_def fun_upd_idem)
  have q4: "linv ?s4" "held ?s4 = {}" "outstanding (thelog ?s4) = 1" "committing (thelog ?s4) = 0"
    using tstep_linv [OF s3(2)] h qs(2) g t3(1) by simp_all
  from end_op_last [OF q4] obtain s' where s': "end_op ?s4 = Inr ((), s')" "linv s'" "held s' = {}" "lsec s' = []"
    "outstanding (thelog s') = 0" "committing (thelog s') = 0" "inodes s' = inodes s" "ftable s' = (ftable s3)(f := x)"
    "clock s' = clock s3" "log_size (thelog s') = log_size (thelog s3)" "home_sector s' = home_sector s3"
    "sector_ok s' = sector_ok s3" "settled ?s4 s'" "\<forall>a. home_sector s3 a \<longrightarrow> disk s' (unat a) = view s3 a \<and> view s' a = view s3 a"
    by auto
  have hs: "home_sector s3 = home_sector s" using g by simp
  have wr: "wrote s ?i (unat off) p s3" using s3(4) by (simp add: wrote_def)
  have ft: "ftable s3 = ftable s" "clock s3 = clock s" "log_size (thelog s3) = log_size (thelog s)" "sector_ok s3 = sector_ok s"
    using g by simp_all
  have st: "stored s ?i (unat off) p s'" by (rule stored_commit [OF wr r(5)]) (use s'(14) hs in simp)
  have "settled s s'" using s'(13) t3 by (simp add: settled_def)
  moreover have "quiescent s'" using s' by (simp add: quiescent_def)
  moreover have "crash_partial s ?i (unat off) p s'"
    by (rule crash_partial_end [OF assms(1) \<open>quiescent s'\<close> st q4 s'(1)]) (use t3 g in \<open>simp_all add: log_at_def [abs_def]\<close>)
  ultimately have "written s f ip off p s'" using st s' ft hs by (simp add: written_def x_def)
  moreover have "writei ip p off (of_nat (length p)) ?s2 = Inr (int (length p), s3)" using s3(1) sint_of_small [OF len(1)] by simp
  moreover have "ftable ?s2 = ftable s" by simp
  ultimately show ?thesis using run un s'(1) ft(1) by (intro exI conjI)
qed

section \<open>The whole write\<close>

lemma range_split:
  assumes "range_ok s i off k" "m \<le> k"
  shows "range_ok s i off m" "range_ok s i (off + m) (k - m)"
proof -
  have "writable s i off m" using assms by (auto simp: range_ok_def writable_def)
  with assms show "range_ok s i off m" by (simp add: range_ok_def)
  show "range_ok s i (off + m) (k - m)" using assms writable_shift [of s i off k m] by (simp add: range_ok_def)
qed

lemma written_range: "written s f ip off src s' \<Longrightarrow> quiescent s \<Longrightarrow> range_ok s' (inodes s ip) = range_ok s (inodes s ip)"
  by (intro ext range_ok_cong) (simp_all add: written_def stored_def quiescent_def)

lemma filewrite_loop_ok:
  assumes "quiescent s" "range_ok s (inodes s ip) (unat off) (length src)" "f_off (ftable s f) = off"
  shows "\<exists>s'. filewrite_loop f ip src s = Inr (True, s') \<and> written s f ip off src s'"
  using assms
proof (induction "length src" arbitrary: s off src rule: less_induct)
  case less
  show ?case
  proof (cases "src = []")
    case True
    then have "filewrite_loop f ip src s = Inr (True, s)" by (subst filewrite_loop.simps) simp
    moreover have "(ftable s f)\<lparr>f_off := off\<rparr> = ftable s f" using less.prems(3) by (cases "ftable s f") simp
    then have "(ftable s)(f := (ftable s f)\<lparr>f_off := off\<rparr>) = ftable s" by (simp only: fun_upd_triv)
    then have "written s f ip off src s"
      using True less.prems(1) by (simp add: written_def stored_nil settled_same crash_partial_nil)
    ultimately show ?thesis by blast
  next
    case False
    let ?m = "min WRITE_MAX (length src)" and ?p = "take WRITE_MAX src" and ?q = "drop WRITE_MAX src"
    have m: "length ?p = ?m" "?m \<le> length src" "0 < ?m" using False by (simp_all add: WRITE_MAX_def layout)
    have sz: "unat off + length src < 2 ^ 32"
      using less.prems(2) unsigned_less [of "i_size (inodes s ip)", where ?'a = nat] by (simp add: range_ok_def)
    note rs = range_split [OF less.prems(2) m(2)]
    have "range_ok s (inodes s ip) (unat off) (length ?p)" "length ?p \<le> WRITE_MAX" using rs(1) m(1) by simp_all
    from write_piece [OF less.prems(1) this less.prems(3)] obtain s1 s2 s3 s4 t where t: "begin_op s = Inr ((), s1)"
      "ilock (Some ip) s1 = Inr ((), s2)" "ftable s2 = ftable s" "writei ip ?p off (of_nat (length ?p)) s2 = Inr (int (length ?p), s3)"
      "ftable s3 = ftable s" "iunlock (Some ip) (s3\<lparr>ftable := (ftable s3)(f := (ftable s f)\<lparr>f_off := off + of_nat (length ?p)\<rparr>)\<rparr>) = Inr ((), s4)"
      "end_op s4 = Inr ((), t)" and w: "written s f ip off ?p t" by blast
    have run: "filewrite_loop f ip src s = filewrite_loop f ip ?q t"
      using False t m less.prems(3) by (subst filewrite_loop.simps) (simp add: file_at_def upd_file_def)
    have off': "unat (off + of_nat ?m) = unat off + ?m"
      using sz m(2) by (simp add: unat_word_ariths unat_of_nat take_bit_nat_eq_self)
    have q: "quiescent t" "inodes t = inodes s" "f_off (ftable t f) = off + of_nat ?m" using w m(1) by (simp_all add: written_def)
    have "length src - ?m = length ?q" by simp
    then have "range_ok t (inodes t ip) (unat (off + of_nat ?m)) (length ?q)"
      using rs(2) written_range [OF w less.prems(1)] q(2) off' by simp
    moreover have "length ?q < length src" using m(3) False by (simp add: WRITE_MAX_def layout)
    ultimately obtain u where u: "filewrite_loop f ip ?q t = Inr (True, u)" "written t f ip (off + of_nat ?m) ?q u"
      using less.hyps [of ?q t "off + of_nat ?m"] q(1,3) by blast
    have "stored s (inodes s ip) (unat off) (?p @ ?q) u"
      by (rule stored_trans [of _ _ _ _ t]) (use w u(2) q(2) off' m(1) in \<open>simp_all add: written_def\<close>)
    moreover have "?m + (length src - WRITE_MAX) = length src" by (simp add: min_def)
    then have "of_nat ?m + of_nat (length src - WRITE_MAX) = (of_nat (length src) :: u32)" by (simp flip: of_nat_add)
    moreover have "crash_partial s (inodes s ip) (unat off) src u"
      by (rule crash_partial_trans [of _ _ _ _ t]) (use w u(2) q(2) off' m(1) in \<open>simp_all add: written_def\<close>)
    ultimately have "written s f ip off src u"
      using w u(2) m(1) settled_trans [of s t u] by (simp add: written_def add.assoc)
    with run u(1) show ?thesis by auto
  qed
qed

text \<open>Reading back through the same handle.\<close>

lemma sys_read_ok:
  assumes "linv s" "held s = {}" "f_type (ftable s f) = FD_INODE" "f_ip (ftable s f) = Some ip" "f_readable (ftable s f)"
    and "inode_ready (inodes s ip)" "unat off + k \<le> unat (i_size (inodes s ip))" "writable s (inodes s ip) (unat off) k" "k < 2 ^ 31"
  shows "\<exists>s'. sys_read (Some f) k off s = Inr ((int k, file_bytes s (inodes s ip) (unat off) k), s')"
proof -
  let ?i = "inodes s ip"
  let ?x = "(ftable s f)\<lparr>f_off := off\<rparr>"
  let ?s1 = "s\<lparr>ftable := (ftable s)(f := ?x)\<rparr>"
  let ?s2 = "?s1\<lparr>inodes := (inodes s)(ip := ?i\<lparr>i_flags := set_flag I_BUSY (i_flags ?i)\<rparr>)\<rparr>"
  have r: "i_ref ?i \<ge> 1" "\<not> flag I_BUSY (i_flags ?i)" "flag I_VALID (i_flags ?i)" "i_dev ?i = ROOTDEV" "i_type ?i \<noteq> T_DEV"
    using assms(6) by (simp_all add: inode_ready_def)
  have l: "ilock (Some ip) ?s1 = Inr ((), ?s2)" using r by (simp add: ilock_unfold ino_at_def upd_ino_def)
  have u: "unat (of_nat k :: u32) = k" using assms(9) by (intro unat_of_nat_small) simp
  have lt: "unat off + k < 2 ^ 32" using assms(7) unsigned_less [of "i_size ?i", where ?'a = nat] by simp
  have "linv ?s2" "room ?s2 1" using linv_room [OF assms(1,2)] assms(1) by (simp_all add: room_def)
  moreover have "\<forall>p. unat off \<le> p \<longrightarrow> p < unat off + k \<longrightarrow> mapped ?s2 (inodes ?s2 ip) (p div BSIZE)"
    using assms(8) by (simp add: writable_def mapped_def usable_blk_def)
  ultimately obtain s3 where s3: "readi ip off (of_nat k) ?s2 = Inr ((sint (of_nat k :: u32), file_bytes ?s2 (inodes ?s2 ip) (unat off) k), s3)"
    "calm ?s2 s3" using readi_ok [of ?s2 ip off "of_nat k" k] r u lt assms(7) by auto
  note c = calm_frame [OF s3(2)]
  have fb: "file_bytes ?s2 (inodes ?s2 ip) = file_bytes s ?i" by (simp add: fun_eq_iff file_bytes_def)
  have "iunlock (Some ip) t = Inr ((), t\<lparr>inodes := (inodes t)(ip := (inodes t ip)\<lparr>i_flags := clear_flag I_BUSY (i_flags (inodes t ip))\<rparr>)\<rparr>)"
    if "inodes t = inodes s3" for t using that c(4) r(1) by (simp add: iunlock_def ino_at_def upd_ino_def)
  then show ?thesis
    using s3(1) l assms(3-5) sint_of_small [OF assms(9)] fb
    by (cases "k = 0") (auto simp: sys_read_def fileread_def file_at_def upd_file_def deref_def)
qed

lemma sys_write_ok:
  assumes "quiescent s" "f_type (ftable s f) = FD_INODE" "f_ip (ftable s f) = Some ip" "f_writable (ftable s f)"
    and "range_ok s (inodes s ip) (unat off) (length buf)" "length buf < 2 ^ 31"
  shows "\<exists>s'. sys_write (Some f) buf off s = Inr (int (length buf), s') \<and> written s f ip off buf s'"
proof -
  let ?x = "(ftable s f)\<lparr>f_off := off\<rparr>"
  let ?s1 = "s\<lparr>ftable := (ftable s)(f := ?x)\<rparr>"
  have n: "sint (of_nat (length buf) :: u32) = int (length buf)" using assms(6) by (rule sint_of_small)
  have q: "quiescent ?s1" using assms(1) by (simp add: quiescent_def)
  moreover have "range_ok ?s1 (inodes ?s1 ip) (unat off) (length buf)"
    using assms(5) range_ok_cong [of ?s1 "inodes s ip" s] by simp
  ultimately obtain s' where s': "filewrite_loop f ip buf ?s1 = Inr (True, s')" "written ?s1 f ip off buf s'"
    using filewrite_loop_ok [of ?s1 ip off buf f] by auto
  have w: "written s f ip off buf s'" using s'(2) by (simp add: written_def stored_def settled_def crash_partial_state)
  have sz: "\<not> off > i_size (inodes s ip)" using assms(5) by (simp add: range_ok_def word_less_nat_alt)
  show ?thesis
  proof (cases "buf = []")
    case True
    then have "s' = ?s1" using s'(1) by (simp add: filewrite_loop.simps)
    with True w sz assms(2-4) show ?thesis
      by (simp add: sys_write_def filewrite_def file_at_def upd_file_def deref_def ino_at_def)
  next
    case False
    with w s'(1) sz n assms(2-4) show ?thesis
      by (simp add: sys_write_def filewrite_def file_at_def upd_file_def deref_def ino_at_def)
  qed
qed

text \<open>
  C10: What \<open>sys_write\<close> reports written is on disk.  On an idle file system, a write through a
  handle to a range inside the file, whatever its length, returns its count; the disk then
  holds the new bytes in the range and the old ones in the rest of the file, a crash at that
  point leaves exactly this disk, and \<open>sys_read\<close> of the range returns the bytes.
\<close>

theorem sys_write_durable:
  assumes "quiescent s" "f_type (ftable s f) = FD_INODE" "f_ip (ftable s f) = Some ip"
    and "f_writable (ftable s f)" "f_readable (ftable s f)"
    and "range_ok s (inodes s ip) (unat off) (length buf)" "length buf < 2 ^ 31"
  shows "\<exists>s' s'' es. sys_write (Some f) buf off s = Inr (int (length buf), s') \<and> quiescent s' \<and>
    sys_read (Some f) (length buf) off s' = Inr ((int (length buf), buf), s'') \<and>
    events s' = events s @ es \<and> (\<forall>d. crash_image es (disk s) d \<longleftrightarrow> d = disk s') \<and>
    (\<forall>p. p div BSIZE < NDIRECT + NINDIRECT \<longrightarrow> iaddr s (inodes s ip) (p div BSIZE) \<noteq> 0 \<longrightarrow>
       disk s' (unat (iaddr s (inodes s ip) (p div BSIZE))) (p mod BSIZE) =
         (if unat off \<le> p \<and> p < unat off + length buf then buf ! (p - unat off)
          else disk s (unat (iaddr s (inodes s ip) (p div BSIZE))) (p mod BSIZE)))"
proof -
  let ?i = "inodes s ip"
  from sys_write_ok [OF assms(1-4,6,7)] obtain s' where s': "sys_write (Some f) buf off s = Inr (int (length buf), s')"
    "written s f ip off buf s'" by blast
  have w: "quiescent s'" "inodes s' = inodes s" "settled s s'" "stored s ?i (unat off) buf s'"
    "ftable s' = (ftable s)(f := (ftable s f)\<lparr>f_off := off + of_nat (length buf)\<rparr>)"
    using s'(2) by (simp_all add: written_def)
  have rg: "range_ok s' ?i (unat off) (length buf)" using written_range [OF s'(2) assms(1)] assms(6) by simp
  have st: "iaddr s' ?i = iaddr s ?i" "\<And>p. p div BSIZE < NB \<Longrightarrow> iaddr s ?i (p div BSIZE) \<noteq> 0 \<Longrightarrow>
      fbyte s' ?i p = (if unat off \<le> p \<and> p < unat off + length buf then buf ! (p - unat off) else fbyte s ?i p)"
    using w(4) by (simp_all add: stored_def)
  have mapd: "p div BSIZE < NB \<and> iaddr s ?i (p div BSIZE) \<noteq> 0" if "unat off \<le> p" "p < unat off + length buf" for p
    using assms(6) that unfolding range_ok_def writable_def mapped_def usable_blk_def NB_def by blast
  have "file_bytes s' ?i (unat off) (length buf) = buf"
    by (rule nth_equalityI) (use st(2) mapd in \<open>simp_all add: file_bytes_def\<close>)
  moreover obtain s'' where "sys_read (Some f) (length buf) off s' = Inr ((int (length buf), file_bytes s' (inodes s' ip) (unat off) (length buf)), s'')"
    using sys_read_ok [of s' f ip off "length buf"] w rg assms(2,3,5,7) by (auto simp: quiescent_def range_ok_def)
  ultimately have rd: "sys_read (Some f) (length buf) off s' = Inr ((int (length buf), buf), s'')" using w(2) by simp
  obtain es where es: "events s' = events s @ es" "\<forall>d. crash_image es (disk s) d \<longleftrightarrow> d = disk s'"
    using settled_crash [OF w(3)] by blast
  show ?thesis
    using s'(1) w(1) rd es st quiescent_disk [OF w(1)] quiescent_disk [OF assms(1)]
    by (intro exI [of _ s'] exI [of _ s''] exI [of _ es] conjI) (simp_all add: fbyte_def NB_def)
qed

text \<open>The sample file, which its image has as the root, opened for reading and writing.\<close>

definition sample_handle :: "nat option act" where
  "sample_handle = bnd mount (\<lambda>_. sys_open (cstr ''/'') O_RDWR)"

lemma handle_open:
  assumes "sb_of_block (d 1) = sample_sb" "head_n (d 70) = 0" "d 2 = put_dinode (NDIRECT + 1) zero_block (dinode_offset 1) di" "di_type di = T_FILE"
  shows "\<exists>s. sample_handle (process_start d 100) = Inr (Some 0, s) \<and> quiescent s \<and> log_size (thelog s) = 30 \<and>
     ftable s 0 = zero_file\<lparr>f_ref := 1, f_type := FD_INODE, f_ip := Some 0, f_off := 0, f_readable := True, f_writable := True\<rparr> \<and>
     inode_ready (inodes s 0) \<and> i_size (inodes s 0) = di_size di \<and> i_inum (inodes s 0) = 1 \<and>
     (\<forall>k \<le> NDIRECT. i_addrs (inodes s 0) k = di_addrs di k) \<and>
     (\<forall>a. home_sector s a \<longleftrightarrow> 2 \<le> unat a \<and> unat a < 70) \<and> log_ready s sample_sb \<and> (\<forall>a. home_sector s a \<longrightarrow> view s a = d (unat a)) \<and>
     same_file (inodes s 0) (loaded s (inodes s 0))"
proof -
  have "di_type di \<noteq> 0" using assms(4) by (simp add: layout)
  from image_open [where d = d, OF assms(1-3) this] obtain s where s: "sample_iopen (process_start d 100) = Inr (0, s)"
    "linv s" "held s = {}" "outstanding (thelog s) = 1" "log_size (thelog s) = 30" "i_dev (inodes s 0) = ROOTDEV" "i_inum (inodes s 0) = 1"
    "i_ref (inodes s 0) = 1" "i_type (inodes s 0) = T_FILE" "i_size (inodes s 0) = di_size di" "\<forall>k \<le> NDIRECT. i_addrs (inodes s 0) k = di_addrs di k"
    "\<forall>a. home_sector s a \<longleftrightarrow> 2 \<le> unat a \<and> unat a < 70" "ftable s = (\<lambda>_. zero_file)" "committing (thelog s) = 0"
    "flag I_BUSY (i_flags (inodes s 0))" "flag I_VALID (i_flags (inodes s 0))" "log_at s sample_sb" "head_n (disk s 70) = 0"
    "sb_of_block (disk s 1) = sample_sb" "\<forall>a. unat a \<noteq> 70 \<longrightarrow> view s a = d (unat a)" "same_file (inodes s 0) (loaded s (inodes s 0))"
    unfolding assms(4) by blast
  from s(1) obtain m b c where m: "mount (process_start d 100) = Inr ((), m)" "begin_op m = Inr ((), b)"
    "iget ROOTDEV 1 b = Inr (0, c)" "ilock (Some 0) c = Inr ((), s)"
    by (auto simp: sample_iopen_def sample_open_def bnd_eq_Inr)
  have "skipelem (cstr ''/'') = None" "cstr ''/'' \<noteq> []" "hd (cstr ''/'') = SLASH" by (simp_all add: skipelem_def cstr_def SLASH_def)
  then have n: "namei (cstr ''/'') b = Inr (Some 0, c)" using m(3) by (simp add: namei_def namex_def namex_loop.simps ROOTINO_def)
  let ?j = "(inodes s 0)\<lparr>i_flags := clear_flag I_BUSY (i_flags (inodes s 0))\<rparr>"
  let ?t = "s\<lparr>ftable := (ftable s)(0 := zero_file\<lparr>f_ref := 1\<rparr>)\<rparr>"
  let ?u = "?t\<lparr>inodes := (inodes s)(0 := ?j)\<rparr>"
  have "List.find (\<lambda>f. f_ref (zero_file :: xfile) = 0) [0..<NFILE] = Some 0" by (simp add: zero_file_def layout upt_rec)
  then have fa: "filealloc s = Inr (Some 0, ?t)" using s(13) by (simp add: filealloc_def upd_file_def)
  have un: "iunlock (Some 0) ?t = Inr ((), ?u)" using s(8,15) by (simp add: iunlock_def ino_at_def upd_ino_def)
  from end_op_last [of ?u] s(2-4,14) obtain v where v: "end_op ?u = Inr ((), v)" "linv v" "held v = {}" "lsec v = []"
    "outstanding (thelog v) = 0" "committing (thelog v) = 0" "inodes v = inodes ?u" "ftable v = ftable ?u"
    "log_size (thelog v) = log_size (thelog s)" "home_sector v = home_sector s" "\<forall>a. home_sector s a \<longrightarrow> view v a = view s a" by auto
  have "log_ready ?u sample_sb" using s(17-19) by (simp add: log_ready_def log_at_def sample_geom)
  from end_op_crash(1) [OF _ _ _ _ this v(1)] s(2-4,14) have lr: "log_ready v sample_sb" by simp
  let ?x = "zero_file\<lparr>f_ref := 1, f_type := FD_INODE, f_ip := Some 0, f_off := 0, f_readable := True, f_writable := True\<rparr>"
  let ?v = "v\<lparr>ftable := (ftable v)(0 := ?x)\<rparr>"
  have o: "\<not> flag O_CREATE O_RDWR" "\<not> flag O_WRONLY O_RDWR" "flag O_RDWR O_RDWR" "T_FILE \<noteq> T_DIR"
    by (simp_all add: flag_def layout)
  have "open_file 0 O_RDWR s = Inr (Some 0, ?v)" using fa un v(1,8) o by (simp add: open_file_def upd_file_def)
  then have run: "sample_handle (process_start d 100) = Inr (Some 0, ?v)" using m n o s(9) by (simp add: sample_handle_def sys_open_def ino_at_def)
  have "inode_ready ?j" using s(6,8,9,16) by (simp add: inode_ready_def layout)
  moreover have vw: "view v a = d (unat a)" if "home_sector s a" for a using that v(11) s(12,20) by simp
  moreover have "IBLOCK 1 = 2" by (simp add: IBLOCK_def layout)
  then have "same_file ?j (loaded v ?j)" using s(7,12,21) v(11) by (simp add: same_file_def loaded_def load_dinode_def)
  then have "same_file ?j (loaded ?v ?j)" by (simp add: loaded_def)
  ultimately show ?thesis using run v s(5,7,10-12) lr by (intro exI [of _ ?v] conjI) (simp_all add: quiescent_def log_ready_def log_at_def)
qed

lemma sample_handle_ok:
  "\<exists>s. sample_handle (process_start sample_img 100) = Inr (Some 0, s) \<and> quiescent s \<and> log_size (thelog s) = 30 \<and>
     ftable s 0 = zero_file\<lparr>f_ref := 1, f_type := FD_INODE, f_ip := Some 0, f_off := 0, f_readable := True, f_writable := True\<rparr> \<and>
     inode_ready (inodes s 0) \<and> i_size (inodes s 0) = 5000 \<and>
     (\<forall>k \<le> NDIRECT. i_addrs (inodes s 0) k = (if k = 0 then 40 else if k = 1 then 41 else 0)) \<and>
     (\<forall>a. home_sector s a \<longleftrightarrow> 2 \<le> unat a \<and> unat a < 70) \<and> log_ready s sample_sb"
proof -
  have "sb_of_block (sample_img 1) = sample_sb" "head_n (sample_img 70) = 0"
    "sample_img 2 = put_dinode (NDIRECT + 1) zero_block (dinode_offset 1) sample_dinode" "di_type sample_dinode = T_FILE"
    using sample_head by (simp_all add: sample_img_def sample_image_def sample_dinode_def)
  from handle_open [where d = sample_img, OF this] show ?thesis by (auto simp: sample_dinode_def)
qed

lemma sample_range:
  assumes "quiescent s" "log_size (thelog s) = 30" "inode_ready (inodes s 0)" "i_size (inodes s 0) = 5000"
    "\<forall>k \<le> NDIRECT. i_addrs (inodes s 0) k = (if k = 0 then 40 else if k = 1 then 41 else 0)"
    "\<forall>a. home_sector s a \<longleftrightarrow> 2 \<le> unat a \<and> unat a < 70" "off + n \<le> 5000"
  shows "range_ok s (inodes s 0) off n" "iaddr s (inodes s 0) bn = (if bn = 0 then 40 else if bn = 1 then 41 else 0)"
proof -
  have "linv s" "held s = {}" using assms(1) by (simp_all add: quiescent_def)
  note m = sample_file_mapped [OF this assms(5,6)]
  show "iaddr s (inodes s 0) bn = (if bn = 0 then 40 else if bn = 1 then 41 else 0)" by (rule m(2))
  have nd: "i_addrs (inodes s 0) NDIRECT = 0" using assms(5) by (simp add: layout)
  have "file_home s (inodes s 0)" using nd assms(6) by (auto simp: file_home_def m(2))
  then show "range_ok s (inodes s 0) off n" using assms m by (simp add: range_ok_def writable_def)
qed

theorem sys_write_durable_witness:
  "\<exists>s s' s''. sample_handle (process_start sample_img 100) = Inr (Some 0, s) \<and>
     sys_write (Some 0) [1, 2, 3] 4095 s = Inr (3, s') \<and> sys_read (Some 0) 3 4095 s' = Inr ((3, [1, 2, 3]), s'') \<and>
     disk s' 41 0 = 2 \<and> disk s' 40 0 = disk s 40 0"
proof -
  from sample_handle_ok obtain s where s: "sample_handle (process_start sample_img 100) = Inr (Some 0, s)" "quiescent s"
    "log_size (thelog s) = 30"
    "ftable s 0 = zero_file\<lparr>f_ref := 1, f_type := FD_INODE, f_ip := Some 0, f_off := 0, f_readable := True, f_writable := True\<rparr>"
    "inode_ready (inodes s 0)" "i_size (inodes s 0) = 5000"
    "\<forall>k \<le> NDIRECT. i_addrs (inodes s 0) k = (if k = 0 then 40 else if k = 1 then 41 else 0)"
    "\<forall>a. home_sector s a \<longleftrightarrow> 2 \<le> unat a \<and> unat a < 70" by blast
  have r: "range_ok s (inodes s 0) (unat (4095 :: u32)) (length [1, 2, 3 :: u8])"
    by (rule sample_range [OF s(2,3,5,6,7,8)]) simp
  note m = sample_range(2) [OF s(2,3,5,6,7,8), of 0 0]
  have f: "f_type (ftable s 0) = FD_INODE" "f_ip (ftable s 0) = Some 0" "f_writable (ftable s 0)" "f_readable (ftable s 0)" using s(4) by simp_all
  have "length [1, 2, 3 :: u8] < 2 ^ 31" by simp
  from sys_write_durable [OF s(2) f r this] obtain s' s'' where t: "sys_write (Some 0) [1, 2, 3] 4095 s = Inr (int (length [1, 2, 3 :: u8]), s')"
    "sys_read (Some 0) (length [1, 2, 3 :: u8]) 4095 s' = Inr ((int (length [1, 2, 3 :: u8]), [1, 2, 3]), s'')"
    "\<forall>p. p div BSIZE < NDIRECT + NINDIRECT \<longrightarrow> iaddr s (inodes s 0) (p div BSIZE) \<noteq> 0 \<longrightarrow>
       disk s' (unat (iaddr s (inodes s 0) (p div BSIZE))) (p mod BSIZE) =
         (if unat (4095 :: u32) \<le> p \<and> p < unat (4095 :: u32) + length [1, 2, 3 :: u8] then [1, 2, 3 :: u8] ! (p - unat (4095 :: u32))
          else disk s (unat (iaddr s (inodes s 0) (p div BSIZE))) (p mod BSIZE))" by blast
  have "disk s' 41 0 = 2" using t(3) [rule_format, of 4096] by (simp add: m) (simp add: layout)
  moreover have "disk s' 40 0 = disk s 40 0" using t(3) [rule_format, of 0] by (simp add: m) (simp add: layout)
  moreover have "sys_write (Some 0) [1, 2, 3] 4095 s = Inr (3, s')" "sys_read (Some 0) 3 4095 s' = Inr ((3, [1, 2, 3]), s'')"
    using t(1,2) by (simp_all add: numeral_3_eq_3)
  ultimately show ?thesis using s(1) by blast
qed

end
