(* ===== verification/Write_Crash.thy ===== *)
theory Write_Crash
  imports Write_Through
begin

text \<open>
  A crash in the middle of a write: \<open>sys_write\<close> is not atomic as a whole, but it is made of atomic
  transactions of at most \<open>WRITE_MAX\<close> bytes that are committed in order.
\<close>

text \<open>
  C6: Crashes during \<open>sys_write\<close>.  On an idle file system with an empty log, stop a write inside a file at
  any point of its disk traffic, losing any of the writes since the last flush, and start the
  process again on what is left.  It mounts, and the file holds the data up to some number of
  bytes that is the whole write or a multiple of \<open>WRITE_MAX\<close>, and its old content after that; no
  other block outside the log has changed.
\<close>

theorem sys_write_crash:
  assumes "quiescent s" "log_ready s sb" "f_type (ftable s f) = FD_INODE" "f_ip (ftable s f) = Some ip"
    and "f_writable (ftable s f)" "range_ok s (inodes s ip) (unat off) (length buf)" "length buf < 2 ^ 31"
    and "sys_write (Some f) buf off s = Inr (r, s')" "events s' = events s @ es @ fs" "crash_image es (disk s) d"
  shows "\<exists>k t. k \<le> length buf \<and> (k = length buf \<or> WRITE_MAX dvd k) \<and>
    mount (process_start d (nblk s)) = Inr ((), t) \<and> lsec t = [] \<and>
    (\<forall>p. p div BSIZE < NDIRECT + NINDIRECT \<longrightarrow> iaddr s (inodes s ip) (p div BSIZE) \<noteq> 0 \<longrightarrow>
       disk t (unat (iaddr s (inodes s ip) (p div BSIZE))) (p mod BSIZE) =
         (if unat off \<le> p \<and> p < unat off + k then buf ! (p - unat off)
          else disk s (unat (iaddr s (inodes s ip) (p div BSIZE))) (p mod BSIZE))) \<and>
    (\<forall>a. home_sector s a \<longrightarrow> a \<notin> iaddr s (inodes s ip) ` {..<NDIRECT + NINDIRECT} \<longrightarrow>
       disk t (unat a) = disk s (unat a))"
proof -
  let ?i = "inodes s ip"
  from sys_write_ok [OF assms(1,3-7)] assms(8) have "written s f ip off buf s'" by auto
  then have cs: "crash_safe sb s s' (partials s ?i (unat off) buf)"
    using assms(2) by (simp add: written_def crash_partial_def)
  obtain d' k where d': "recovers sb d d'" "k \<le> length buf" "k = length buf \<or> WRITE_MAX dvd k"
    "partial_write s ?i (unat off) buf k d'"
    using crash_safe_prefix [OF cs assms(9,10)] by (auto simp: partials_def)
  have at: "log_at s sb" using assms(2) by (simp add: log_ready_def)
  then have "sb_geom sb (nblk s)" by (simp add: log_at_def)
  from recovers_mount [OF d'(1) this] obtain t where t: "mount (process_start d (nblk s)) = Inr ((), t)" "lsec t = []"
    "\<forall>a < sb_start sb. disk t a = d' a" by blast
  have home: "disk t (unat a) = d' (unat a)" if "home_sector s a" for a
    using that t(3) log_at_geom(4) [OF at] by simp
  have fh: "home_sector s (iaddr s ?i bn)" if "bn < NB" "iaddr s ?i bn \<noteq> 0" for bn
    using assms(6) that by (simp add: range_ok_def file_home_def)
  show ?thesis
    using d'(2-4) t(1,2) home fh quiescent_disk [OF assms(1)]
    by (intro exI [of _ k] exI [of _ t] conjI) (simp_all add: partial_write_def NB_def fbyte_def)
qed

theorem sys_write_crash_witness:
  "\<exists>s s' es d k t. sample_handle (process_start sample_img 100) = Inr (Some 0, s) \<and>
     sys_write (Some 0) (replicate 2000 9) 0 s = Inr (2000, s') \<and> events s' = events s @ es \<and>
     crash_image es (disk s) d \<and> mount (process_start d (nblk s)) = Inr ((), t) \<and> k \<in> {0, 2000} \<and>
     (\<forall>p < 4096. disk t 40 p = (if p < k then 9 else disk s 40 p)) \<and> disk t 41 0 = disk s 41 0"
proof -
  from sample_handle_ok obtain s where s: "sample_handle (process_start sample_img 100) = Inr (Some 0, s)" "quiescent s"
    "log_size (thelog s) = 30"
    "ftable s 0 = zero_file\<lparr>f_ref := 1, f_type := FD_INODE, f_ip := Some 0, f_off := 0, f_readable := True, f_writable := True\<rparr>"
    "inode_ready (inodes s 0)" "i_size (inodes s 0) = 5000"
    "\<forall>k \<le> NDIRECT. i_addrs (inodes s 0) k = (if k = 0 then 40 else if k = 1 then 41 else 0)"
    "\<forall>a. home_sector s a \<longleftrightarrow> 2 \<le> unat a \<and> unat a < 70" "log_ready s sample_sb" by blast
  let ?b = "replicate 2000 9 :: bytes"
  have rg: "range_ok s (inodes s 0) (unat (0 :: u32)) (length ?b)" and ia: "iaddr s (inodes s 0) 0 = 40" "iaddr s (inodes s 0) 1 = 41"
    using sample_range [OF s(2,3,5,6,7,8), of 0 2000] by simp_all
  have f: "f_type (ftable s 0) = FD_INODE" "f_ip (ftable s 0) = Some 0" "f_writable (ftable s 0)" using s(4) by simp_all
  have len: "length ?b < 2 ^ 31" by simp
  from sys_write_ok [OF s(2) f rg len] obtain s' where s': "sys_write (Some 0) ?b 0 s = Inr (int (length ?b), s')" "settled s s'"
    by (auto simp: written_def)
  from settled_crash [OF s'(2)] obtain es where es: "events s' = events s @ es @ []" "crash_image es (disk s) (disk s')" by auto
  from sys_write_crash [OF s(2,9) f rg len s'(1) es] obtain k t where t: "k \<le> 2000" "k = 2000 \<or> WRITE_MAX dvd k"
    "mount (process_start (disk s') (nblk s)) = Inr ((), t)"
    "\<forall>p. p div BSIZE < NDIRECT + NINDIRECT \<longrightarrow> iaddr s (inodes s 0) (p div BSIZE) \<noteq> 0 \<longrightarrow>
       disk t (unat (iaddr s (inodes s 0) (p div BSIZE))) (p mod BSIZE) =
         (if unat (0 :: u32) \<le> p \<and> p < unat (0 :: u32) + k then ?b ! (p - unat (0 :: u32))
          else disk s (unat (iaddr s (inodes s 0) (p div BSIZE))) (p mod BSIZE))" by auto
  have "WRITE_MAX = 6656" by (simp add: WRITE_MAX_def layout)
  then have k: "k \<in> {0, 2000}" using t(1,2) by (auto dest: dvd_imp_le)
  have "disk t 40 p = (if p < k then 9 else disk s 40 p)" if "p < 4096" for p
    using t(4) [rule_format, of p] ia that t(1) by (simp add: layout)
  moreover have "disk t 41 0 = disk s 41 0" using t(4) [rule_format, of 4096] ia t(1) by (simp add: layout)
  ultimately show ?thesis using s(1) s'(1) es k t(3)
    by (intro exI [of _ s] exI [of _ s'] exI [of _ es] exI [of _ "disk s'"] exI [of _ k] exI [of _ t] conjI) simp_all
qed

end
