(* ===== verification/Fuse.thy ===== *)
theory Fuse
  imports Sysfile
begin

text \<open>
  The FUSE front end \<open>fuse.c\<close>: one handler per entry of \<open>fuse_filesystem_operations\<close>, the
  \<open>/stats\<close> pseudo file, and \<open>main\<close>.  Host constants have their Linux values.  The handlers
  pass \<open>off_t\<close> offsets to functions that take a \<open>uint\<close>: only the low 32 bits arrive.
  \<open>fi->fh\<close> is the file handle, \<open>None\<close> when null.
\<close>

section \<open>Host constants and structures\<close>

definition S_IFMT :: u32 where [layout]: "S_IFMT = 0xF000"
definition S_IFREG :: u32 where [layout]: "S_IFREG = 0x8000"
definition S_IFDIR :: u32 where [layout]: "S_IFDIR = 0x4000"
definition S_IFSOCK :: u32 where [layout]: "S_IFSOCK = 0xC000"
definition HOST_O_CREAT :: u32 where [layout]: "HOST_O_CREAT = 0x40"
definition HOST_O_WRONLY :: u32 where [layout]: "HOST_O_WRONLY = 0x1"
definition HOST_O_RDWR :: u32 where [layout]: "HOST_O_RDWR = 0x2"
definition HOST_O_RDONLY :: u32 where [layout]: "HOST_O_RDONLY = 0x0"
definition HOST_ENOENT :: int where [layout]: "HOST_ENOENT = 2"

record hstat =
  hs_mode :: u32
  hs_nlink :: int
  hs_size :: int
  hs_atime :: int
  hs_ctime :: int
  hs_mtime :: int

definition zero_hstat :: hstat where
  "zero_hstat = \<lparr>hs_mode = 0, hs_nlink = 0, hs_size = 0, hs_atime = 0, hs_ctime = 0, hs_mtime = 0\<rparr>"

section \<open>Statistics\<close>

definition stats :: bytes where
  "stats = cstr ''/stats''"

text \<open>\<open>%ld\<close>.\<close>

fun print_nat :: "nat \<Rightarrow> bytes" where
  "print_nat n = (if n < 10 then [of_nat (48 + n)] else print_nat (n div 10) @ [of_nat (48 + n mod 10)])"

declare print_nat.simps [simp del]

definition print_int :: "int \<Rightarrow> bytes" where
  "print_int k = (if k < 0 then 0x2D # print_nat (nat (- k)) else print_nat (nat k))"

definition print_counter :: "string \<Rightarrow> int \<Rightarrow> bytes" where
  "print_counter label k = cstr label @ [0x20] @ print_int k @ [0x0A]"

definition print_stats :: "fsstats \<Rightarrow> bytes" where
  "print_stats st =
     print_counter ''nread'' (nread st) @ print_counter ''nwrite'' (nwrite st) @
     print_counter ''nflush'' (nflush st) @ print_counter ''ngetattr'' (ngetattr st) @
     print_counter ''nopen'' (nopen st) @ print_counter ''nrelease'' (nrelease st) @
     print_counter ''nreadir'' (nreaddir st) @ print_counter ''nfuse_read'' (nfuse_read st) @
     print_counter ''nfuse_write'' (nfuse_write st) @ print_counter ''ncreate'' (ncreate st) @
     print_counter ''ntrunc'' (ntrunc st) @ print_counter ''nmkdir'' (nmkdir st) @
     print_counter ''nrmdir'' (nrmdir st) @ print_counter ''nunlink'' (nunlink st)"

definition upd_stats :: "(fsstats \<Rightarrow> fsstats) \<Rightarrow> unit act" where
  "upd_stats f = modify (\<lambda>s. s\<lparr>fsstats := f (fsstats s)\<rparr>)"

section \<open>Handlers\<close>

definition mode_of_type :: "u16 \<Rightarrow> u32" where
  "mode_of_type ty = 0x1FF OR (if ty = T_DIR then S_IFDIR else if ty = T_SOCK then S_IFSOCK else S_IFREG)"

text \<open>\<open>st\<close> is zeroed before \<open>sys_fstat\<close> fills it in; the handler reads it only on success.\<close>

definition hstat_of :: "stat \<Rightarrow> hstat" where
  "hstat_of st = \<lparr>hs_mode = mode_of_type (st_type st), hs_nlink = sint (st_nlink st),
     hs_size = uint (st_size st), hs_atime = sint (st_atime st), hs_ctime = sint (st_ctime st),
     hs_mtime = sint (st_mtime st)\<rparr>"

definition fuse_getattr :: "bytes \<Rightarrow> (int \<times> hstat) act" where
  "fuse_getattr path =
     (if path = stats
      then bnd (modify (\<lambda>s. s\<lparr>statsbuf := print_stats (fsstats s)\<rparr>)) (\<lambda>_.
           bnd (gets statsbuf) (\<lambda>b.
           ret (0, zero_hstat\<lparr>hs_mode := S_IFREG OR 0x124, hs_nlink := 1, hs_size := int (length b)\<rparr>)))
      else bnd (upd_stats (\<lambda>st. st\<lparr>ngetattr := ngetattr st + 1\<rparr>)) (\<lambda>_.
           bnd (sys_fstat path) (\<lambda>(r, st).
           if r \<ge> 0
           then (case st of Some st \<Rightarrow> ret (r, hstat_of st) | None \<Rightarrow> ret (r, zero_hstat))
           else ret (- HOST_ENOENT, zero_hstat))))"

text \<open>The result is the return value and \<open>fi->fh\<close>.\<close>

definition fuse_open :: "bytes \<Rightarrow> u32 \<Rightarrow> nat option \<Rightarrow> (int \<times> nat option) act" where
  "fuse_open path flags fh =
     (if path = stats then ret (0, fh)
      else bnd (upd_stats (\<lambda>st. st\<lparr>nopen := nopen st + 1\<rparr>)) (\<lambda>_.
           bnd (sys_open path flags) (\<lambda>r.
           ret (if r = None then -1 else 0, r))))"

definition fuse_release :: "bytes \<Rightarrow> nat option \<Rightarrow> int act" where
  "fuse_release path fh =
     (if path = stats then ret 0
      else bnd (upd_stats (\<lambda>st. st\<lparr>nrelease := nrelease st + 1\<rparr>)) (\<lambda>_.
           case fh of None \<Rightarrow> fail (Undef ''null file'') | Some f \<Rightarrow> sys_fileclose f))"

text \<open>
  The loop of \<open>fuse_readdir\<close> with the names given to \<open>filler\<close>; one unit of fuel per entry.
  \<open>xv6e\<close> is the local of that name as bytes: a short read replaces its first bytes only.
  A directory has fewer than \<open>2 ^ 26\<close> entries below the 32-bit offset limit.  A name of all
  \<open>DIRSIZ\<close> bytes has no terminating NUL, so \<open>filler\<close> reads past it.
\<close>

fun readdir_loop :: "nat \<Rightarrow> nat option \<Rightarrow> nat \<Rightarrow> bytes \<Rightarrow> bytes list \<Rightarrow> (int \<times> bytes list) act" where
  "readdir_loop 0 fh off xv6e names = fail (Hang ''fuse_readdir'')"
| "readdir_loop (Suc k) fh off xv6e names =
     bnd (sys_readdirent fh (of_nat off)) (\<lambda>(r, xs).
     if r > 0
     then (let xv6e' = xs @ drop (length xs) xv6e; e = dirent_of_bytes xv6e' in
           if de_inum e = 0 then readdir_loop k fh (off + SIZEOF_DIRENT) xv6e' names
           else bnd (guard (0 \<in> set (de_name e)) (Undef ''filler(xv6e.name)'')) (\<lambda>_.
                readdir_loop k fh (off + SIZEOF_DIRENT) xv6e' (names @ [c_string (de_name e)])))
     else ret (r, names))"

definition READDIR_FUEL :: nat where
  "READDIR_FUEL = 2 ^ 26"

text \<open>\<open>xv6e\<close>: the \<open>SIZEOF_DIRENT\<close> bytes the uninitialised local starts with.\<close>

definition fuse_readdir :: "bytes \<Rightarrow> bytes \<Rightarrow> u32 \<Rightarrow> (int \<times> bytes list) act" where
  "fuse_readdir xv6e path flags =
     bnd (upd_stats (\<lambda>st. st\<lparr>nreaddir := nreaddir st + 1\<rparr>)) (\<lambda>_.
     bnd (sys_open path flags) (\<lambda>fh.
     case fh of None \<Rightarrow> ret (-1, []) | Some f \<Rightarrow>
     bnd (readdir_loop READDIR_FUEL (Some f) 0 xv6e []) (\<lambda>(r, names).
     bnd (sys_fileclose f) (\<lambda>_.
     ret (r, names)))))"

text \<open>Reading \<open>/stats\<close> serves the text of the last \<open>getattr\<close> and resets the counters.\<close>

definition fuse_read :: "bytes \<Rightarrow> nat \<Rightarrow> nat \<Rightarrow> nat option \<Rightarrow> (int \<times> bytes) act" where
  "fuse_read path sz offset fh =
     (if path = stats
      then bnd (gets statsbuf) (\<lambda>b.
           let len = length b;
               out = (if offset < len
                      then take (if offset + sz > len then len - offset else sz) (drop offset b)
                      else [])
           in bnd (upd_stats (\<lambda>_. zero_stats)) (\<lambda>_. ret (int (length out), out)))
      else bnd (upd_stats (\<lambda>st. st\<lparr>nfuse_read := nfuse_read st + 1\<rparr>)) (\<lambda>_.
           sys_read fh sz (of_nat offset)))"

definition fuse_write :: "bytes \<Rightarrow> bytes \<Rightarrow> nat \<Rightarrow> nat option \<Rightarrow> int act" where
  "fuse_write path buf offset fh =
     bnd (upd_stats (\<lambda>st. st\<lparr>nfuse_write := nfuse_write st + 1\<rparr>)) (\<lambda>_.
     sys_write fh buf (of_nat offset))"

definition create_mode :: "u32 \<Rightarrow> u32" where
  "create_mode flags =
     (if flag HOST_O_CREAT flags then O_CREATE else 0) OR
     (if flag HOST_O_RDWR flags then O_RDWR else 0) OR
     (if flag HOST_O_WRONLY flags then O_WRONLY else 0) OR
     (if flag HOST_O_RDONLY flags then O_RDONLY else 0)"

definition fuse_create :: "bytes \<Rightarrow> u32 \<Rightarrow> (int \<times> nat option) act" where
  "fuse_create path flags =
     bnd (upd_stats (\<lambda>st. st\<lparr>ncreate := ncreate st + 1\<rparr>)) (\<lambda>_.
     bnd (sys_open path (create_mode flags)) (\<lambda>r.
     ret (if r = None then -1 else 0, r)))"

definition fuse_truncate :: "bytes \<Rightarrow> nat \<Rightarrow> int act" where
  "fuse_truncate path off =
     bnd (upd_stats (\<lambda>st. st\<lparr>ntrunc := ntrunc st + 1\<rparr>)) (\<lambda>_.
     if off \<noteq> 0 then ret (-1) else sys_truncate path)"

definition fuse_mkdir :: "bytes \<Rightarrow> int act" where
  "fuse_mkdir path = bnd (upd_stats (\<lambda>st. st\<lparr>nmkdir := nmkdir st + 1\<rparr>)) (\<lambda>_. sys_mkdir path)"

definition fuse_rmdir :: "bytes \<Rightarrow> int act" where
  "fuse_rmdir path = bnd (upd_stats (\<lambda>st. st\<lparr>nrmdir := nrmdir st + 1\<rparr>)) (\<lambda>_. sys_unlink path)"

definition fuse_unlink :: "bytes \<Rightarrow> int act" where
  "fuse_unlink path = bnd (upd_stats (\<lambda>st. st\<lparr>nunlink := nunlink st + 1\<rparr>)) (\<lambda>_. sys_unlink path)"

definition fuse_rename :: "bytes \<Rightarrow> bytes \<Rightarrow> int act" where
  "fuse_rename path1 path2 = sys_rename path1 path2"

text \<open>The handler reads \<open>tv[2]\<close> of an array of two.\<close>

definition fuse_utimens :: "bytes \<Rightarrow> u32 list \<Rightarrow> int act" where
  "fuse_utimens path tv = (if 2 < length tv then sys_utime path (tv ! 2) else fail (Undef ''tv[2]''))"

definition fuse_chmod :: "bytes \<Rightarrow> u32 \<Rightarrow> int act" where
  "fuse_chmod path mode = ret 0"

definition fuse_mknod :: "bytes \<Rightarrow> u32 \<Rightarrow> int act" where
  "fuse_mknod path m = (if m AND S_IFMT \<noteq> S_IFSOCK then ret (-1) else sys_mksock path)"

section \<open>Start-up\<close>

definition xv6_main :: "nat \<Rightarrow> unit act" where
  "xv6_main argc =
     bnd (guard (argc \<ge> 2) (Exit ''disk-file fuse-args'')) (\<lambda>_.
     mount)"

end
