(* ===== verification/Frame.thy ===== *)
theory Frame
  imports Sysfile
begin

text \<open>
  What operations leave alone.  \<open>keeps p m\<close> says that \<open>m\<close>, whenever it returns, has not changed the
  part \<open>p\<close> of the state.  Two locales collect what follows from the fields an operation assigns:
  a part that does not depend on buffers, disk, statistics and the log header survives every
  block-layer operation; one that does not depend on the inode cache and the file table either
  survives everything up to the directory layer.
\<close>

section \<open>Frames\<close>

named_theorems keep

text \<open>\<open>keeps p m\<close>: whenever \<open>m\<close> returns, it has left \<open>p\<close> of the state as it was.\<close>

definition keeps :: "('s \<Rightarrow> 'p) \<Rightarrow> ('s, 'a) fm \<Rightarrow> bool" where
  "keeps p m \<longleftrightarrow> (\<forall>s x t. m s = Inr (x, t) \<longrightarrow> p t = p s)"

lemma keepsD: "keeps p m \<Longrightarrow> m s = Inr (x, t) \<Longrightarrow> p t = p s"
  by (auto simp: keeps_def)

lemma keeps_basic [keep]: "keeps p (ret x)" "keeps p (fail e)" "keeps p (gets f)" "keeps p (guard b e)"
  by (auto simp: keeps_def split: if_splits)

lemma keeps_modify: "(\<And>s. p (f s) = p s) \<Longrightarrow> keeps p (modify f)"
  by (simp add: keeps_def)

lemma keeps_bnd [keep]: "keeps p m \<Longrightarrow> (\<And>x. keeps p (f x)) \<Longrightarrow> keeps p (bnd m f)"
  by (auto simp: keeps_def bnd_eq_Inr)

lemma keeps_if [keep]: "(b \<Longrightarrow> keeps p m) \<Longrightarrow> (\<not> b \<Longrightarrow> keeps p n) \<Longrightarrow> keeps p (if b then m else n)"
  by simp

lemma keeps_option [keep]:
  "(r = None \<Longrightarrow> keeps p m) \<Longrightarrow> (\<And>x. r = Some x \<Longrightarrow> keeps p (f x)) \<Longrightarrow> keeps p (case r of None \<Rightarrow> m | Some x \<Rightarrow> f x)"
  by (cases r) auto

lemma keeps_let [keep]: "(\<And>x. keeps p (f x)) \<Longrightarrow> keeps p (let x = v in f x)"
  by simp

lemma keeps_sum [keep]: "keeps p (lift r)"
  by (auto simp: keeps_def lift_def split: sum.splits)

lemma keeps_prod [keep]: "(\<And>x y. r = (x, y) \<Longrightarrow> keeps p (f x y)) \<Longrightarrow> keeps p (case r of (x, y) \<Rightarrow> f x y)"
  by (cases r) auto

lemma keeps_reads [keep]:
  "keeps p (buf_at b)" "keeps p (buf_data b)" "keeps p (ino_at ip)" "keeps p unix_time" "keeps p (file_at f)" "keeps p (deref ipo)"
  unfolding buf_at_def buf_data_def ino_at_def unix_time_def file_at_def deref_def by (intro keep)+

lemma keeps_fd [keep]:
  "keeps p m \<Longrightarrow> keeps p n \<Longrightarrow> keeps p o' \<Longrightarrow> keeps p (case t of FD_NONE \<Rightarrow> m | FD_PIPE \<Rightarrow> n | FD_INODE \<Rightarrow> o')"
  by (cases t) auto

section \<open>The block layer\<close>

locale block_frame =
  fixes p :: "kern \<Rightarrow> 'p"
  assumes bufs: "p (s\<lparr>bufs := b\<rparr>) = p s" and stats: "p (s\<lparr>fsstats := v\<rparr>) = p s"
    and disk: "p (pwrite_block a d s) = p s" and flush: "p (s\<lparr>events := e, fsstats := v\<rparr>) = p s"
    and header: "p (s\<lparr>thelog := (thelog s)\<lparr>lh := h\<rparr>\<rparr>) = p s"
begin

lemma upd_buf_keeps [keep]: "keeps p (upd_buf b f)"
  unfolding upd_buf_def by (rule keeps_modify) (rule bufs)

lemma upd_lh_keeps [keep]: "keeps p (upd_lh f)"
  unfolding upd_lh_def upd_log_def by (rule keeps_modify) (rule header)

lemma iderw_keeps [keep]: "keeps p (iderw b)"
  unfolding iderw_def unix_read_def unix_write_def by (intro keep keeps_modify stats disk)

lemma ideflush_keeps [keep]: "keeps p ideflush"
  unfolding ideflush_def unix_flush_def by (intro keep keeps_modify flush)

lemma cache_keeps [keep]: "keeps p (bread dev a)" "keeps p (bwrite b)" "keeps p (brelse b)" "keeps p (set_data b d)"
  unfolding bread_def bget_unfold bwrite_def brelse_def set_data_def by (intro keep keeps_modify bufs)+

lemma log_write_keeps [keep]: "keeps p (log_write b)"
  unfolding log_write_def by (intro keep)

lemma copy_keeps [keep]: "keeps p (install_from k i)" "keeps p (write_log_from k i)"
proof -
  have one: "keeps p (install_one i)" "keeps p (write_log_one i)" for i
    unfolding install_one_def write_log_one_def by (intro keep)+
  show "keeps p (install_from k i)" by (induction k arbitrary: i) (simp_all only: install_from.simps, (intro keep one; assumption?)+)
  show "keeps p (write_log_from k i)" by (induction k arbitrary: i) (simp_all only: write_log_from.simps, (intro keep one; assumption?)+)
qed

lemma commit_keeps [keep]: "keeps p commit"
  unfolding commit_def write_log_def write_head_def install_trans_def by (intro keep)

lemma readsb_keeps [keep]: "keeps p (readsb dev)"
  unfolding readsb_def by (intro keep)

lemma bfree_keeps [keep]: "keeps p (bfree dev b)" "keeps p (xv6_bzero dev b)"
  unfolding bfree_def xv6_bzero_def by (intro keep)+

lemma balloc_keeps [keep]: "keeps p (balloc dev)"
proof -
  have "keeps p (balloc_from dev sb b)" for sb b
    by (induction dev sb b rule: balloc_from.induct, subst balloc_from.simps) (intro keep; assumption?)
  then show ?thesis unfolding balloc_def by (intro keep)
qed

end

text \<open>A part that does not depend on the log at all survives opening and closing operations and the start-up.\<close>

locale log_frame = block_frame +
  assumes log: "p (s\<lparr>thelog := l\<rparr>) = p s"
begin

lemma upd_log_keeps [keep]: "keeps p (upd_log f)"
  unfolding upd_log_def by (rule keeps_modify) (rule log)

lemma ops_keep [keep]: "keeps p begin_op" "keeps p end_op"
  unfolding begin_op_unfold end_op_def by (intro keep)+

lemma mount_keeps: "keeps p mount"
proof -
  have "keeps p ideinit" unfolding ideinit_def by (intro keep keeps_modify stats)
  moreover have "keeps p binit" unfolding binit_def by (rule keeps_modify) (rule bufs)
  ultimately show ?thesis
    unfolding mount_def initlog_def recover_from_log_def read_head_def install_trans_def write_head_def by (intro keep)
qed

end

section \<open>Inodes, directories and files\<close>

locale file_frame = block_frame +
  assumes inodes: "p (s\<lparr>inodes := i\<rparr>) = p s" and files: "p (s\<lparr>ftable := f\<rparr>) = p s"
begin

lemma upd_ino_keeps [keep]: "keeps p (upd_ino ip f)"
  unfolding upd_ino_def by (rule keeps_modify) (rule inodes)

lemma upd_file_keeps [keep]: "keeps p (upd_file g f)"
  unfolding upd_file_def by (rule keeps_modify) (rule files)

lemma refs_keep [keep]: "keeps p (iget dev inum)" "keeps p (idup ip)"
  unfolding iget_def idup_def by (intro keep)+

lemma ilock_keeps [keep]: "keeps p (ilock ipo)" "keeps p (iunlock ipo)" "keeps p (iupdate ip)" "keeps p (stati ip)"
  unfolding ilock_unfold iunlock_def iupdate_def stati_def by (intro keep)+

lemma bmap_keeps [keep]: "keeps p (bmap ip bn)"
  unfolding bmap_def bmap_slot_def bmap_indirect_def by (intro keep)

lemma trunc_keeps [keep]: "keeps p (itrunc ip)"
proof -
  have "keeps p (itrunc_direct ip ks)" for ks
    by (induction ks) (simp_all only: itrunc_direct.simps, (intro keep; assumption?)+)
  moreover have "keeps p (itrunc_indirect dev bp js)" for dev bp js
    by (induction js) (simp_all only: itrunc_indirect.simps, (intro keep; assumption?)+)
  ultimately show ?thesis unfolding itrunc_def by (intro keep)
qed

lemma iput_keeps [keep]: "keeps p (iput ip)" "keeps p (iunlockput ip)"
  unfolding iput_def iunlockput_def by (intro keep)+

lemma ialloc_keeps [keep]: "keeps p (ialloc dev type)"
proof -
  have "keeps p (ialloc_from dev type sb i)" for sb i
    by (induction dev type sb i rule: ialloc_from.induct, subst ialloc_from.simps) (intro keep; assumption?)
  then show ?thesis unfolding ialloc_def by (intro keep)
qed

lemma io_keeps [keep]: "keeps p (readi ip off n)" "keeps p (writei ip src off n)" "keeps p (zeroi ip off n)"
proof -
  have "keeps p (readi_loop ip off k dst)" for off k dst
    by (induction ip off k dst rule: readi_loop.induct, subst readi_loop.simps) (intro keep; assumption?)
  then show "keeps p (readi ip off n)" unfolding readi_def by (intro keep) (auto simp: devsw_def)
  have "keeps p (writei_loop ip off src)" for off src
    by (induction ip off src rule: writei_loop.induct, subst writei_loop.simps) (intro keep; assumption?)
  then show "keeps p (writei ip src off n)" unfolding writei_def by (intro keep) (auto simp: devsw_def)
  have "keeps p (zeroi_loop ip off k)" for off k
    by (induction ip off k rule: zeroi_loop.induct, subst zeroi_loop.simps) (intro keep; assumption?)
  then show "keeps p (zeroi ip off n)" unfolding zeroi_def by (intro keep)
qed

lemma dirent_keeps [keep]: "keeps p (read_dirent dp off msg)"
  unfolding read_dirent_def by (intro keep)

lemma dir_keeps [keep]: "keeps p (dirlookup dp name)" "keeps p (dirlink dp name inum)" "keeps p (isdirempty dp)"
proof -
  have "keeps p (dirlookup_from dp name off)" for off
    by (induction dp name off rule: dirlookup_from.induct, subst dirlookup_from.simps) (intro keep; assumption?)
  then show l: "keeps p (dirlookup dp name)" unfolding dirlookup_def by (intro keep)
  have "keeps p (dirlink_slot dp off)" for off
    by (induction dp off rule: dirlink_slot.induct, subst dirlink_slot.simps) (intro keep; assumption?)
  then show "keeps p (dirlink dp name inum)" unfolding dirlink_def by (intro keep l)
  have "keeps p (isdirempty_from dp off)" for off
    by (induction dp off rule: isdirempty_from.induct, subst isdirempty_from.simps) (intro keep; assumption?)
  then show "keeps p (isdirempty dp)" unfolding isdirempty_def .
qed

lemma path_keeps [keep]: "keeps p (namex path parent)" "keeps p (namei path)" "keeps p (nameiparent path)"
proof -
  have "keeps p (namex_loop ip path parent name)" for ip path parent name
  proof (induction ip path parent name rule: namex_loop.induct)
    case (1 ip path parent name)
    show ?case by (subst namex_loop.simps) (intro keep; fast intro: 1)
  qed
  then show x: "keeps p (namex path parent)" for path parent unfolding namex_def by (intro keep)
  show "keeps p (namei path)" "keeps p (nameiparent path)" unfolding namei_def nameiparent_def by (intro keep x)+
qed

lemma create_keeps [keep]: "keeps p (create path type major minor)"
  unfolding create_def create_dots_def by (intro keep)

lemma unlink_keeps [keep]: "keeps p (sys_dounlink path)"
  unfolding sys_dounlink_def unlink_entry_def unlink_bad_def by (intro keep)

lemma link_keeps [keep]: "keeps p (link_entry ip new)"
  unfolding link_entry_def link_bad_def by (intro keep)

lemma file_keeps [keep]: "keeps p filealloc" "keeps p (filedup f)" "keeps p (filestat f)" "keeps p (fileread f n)"
  unfolding filealloc_def filedup_def filestat_def fileread_def piperead_def by (intro keep)+

end

end
