(* ===== verification/Icache.thy ===== *)
theory Icache
  imports Inode_Disk Frame
begin

text \<open>
  Reference counting in the inode cache.  A locale states what a table of counted references
  promises; \<open>iget\<close>, \<open>idup\<close> and \<open>iput\<close> implement it, and every other operation of the inode
  layer leaves the counts alone.
\<close>

section \<open>References\<close>

text \<open>Which inode an entry is for and how often it is referenced.\<close>

definition ikey :: "inode \<Rightarrow> u32 \<times> u32" where
  "ikey i = (i_dev i, i_inum i)"

definition iheld :: "kern \<Rightarrow> nat \<Rightarrow> (u32 \<times> u32) \<times> int" where
  "iheld s ip = (ikey (inodes s ip), i_ref (inodes s ip))"

text \<open>
  A part of the state that sees of the inode cache only which inode an entry is for, its count
  and its flags: the operations on the content of inodes leave it alone.
\<close>

locale content_frame = block_frame +
  assumes entries: "(\<And>ip. ikey (f ip) = ikey (inodes s ip) \<and> i_ref (f ip) = i_ref (inodes s ip) \<and>
    i_flags (f ip) = i_flags (inodes s ip)) \<Longrightarrow> p (s\<lparr>inodes := f\<rparr>) = p s"
begin

lemma keeps_upd_ino: "(\<And>i. ikey (f i) = ikey i \<and> i_ref (f i) = i_ref i \<and> i_flags (f i) = i_flags i) \<Longrightarrow> keeps p (upd_ino ip f)"
  unfolding upd_ino_def by (rule keeps_modify) (rule entries, simp)

lemma keeps_fields [keep]:
  "keeps p (upd_ino ip (\<lambda>i. i\<lparr>i_addrs := ad i\<rparr>))"
  "keeps p (upd_ino ip (\<lambda>i. i\<lparr>i_size := sz\<rparr>))" "keeps p (upd_ino ip (\<lambda>i. i\<lparr>i_mtime := mt\<rparr>))"
  "keeps p (upd_ino ip (\<lambda>i. i\<lparr>i_type := ty\<rparr>))" "keeps p (upd_ino ip (load_dinode di))"
  "keeps p (upd_ino ip (\<lambda>i. i\<lparr>i_nlink := nl i\<rparr>))" "keeps p (upd_ino ip (new_inode major minor tm))"
  by (rule keeps_upd_ino; simp add: ikey_def load_dinode_def new_inode_def)+

lemma keeps_disk_form [keep]: "keeps p (iupdate ip)" "keeps p (stati ip)"
  unfolding iupdate_def stati_def by (intro keep)+

lemma keeps_bmap [keep]: "keeps p (bmap ip bn)"
  unfolding bmap_def bmap_slot_def bmap_indirect_def by (intro keep)

lemma keeps_itrunc_loops [keep]: "keeps p (itrunc_direct ip ks)" "keeps p (itrunc_indirect dev bp js)"
proof -
  show "keeps p (itrunc_direct ip ks)" by (induction ks) (simp_all only: itrunc_direct.simps, (intro keep; assumption?)+)
  show "keeps p (itrunc_indirect dev bp js)"
    by (induction js) (simp_all only: itrunc_indirect.simps, (intro keep; assumption?)+)
qed

lemma keeps_itrunc [keep]: "keeps p (itrunc ip)"
  unfolding itrunc_def by (intro keep)

lemma keeps_readi [keep]: "keeps p (readi ip off n)"
proof -
  have "keeps p (readi_loop ip off k dst)" for off k dst
    by (induction ip off k dst rule: readi_loop.induct, subst readi_loop.simps) (intro keep; assumption?)
  then show ?thesis unfolding readi_def by (intro keep) (auto simp: devsw_def)
qed

lemma keeps_writei [keep]: "keeps p (writei ip src off n)"
proof -
  have "keeps p (writei_loop ip off src)" for off src
    by (induction ip off src rule: writei_loop.induct, subst writei_loop.simps) (intro keep; assumption?)
  then show ?thesis unfolding writei_def by (intro keep) (auto simp: devsw_def)
qed

lemma keeps_zeroi [keep]: "keeps p (zeroi ip off n)"
proof -
  have "keeps p (zeroi_loop ip off k)" for off k
    by (induction ip off k rule: zeroi_loop.induct, subst zeroi_loop.simps) (intro keep; assumption?)
  then show ?thesis unfolding zeroi_def by (intro keep)
qed

lemma keeps_dir [keep]: "keeps p (read_dirent dp off msg)" "keeps p (dirlink_slot dp o1)" "keeps p (isdirempty dp)"
proof -
  show r: "keeps p (read_dirent dp off msg)" for dp off msg unfolding read_dirent_def by (intro keep)
  show "keeps p (dirlink_slot dp o1)"
    by (induction dp o1 rule: dirlink_slot.induct, subst dirlink_slot.simps) (intro keep r; assumption?)
  have "keeps p (isdirempty_from dp o2)" for o2
    by (induction dp o2 rule: isdirempty_from.induct, subst isdirempty_from.simps) (intro keep r; assumption?)
  then show "keeps p (isdirempty dp)" unfolding isdirempty_def .
qed

end

text \<open>When the flags do not matter either, only \<open>iget\<close>, \<open>idup\<close> and \<open>iput\<close> do.\<close>

locale inode_frame = content_frame +
  assumes flags: "p (s\<lparr>inodes := (inodes s)(ip := (inodes s ip)\<lparr>i_flags := fl\<rparr>)\<rparr>) = p s"
begin

lemma keeps_flags [keep]: "keeps p (upd_ino ip (\<lambda>i. i\<lparr>i_flags := fl i\<rparr>))"
  unfolding upd_ino_def by (rule keeps_modify) (rule flags)

lemma keeps_ilock [keep]: "keeps p (ilock ipo)" "keeps p (iunlock ipo)"
  unfolding ilock_unfold iunlock_def by (intro keep)+

end

interpretation ih: inode_frame iheld
  by unfold_locales (simp_all add: iheld_def ikey_def fun_eq_iff pwrite_block_def)

section \<open>Counted references\<close>

locale counted_refs =
  fixes ok :: "'s \<Rightarrow> bool" and count :: "'s \<Rightarrow> 'k \<Rightarrow> int" and key :: "'s \<Rightarrow> 'h \<Rightarrow> 'k" and live :: "'s \<Rightarrow> 'h \<Rightarrow> bool"
    and get :: "'k \<Rightarrow> ('s, 'h) fm" and dup :: "'h \<Rightarrow> ('s, 'h) fm" and put :: "'h \<Rightarrow> ('s, unit) fm"
  assumes get: "ok s \<Longrightarrow> get k s = Inr (h, t) \<Longrightarrow> ok t \<and> live t h \<and> key t h = k \<and> count t = (count s)(k := count s k + 1)"
    and dup: "ok s \<Longrightarrow> live s h \<Longrightarrow> dup h s = Inr (h', t) \<Longrightarrow>
      h' = h \<and> ok t \<and> live t h \<and> key t h = key s h \<and> count t = (count s)(key s h := count s (key s h) + 1)"
    and put: "ok s \<Longrightarrow> live s h \<Longrightarrow> put h s = Inr ((), t) \<Longrightarrow>
      ok t \<and> count t = (count s)(key s h := count s (key s h) - 1)"
    and bounded: "ok s \<Longrightarrow> 0 \<le> count s k"
begin

lemma get_put:
  assumes "ok s" "bnd (get k) put s = Inr ((), t)"
  shows "ok t \<and> count t = count s"
proof -
  obtain h u where u: "get k s = Inr (h, u)" "put h u = Inr ((), t)" using assms(2) by (auto simp: bnd_eq_Inr)
  note g = get [OF assms(1) u(1)]
  with put [OF _ _ u(2)] show ?thesis by auto
qed

text \<open>A pair of references to one key, given back in either order.\<close>

lemma get_dup_put_put:
  assumes "ok s" "bnd (get k) (\<lambda>h. bnd (dup h) (\<lambda>h'. bnd (put h) (\<lambda>_. ret h'))) s = Inr (h, t)"
  shows "ok t \<and> count t = (count s)(k := count s k + 1)"
proof -
  obtain x u v where u: "get k s = Inr (x, u)" "dup x u = Inr (h, v)" "put x v = Inr ((), t)"
    using assms(2) by (auto simp: bnd_eq_Inr)
  have g: "ok u" "live u x" "key u x = k" "count u = (count s)(k := count s k + 1)" using get [OF assms(1) u(1)] by auto
  have d: "ok v" "live v x" "key v x = k" "count v = (count u)(k := count u k + 1)" using dup [OF g(1,2) u(2)] g(3) by auto
  from put [OF d(1,2) u(3)] d(3,4) g(4) show ?thesis by auto
qed

end

definition icache_ok :: "kern \<Rightarrow> bool" where
  "icache_ok s \<longleftrightarrow> (\<forall>i < NINODE. 0 \<le> i_ref (inodes s i)) \<and>
     (\<forall>i < NINODE. \<forall>j < NINODE. 0 < i_ref (inodes s i) \<longrightarrow> 0 < i_ref (inodes s j) \<longrightarrow>
        ikey (inodes s i) = ikey (inodes s j) \<longrightarrow> i = j)"

definition refs :: "kern \<Rightarrow> u32 \<times> u32 \<Rightarrow> int" where
  "refs s k = (\<Sum>i < NINODE. if ikey (inodes s i) = k then i_ref (inodes s i) else 0)"

definition ilive :: "kern \<Rightarrow> nat \<Rightarrow> bool" where
  "ilive s ip \<longleftrightarrow> ip < NINODE \<and> 0 < i_ref (inodes s ip)"

lemma icache_iheld:
  assumes "iheld t = iheld s"
  shows "icache_ok t = icache_ok s" "refs t = refs s" "ilive t = ilive s" "ikey (inodes t ip) = ikey (inodes s ip)"
    "i_ref (inodes t ip) = i_ref (inodes s ip)"
proof -
  have e: "ikey (inodes t i) = ikey (inodes s i)" "i_ref (inodes t i) = i_ref (inodes s i)" for i
    using fun_cong [OF assms, of i] by (simp_all add: iheld_def)
  show "icache_ok t = icache_ok s" "refs t = refs s" "ilive t = ilive s" "ikey (inodes t ip) = ikey (inodes s ip)"
    "i_ref (inodes t ip) = i_ref (inodes s ip)"
    by (simp_all add: icache_ok_def refs_def fun_eq_iff ilive_def e cong: if_cong)
qed

text \<open>Changing the count of one entry.\<close>

lemma refs_set:
  assumes "ip < NINODE" "inodes t = (inodes s)(ip := i)" "ikey i = ikey (inodes s ip) \<or> i_ref (inodes s ip) = 0"
  shows "refs t = (refs s)(ikey i := refs s (ikey i) + i_ref i - i_ref (inodes s ip))"
proof
  fix k
  let ?f = "\<lambda>i. if ikey i = k then i_ref i else 0" and ?o = "{..<NINODE} - {ip}"
  have "refs t k = ?f i + (\<Sum>j \<in> ?o. ?f (inodes t j))"
    unfolding refs_def using sum.remove [of "{..<NINODE}" ip "\<lambda>j. ?f (inodes t j)"] assms(1) by (simp add: assms(2))
  moreover have "refs s k = ?f (inodes s ip) + (\<Sum>j \<in> ?o. ?f (inodes s j))"
    unfolding refs_def using sum.remove [of "{..<NINODE}" ip "\<lambda>j. ?f (inodes s j)"] assms(1) by simp
  moreover have "(\<Sum>j \<in> ?o. ?f (inodes t j)) = (\<Sum>j \<in> ?o. ?f (inodes s j))"
    by (rule sum.cong) (simp_all add: assms(2))
  ultimately have "refs t k = refs s k + ?f i - ?f (inodes s ip)" by linarith
  moreover have "?f i - ?f (inodes s ip) = (if ikey i = k then i_ref i - i_ref (inodes s ip) else 0)"
    using assms(3) by auto
  ultimately show "refs t k = ((refs s)(ikey i := refs s (ikey i) + i_ref i - i_ref (inodes s ip))) k"
    by (cases "ikey i = k") simp_all
qed

lemma icache_set:
  assumes "icache_ok s" "inodes t = (inodes s)(ip := i)" "0 \<le> i_ref i"
    "\<And>j. j < NINODE \<Longrightarrow> j \<noteq> ip \<Longrightarrow> 0 < i_ref i \<Longrightarrow> 0 < i_ref (inodes s j) \<Longrightarrow> ikey (inodes s j) \<noteq> ikey i"
  shows "icache_ok t"
proof -
  have "0 \<le> i_ref (inodes t j)" if "j < NINODE" for j
    using assms(1-3) that by (simp add: icache_ok_def)
  moreover have "j = k" if "j < NINODE" "k < NINODE" "0 < i_ref (inodes t j)" "0 < i_ref (inodes t k)"
    "ikey (inodes t j) = ikey (inodes t k)" for j k
  proof (cases "j = ip \<or> k = ip")
    case True
    then show ?thesis using that assms(2) assms(4) [of j] assms(4) [of k] by (auto split: if_splits)
  next
    case False
    then show ?thesis using that assms(1,2) by (simp add: icache_ok_def)
  qed
  ultimately show ?thesis by (auto simp: icache_ok_def)
qed

text \<open>One more or one less reference to a live entry.\<close>

lemma ref_change:
  assumes "icache_ok s" "ilive s ip" "inodes t = (inodes s)(ip := (inodes s ip)\<lparr>i_ref := r\<rparr>)" "0 \<le> r"
  shows "icache_ok t \<and> ikey (inodes t ip) = ikey (inodes s ip) \<and>
    refs t = (refs s)(ikey (inodes s ip) := refs s (ikey (inodes s ip)) + r - i_ref (inodes s ip))"
proof -
  let ?i = "(inodes s ip)\<lparr>i_ref := r\<rparr>"
  have k: "ikey ?i = ikey (inodes s ip)" by (simp add: ikey_def)
  have "icache_ok t"
    by (rule icache_set [OF assms(1,3)]) (use assms(1,2,4) k in \<open>auto simp: icache_ok_def ilive_def\<close>)
  moreover have "refs t = (refs s)(ikey ?i := refs s (ikey ?i) + i_ref ?i - i_ref (inodes s ip))"
    by (rule refs_set [OF _ assms(3)]) (use assms(2) k in \<open>auto simp: ilive_def\<close>)
  ultimately show ?thesis using assms(3) k by simp
qed

lemma iget_hitD:
  "iget_hit is dev inum = Some ip \<Longrightarrow> ip < NINODE \<and> 0 < i_ref (is ip) \<and> ikey (is ip) = (dev, inum)"
  unfolding iget_hit_def by (drule find_SomeD) (auto simp: ikey_def)

lemma iget_missD: "iget_hit is dev inum = None \<Longrightarrow> i < NINODE \<Longrightarrow> 0 < i_ref (is i) \<Longrightarrow> ikey (is i) \<noteq> (dev, inum)"
  unfolding iget_hit_def by (auto simp: find_None_iff ikey_def)

lemma refs_nonneg: "icache_ok s \<Longrightarrow> 0 \<le> refs s k"
  unfolding refs_def by (rule sum_nonneg) (auto simp: icache_ok_def)

lemma refs_pos: "icache_ok s \<Longrightarrow> ilive s ip \<Longrightarrow> i_ref (inodes s ip) \<le> refs s (ikey (inodes s ip))"
  unfolding refs_def
  by (rule order_trans [OF _ member_le_sum [of ip]]) (auto simp: icache_ok_def ilive_def)

lemma refs_missing:
  assumes "icache_ok s" "iget_hit (inodes s) dev inum = None"
  shows "refs s (dev, inum) = 0"
proof -
  have "(if ikey (inodes s i) = (dev, inum) then i_ref (inodes s i) else 0) = 0" if "i < NINODE" for i
  proof (cases "0 < i_ref (inodes s i)")
    case False
    moreover have "0 \<le> i_ref (inodes s i)" using assms(1) that by (simp add: icache_ok_def)
    ultimately show ?thesis by simp
  qed (use iget_missD [OF assms(2) that] in simp)
  then show ?thesis unfolding refs_def by (intro sum.neutral) simp
qed

lemma iget_refs:
  assumes "icache_ok s" "iget dev inum s = Inr (ip, t)"
  shows "icache_ok t \<and> ilive t ip \<and> ikey (inodes t ip) = (dev, inum) \<and> refs t = (refs s)((dev, inum) := refs s (dev, inum) + 1)"
proof (cases "iget_hit (inodes s) dev inum")
  case (Some jp)
  note h = iget_hitD [OF Some]
  let ?r = "i_ref (inodes s jp) + 1"
  have t: "ip = jp" "inodes t = (inodes s)(jp := (inodes s jp)\<lparr>i_ref := ?r\<rparr>)"
    using assms(2) by (auto simp: iget_hit_eq [OF Some] split: if_splits)
  have "ilive s jp" using h by (simp add: ilive_def)
  from ref_change [OF assms(1) this t(2)] h t show ?thesis by (simp add: ilive_def)
next
  case None
  with assms(2) obtain jp where jp: "iget_empty (inodes s) = Some jp" by (auto simp: iget_def split: option.splits)
  let ?i = "(inodes s jp)\<lparr>i_dev := dev, i_inum := inum, i_ref := 1, i_flags := 0\<rparr>"
  have e: "jp < NINODE" "i_ref (inodes s jp) = 0" using find_SomeD [OF jp [unfolded iget_empty_def]] by auto
  have t: "ip = jp" "inodes t = (inodes s)(jp := ?i)" using assms(2) None jp by (auto simp: iget_def upd_ino_def)
  have k: "ikey ?i = (dev, inum)" by (simp add: ikey_def)
  have "icache_ok t" by (rule icache_set [OF assms(1) t(2)]) (use iget_missD [OF None] k in auto)
  moreover have "refs t = (refs s)(ikey ?i := refs s (ikey ?i) + i_ref ?i - i_ref (inodes s jp))"
    by (rule refs_set [OF e(1) t(2)]) (use e(2) in simp)
  ultimately show ?thesis using t e k by (simp add: ilive_def)
qed

lemma idup_refs:
  assumes "icache_ok s" "ilive s ip" "idup ip s = Inr (jp, t)"
  shows "jp = ip \<and> icache_ok t \<and> ilive t ip \<and> ikey (inodes t ip) = ikey (inodes s ip) \<and>
    refs t = (refs s)(ikey (inodes s ip) := refs s (ikey (inodes s ip)) + 1)"
proof -
  have t: "jp = ip" "inodes t = (inodes s)(ip := (inodes s ip)\<lparr>i_ref := i_ref (inodes s ip) + 1\<rparr>)"
    using assms(3) by (auto simp: idup_eq split: if_splits)
  from ref_change [OF assms(1,2) t(2)] assms(2) t show ?thesis by (simp add: ilive_def)
qed

lemma iput_refs:
  assumes "icache_ok s" "ilive s ip" "iput ip s = Inr ((), t)"
  shows "icache_ok t \<and> refs t = (refs s)(ikey (inodes s ip) := refs s (ikey (inodes s ip)) - 1)"
proof -
  let ?m = "\<lambda>i. if i_ref i = 1 \<and> flag I_VALID (i_flags i) \<and> i_nlink i = 0
          then bnd (guard (\<not> flag I_BUSY (i_flags i)) (Panic ''iput busy'')) (\<lambda>_.
               bnd (upd_ino ip (\<lambda>i. i\<lparr>i_flags := set_flag I_BUSY (i_flags i)\<rparr>)) (\<lambda>_.
               bnd (itrunc ip) (\<lambda>_.
               bnd (upd_ino ip (\<lambda>i. i\<lparr>i_type := 0\<rparr>)) (\<lambda>_.
               bnd (iupdate ip) (\<lambda>_.
               upd_ino ip (\<lambda>i. i\<lparr>i_flags := 0\<rparr>))))))
          else ret ()"
  have k: "keeps iheld (?m i)" for i by (intro keep)
  from assms(3) obtain u where u: "?m (inodes s ip) s = Inr ((), u)"
    "inodes t = (inodes u)(ip := (inodes u ip)\<lparr>i_ref := i_ref (inodes u ip) - 1\<rparr>)"
    unfolding iput_def bnd_eq_Inr ino_at_def upd_ino_def by (auto split: if_splits)
  note e = icache_iheld [OF keepsD [OF k u(1)]]
  from ref_change [OF _ _ u(2)] assms(1,2) e show ?thesis by (simp add: ilive_def)
qed

interpretation ic: counted_refs icache_ok refs "\<lambda>s ip. ikey (inodes s ip)" ilive "\<lambda>(dev, inum). iget dev inum" idup iput
proof
  show "icache_ok t \<and> ilive t h \<and> ikey (inodes t h) = k \<and> refs t = (refs s)(k := refs s k + 1)"
    if "icache_ok s" "(case k of (dev, inum) \<Rightarrow> iget dev inum) s = Inr (h, t)" for s k h t
    using iget_refs [OF that(1), of "fst k" "snd k"] that(2) by (simp add: split_beta)
qed (use idup_refs iput_refs refs_nonneg in blast)+

section \<open>Properties\<close>

text \<open>
  C23: \<open>iget\<close> on every outcome.  It returns an entry for the inode asked for, the one already in
  use if there is one, and adds one reference to that inode and to no other, keeping one entry
  per inode; it panics exactly when the inode has no entry and all \<open>NINODE\<close> entries are in use;
  and \<open>ip->ref++\<close> overflows only when the inode's entry already counts \<open>INT_MAX\<close> references.
\<close>

theorem iget_outcomes:
  assumes "icache_ok s"
  shows "(\<exists>ip t. iget dev inum s = Inr (ip, t) \<and> icache_ok t \<and> ilive t ip \<and> ikey (inodes t ip) = (dev, inum) \<and>
      refs t = (refs s)((dev, inum) := refs s (dev, inum) + 1) \<and> (0 < refs s (dev, inum) \<longrightarrow> ilive s ip)) \<or>
    (iget dev inum s = Inl (Panic ''iget: no inodes'') \<and> refs s (dev, inum) = 0 \<and> (\<forall>ip < NINODE. ilive s ip)) \<or>
    (iget dev inum s = Inl (Undef ''ip->ref++'') \<and>
      (\<exists>ip < NINODE. ikey (inodes s ip) = (dev, inum) \<and> INT_MAX \<le> i_ref (inodes s ip)))"
proof (cases "iget_hit (inodes s) dev inum")
  case hit: (Some jp)
  note h = iget_hitD [OF hit]
  show ?thesis
  proof (cases "iget dev inum s")
    case (Inl e)
    then have "e = Undef ''ip->ref++''" "INT_MAX \<le> i_ref (inodes s jp)"
      using h by (auto simp: iget_hit_eq [OF hit] int_range_def INT_MIN_def split: if_splits)
    with Inl h show ?thesis by blast
  next
    case (Inr r)
    then obtain ip t where r: "iget dev inum s = Inr (ip, t)" by (cases r) auto
    then have "ilive s ip" using h by (auto simp: iget_hit_eq [OF hit] ilive_def split: if_splits)
    with iget_refs [OF assms r] r show ?thesis by blast
  qed
next
  case miss: None
  note z = refs_missing [OF assms miss]
  show ?thesis
  proof (cases "iget dev inum s")
    case (Inl e)
    with miss have m: "iget_empty (inodes s) = None" "e = Panic ''iget: no inodes''"
      by (auto simp: iget_def upd_ino_def split: option.splits)
    have "ilive s ip" if "ip < NINODE" for ip
      using m(1) assms that by (auto simp: iget_empty_def find_None_iff ilive_def icache_ok_def less_le)
    with Inl m z show ?thesis by blast
  next
    case (Inr r)
    then obtain ip t where r: "iget dev inum s = Inr (ip, t)" by (cases r) auto
    with iget_refs [OF assms r] z show ?thesis by auto
  qed
qed

lemma icache_start: "icache_ok (process_start d n)" "refs (process_start d n) k = 0"
  by (simp_all add: icache_ok_def refs_def process_start_def zero_inode_def cong: if_cong)

theorem iget_outcomes_witness:
  "\<exists>ip t. iget ROOTDEV ROOTINO (process_start sample_img 100) = Inr (ip, t) \<and> refs t (ROOTDEV, ROOTINO) = 1"
proof -
  have "iget ROOTDEV ROOTINO (process_start sample_img 100) \<noteq> Inl e" for e
    by (subst iget_fresh) (simp_all add: process_start_def)
  with iget_outcomes [OF icache_start(1), of ROOTDEV ROOTINO sample_img 100] icache_start(2) show ?thesis by auto
qed

text \<open>
  Balance: taking a reference, duplicating it and putting one of the two back leaves one
  reference more than before, and an \<open>iget\<close> followed by \<open>iput\<close> leaves every inode's count as it
  was, whether or not that \<open>iput\<close> freed the inode.
\<close>

lemma iget_iput_balanced:
  assumes "icache_ok s"
  shows "(bnd (iget dev inum) iput s = Inr ((), t) \<longrightarrow> icache_ok t \<and> refs t = refs s) \<and>
    (bnd (iget dev inum) (\<lambda>ip. bnd (idup ip) (\<lambda>jp. bnd (iput ip) (\<lambda>_. ret jp))) s = Inr (kp, t) \<longrightarrow>
      icache_ok t \<and> refs t = (refs s)((dev, inum) := refs s (dev, inum) + 1))"
  using ic.get_put [OF assms, of "(dev, inum)" t] ic.get_dup_put_put [OF assms, of "(dev, inum)" kp t] by simp

end
