(* ===== verification/Dir_Props.thy ===== *)
theory Dir_Props
  imports Dir File_Content Icache
begin

text \<open>
  Directories as lists of entries and paths as lists of names: \<open>skipelem\<close> against a plain split
  at slashes, \<open>dirlookup\<close> against a search of the entries.
\<close>

section \<open>Paths\<close>

text \<open>The reference: split at every slash, drop the empty pieces, cut each name to \<open>DIRSIZ\<close> bytes.\<close>

fun split_at :: "'a \<Rightarrow> 'a list \<Rightarrow> 'a list list" where
  "split_at c [] = [[]]"
| "split_at c (x # xs) =
     (if x = c then [] # split_at c xs
      else case split_at c xs of [] \<Rightarrow> [[x]] | p # ps \<Rightarrow> (x # p) # ps)"

definition path_elems :: "bytes \<Rightarrow> bytes list" where
  "path_elems path = map (take DIRSIZ) (filter (\<lambda>e. e \<noteq> []) (split_at SLASH path))"

lemma split_at_nonempty: "split_at c xs \<noteq> []"
  by (cases xs) (auto split: list.splits)

lemma split_at_skip: "filter (\<lambda>e. e \<noteq> []) (split_at c (dropWhile (\<lambda>x. x = c) xs)) = filter (\<lambda>e. e \<noteq> []) (split_at c xs)"
  by (induction xs) auto

lemma split_at_take:
  "split_at c xs = takeWhile (\<lambda>x. x \<noteq> c) xs #
     (case dropWhile (\<lambda>x. x \<noteq> c) xs of [] \<Rightarrow> [] | _ # ys \<Rightarrow> split_at c ys)"
  by (induction xs) (auto split: list.splits)

lemma path_elems_skip: "path_elems (dropWhile (\<lambda>x. x = SLASH) path) = path_elems path"
  by (simp add: path_elems_def split_at_skip)

lemma skipelem_elems:
  "case skipelem path of
     None \<Rightarrow> path_elems path = []
   | Some (name, path1) \<Rightarrow> path_elems path = name # path_elems path1 \<and> dropWhile (\<lambda>c. c = SLASH) path1 = path1"
proof -
  let ?p = "dropWhile (\<lambda>c. c = SLASH) path"
  have pe: "path_elems ?p = path_elems path" by (rule path_elems_skip)
  show ?thesis
  proof (cases "?p = []")
    case True
    with pe have "path_elems path = []" by (simp add: path_elems_def)
    with True show ?thesis by (simp add: skipelem_def)
  next
    case False
    let ?s = "takeWhile (\<lambda>c. c \<noteq> SLASH) ?p" and ?t = "dropWhile (\<lambda>c. c \<noteq> SLASH) ?p"
    have "hd ?p \<noteq> SLASH" using hd_dropWhile [OF False] .
    then have ne: "?s \<noteq> []" using False by (cases ?p) auto
    have sk: "skipelem path = Some (take DIRSIZ ?s, dropWhile (\<lambda>c. c = SLASH) ?t)"
      using False by (simp add: skipelem_def Let_def)
    have "path_elems ?p = take DIRSIZ ?s # path_elems (dropWhile (\<lambda>c. c = SLASH) ?t)"
    proof (cases ?t)
      case Nil
      then have "split_at SLASH ?p = [?s]" using split_at_take [of SLASH ?p] by (simp only: list.case)
      with ne have "path_elems ?p = [take DIRSIZ ?s]" by (simp only: path_elems_def filter.simps list.map if_True not_False_eq_True)
      moreover have "path_elems ?t = []" unfolding Nil by (simp add: path_elems_def)
      ultimately show ?thesis by (simp only: path_elems_skip)
    next
      case (Cons c ys)
      then have "c = SLASH" using hd_dropWhile [of "\<lambda>c. c \<noteq> SLASH" ?p] by simp
      with Cons have "split_at SLASH ?t = [] # split_at SLASH ys" by simp
      moreover have "split_at SLASH ?p = ?s # split_at SLASH ys" using split_at_take [of SLASH ?p] by (simp only: Cons list.case)
      ultimately have "path_elems ?p = take DIRSIZ ?s # path_elems ?t"
        using ne by (simp only: path_elems_def filter.simps list.map simp_thms if_True if_False not_True_eq_False not_False_eq_True)
      then show ?thesis by (simp only: path_elems_skip)
    qed
    then have "path_elems path = take DIRSIZ ?s # path_elems (dropWhile (\<lambda>c. c = SLASH) ?t)" unfolding pe .
    with sk show ?thesis by simp
  qed
qed

text \<open>
  C32: \<open>skipelem\<close> splits paths like the reference: without a next element it reports none, and
  otherwise it returns the first element, cut to \<open>DIRSIZ\<close> bytes, and a path without leading
  slashes that holds exactly the remaining elements.
\<close>

theorem skipelem_splits:
  "case skipelem path of
     None \<Rightarrow> path_elems path = []
   | Some (name, path1) \<Rightarrow> path_elems path = name # path_elems path1 \<and> dropWhile (\<lambda>c. c = SLASH) path1 = path1"
  by (rule skipelem_elems)

section \<open>Directories\<close>

text \<open>A directory as its entries, and the entry a lookup is after.\<close>

definition entry :: "kern \<Rightarrow> inode \<Rightarrow> nat \<Rightarrow> dirent" where
  "entry s i k = dirent_of_bytes (file_bytes s i (k * SIZEOF_DIRENT) SIZEOF_DIRENT)"

definition is_entry :: "bytes \<Rightarrow> dirent \<Rightarrow> bool" where
  "is_entry name de \<longleftrightarrow> de_inum de \<noteq> 0 \<and> take DIRSIZ (c_string (de_name de)) = take DIRSIZ name"

text \<open>A directory of \<open>n\<close> entries whose blocks are all there.\<close>

definition dir_ok :: "kern \<Rightarrow> inode \<Rightarrow> nat \<Rightarrow> bool" where
  "dir_ok s i n \<longleftrightarrow> i_type i = T_DIR \<and> i_dev i = ROOTDEV \<and> unat (i_size i) = n * SIZEOF_DIRENT \<and>
     unat (i_size i) < 2 ^ 31 \<and> (\<forall>p < unat (i_size i). mapped s i (p div BSIZE))"

lemma strncmp_c_string: "0 \<notin> set s \<Longrightarrow> strncmp s t n = strncmp s (c_string t) n"
  by (induction s t n rule: strncmp.induct) (auto simp: c_string_def)

lemma namecmp_eq: "0 \<notin> set name \<Longrightarrow> namecmp name d = 0 \<longleftrightarrow> take DIRSIZ name = take DIRSIZ (c_string d)"
  using strncmp_c_string [of name d DIRSIZ] strncmp_eq_0 [of name "c_string d" DIRSIZ]
  by (auto simp: namecmp_def c_string_def dest: set_takeWhileD)

lemma read_dirent_ok:
  assumes "linv s" "room s 1" "dir_ok s (inodes s dp) n" "k < n"
  shows "\<exists>s'. read_dirent dp (of_nat (k * SIZEOF_DIRENT)) msg s = Inr (entry s (inodes s dp) k, s') \<and> calm s s'"
proof -
  let ?i = "inodes s dp" and ?o = "of_nat (k * SIZEOF_DIRENT) :: u32" and ?n = "of_nat SIZEOF_DIRENT :: u32"
  have d: "i_type ?i = T_DIR" "i_dev ?i = ROOTDEV" "unat (i_size ?i) = n * SIZEOF_DIRENT" "unat (i_size ?i) < 2 ^ 31"
    "\<forall>p < unat (i_size ?i). mapped s ?i (p div BSIZE)" using assms(3) by (auto simp: dir_ok_def)
  have le: "k * SIZEOF_DIRENT + SIZEOF_DIRENT \<le> unat (i_size ?i)"
    using assms(4) d(3) mult_le_mono1 [of "Suc k" n SIZEOF_DIRENT] by simp
  have o: "unat ?o = k * SIZEOF_DIRENT" by (rule unat_of_nat_small) (use le d(4) in simp)
  have nn: "unat ?n = SIZEOF_DIRENT" by (simp add: layout)
  have m: "SIZEOF_DIRENT = min (unat ?n) (unat (i_size ?i) - unat ?o)" using le o nn by simp
  have "i_type ?i \<noteq> T_DEV" using d(1) by (simp add: layout)
  moreover have "unat ?o \<le> unat (i_size ?i)" "unat ?o + unat ?n < 2 ^ 32" using le o nn d(4) by simp_all
  moreover have "\<forall>p. unat ?o \<le> p \<longrightarrow> p < unat ?o + SIZEOF_DIRENT \<longrightarrow> mapped s ?i (p div BSIZE)" using d(5) le o by simp
  ultimately obtain s' where "readi dp ?o ?n s = Inr ((sint (of_nat SIZEOF_DIRENT :: u32), file_bytes s ?i (unat ?o) SIZEOF_DIRENT), s')" "calm s s'"
    using readi_ok [OF assms(1,2) d(2) _ _ _ m] by blast
  moreover have "sint (of_nat SIZEOF_DIRENT :: u32) = int SIZEOF_DIRENT" by (rule sint_of_small) (simp add: layout)
  ultimately show ?thesis unfolding o read_dirent_def entry_def by (intro exI [of _ s']) simp
qed

text \<open>The search the loop makes.\<close>

definition lookup_from :: "kern \<Rightarrow> inode \<Rightarrow> bytes \<Rightarrow> nat \<Rightarrow> nat \<Rightarrow> nat option" where
  "lookup_from s i name k n = List.find (\<lambda>j. is_entry name (entry s i j)) [k..<n]"

lemma calm_entry: "calm s s' \<Longrightarrow> entry s' = entry s"
  using calm_bytes [of s s'] by (simp add: entry_def fun_eq_iff)

lemma calm_dir_ok: "calm s s' \<Longrightarrow> dir_ok s' = dir_ok s"
  using calm_mapped [of s s'] by (simp add: dir_ok_def fun_eq_iff)

definition found :: "u32 \<Rightarrow> dirent \<Rightarrow> nat \<Rightarrow> (nat \<times> u32) option act" where
  "found dev de k = bnd (iget dev (ucast (de_inum de))) (\<lambda>ip. ret (Some (ip, of_nat (k * SIZEOF_DIRENT))))"

lemma dirlookup_from_ok:
  assumes "linv s" "room s 1" "dir_ok s (inodes s dp) n" "0 \<notin> set name" "k \<le> n"
  shows "\<exists>s'. calm s s' \<and> dirlookup_from dp name (k * SIZEOF_DIRENT) s =
    (case lookup_from s (inodes s dp) name k n of None \<Rightarrow> Inr (None, s')
     | Some j \<Rightarrow> found ROOTDEV (entry s (inodes s dp) j) j s')"
  using assms
proof (induction "n - k" arbitrary: k s)
  case 0
  then have "k = n" by simp
  with 0 show ?case
    by (subst dirlookup_from.simps) (auto simp: ino_at_def dir_ok_def lookup_from_def calm_refl)
next
  case (Suc d)
  let ?i = "inodes s dp"
  have k: "k < n" "d = n - Suc k" using Suc.hyps(2) by simp_all
  from read_dirent_ok [OF Suc.prems(1-3) k(1), of "''dirlink read''"] obtain t where t:
    "read_dirent dp (of_nat (k * SIZEOF_DIRENT)) ''dirlink read'' s = Inr (entry s ?i k, t)" "calm s t" by blast
  note c = calm_frame [OF t(2)]
  have "unat (i_size ?i) = n * SIZEOF_DIRENT" "i_dev ?i = ROOTDEV" using Suc.prems(3) by (simp_all add: dir_ok_def)
  moreover have "k * SIZEOF_DIRENT < n * SIZEOF_DIRENT" using k(1) by (simp add: layout)
  ultimately have sz: "k * SIZEOF_DIRENT < unat (i_size ?i)" "i_dev ?i = ROOTDEV" by simp_all
  have up: "[k..<n] = k # [Suc k..<n]" using k(1) by (rule upt_conv_Cons)
  have nm: "namecmp name (de_name (entry s ?i k)) = 0 \<longleftrightarrow> take DIRSIZ (c_string (de_name (entry s ?i k))) = take DIRSIZ name"
    by (subst namecmp_eq [OF Suc.prems(4)]) (rule eq_commute)
  show ?case
  proof (cases "is_entry name (entry s ?i k)")
    case True
    then have "dirlookup_from dp name (k * SIZEOF_DIRENT) s = found ROOTDEV (entry s ?i k) k t"
      using t(1) sz nm by (subst dirlookup_from.simps) (simp add: ino_at_def is_entry_def found_def)
    moreover have "lookup_from s ?i name k n = Some k" using True up by (simp add: lookup_from_def)
    ultimately show ?thesis using t(2) by (intro exI [of _ t]) simp
  next
    case False
    then have run: "dirlookup_from dp name (k * SIZEOF_DIRENT) s = dirlookup_from dp name (Suc k * SIZEOF_DIRENT) t"
      using t(1) sz nm by (subst dirlookup_from.simps) (auto simp: ino_at_def is_entry_def add.commute)
    have "dir_ok t (inodes t dp) n" "room t 1" using Suc.prems(2,3) calm_dir_ok [OF t(2)] c by simp_all
    from Suc.hyps(1) [OF k(2) c(1) this(2,1) Suc.prems(4)] k(1) obtain u where u: "calm t u"
      "dirlookup_from dp name (Suc k * SIZEOF_DIRENT) t = (case lookup_from t (inodes t dp) name (Suc k) n of None \<Rightarrow> Inr (None, u)
        | Some j \<Rightarrow> found ROOTDEV (entry t (inodes t dp) j) j u)" by auto
    have "lookup_from t (inodes t dp) name (Suc k) n = lookup_from s ?i name k n"
      using False up calm_entry [OF t(2)] c(4) by (simp add: lookup_from_def)
    then show ?thesis using u run calm_trans [OF t(2) u(1)] calm_entry [OF t(2)] c(4)
      by (intro exI [of _ u]) (simp split: option.split)
  qed
qed

lemma dirlookup_ok:
  assumes "linv s" "room s 1" "dir_ok s (inodes s dp) n" "0 \<notin> set name"
  shows "\<exists>s'. calm s s' \<and> dirlookup dp name s =
    (case lookup_from s (inodes s dp) name 0 n of None \<Rightarrow> Inr (None, s')
     | Some j \<Rightarrow> found ROOTDEV (entry s (inodes s dp) j) j s')"
proof -
  have "dirlookup dp name s = dirlookup_from dp name 0 s"
    using assms(3) by (simp add: dirlookup_def ino_at_def dir_ok_def)
  with dirlookup_from_ok [OF assms, of 0] show ?thesis by simp
qed

text \<open>A directory whose first entry is empty and whose second is \<open>a\<close>, inode 5.\<close>

definition sample_dir :: dinode where
  "sample_dir = \<lparr>di_type = T_DIR, di_major = 0, di_minor = 0, di_nlink = 1, di_size = 128, di_ctime = 0, di_atime = 0,
     di_mtime = 0, di_addrs = (\<lambda>_. 0)(0 := 40)\<rparr>"

definition sample_entry :: dirent where
  "sample_entry = \<lparr>de_inum = 5, de_name = strncpy (cstr ''a'') DIRSIZ\<rparr>"

definition sample_dir_img :: "nat \<Rightarrow> block" where
  "sample_dir_img = sample_image sample_dir (blit_list zero_block SIZEOF_DIRENT (bytes_of_dirent sample_entry))"

lemma sample_dir_entries:
  assumes "view s 40 = blit_list zero_block SIZEOF_DIRENT (bytes_of_dirent sample_entry)" "i_addrs i 0 = 40"
  shows "entry s i 1 = sample_entry" "de_inum (entry s i 0) = 0"
proof -
  have ia: "iaddr s i 0 = 40" using assms(2) by (simp add: iaddr_def layout)
  have len: "length (de_name sample_entry) = DIRSIZ" by (simp add: sample_entry_def)
  have fb: "file_bytes s i p SIZEOF_DIRENT = block_slice (view s 40) p SIZEOF_DIRENT" if "p \<le> SIZEOF_DIRENT" for p
    by (rule nth_equalityI) (use ia that in \<open>simp_all add: file_bytes_def fbyte_def layout\<close>)
  have "file_bytes s i SIZEOF_DIRENT SIZEOF_DIRENT = bytes_of_dirent sample_entry"
    using fb [of SIZEOF_DIRENT] block_slice_blit_list [of zero_block SIZEOF_DIRENT "bytes_of_dirent sample_entry"] assms(1)
      length_bytes_of_dirent [OF len] by simp
  then show "entry s i 1 = sample_entry" using dirent_roundtrip [OF len] by (simp add: entry_def)
  have "get16 (\<lambda>i. block_slice (view s 40) 0 SIZEOF_DIRENT ! i) 0 = get16 zero_block 0"
    by (rule get16_cong) (simp add: assms(1) blit_list_def layout)
  then show "de_inum (entry s i 0) = 0" using fb [of 0] by (simp add: entry_def dirent_of_bytes_def)
qed

lemma sample_dir_find:
  assumes "entry s i 1 = sample_entry" "de_inum (entry s i 0) = 0"
  shows "List.find (\<lambda>j. is_entry (cstr ''a'') (entry s i j)) [0..<2] = Some 1"
proof -
  have "0 \<notin> set (cstr ''a'')" by (simp add: cstr_def)
  then have "is_entry (cstr ''a'') sample_entry" by (simp add: is_entry_def sample_entry_def c_string_strncpy)
  with assms show ?thesis by (simp add: upt_rec is_entry_def)
qed

end
