(* ===== verification/Sys_Props.thy ===== *)
theory Sys_Props
  imports Fuse Dir_Props
begin

text \<open>
  The system calls as transactions: every call closes exactly the transactions it opens, except
  for \<open>sys_rename\<close> on the early exits of \<open>sys_dolink\<close>.
\<close>

section \<open>Opened transactions\<close>

definition open_ops :: "kern \<Rightarrow> int" where
  "open_ops s = outstanding (thelog s)"

interpretation tx: file_frame open_ops
  by unfold_locales (simp_all add: open_ops_def pwrite_block_def)

text \<open>\<open>opens k m\<close>: when \<open>m\<close> returns, the number of open operations has changed by \<open>k\<close>.\<close>

named_theorems opn

definition opens :: "int \<Rightarrow> 'a act \<Rightarrow> bool" where
  "opens k m \<longleftrightarrow> (\<forall>s x t. m s = Inr (x, t) \<longrightarrow> open_ops t = open_ops s + k)"

lemma opensD: "opens k m \<Longrightarrow> m s = Inr (x, t) \<Longrightarrow> open_ops t = open_ops s + k"
  by (auto simp: opens_def)

lemma opens_keeps: "keeps open_ops m \<Longrightarrow> opens 0 m"
  by (simp add: opens_def keeps_def)

lemma opens_begin: "opens 1 begin_op"
  by (auto simp: opens_def begin_op_unfold upd_log_def open_ops_def split: if_splits)

lemma opens_end: "opens (-1) end_op"
proof -
  have "keeps open_ops commit" by (intro keep)
  then show ?thesis
    by (auto simp: opens_def end_op_def upd_log_def bnd_eq_Inr keeps_def open_ops_def split: if_splits)
qed

lemma opens_seq:
  assumes "opens j m" "\<And>x. opens (k - j) (f x)"
  shows "opens k (bnd m f)"
  using assms by (fastforce simp: opens_def bnd_eq_Inr)

lemma opens_ret [opn]: "opens 0 (ret x)" "opens k (fail e)"
  by (simp_all add: opens_def)

lemma opens_if [opn]: "(b \<Longrightarrow> opens k m) \<Longrightarrow> (\<not> b \<Longrightarrow> opens k n) \<Longrightarrow> opens k (if b then m else n)"
  by simp

lemma opens_option [opn]:
  "(r = None \<Longrightarrow> opens k m) \<Longrightarrow> (\<And>x. r = Some x \<Longrightarrow> opens k (f x)) \<Longrightarrow> opens k (case r of None \<Rightarrow> m | Some x \<Rightarrow> f x)"
  by (cases r) auto

lemma opens_prod [opn]: "(\<And>x y. r = (x, y) \<Longrightarrow> opens k (f x y)) \<Longrightarrow> opens k (case r of (x, y) \<Rightarrow> f x y)"
  by (cases r) auto

lemma opens_fd [opn]:
  "opens k m \<Longrightarrow> opens k n \<Longrightarrow> opens k o' \<Longrightarrow> opens k (case t of FD_NONE \<Rightarrow> m | FD_PIPE \<Rightarrow> n | FD_INODE \<Rightarrow> o')"
  by (cases t) auto

text \<open>Sequencing with each of the three kinds of first step.\<close>

lemma opens_bnd [opn]:
  "keeps open_ops m \<Longrightarrow> (\<And>x. opens k (f x)) \<Longrightarrow> opens k (bnd m f)"
  using opens_seq [OF opens_keeps, of m k f] by simp

lemma opens_bnd_begin: "(\<And>x. opens (k - 1) (f x)) \<Longrightarrow> opens k (bnd begin_op f)"
  by (rule opens_seq [OF opens_begin])

lemma opens_bnd_end: "(\<And>x. opens (k + 1) (f x)) \<Longrightarrow> opens k (bnd end_op f)"
  using opens_seq [OF opens_end, of k f] by simp

lemma opens_bnd_zero: "opens 0 m \<Longrightarrow> (\<And>x. opens k (f x)) \<Longrightarrow> opens k (bnd m f)"
  using opens_seq [of 0 m k f] by simp

lemmas op_rules = opens_bnd_begin opens_bnd_end opn keep

lemma fileclose_balanced: "opens 0 (fileclose f)"
  unfolding fileclose_def pipeclose_def by (intro op_rules | simp add: opens_keeps opens_end)+

lemma open_file_closes: "opens (-1) (open_file ip omode)"
  unfolding open_file_def by (intro op_rules | simp add: opens_ret)+

lemma sys_open_balanced: "opens 0 (sys_open path omode)"
  unfolding sys_open_def by (intro op_rules | simp add: opens_ret open_file_closes)+

lemma filewrite_balanced: "opens 0 (filewrite f addr n)"
proof -
  have loop: "opens 0 (filewrite_loop f ip src)" for ip src
  proof (induction f ip src rule: filewrite_loop.induct)
    case (1 f ip src)
    show ?case by (subst filewrite_loop.simps) (intro op_rules | simp add: opens_ret | rule 1)+
  qed
  have fill: "opens 0 (bnd begin_op (\<lambda>_. bnd (ilock (Some ip)) (\<lambda>_. bnd (ino_at ip) (\<lambda>j.
      bnd (zeroi ip (i_size j) k) (\<lambda>_. bnd (iunlock (Some ip)) (\<lambda>_. end_op)))))) " for ip k
    by (intro op_rules | simp add: opens_end)+
  show ?thesis unfolding filewrite_def pipewrite_def
    by (rule opens_bnd [OF keeps_reads(5)] opens_bnd [OF keeps_reads(6)] opens_bnd [OF keeps_reads(3)]
        opens_bnd_zero [OF loop] opens_bnd_zero opens_if opens_fd opens_ret fill)+
qed

lemma simple_balanced:
  "opens 0 (sys_mkdir path)" "opens 0 (sys_mksock path)" "opens 0 (sys_unlink path)" "opens 0 (sys_fileclose f)"
  "opens 0 (sys_read fh n off)" "opens 0 (sys_readdirent fh off)"
  unfolding sys_mkdir_def sys_mksock_def make_node_def sys_unlink_def sys_fileclose_def sys_read_def sys_readdirent_def
  by (intro op_rules opens_bnd_zero [OF fileclose_balanced] opens_keeps | simp add: opens_ret)+

lemma sys_write_balanced: "opens 0 (sys_write fh b off)"
  unfolding sys_write_def by (intro op_rules filewrite_balanced)

lemma opening_balanced:
  "opens 0 (sys_fstat path)" "opens 0 (sys_truncate path)" "opens 0 (sys_utime path time)"
  unfolding sys_fstat_def sys_truncate_def sys_utime_def
  by (intro opens_bnd_zero [OF sys_open_balanced] opens_bnd_zero [OF fileclose_balanced] op_rules | simp add: opens_ret)+

section \<open>An empty root directory\<close>

definition sample_rootdir :: dinode where
  "sample_rootdir = \<lparr>di_type = T_DIR, di_major = 0, di_minor = 0, di_nlink = 1, di_size = 0, di_ctime = 0, di_atime = 0,
     di_mtime = 0, di_addrs = (\<lambda>_. 0)\<rparr>"

definition sample_root_img :: "nat \<Rightarrow> block" where
  "sample_root_img = sample_image sample_rootdir zero_block"

text \<open>What all states of the run below have in common.\<close>

definition root_state :: "kern \<Rightarrow> bool" where
  "root_state s \<longleftrightarrow> linv s \<and> held s = {} \<and> lsec s = [] \<and> sector_ok s 2 \<and> outstanding (thelog s) = 1 \<and> committing (thelog s) = 0 \<and>
     view s 2 = put_dinode (NDIRECT + 1) zero_block (dinode_offset 1) sample_rootdir"

text \<open>The root's cache entry: \<open>r\<close> references, \<open>f\<close> the flags, the fields that matter once loaded.\<close>

definition root_entry :: "int \<Rightarrow> inode \<Rightarrow> bool" where
  "root_entry r i \<longleftrightarrow> i_dev i = ROOTDEV \<and> i_inum i = 1 \<and> i_ref i = r \<and>
     (flag I_VALID (i_flags i) \<longrightarrow> i_type i = T_DIR \<and> i_size i = 0 \<and> i_nlink i = 1)"

lemma root_step:
  assumes "root_state s" "tstep s t" "view t = view s" "lsec t = lsec s"
  shows "root_state t"
proof -
  have "committing (thelog t) = committing (thelog s)" using assms(2) by (simp add: tstep_def tenv_eq)
  with assms tstep_geom [OF assms(2)] tstep_linv [OF assms(2)] tstep_held [OF assms(2)] show ?thesis
    by (simp add: root_state_def)
qed

lemma root_state_inodes [simp]: "root_state (s\<lparr>inodes := f\<rparr>) = root_state s"
  by (simp add: root_state_def)

lemma root_lock:
  assumes "root_state s" "root_entry 1 (inodes s 0)" "\<not> flag I_BUSY (i_flags (inodes s 0))"
  shows "\<exists>t. ilock (Some 0) s = Inr ((), t) \<and> root_state t \<and> root_entry 1 (inodes t 0) \<and>
    flag I_BUSY (i_flags (inodes t 0)) \<and> flag I_VALID (i_flags (inodes t 0)) \<and> (\<forall>j. j \<noteq> 0 \<longrightarrow> inodes t j = inodes s j)"
proof (cases "flag I_VALID (i_flags (inodes s 0))")
  case True
  let ?t = "s\<lparr>inodes := (inodes s)(0 := (inodes s 0)\<lparr>i_flags := set_flag I_BUSY (i_flags (inodes s 0))\<rparr>)\<rparr>"
  have "ilock (Some 0) s = Inr ((), ?t)" using assms True by (simp add: ilock_unfold ino_at_def upd_ino_def root_entry_def)
  then show ?thesis using assms True by (intro exI [of _ ?t]) (simp add: root_entry_def)
next
  case False
  have ib: "IBLOCK 1 = 2" by (simp add: IBLOCK_def layout)
  have r: "room s 1" using assms(1) by (simp add: root_state_def room_def layout)
  have i: "i_ref (inodes s 0) \<ge> 1" "i_dev (inodes s 0) = ROOTDEV" "IBLOCK (i_inum (inodes s 0)) = 2" "i_inum (inodes s 0) = 1"
    using assms(2) by (simp_all add: root_entry_def ib)
  have v: "view s 2 = put_dinode (NDIRECT + 1) zero_block (dinode_offset 1) sample_rootdir" using assms(1) by (simp add: root_state_def)
  have ld: "i_type (loaded s (inodes s 0)) = T_DIR" "i_size (loaded s (inodes s 0)) = 0" "i_nlink (loaded s (inodes s 0)) = 1"
    "flag I_VALID (i_flags (loaded s (inodes s 0)))" "flag I_BUSY (i_flags (loaded s (inodes s 0)))"
    by (simp_all add: loaded_def load_dinode_def i(3) i(4) ib v get_put_dinode_fields sample_rootdir_def)
  have e: "root_entry 1 (loaded s (inodes s 0))"
    using assms(2) ld by (simp add: root_entry_def loaded_def load_dinode_def)
  from ilock_load [of s 0] assms(1,3) False r i ld(1) obtain t where t: "ilock (Some 0) s = Inr ((), t)" "tstep s t"
    "view t = view s" "lsec t = lsec s" "inodes t = (inodes s)(0 := loaded s (inodes s 0))"
    by (auto simp: root_state_def layout)
  with root_step [OF assms(1) t(2-4)] e ld show ?thesis by (intro exI [of _ t]) simp
qed

lemma root_unlock:
  assumes "root_state s" "root_entry 1 (inodes s 0)" "flag I_BUSY (i_flags (inodes s 0))" "flag I_VALID (i_flags (inodes s 0))"
  shows "\<exists>t. iunlock (Some 0) s = Inr ((), t) \<and> root_state t \<and> root_entry 1 (inodes t 0) \<and>
      \<not> flag I_BUSY (i_flags (inodes t 0)) \<and> flag I_VALID (i_flags (inodes t 0)) \<and> (\<forall>j. j \<noteq> 0 \<longrightarrow> inodes t j = inodes s j)"
    and "\<exists>t. iunlockput 0 s = Inr ((), t) \<and> root_state t \<and> root_entry 0 (inodes t 0) \<and> (\<forall>j. j \<noteq> 0 \<longrightarrow> inodes t j = inodes s j)"
proof -
  let ?i = "(inodes s 0)\<lparr>i_flags := clear_flag I_BUSY (i_flags (inodes s 0))\<rparr>"
  let ?t = "s\<lparr>inodes := (inodes s)(0 := ?i)\<rparr>"
  have u: "iunlock (Some 0) s = Inr ((), ?t)" using assms by (simp add: iunlock_def ino_at_def upd_ino_def root_entry_def)
  then show "\<exists>t. iunlock (Some 0) s = Inr ((), t) \<and> root_state t \<and> root_entry 1 (inodes t 0) \<and>
      \<not> flag I_BUSY (i_flags (inodes t 0)) \<and> flag I_VALID (i_flags (inodes t 0)) \<and> (\<forall>j. j \<noteq> 0 \<longrightarrow> inodes t j = inodes s j)"
    using assms by (intro exI [of _ ?t]) (simp add: root_entry_def)
  let ?u = "s\<lparr>inodes := (inodes s)(0 := ?i\<lparr>i_ref := 0\<rparr>)\<rparr>"
  have "iunlockput 0 s = Inr ((), ?u)"
    using u assms by (simp add: INT_MIN_def iunlockput_def iput_def ino_at_def upd_ino_def root_entry_def)
  then show "\<exists>t. iunlockput 0 s = Inr ((), t) \<and> root_state t \<and> root_entry 0 (inodes t 0) \<and> (\<forall>j. j \<noteq> 0 \<longrightarrow> inodes t j = inodes s j)"
    using assms by (intro exI [of _ ?u]) (simp add: root_entry_def)
qed

lemma root_get:
  assumes "\<forall>j. i_ref (inodes s j) = 0" "root_state s"
  shows "\<exists>t. iget ROOTDEV ROOTINO s = Inr (0, t) \<and> root_state t \<and> root_entry 1 (inodes t 0) \<and> i_flags (inodes t 0) = 0 \<and>
    (\<forall>j. j \<noteq> 0 \<longrightarrow> inodes t j = inodes s j)"
proof -
  have "iget_hit (inodes s) ROOTDEV ROOTINO = None" using assms(1) by (simp add: iget_hit_def find_NoneI)
  moreover have "iget_empty (inodes s) = Some 0" using assms(1) by (simp add: iget_empty_def layout upt_rec)
  ultimately show ?thesis using assms(2) by (simp add: iget_def upd_ino_def root_entry_def ROOTINO_def)
qed

lemma root_open:
  "\<exists>m s. mount (process_start sample_root_img 100) = Inr ((), m) \<and> begin_op m = Inr ((), s) \<and> root_state s \<and>
     (\<forall>j. i_ref (inodes s j) = 0) \<and> outstanding (thelog m) = 0"
proof -
  have "sb_of_block (sample_root_img 1) = sample_sb" "head_n (sample_root_img 70) = 0"
    using sample_head by (simp_all add: sample_root_img_def sample_image_def)
  from sample_ready [where d = sample_root_img, OF this] obtain s where s:
    "sample_open (process_start sample_root_img 100) = Inr ((), s)" "linv s" "held s = {}" "lsec s = []"
    "log_at s sample_sb" "outstanding (thelog s) = 1" "committing (thelog s) = 0" "inodes s = (\<lambda>_. zero_inode)"
    "\<forall>a. unat a \<noteq> 70 \<longrightarrow> view s a = sample_root_img (unat a)" by blast
  from s(1) obtain m where m: "mount (process_start sample_root_img 100) = Inr ((), m)" "begin_op m = Inr ((), s)"
    by (auto simp: sample_open_def bnd_eq_Inr)
  have "home_sector s 2" using log_at_geom(4) [OF s(5)] sample_geom by simp
  then have "sector_ok s 2" by (rule home_usable [OF s(2)])
  moreover have "view s 2 = put_dinode (NDIRECT + 1) zero_block (dinode_offset 1) sample_rootdir"
    using s(9) by (simp add: sample_root_img_def sample_image_def)
  ultimately have "root_state s" using s(2-4,6,7) by (simp add: root_state_def)
  moreover have "outstanding (thelog m) = 0" using opensD [OF opens_begin m(2)] s(6) by (simp add: open_ops_def)
  ultimately show ?thesis using m s(8) by (intro exI [of _ m] exI [of _ s]) (simp add: zero_inode_def)
qed

lemma root_unlink_missing:
  assumes "\<forall>j. i_ref (inodes s j) = 0" "root_state s"
  shows "\<exists>t. sys_dounlink (cstr ''/x'') s = Inr (ENOENT, t) \<and> root_state t \<and> (\<forall>j. i_ref (inodes t j) = 0)"
proof -
  from root_get [OF assms] obtain s1 where s1: "iget ROOTDEV ROOTINO s = Inr (0, s1)" "root_state s1" "root_entry 1 (inodes s1 0)"
    "i_flags (inodes s1 0) = 0" "\<forall>j. j \<noteq> 0 \<longrightarrow> inodes s1 j = inodes s j" by blast
  from root_lock [OF s1(2,3)] s1(4) obtain s2 where s2: "ilock (Some 0) s1 = Inr ((), s2)" "root_state s2" "root_entry 1 (inodes s2 0)"
    "flag I_BUSY (i_flags (inodes s2 0))" "flag I_VALID (i_flags (inodes s2 0))" "\<forall>j. j \<noteq> 0 \<longrightarrow> inodes s2 j = inodes s1 j" by auto
  from root_unlock(1) [OF s2(2-5)] obtain s3 where s3: "iunlock (Some 0) s2 = Inr ((), s3)" "root_state s3" "root_entry 1 (inodes s3 0)"
    "\<not> flag I_BUSY (i_flags (inodes s3 0))" "\<forall>j. j \<noteq> 0 \<longrightarrow> inodes s3 j = inodes s2 j" by blast
  from root_lock [OF s3(2-4)] obtain s4 where s4: "ilock (Some 0) s3 = Inr ((), s4)" "root_state s4" "root_entry 1 (inodes s4 0)"
    "flag I_BUSY (i_flags (inodes s4 0))" "flag I_VALID (i_flags (inodes s4 0))" "\<forall>j. j \<noteq> 0 \<longrightarrow> inodes s4 j = inodes s3 j" by auto
  from root_unlock(2) [OF s4(2-5)] obtain s5 where s5: "iunlockput 0 s4 = Inr ((), s5)" "root_state s5" "root_entry 0 (inodes s5 0)"
    "\<forall>j. j \<noteq> 0 \<longrightarrow> inodes s5 j = inodes s4 j" by blast
  have sk: "skipelem (cstr ''/x'') = Some (cstr ''x'', [])" by (simp add: skipelem_def cstr_def SLASH_def layout)
  have hd: "cstr ''/x'' \<noteq> []" "hd (cstr ''/x'') = SLASH" by (simp_all add: cstr_def SLASH_def)
  have "i_type (inodes s2 0) = T_DIR" using s2(3,5) by (simp add: root_entry_def)
  then have np: "nameiparent (cstr ''/x'') s = Inr ((Some 0, cstr ''x''), s3)"
    using s1(1) s2(1) s3(1) sk hd by (simp add: nameiparent_def namex_def namex_loop.simps ino_at_def)
  have nc: "namecmp (cstr ''x'') DOT \<noteq> 0" "namecmp (cstr ''x'') DOTDOT \<noteq> 0"
    using namecmp_eq [of "cstr ''x''"] by (simp_all add: cstr_def c_string_def DOT_def DOTDOT_def layout)
  have "dirlookup 0 (cstr ''x'') s4 = Inr (None, s4)"
    using s4(3,5) by (simp add: dirlookup_def dirlookup_from.simps ino_at_def root_entry_def)
  then have "sys_dounlink (cstr ''/x'') s = Inr (ENOENT, s5)"
    using np nc s4(1) s5(1) by (simp add: sys_dounlink_def unlink_bad_def)
  moreover have "i_ref (inodes s5 j) = 0" for j
    using assms(1) s1(5) s2(6) s3(5) s4(6) s5(3,4) by (cases "j = 0") (simp_all add: root_entry_def)
  ultimately show ?thesis using s5(2) by blast
qed

text \<open>Closing the only open transaction when nothing has been logged.\<close>

lemma end_op_empty:
  assumes "root_state s"
  shows "end_op s = Inr ((), s\<lparr>thelog := (thelog s)\<lparr>outstanding := 0, committing := 0\<rparr>\<rparr>)"
proof -
  have "lsec s = []" "linv s" using assms by (simp_all add: root_state_def)
  then have "lh_n (lh (thelog s)) = 0"
    using linv_facts(3) [of s] length_lsec [of s] by (simp add: lsecs_ok_def)
  then show ?thesis using assms by (simp add: end_op_def upd_log_def commit_def root_state_def)
qed

section \<open>Transactions of the system calls\<close>

text \<open>One returning system call, \<open>sys_rename\<close> apart.\<close>

inductive syscall :: "kern \<Rightarrow> kern \<Rightarrow> bool" where
  c_open: "sys_open path omode s = Inr (r, t) \<Longrightarrow> syscall s t"
| c_close: "sys_fileclose f s = Inr (n, t) \<Longrightarrow> syscall s t"
| c_read: "sys_read fh sz off s = Inr (out, t) \<Longrightarrow> syscall s t"
| c_write: "sys_write fh buf off s = Inr (n, t) \<Longrightarrow> syscall s t"
| c_fstat: "sys_fstat path s = Inr (st, t) \<Longrightarrow> syscall s t"
| c_readdirent: "sys_readdirent fh off s = Inr (out, t) \<Longrightarrow> syscall s t"
| c_truncate: "sys_truncate path s = Inr (n, t) \<Longrightarrow> syscall s t"
| c_mkdir: "sys_mkdir path s = Inr (n, t) \<Longrightarrow> syscall s t"
| c_mksock: "sys_mksock path s = Inr (n, t) \<Longrightarrow> syscall s t"
| c_unlink: "sys_unlink path s = Inr (n, t) \<Longrightarrow> syscall s t"
| c_utime: "sys_utime path time s = Inr (n, t) \<Longrightarrow> syscall s t"

inductive_cases syscallE: "syscall s t"

lemma syscall_balanced: "syscall s t \<Longrightarrow> open_ops t = open_ops s"
  by (erule syscallE)
    (auto dest: opensD [OF sys_open_balanced] opensD [OF sys_write_balanced] simple_balanced [THEN opensD]
      opening_balanced [THEN opensD])

text \<open>
  C28: System calls close what they open.  However many system calls other than \<open>sys_rename\<close> run
  and return, on whatever arguments and along whichever error path, the number of operations the
  log counts as outstanding is the same afterwards as before.
\<close>

theorem syscalls_balanced:
  assumes "syscall\<^sup>*\<^sup>* s t"
  shows "outstanding (thelog t) = outstanding (thelog s)"
  using assms
proof (induction rule: rtranclp_induct)
  case base
  show ?case by simp
next
  case (step y z)
  with syscall_balanced [OF step.hyps(2)] show ?case by (simp add: open_ops_def)
qed

text \<open>An unlink of a file that is not there.\<close>

theorem syscalls_balanced_witness:
  "\<exists>m t. mount (process_start sample_root_img 100) = Inr ((), m) \<and> sys_unlink (cstr ''/x'') m = Inr (ENOENT, t) \<and>
     outstanding (thelog m) = 0 \<and> outstanding (thelog t) = outstanding (thelog m)"
proof -
  from root_open obtain m s where m: "mount (process_start sample_root_img 100) = Inr ((), m)" "begin_op m = Inr ((), s)"
    "root_state s" "\<forall>j. i_ref (inodes s j) = 0" "outstanding (thelog m) = 0" by blast
  from root_unlink_missing [OF m(4,3)] obtain t where t: "sys_dounlink (cstr ''/x'') s = Inr (ENOENT, t)" "root_state t" by blast
  from m(2) t(1) end_op_empty [OF t(2)] obtain u where u: "sys_unlink (cstr ''/x'') m = Inr (ENOENT, u)"
    by (simp add: sys_unlink_def)
  then have "syscall\<^sup>*\<^sup>* m u" by (intro r_into_rtranclp c_unlink)
  with syscalls_balanced [OF this] m(1,5) u show ?thesis by blast
qed

text \<open>
  C29: A rename that cannot link closes its transaction twice.  When the target has been removed
  or was not there, and the source does not exist or is a directory, a returning \<open>sys_rename\<close>
  reports -1 and leaves the log with one operation fewer outstanding than it found, which on an
  idle log is -1.
\<close>

theorem rename_closes_twice:
  assumes "begin_op s = Inr ((), s1)" "sys_dounlink path2 s1 = Inr (r2, s2)" "r2 = 0 \<or> r2 = ENOENT"
    and "namei path1 s2 = Inr (ipo, s3)"
    and "case ipo of None \<Rightarrow> True | Some ip \<Rightarrow> (\<exists>s4. ilock (Some ip) s3 = Inr ((), s4) \<and> i_type (inodes s4 ip) = T_DIR)"
    and "sys_rename path1 path2 s = Inr (r, t)"
  shows "r = -1 \<and> outstanding (thelog t) = outstanding (thelog s) - 1"
proof -
  have "opens 0 (namei path1)" "opens 0 (sys_dounlink path2)" "opens 0 (ilock j)" "opens 0 (iunlockput k)" for j k
    by (rule opens_keeps; intro keep)+
  note bal = this [THEN opensD] opensD [OF opens_begin] opensD [OF opens_end]
  show ?thesis
  proof (cases ipo)
    case None
    with assms obtain u where "end_op s3 = Inr ((), u)" "end_op u = Inr ((), t)" "r = -1"
      by (auto simp: sys_rename_def sys_dolink_def bnd_eq_Inr split: if_splits)
    with assms show ?thesis by (auto dest!: bal simp: open_ops_def)
  next
    case (Some ip)
    with assms obtain s4 u v where "ilock (Some ip) s3 = Inr ((), s4)" "iunlockput ip s4 = Inr ((), u)"
      "end_op u = Inr ((), v)" "end_op v = Inr ((), t)" "r = -1"
      by (auto simp: sys_rename_def sys_dolink_def bnd_eq_Inr ino_at_def split: if_splits)
    with assms show ?thesis by (auto dest!: bal simp: open_ops_def)
  qed
qed

text \<open>Renaming the root directory on a freshly mounted file system.\<close>

theorem rename_closes_twice_witness:
  "\<exists>m t. mount (process_start sample_root_img 100) = Inr ((), m) \<and> sys_rename (cstr ''/'') (cstr ''/x'') m = Inr (-1, t) \<and>
     outstanding (thelog m) = 0 \<and> outstanding (thelog t) = -1"
proof -
  from root_open obtain m s where m: "mount (process_start sample_root_img 100) = Inr ((), m)" "begin_op m = Inr ((), s)"
    "root_state s" "\<forall>j. i_ref (inodes s j) = 0" "outstanding (thelog m) = 0" by blast
  from root_unlink_missing [OF m(4,3)] obtain s2 where s2: "sys_dounlink (cstr ''/x'') s = Inr (ENOENT, s2)" "root_state s2"
    "\<forall>j. i_ref (inodes s2 j) = 0" by blast
  from root_get [OF s2(3,2)] obtain s3 where s3: "iget ROOTDEV ROOTINO s2 = Inr (0, s3)" "root_state s3" "root_entry 1 (inodes s3 0)"
    "i_flags (inodes s3 0) = 0" by blast
  from root_lock [OF s3(2,3)] s3(4) obtain s4 where s4: "ilock (Some 0) s3 = Inr ((), s4)" "root_state s4" "root_entry 1 (inodes s4 0)"
    "flag I_BUSY (i_flags (inodes s4 0))" "flag I_VALID (i_flags (inodes s4 0))" by auto
  from root_unlock(2) [OF s4(2-5)] obtain s5 where s5: "iunlockput 0 s4 = Inr ((), s5)" "root_state s5" by blast
  have sk: "skipelem (cstr ''/'') = None" "cstr ''/'' \<noteq> []" "hd (cstr ''/'') = SLASH" by (simp_all add: skipelem_def cstr_def SLASH_def)
  then have n: "namei (cstr ''/'') s2 = Inr (Some 0, s3)" using s3(1) by (simp add: namei_def namex_def namex_loop.simps)
  have ty: "i_type (inodes s4 0) = T_DIR" using s4(3,5) by (simp add: root_entry_def)
  define u where "u = s5\<lparr>thelog := (thelog s5)\<lparr>outstanding := 0, committing := 0\<rparr>\<rparr>"
  have e: "end_op s5 = Inr ((), u)" unfolding u_def by (rule end_op_empty [OF s5(2)])
  have "end_op u = Inr ((), u\<lparr>thelog := (thelog u)\<lparr>outstanding := -1\<rparr>\<rparr>)" by (simp add: end_op_def upd_log_def u_def)
  then obtain t where t: "end_op u = Inr ((), t)" by blast
  then have run: "sys_rename (cstr ''/'') (cstr ''/x'') m = Inr (-1, t)"
    using m(2) s2(1) n s4(1) ty s5(1) e by (simp add: sys_rename_def sys_dolink_def ino_at_def)
  from rename_closes_twice [OF m(2) s2(1) _ n _ run] s4(1) ty m(1,5) run show ?thesis by auto
qed

end
