(* ===== verification/Handles.thy ===== *)
theory Handles
  imports Sys_Props Write_Through "HOL-Library.Multiset"
begin

text \<open>
  Open files and the inode cache.  Every open file has a reference to its inode, and so has
  every local variable that holds an inode.  \<open>owned C s\<close> says that the inode cache has one entry per
  inode and that the counts of \<open>s\<close> cover both, where
  the multiset \<open>C\<close> holds the entries the running code has a reference to; \<open>moves\<close> follows these
  references through the code, the way the code passes them on, stores them and drops them.
\<close>

section \<open>Owned references\<close>

definition hview :: "kern \<Rightarrow> (nat \<Rightarrow> (u32 \<times> u32) \<times> int) \<times> (nat \<Rightarrow> int \<times> fd_type \<times> nat option) \<times> nat option" where
  "hview s = (iheld s, (\<lambda>f. (f_ref (ftable s f), f_type (ftable s f), f_ip (ftable s f))), curproc s)"

text \<open>The open files on a cache entry.\<close>

definition handles :: "kern \<Rightarrow> nat \<Rightarrow> nat set" where
  "handles s ip = {f. f < NFILE \<and> f_type (ftable s f) = FD_INODE \<and> f_ip (ftable s f) = Some ip}"

text \<open>
  The file table is well formed: counts are not negative, a free slot has no type, only the
  slots of the table are in use, and an inode file points into the inode cache.
\<close>

definition file_ok :: "nat \<Rightarrow> xfile \<Rightarrow> bool" where
  "file_ok f x \<longleftrightarrow> 0 \<le> f_ref x \<and> (f_ref x = 0 \<longrightarrow> f_type x = FD_NONE) \<and> (f_ref x \<noteq> 0 \<longrightarrow> f < NFILE) \<and>
     (f_type x = FD_INODE \<longrightarrow> (\<exists>ip < NINODE. f_ip x = Some ip))"

definition table_ok :: "kern \<Rightarrow> bool" where
  "table_ok s \<longleftrightarrow> (\<forall>f. file_ok f (ftable s f))"

definition owned :: "nat multiset \<Rightarrow> kern \<Rightarrow> bool" where
  "owned C s \<longleftrightarrow> table_ok s \<and> (\<forall>ip \<in># C. ip < NINODE) \<and> curproc s = None \<and>
     icache_ok s \<and> (\<forall>ip. i_ref (inodes s ip) \<le> INT_MAX) \<and> (\<forall>ip. int (card (handles s ip) + count C ip) \<le> i_ref (inodes s ip))"

lemma finite_handles [simp]: "finite (handles s ip)"
  by (rule finite_subset [of _ "{..<NFILE}"]) (auto simp: handles_def)

interpretation hv: inode_frame hview
proof
  fix f and s :: kern
  assume "\<And>ip. ikey (f ip) = ikey (inodes s ip) \<and> i_ref (f ip) = i_ref (inodes s ip) \<and> i_flags (f ip) = i_flags (inodes s ip)"
  then show "hview (s\<lparr>inodes := f\<rparr>) = hview s" by (simp add: hview_def iheld_def fun_eq_iff)
qed (simp_all add: hview_def iheld_def ikey_def fun_eq_iff pwrite_block_def)

interpretation hl: log_frame hview
  by unfold_locales (simp add: hview_def iheld_def fun_eq_iff)

lemma hview_same:
  assumes "hview t = hview s"
  shows "i_ref (inodes t ip) = i_ref (inodes s ip)" "f_ref (ftable t f) = f_ref (ftable s f)"
    "f_type (ftable t f) = f_type (ftable s f)" "f_ip (ftable t f) = f_ip (ftable s f)" "curproc t = curproc s"
  using assms by (auto simp: hview_def iheld_def fun_eq_iff)

lemma owned_hview:
  assumes "hview t = hview s"
  shows "owned C t = owned C s"
proof -
  note e = hview_same [OF assms]
  have "iheld t = iheld s" using assms by (simp add: hview_def)
  note c = icache_iheld(1) [OF this]
  show ?thesis unfolding owned_def c table_ok_def file_ok_def handles_def e ..
qed

lemma owned_less:
  assumes "owned C s" "D \<subseteq># C"
  shows "owned D s"
proof -
  have "int (card (handles s ip) + count D ip) \<le> i_ref (inodes s ip)" for ip
    using assms mset_subset_eq_count [OF assms(2), of ip] unfolding owned_def
    by (meson add_left_mono of_nat_mono order_trans)
  moreover have "\<forall>ip \<in># D. ip < NINODE" using assms mset_subset_eqD by (fastforce simp: owned_def)
  ultimately show ?thesis using assms(1) by (simp add: owned_def)
qed

text \<open>One entry's count changes together with the references the code has to it.\<close>

lemma owned_ref:
  assumes "owned C s" "inodes t = (inodes s)(ip := i)" "ftable t = ftable s" "curproc t = curproc s"
    and "\<And>jp. jp \<noteq> ip \<Longrightarrow> count D jp = count C jp" "ip < NINODE"
    and "int (card (handles s ip) + count D ip) \<le> i_ref i" "icache_ok t" "i_ref i \<le> INT_MAX"
  shows "owned D t"
proof -
  have h: "handles t = handles s" using assms(3) by (simp add: fun_eq_iff handles_def)
  have old: "\<And>jp. jp \<in># C \<Longrightarrow> jp < NINODE" "\<And>jp. int (card (handles s jp) + count C jp) \<le> i_ref (inodes s jp)"
    using assms(1) by (simp_all add: owned_def)
  have other: "jp \<in># D \<longleftrightarrow> jp \<in># C" if "jp \<noteq> ip" for jp
    using assms(5) [OF that] by (simp only: count_greater_zero_iff [symmetric])
  have "jp < NINODE" if "jp \<in># D" for jp
    using old(1) [of jp] other [of jp] that assms(6) by (cases "jp = ip") simp_all
  moreover have "int (card (handles t jp) + count D jp) \<le> i_ref (inodes t jp)" for jp
  proof (cases "jp = ip")
    case True
    with assms(2,7) h show ?thesis by simp
  next
    case False
    with old(2) [of jp] assms(2) assms(5) [OF False] h show ?thesis by simp
  qed
  ultimately show ?thesis using assms(1,2,3,4,8,9) by (simp add: owned_def table_ok_def)
qed

section \<open>Moving references\<close>

named_theorems mv

text \<open>\<open>moves C m D\<close>: run with the references \<open>C\<close>, \<open>m\<close> returns \<open>x\<close> with the references \<open>D x\<close>.\<close>

definition moves :: "nat multiset \<Rightarrow> 'a act \<Rightarrow> ('a \<Rightarrow> nat multiset) \<Rightarrow> bool" where
  "moves C m D \<longleftrightarrow> (\<forall>s x t. owned C s \<longrightarrow> m s = Inr (x, t) \<longrightarrow> owned (D x) t)"

lemma movesD: "moves C m D \<Longrightarrow> owned C s \<Longrightarrow> m s = Inr (x, t) \<Longrightarrow> owned (D x) t"
  unfolding moves_def by blast

lemma moves_keeps: "keeps hview m \<Longrightarrow> moves C m (\<lambda>_. C)"
  unfolding moves_def keeps_def using owned_hview by blast

lemma moves_bnd: "moves C m D \<Longrightarrow> (\<And>x. moves (D x) (f x) E) \<Longrightarrow> moves C (bnd m f) E"
  by (fastforce simp: moves_def bnd_eq_Inr)

lemma moves_bnd_keeps [mv]: "keeps hview m \<Longrightarrow> (\<And>x. moves C (f x) E) \<Longrightarrow> moves C (bnd m f) E"
  by (rule moves_bnd [OF moves_keeps])

lemma moves_ret [mv]: "D x \<subseteq># C \<Longrightarrow> moves C (ret x) D" "moves C (fail e) D"
  by (auto simp: moves_def owned_less)

lemma moves_if [mv]: "(b \<Longrightarrow> moves C m D) \<Longrightarrow> (\<not> b \<Longrightarrow> moves C n D) \<Longrightarrow> moves C (if b then m else n) D"
  by simp

lemma moves_option [mv]:
  "(r = None \<Longrightarrow> moves C m D) \<Longrightarrow> (\<And>x. r = Some x \<Longrightarrow> moves C (f x) D) \<Longrightarrow> moves C (case r of None \<Rightarrow> m | Some x \<Rightarrow> f x) D"
  by (cases r) auto

lemma moves_prod [mv]: "(\<And>x y. r = (x, y) \<Longrightarrow> moves C (f x y) D) \<Longrightarrow> moves C (case r of (x, y) \<Rightarrow> f x y) D"
  by (cases r) auto

lemma moves_weaken: "moves C m D \<Longrightarrow> (\<And>x. E x \<subseteq># D x) \<Longrightarrow> moves C m E"
  unfolding moves_def using owned_less by blast

section \<open>The reference operations\<close>

lemma moves_iget: "moves C (iget dev inum) (\<lambda>ip. add_mset ip C)"
  unfolding moves_def
proof (intro allI impI)
  fix s ip t
  assume s: "owned C s" "iget dev inum s = Inr (ip, t)"
  have o: "int (card (handles s ip) + count C ip) \<le> i_ref (inodes s ip)" using s(1) by (simp add: owned_def)
  have c: "icache_ok t" using iget_refs [OF _ s(2)] s(1) by (simp add: owned_def)
  show "owned (add_mset ip C) t"
  proof (cases "iget_hit (inodes s) dev inum")
    case (Some jp)
    note h = iget_hitD [OF Some]
    have t: "ip = jp" "t = s\<lparr>inodes := (inodes s)(jp := (inodes s jp)\<lparr>i_ref := i_ref (inodes s jp) + 1\<rparr>)\<rparr>"
      "int_range (i_ref (inodes s jp) + 1)"
      using s(2) by (auto simp: iget_hit_eq [OF Some] split: if_splits)
    then have "inodes t = (inodes s)(ip := (inodes s ip)\<lparr>i_ref := i_ref (inodes s ip) + 1\<rparr>)" by simp
    from owned_ref [OF s(1) this, of "add_mset ip C"] t h o c show ?thesis by (simp add: int_range_def)
  next
    case None
    with s(2) obtain jp where jp: "iget_empty (inodes s) = Some jp" by (auto simp: iget_def split: option.splits)
    have e: "jp < NINODE" "i_ref (inodes s jp) = 0" using find_SomeD [OF jp [unfolded iget_empty_def]] by auto
    have t: "ip = jp" "t = s\<lparr>inodes := (inodes s)(jp := (inodes s jp)\<lparr>i_dev := dev, i_inum := inum, i_ref := 1, i_flags := 0\<rparr>)\<rparr>"
      using s(2) None jp by (auto simp: iget_def upd_ino_def)
    then have "inodes t = (inodes s)(ip := (inodes s ip)\<lparr>i_dev := dev, i_inum := inum, i_ref := 1, i_flags := 0\<rparr>)" by simp
    from owned_ref [OF s(1) this, of "add_mset ip C"] t e o c show ?thesis by (simp add: INT_MAX_def)
  qed
qed

lemma moves_drop:
  assumes "ip \<in># C"
  shows "moves C (upd_ino ip (\<lambda>i. i\<lparr>i_ref := i_ref i - 1\<rparr>)) (\<lambda>_. C - {#ip#})"
  unfolding moves_def
proof (intro allI impI)
  fix s x t
  assume s: "owned C s" "upd_ino ip (\<lambda>i. i\<lparr>i_ref := i_ref i - 1\<rparr>) s = Inr (x, t)"
  obtain D where D: "C = add_mset ip D" using assms by (meson mset_add)
  have o: "int (card (handles s ip) + count C ip) \<le> i_ref (inodes s ip)" "ip < NINODE" "icache_ok s"
    "i_ref (inodes s ip) \<le> INT_MAX"
    using s(1) assms by (simp_all add: owned_def)
  then have l: "ilive s ip" "0 \<le> i_ref (inodes s ip) - 1" using D by (simp_all add: ilive_def)
  have t: "t = s\<lparr>inodes := (inodes s)(ip := (inodes s ip)\<lparr>i_ref := i_ref (inodes s ip) - 1\<rparr>)\<rparr>"
    using s(2) by (simp add: upd_ino_def)
  then have it: "inodes t = (inodes s)(ip := (inodes s ip)\<lparr>i_ref := i_ref (inodes s ip) - 1\<rparr>)" by simp
  from ref_change [OF o(3) l(1) it l(2)] have "icache_ok t" by blast
  with owned_ref [OF s(1) it, of D] t o D show "owned (C - {#ip#}) t" by simp
qed

lemma moves_iput: "ip \<in># C \<Longrightarrow> moves C (iput ip) (\<lambda>_. C - {#ip#})"
  unfolding iput_def by (intro moves_bnd_keeps moves_drop keep)

lemma moves_iunlockput: "ip \<in># C \<Longrightarrow> moves C (iunlockput ip) (\<lambda>_. C - {#ip#})"
  unfolding iunlockput_def by (intro moves_bnd_keeps moves_iput keep)

lemma moves_put [mv]:
  "ip \<in># C \<Longrightarrow> (\<And>x. moves (C - {#ip#}) (f x) D) \<Longrightarrow> moves C (bnd (iput ip) f) D"
  "ip \<in># C \<Longrightarrow> (\<And>x. moves (C - {#ip#}) (f x) D) \<Longrightarrow> moves C (bnd (iunlockput ip) f) D"
  by (rule moves_bnd [OF moves_iput], assumption+) (rule moves_bnd [OF moves_iunlockput], assumption+)


lemma moves_ialloc: "moves C (ialloc dev type) (\<lambda>ip. add_mset ip C)"
proof -
  have "moves C (ialloc_from dev type sb inum) (\<lambda>ip. add_mset ip C)" for sb inum
  proof (induction dev type sb inum rule: ialloc_from.induct)
    case (1 dev type sb inum)
    show ?case by (subst ialloc_from.simps) (intro mv keep moves_iget 1; assumption)
  qed
  then show ?thesis unfolding ialloc_def by (intro mv keep)
qed

section \<open>Directories and paths\<close>

text \<open>The reference in an optional result.\<close>

definition found :: "nat multiset \<Rightarrow> nat option \<Rightarrow> nat multiset" where
  "found C r = (case r of None \<Rightarrow> C | Some ip \<Rightarrow> add_mset ip C)"

lemma found_simps [simp]: "found C None = C" "found C (Some ip) = add_mset ip C"
  by (simp_all add: found_def)

lemma moves_dirlookup: "moves C (dirlookup dp name) (\<lambda>r. found C (map_option fst r))"
proof -
  have "moves C (dirlookup_from dp name off) (\<lambda>r. found C (map_option fst r))" for off
  proof (induction dp name off rule: dirlookup_from.induct)
    case (1 dp name off)
    show ?case
      by (subst dirlookup_from.simps)
        (intro mv keep moves_bnd [OF moves_iget] 1 | simp)+
  qed
  then show ?thesis unfolding dirlookup_def by (intro mv keep)
qed

lemma moves_dirlink: "moves C (dirlink dp name inum) (\<lambda>_. C)"
  unfolding dirlink_def by (intro mv keep moves_bnd [OF moves_dirlookup] | simp)+


lemma moves_namex_loop: "moves (add_mset ip C) (namex_loop ip path parent name) (\<lambda>(r, _). found C r)"
proof (induction ip path parent name arbitrary: C rule: namex_loop.induct)
  case (1 ip path parent name)
  show ?case
    by (subst namex_loop.simps) (intro mv keep moves_bnd [OF moves_dirlookup] 1 | simp)+
qed

text \<open>No system call of this program sets \<open>curproc\<close>, so a relative path finds no directory to start at.\<close>

lemma moves_cwd: "moves C (bnd (gets curproc) (\<lambda>cwd. case cwd of None \<Rightarrow> fail e | Some ip \<Rightarrow> m ip)) D"
  by (simp add: moves_def owned_def)

lemma moves_namex: "moves C (namex path parent) (\<lambda>(r, _). found C r)"
  unfolding namex_def by (rule moves_bnd [OF _ moves_namex_loop]) (intro moves_if moves_iget moves_cwd)

lemma moves_namei: "moves C (namei path) (found C)" "moves C (nameiparent path) (\<lambda>(r, _). found C r)"
  unfolding namei_def nameiparent_def by (rule moves_bnd [OF moves_namex], (intro mv | simp)+) (rule moves_namex)

section \<open>System calls\<close>

lemma offset_keep [keep]: "keeps hview (upd_file f (\<lambda>x. x\<lparr>f_off := o1 x\<rparr>))"
  unfolding upd_file_def by (rule keeps_modify) (simp add: hview_def iheld_def fun_eq_iff)

lemma file_ops_keep [keep]: "keeps hview (filestat f)" "keeps hview (fileread f n)" "keeps hview (filewrite f addr n)"
proof -
  have "keeps hview (filewrite_loop f ip src)" for ip src
  proof (induction f ip src rule: filewrite_loop.induct)
    case (1 f ip src)
    show ?case by (subst filewrite_loop.simps) (intro keep; assumption | intro keep 1)+
  qed
  then show "keeps hview (filewrite f addr n)" unfolding filewrite_def pipewrite_def by (intro keep)
  show "keeps hview (filestat f)" "keeps hview (fileread f n)"
    unfolding filestat_def fileread_def piperead_def by (intro keep)+
qed

lemmas moves_calls = moves_bnd [OF moves_namei(1)] moves_bnd [OF moves_namei(2)] moves_bnd [OF moves_dirlookup]
  moves_bnd [OF moves_ialloc] moves_bnd [OF moves_dirlink] moves_put

lemma moves_create_dots: "moves C (if b then create_dots dp ip else ret ()) (\<lambda>_. C)"
  unfolding create_dots_def by (rule moves_calls mv keep moves_keeps | simp)+

lemma moves_create: "moves C (create path type major minor) (found C)"
  unfolding create_def
  by (rule moves_calls moves_bnd [OF moves_create_dots] mv keep | simp)+

lemma moves_unlink: "moves C (sys_dounlink path) (\<lambda>_. C)"
  unfolding sys_dounlink_def unlink_entry_def unlink_bad_def
  by (rule moves_calls mv keep | simp)+

lemma moves_link_bad: "ip \<in># C \<Longrightarrow> moves C (link_bad ip) (\<lambda>_. C - {#ip#})"
  unfolding link_bad_def by (rule moves_calls mv keep | simp)+

lemma moves_link_entry: "moves (add_mset ip C) (link_entry ip new) (\<lambda>_. C)"
proof -
  have bad: "moves (add_mset ip C) (link_bad ip) (\<lambda>_. C)" using moves_link_bad [of ip "add_mset ip C"] by simp
  have lk: "moves D (if b then ret (-1) else dirlink dp name inum) (\<lambda>_. D)" for D b dp name inum
    by (rule moves_if moves_dirlink moves_ret | simp)+
  show ?thesis unfolding link_entry_def
    by (rule moves_calls moves_bnd [OF lk] mv keep bad | simp)+
qed

lemma moves_dolink: "moves C (sys_dolink old new) (\<lambda>_. C)"
  unfolding sys_dolink_def by (rule moves_calls mv keep moves_link_entry | simp)+


section \<open>Opening and closing\<close>

text \<open>A slot of the file table is rewritten, and references move between it and the code.\<close>

lemma owned_slot:
  assumes "owned C s" "t = s\<lparr>ftable := (ftable s)(f := x)\<rparr>" "file_ok f x" "\<And>jp. jp \<in># D \<Longrightarrow> jp < NINODE"
    and "\<And>jp. card (handles t jp) + count D jp \<le> card (handles s jp) + count C jp"
  shows "owned D t"
proof -
  have "int (card (handles t jp) + count D jp) \<le> i_ref (inodes t jp)" for jp
  proof -
    have "int (card (handles s jp) + count C jp) \<le> i_ref (inodes s jp)" using assms(1) by (simp add: owned_def)
    with assms(5) [of jp] assms(2) show ?thesis by simp
  qed
  moreover have "icache_ok t = icache_ok s" using assms(2) by (intro icache_iheld) (simp add: fun_eq_iff iheld_def)
  moreover have "table_ok t" using assms(1-3) by (simp add: owned_def table_ok_def)
  ultimately show ?thesis using assms(1,2,4) by (simp add: owned_def)
qed

text \<open>A slot that stays on its inode, one that gets an inode and one that loses it.\<close>

lemma handles_same:
  "f_type x = f_type (ftable s f) \<Longrightarrow> f_ip x = f_ip (ftable s f) \<Longrightarrow> handles (s\<lparr>ftable := (ftable s)(f := x)\<rparr>) jp = handles s jp"
  by (auto simp: handles_def)

lemma handles_open:
  assumes "f_type (ftable s f) \<noteq> FD_INODE" "f_type x = FD_INODE" "f_ip x = Some ip" "f < NFILE"
  shows "card (handles (s\<lparr>ftable := (ftable s)(f := x)\<rparr>) jp) = card (handles s jp) + (if jp = ip then 1 else 0)"
proof -
  have "handles (s\<lparr>ftable := (ftable s)(f := x)\<rparr>) jp = (if jp = ip then insert f (handles s jp) else handles s jp)"
    using assms by (auto simp: handles_def)
  moreover have "f \<notin> handles s ip" using assms(1) by (simp add: handles_def)
  ultimately show ?thesis by simp
qed

lemma handles_close:
  assumes "f_type (ftable s f) = FD_INODE" "f_ip (ftable s f) = Some ip" "f_type x = FD_NONE" "f < NFILE"
  shows "card (handles (s\<lparr>ftable := (ftable s)(f := x)\<rparr>) jp) + (if jp = ip then 1 else 0) = card (handles s jp)"
proof -
  have "handles (s\<lparr>ftable := (ftable s)(f := x)\<rparr>) jp = (if jp = ip then handles s jp - {f} else handles s jp)"
    using assms by (auto simp: handles_def)
  moreover have "f \<in> handles s ip" using assms by (simp add: handles_def)
  ultimately show ?thesis using card_Suc_Diff1 [of "handles s ip" f] by simp
qed

lemma filealloc_cases:
  assumes "filealloc s = Inr (r, t)"
  obtains (full) "r = None" "t = s"
    | (slot) f where "r = Some f" "f < NFILE" "f_ref (ftable s f) = 0" "t = s\<lparr>ftable := (ftable s)(f := (ftable s f)\<lparr>f_ref := 1\<rparr>)\<rparr>"
proof (cases "List.find (\<lambda>f. f_ref (ftable s f) = 0) [0..<NFILE]")
  case None
  with assms show ?thesis using full by (simp add: filealloc_def)
next
  case (Some f)
  with assms find_SomeD [OF Some] show ?thesis by (intro slot [of f]) (auto simp: filealloc_def upd_file_def)
qed

lemma moves_open_file: "moves (add_mset ip C) (open_file ip omode) (\<lambda>_. C)"
  unfolding moves_def
proof (intro allI impI)
  fix s r t
  assume s: "owned (add_mset ip C) s" "open_file ip omode s = Inr (r, t)"
  then obtain a u where a: "filealloc s = Inr (a, u)" by (auto simp: open_file_def bnd_eq_Inr)
  from a show "owned C t"
  proof (cases rule: filealloc_cases)
    case full
    have "moves (add_mset ip C) (bnd (iunlockput ip) (\<lambda>_. bnd end_op (\<lambda>_. ret (None :: nat option)))) (\<lambda>_. C)"
      by (rule moves_calls mv keep | simp)+
    from movesD [OF this s(1)] s(2) a full show ?thesis by (simp add: open_file_def)
  next
    case (slot f)
    have nt: "f_type (ftable s f) = FD_NONE" "ip < NINODE"
      using s(1) slot(3) by (simp_all add: owned_def table_ok_def file_ok_def)
    have "file_ok f ((ftable s f)\<lparr>f_ref := 1\<rparr>)" using slot(2) nt(1) by (simp add: file_ok_def)
    then have u: "owned (add_mset ip C) u"
      by (rule owned_slot [OF s(1) slot(4)]) (use s(1) in \<open>auto simp: slot(4) handles_same owned_def\<close>)
    let ?g = "\<lambda>x. x\<lparr>f_type := FD_INODE, f_ip := Some ip, f_off := 0,
      f_readable := \<not> flag O_WRONLY omode, f_writable := flag O_WRONLY omode \<or> flag O_RDWR omode\<rparr>"
    obtain v w where w: "iunlock (Some ip) u = Inr ((), v)" "end_op v = Inr ((), w)" "t = w\<lparr>ftable := (ftable w)(f := ?g (ftable w f))\<rparr>"
      using s(2) a slot(1) by (auto simp: open_file_def bnd_eq_Inr upd_file_def)
    have hw: "hview w = hview u" using keepsD [OF hv.keeps_ilock(2) w(1)] keepsD [OF hl.ops_keep(2) w(2)] by simp
    then have x: "f_ref (ftable w f) = 1" "f_type (ftable w f) = FD_NONE"
      using hview_same [OF hw] slot(4) nt(1) by simp_all
    have "owned (add_mset ip C) w" using u owned_hview [OF hw] by simp
    then show ?thesis
      by (rule owned_slot [OF _ w(3)]) (use x slot(2) nt(2) s(1) handles_open [of w f "?g (ftable w f)" ip] w(3) in
          \<open>auto simp: file_ok_def owned_def\<close>)
  qed
qed

lemma moves_fileclose: "moves C (fileclose f) (\<lambda>_. C)"
  unfolding moves_def
proof (intro allI impI)
  fix s r t
  assume s: "owned C s" "fileclose f s = Inr (r, t)"
  let ?x = "ftable s f"
  have ok: "file_ok f ?x" "\<And>jp. jp \<in># C \<Longrightarrow> jp < NINODE" using s(1) by (simp_all add: owned_def table_ok_def)
  have ge: "f_ref ?x \<ge> 1" using s(2) by (auto simp: fileclose_def file_at_def bnd_eq_Inr split: if_splits)
  then have lt: "f < NFILE" using ok(1) by (auto simp: file_ok_def)
  show "owned C t"
  proof (cases "f_ref ?x - 1 > 0")
    case True
    then have t: "t = s\<lparr>ftable := (ftable s)(f := ?x\<lparr>f_ref := f_ref ?x - 1\<rparr>)\<rparr>"
      using s(2) ge by (simp add: fileclose_def file_at_def upd_file_def)
    show ?thesis by (rule owned_slot [OF s(1) t _ ok(2)]) (use ok(1) True t handles_same in \<open>auto simp: file_ok_def\<close>)
  next
    case False
    let ?u = "s\<lparr>ftable := (ftable s)(f := ?x\<lparr>f_ref := 0, f_type := FD_NONE\<rparr>)\<rparr>"
    have fx: "file_ok f (?x\<lparr>f_ref := 0, f_type := FD_NONE\<rparr>)" by (simp add: file_ok_def)
    show ?thesis
    proof (cases "f_type ?x = FD_INODE")
      case True
      then obtain ip where ip: "f_ip ?x = Some ip" "ip < NINODE" using ok(1) by (auto simp: file_ok_def)
      have "owned (add_mset ip C) ?u"
      proof (rule owned_slot [OF s(1) refl fx])
        show "card (handles ?u jp) + count (add_mset ip C) jp \<le> card (handles s jp) + count C jp" for jp
          using handles_close [OF True ip(1) _ lt, of "?x\<lparr>f_ref := 0, f_type := FD_NONE\<rparr>" jp] by (auto split: if_splits)
      qed (use ok(2) ip(2) in auto)
      moreover have "bnd begin_op (\<lambda>_. bnd (iput ip) (\<lambda>_. end_op)) ?u = Inr (r, t)"
        using s(2) False ge True ip(1) by (simp add: fileclose_def file_at_def upd_file_def deref_def)
      moreover have "moves (add_mset ip C) (bnd begin_op (\<lambda>_. bnd (iput ip) (\<lambda>_. end_op))) (\<lambda>_. C)"
        by (rule moves_calls mv keep | simp add: moves_keeps keep)+
      ultimately show ?thesis by (blast dest: movesD)
    next
      case no: False
      then have t: "t = ?u" using s(2) False ge
        by (cases "f_type ?x") (simp_all add: fileclose_def file_at_def upd_file_def pipeclose_def)
      have "handles ?u jp = handles s jp" for jp using no by (auto simp: handles_def)
      then show ?thesis unfolding t by (intro owned_slot [OF s(1) refl fx ok(2)]) auto
    qed
  qed
qed


lemma moves_open: "moves C (sys_open path omode) (\<lambda>_. C)"
  unfolding sys_open_def by (rule moves_calls moves_bnd [OF moves_create] mv keep moves_open_file | simp)+

lemma moves_simple:
  "moves C (sys_fileclose f) (\<lambda>_. C)" "moves C (sys_read fh sz off) (\<lambda>_. C)" "moves C (sys_write fh buf off) (\<lambda>_. C)"
  "moves C (sys_readdirent fh off) (\<lambda>_. C)" "moves C (sys_unlink path) (\<lambda>_. C)"
  "moves C (sys_mkdir path) (\<lambda>_. C)" "moves C (sys_mksock path) (\<lambda>_. C)"
  unfolding sys_fileclose_def sys_read_def sys_write_def sys_readdirent_def sys_unlink_def sys_mkdir_def sys_mksock_def make_node_def
  by (rule moves_bnd [OF moves_fileclose] moves_bnd [OF moves_create] moves_bnd [OF moves_unlink] moves_calls mv keep moves_keeps | simp)+

lemma moves_by_name:
  "moves C (sys_fstat path) (\<lambda>_. C)" "moves C (sys_truncate path) (\<lambda>_. C)" "moves C (sys_utime path time) (\<lambda>_. C)"
  unfolding sys_fstat_def sys_truncate_def sys_utime_def
  by (rule moves_bnd [OF moves_open] moves_bnd [OF moves_fileclose] moves_calls mv keep | simp)+

lemma moves_rename: "moves C (sys_rename path1 path2) (\<lambda>_. C)"
proof -
  have l: "moves C (if b then bnd (sys_dolink path1 path2) (\<lambda>r. if r = 0 then sys_dounlink path1 else ret r) else ret r) (\<lambda>_. C)" for b r
    by (rule moves_bnd [OF moves_dolink] mv moves_unlink | simp)+
  show ?thesis unfolding sys_rename_def
    by (rule moves_bnd [OF moves_unlink] moves_bnd [OF l] mv keep | simp)+
qed

text \<open>Any system call, \<open>sys_rename\<close> included.\<close>

inductive any_call :: "kern \<Rightarrow> kern \<Rightarrow> bool" where
  any_rename: "sys_rename path1 path2 s = Inr (r, t) \<Longrightarrow> any_call s t"
| any_other: "syscall s t \<Longrightarrow> any_call s t"

lemma any_call_owned: "any_call s t \<Longrightarrow> owned C s \<Longrightarrow> owned C t"
  by (erule any_call.cases)
    (auto elim!: syscallE dest: movesD [OF moves_rename] movesD [OF moves_open] moves_simple [THEN movesD] moves_by_name [THEN movesD])

lemma start_owned: "owned {#} (process_start d n)"
  by (simp add: owned_def table_ok_def file_ok_def handles_def process_start_def zero_file_def zero_inode_def
      icache_ok_def INT_MAX_def)

lemma reachable_owned:
  assumes "mount (process_start d n) = Inr ((), s)" "any_call\<^sup>*\<^sup>* s t"
  shows "owned {#} t"
proof -
  have "owned {#} s" using start_owned [of d n] owned_hview [OF keepsD [OF hl.mount_keeps assms(1)]] by simp
  with assms(2) show ?thesis by (induction rule: rtranclp_induct) (auto intro: any_call_owned)
qed

text \<open>
  C11: Open files own their inodes.  In every state that a process reaches by mounting any image
  and running any system calls that return, each open inode file has a slot of the file table, is counted as
  open and points to an entry of the inode cache, and each entry's reference count is at least
  the number of files open on it; so no entry is recycled under an open file.
\<close>

theorem handles_own_inodes:
  assumes "mount (process_start d n) = Inr ((), s)" "any_call\<^sup>*\<^sup>* s t"
  shows "(\<forall>f. f_type (ftable t f) = FD_INODE \<longrightarrow> f < NFILE \<and> 1 \<le> f_ref (ftable t f) \<and> (\<exists>ip < NINODE. f_ip (ftable t f) = Some ip)) \<and>
    (\<forall>ip. int (card {f. f < NFILE \<and> f_type (ftable t f) = FD_INODE \<and> f_ip (ftable t f) = Some ip}) \<le> i_ref (inodes t ip))"
proof -
  note o = reachable_owned [OF assms]
  have "f < NFILE \<and> 1 \<le> f_ref (ftable t f) \<and> (\<exists>ip < NINODE. f_ip (ftable t f) = Some ip)" if "f_type (ftable t f) = FD_INODE" for f
  proof -
    have "file_ok f (ftable t f)" using o by (simp add: owned_def table_ok_def)
    with that show ?thesis by (cases "f_ref (ftable t f) = 0") (auto simp: file_ok_def)
  qed
  with o show ?thesis by (simp add: owned_def handles_def)
qed

theorem handles_own_inodes_witness:
  "\<exists>s :: kern. sample_handle (process_start sample_img 100) = Inr (Some 0, s) \<and> f_type (ftable s 0) = FD_INODE \<and>
     f_ip (ftable s 0) = Some 0 \<and> 1 \<le> i_ref (inodes s 0)"
proof -
  from sample_handle_ok obtain s where s: "sample_handle (process_start sample_img 100) = Inr (Some 0, s)"
    "ftable s 0 = zero_file\<lparr>f_ref := 1, f_type := FD_INODE, f_ip := Some 0, f_off := 0, f_readable := True, f_writable := True\<rparr>"
    by blast
  from s(1) obtain m where m: "mount (process_start sample_img 100) = Inr ((), m)" "sys_open (cstr ''/'') O_RDWR m = Inr (Some 0, s)"
    by (auto simp: sample_handle_def bnd_eq_Inr)
  have "any_call\<^sup>*\<^sup>* m s" using m(2) by (intro r_into_rtranclp any_other c_open)
  from handles_own_inodes [OF m(1) this] have
    "int (card {f. f < NFILE \<and> f_type (ftable s f) = FD_INODE \<and> f_ip (ftable s f) = Some 0}) \<le> i_ref (inodes s 0)" by blast
  moreover have "0 \<in> {f. f < NFILE \<and> f_type (ftable s f) = FD_INODE \<and> f_ip (ftable s f) = Some 0}"
    using s(2) by (simp add: layout)
  then have "0 < card {f. f < NFILE \<and> f_type (ftable s f) = FD_INODE \<and> f_ip (ftable s f) = Some 0}"
    by (intro card_gt_0_iff [THEN iffD2]) (auto intro: finite_subset [of _ "{..<NFILE}"])
  ultimately have "1 \<le> i_ref (inodes s 0)" by linarith
  with s show ?thesis by (intro exI [of _ s]) simp
qed

text \<open>
  C22: The inode cache in every reachable state.  In every state that a process reaches by mounting
  any image and running any system calls that return, every entry's count is an \<open>int\<close> that is not
  negative, no inode has two entries in use, and the next \<open>iget\<close> of an inode that is in use finds its entry.
\<close>

theorem icache_reachable:
  assumes "mount (process_start d n) = Inr ((), s)" "any_call\<^sup>*\<^sup>* s t"
  shows "(\<forall>ip. 0 \<le> i_ref (inodes t ip) \<and> i_ref (inodes t ip) \<le> INT_MAX) \<and>
    (\<forall>ip < NINODE. \<forall>jp < NINODE. 0 < i_ref (inodes t ip) \<and> 0 < i_ref (inodes t jp) \<and>
       i_dev (inodes t ip) = i_dev (inodes t jp) \<and> i_inum (inodes t ip) = i_inum (inodes t jp) \<longrightarrow> ip = jp) \<and>
    (\<forall>ip < NINODE. 0 < i_ref (inodes t ip) \<longrightarrow> iget_hit (inodes t) (i_dev (inodes t ip)) (i_inum (inodes t ip)) = Some ip)"
proof -
  note o = reachable_owned [OF assms]
  then have ok: "icache_ok t" by (simp add: owned_def)
  have b: "i_ref (inodes t ip) \<le> INT_MAX" "int (card (handles t ip) + count {#} ip) \<le> i_ref (inodes t ip)" for ip
    using o by (simp_all add: owned_def)
  have n: "0 \<le> i_ref (inodes t ip)" for ip
    using b(2) [of ip] by linarith
  have uniq: "ip = jp" if "ip < NINODE" "jp < NINODE" "0 < i_ref (inodes t ip) \<and> 0 < i_ref (inodes t jp) \<and>
       i_dev (inodes t ip) = i_dev (inodes t jp) \<and> i_inum (inodes t ip) = i_inum (inodes t jp)" for ip jp
    using ok that by (simp add: icache_ok_def ikey_def)
  have "iget_hit (inodes t) (i_dev (inodes t ip)) (i_inum (inodes t ip)) = Some ip"
    if "ip < NINODE" "0 < i_ref (inodes t ip)" for ip
  proof (cases "iget_hit (inodes t) (i_dev (inodes t ip)) (i_inum (inodes t ip))")
    case None
    from iget_missD [OF this that] show ?thesis by (simp add: ikey_def)
  next
    case (Some jp)
    then have h: "jp < NINODE" "0 < i_ref (inodes t jp)" "i_dev (inodes t jp) = i_dev (inodes t ip)"
      "i_inum (inodes t jp) = i_inum (inodes t ip)" using iget_hitD [OF Some] by (auto simp: ikey_def)
    have "ip = jp" by (rule uniq [OF that(1) h(1)]) (intro conjI that(2) h(2) h(3,4) [symmetric])
    with Some show ?thesis by simp
  qed
  then show ?thesis using n b(1) uniq by (intro conjI allI impI)
qed

theorem icache_reachable_witness:
  "\<exists>s t. mount (process_start sample_img 100) = Inr ((), s) \<and> any_call\<^sup>*\<^sup>* s t \<and> f_ip (ftable t 0) = Some 0 \<and>
     iget_hit (inodes t) (i_dev (inodes t 0)) (i_inum (inodes t 0)) = Some 0"
proof -
  from sample_handle_ok obtain t where t: "sample_handle (process_start sample_img 100) = Inr (Some 0, t)"
    "ftable t 0 = zero_file\<lparr>f_ref := 1, f_type := FD_INODE, f_ip := Some 0, f_off := 0, f_readable := True, f_writable := True\<rparr>"
    "inode_ready (inodes t 0)"
    by blast
  from t(1) obtain s where s: "mount (process_start sample_img 100) = Inr ((), s)" "sys_open (cstr ''/'') O_RDWR s = Inr (Some 0, t)"
    by (auto simp: sample_handle_def bnd_eq_Inr)
  have c: "any_call\<^sup>*\<^sup>* s t" using s(2) by (intro r_into_rtranclp any_other c_open)
  have z: "0 < i_ref (inodes t 0)" "0 < NINODE" using t(3) by (simp_all add: layout inode_ready_def)
  have "iget_hit (inodes t) (i_dev (inodes t 0)) (i_inum (inodes t 0)) = Some 0"
    using icache_reachable [OF s(1) c] z by blast
  with s(1) c t(2) show ?thesis by (intro exI [of _ s] exI [of _ t] conjI) simp_all
qed

end
