(* ===== verification/Ilocks.thy ===== *)
theory Ilocks
  imports Handles
begin

text \<open>
  Inode locks.  \<open>bounds B L m D\<close> bounds a set \<open>B\<close> of locked objects before and after \<open>m\<close>; for the
  locked entries of the inode cache the rules follow the \<open>ilock\<close> and \<open>iunlock\<close> calls along every path of the code, error paths included.
\<close>

section \<open>Bounded sets\<close>

named_theorems lck

definition bounds :: "(kern \<Rightarrow> nat set) \<Rightarrow> nat set \<Rightarrow> 'a act \<Rightarrow> ('a \<Rightarrow> nat set) \<Rightarrow> bool" where
  "bounds B L m D \<longleftrightarrow> (\<forall>s x t. B s \<subseteq> L \<longrightarrow> m s = Inr (x, t) \<longrightarrow> B t \<subseteq> D x)"

lemma boundsD: "bounds B L m D \<Longrightarrow> B s \<subseteq> L \<Longrightarrow> m s = Inr (x, t) \<Longrightarrow> B t \<subseteq> D x"
  unfolding bounds_def by blast

lemma bounds_keeps: "keeps B m \<Longrightarrow> bounds B L m (\<lambda>_. L)"
  by (auto simp: bounds_def keeps_def)

lemma bounds_bnd: "bounds B L m D \<Longrightarrow> (\<And>x. bounds B (D x) (f x) E) \<Longrightarrow> bounds B L (bnd m f) E"
  by (fastforce simp: bounds_def bnd_eq_Inr)

lemma bounds_bnd_keeps [lck]: "keeps B m \<Longrightarrow> (\<And>x. bounds B L (f x) E) \<Longrightarrow> bounds B L (bnd m f) E"
  by (rule bounds_bnd [OF bounds_keeps])

lemma bounds_ret [lck]: "L \<subseteq> D x \<Longrightarrow> bounds B L (ret x) D" "bounds B L (fail e) D"
  by (auto simp: bounds_def)

lemma bounds_guard: "bounds B L (guard b e) (\<lambda>_. L)"
  by (rule bounds_keeps) (rule keep)

lemma bounds_if [lck]: "(b \<Longrightarrow> bounds B L m D) \<Longrightarrow> (\<not> b \<Longrightarrow> bounds B L n D) \<Longrightarrow> bounds B L (if b then m else n) D"
  by simp

lemma bounds_option [lck]:
  "(r = None \<Longrightarrow> bounds B L m D) \<Longrightarrow> (\<And>x. r = Some x \<Longrightarrow> bounds B L (f x) D) \<Longrightarrow> bounds B L (case r of None \<Rightarrow> m | Some x \<Rightarrow> f x) D"
  by (cases r) auto

lemma bounds_prod [lck]: "(\<And>x y. r = (x, y) \<Longrightarrow> bounds B L (f x y) D) \<Longrightarrow> bounds B L (case r of (x, y) \<Rightarrow> f x y) D"
  by (cases r) auto

lemma bounds_fd [lck]:
  "bounds B L m D \<Longrightarrow> bounds B L n D \<Longrightarrow> bounds B L o' D \<Longrightarrow> bounds B L (case t of FD_NONE \<Rightarrow> m | FD_PIPE \<Rightarrow> n | FD_INODE \<Rightarrow> o') D"
  by (cases t) auto

lemma bounds_weaken: "bounds B L m D \<Longrightarrow> K \<subseteq> L \<Longrightarrow> (\<And>x. D x \<subseteq> E x) \<Longrightarrow> bounds B K m E"
  unfolding bounds_def by (meson order_trans)

lemmas bounds_basic = bounds_ret bounds_if bounds_option bounds_prod bounds_fd

section \<open>Locked entries\<close>

definition busy :: "kern \<Rightarrow> nat set" where
  "busy s = {ip. flag I_BUSY (i_flags (inodes s ip))}"

interpretation bz: content_frame busy
  by unfold_locales (simp_all add: busy_def pwrite_block_def)

interpretation bl: log_frame busy
  by unfold_locales (simp add: busy_def)

abbreviation locks :: "nat set \<Rightarrow> 'a act \<Rightarrow> ('a \<Rightarrow> nat set) \<Rightarrow> bool" where
  "locks \<equiv> bounds busy"

section \<open>Locking and unlocking\<close>

lemma locks_set: "locks L (upd_ino ip (\<lambda>i. i\<lparr>i_flags := fl i\<rparr>)) (\<lambda>_. insert ip L)"
  by (auto simp: bounds_def busy_def upd_ino_def)

lemma locks_clear:
  "(\<And>i. \<not> flag I_BUSY (fl i)) \<Longrightarrow> locks L (upd_ino ip (\<lambda>i. i\<lparr>i_flags := fl i\<rparr>)) (\<lambda>_. L - {ip})"
  by (auto simp: bounds_def busy_def upd_ino_def split: if_splits)

lemma locks_ilock: "locks L (ilock ipo) (\<lambda>_. L \<union> set_option ipo)"
proof (cases ipo)
  case (Some ip)
  show ?thesis
    unfolding ilock_unfold Some option.case option.set Un_insert_right Un_empty_right
    by (rule bounds_bnd [OF locks_set] bounds_guard lck keep | simp)+
qed (simp add: ilock_unfold bounds_ret)

lemma locks_iunlock: "locks L (iunlock ipo) (\<lambda>_. L - set_option ipo)"
proof (cases ipo)
  case (Some ip)
  show ?thesis unfolding iunlock_def Some option.case option.set by (rule lck keep locks_clear | simp)+
qed (simp add: iunlock_def bounds_ret)


lemma refs_keep_busy [keep]: "keeps busy (upd_ino ip (\<lambda>i. i\<lparr>i_ref := rf i\<rparr>))" "keeps busy (idup ip)"
proof -
  show u: "keeps busy (upd_ino ip (\<lambda>i. i\<lparr>i_ref := rf i\<rparr>))" for rf
    unfolding upd_ino_def by (rule keeps_modify) (auto simp: busy_def)
  show "keeps busy (idup ip)" unfolding idup_def by (intro keep u)
qed

lemma locks_iget: "locks L (iget dev inum) (\<lambda>_. L)"
proof -
  have "locks L (upd_ino ip (\<lambda>i. i\<lparr>i_dev := dev, i_inum := inum, i_ref := 1, i_flags := 0\<rparr>)) (\<lambda>_. L)" for ip
    by (auto simp: bounds_def busy_def upd_ino_def flag_def split: if_splits)
  note e = bounds_bnd [OF this]
  show ?thesis unfolding iget_def by (rule e lck keep | simp)+
qed

lemma locks_iput: "locks L (iput ip) (\<lambda>_. L)"
proof -
  have z: "locks (insert ip L) (upd_ino ip (\<lambda>i. i\<lparr>i_flags := 0\<rparr>)) (\<lambda>_. L)"
    by (rule bounds_weaken [OF locks_clear [of "\<lambda>_. 0" "insert ip L"]]) (auto simp: flag_def)
  have "locks L (if b then bnd (guard c e) (\<lambda>_.
         bnd (upd_ino ip (\<lambda>i. i\<lparr>i_flags := set_flag I_BUSY (i_flags i)\<rparr>)) (\<lambda>_.
         bnd (itrunc ip) (\<lambda>_. bnd (upd_ino ip (\<lambda>i. i\<lparr>i_type := 0\<rparr>)) (\<lambda>_. bnd (iupdate ip) (\<lambda>_.
         upd_ino ip (\<lambda>i. i\<lparr>i_flags := 0\<rparr>)))))) else ret ()) (\<lambda>_. L)" for b c e
    by (rule z bounds_bnd [OF locks_set] lck keep | simp)+
  note f = bounds_bnd [OF this]
  show ?thesis unfolding iput_def by (rule f lck keep bounds_keeps)+
qed

lemma locks_iunlockput: "locks L (iunlockput ip) (\<lambda>_. L - {ip})"
  unfolding iunlockput_def by (rule bounds_bnd [OF locks_iunlock]) (simp add: locks_iput)

lemma locks_ialloc: "locks L (ialloc dev type) (\<lambda>_. L)"
proof -
  have "locks L (ialloc_from dev type sb inum) (\<lambda>_. L)" for sb inum
  proof (induction dev type sb inum rule: ialloc_from.induct)
    case (1 dev type sb inum)
    show ?case by (subst ialloc_from.simps) (intro lck keep locks_iget 1; assumption)
  qed
  then show ?thesis unfolding ialloc_def by (intro lck keep)
qed

section \<open>Directories and paths\<close>

lemma locks_dirlookup: "locks L (dirlookup dp name) (\<lambda>_. L)"
proof -
  have "locks L (dirlookup_from dp name off) (\<lambda>_. L)" for off
  proof (induction dp name off rule: dirlookup_from.induct)
    case (1 dp name off)
    show ?case by (subst dirlookup_from.simps) (rule bounds_bnd [OF locks_iget] lck keep 1 | simp)+
  qed
  then show ?thesis unfolding dirlookup_def by (intro lck keep)
qed

lemmas locks_refs = bounds_bnd [OF locks_ilock] bounds_bnd [OF locks_iunlock] bounds_bnd [OF locks_iput]
  bounds_bnd [OF locks_iunlockput] bounds_bnd [OF locks_ialloc] bounds_bnd [OF locks_dirlookup]

lemma locks_dirlink: "locks L (dirlink dp name inum) (\<lambda>_. L)"
  unfolding dirlink_def by (rule locks_refs lck keep | simp)+

lemma locks_namex_loop: "locks L (namex_loop ip path parent name) (\<lambda>_. L)"
proof (induction ip path parent name rule: namex_loop.induct)
  case (1 ip path parent name)
  show ?case
    by (subst namex_loop.simps) (rule locks_refs lck keep bounds_weaken [OF 1] | force)+
qed

lemma locks_namex: "locks L (namex path parent) (\<lambda>_. L)"
  unfolding namex_def
  by (rule bounds_bnd [OF _ locks_namex_loop]) (rule locks_iget lck keep bounds_keeps)+

lemma locks_namei: "locks L (namei path) (\<lambda>_. L)" "locks L (nameiparent path) (\<lambda>_. L)"
  unfolding namei_def nameiparent_def by (rule bounds_bnd [OF locks_namex] locks_namex lck | simp)+


section \<open>Files and system calls\<close>

lemma others_keep_busy [keep]: "keeps busy (upd_file f g)" "keeps busy filealloc"
proof -
  show u: "keeps busy (upd_file f g)" for f g unfolding upd_file_def by (rule keeps_modify) (simp add: busy_def)
  show "keeps busy filealloc" unfolding filealloc_def by (intro keep u)
qed

lemma locks_files:
  "locks L (fileclose f) (\<lambda>_. L)" "locks L (filestat f) (\<lambda>_. L)" "locks L (fileread f n) (\<lambda>_. L)"
  unfolding fileclose_def filestat_def fileread_def piperead_def pipeclose_def
  by (rule locks_refs lck keep bounds_keeps | force)+

lemma locks_filewrite: "locks L (filewrite f addr n) (\<lambda>_. L)"
proof -
  have "locks L (filewrite_loop f ip src) (\<lambda>_. L)" for ip src
  proof (induction f ip src rule: filewrite_loop.induct)
    case (1 f ip src)
    show ?case by (subst filewrite_loop.simps) (rule locks_refs lck keep bounds_weaken [OF 1] | force)+
  qed
  note w = bounds_bnd [OF this]
  have "locks L (if b then bnd begin_op (\<lambda>_. bnd (ilock (Some ip)) (\<lambda>_. bnd (ino_at ip) (\<lambda>j. bnd (zeroi ip (i_size j) k) (\<lambda>_.
      bnd (iunlock (Some ip)) (\<lambda>_. end_op))))) else ret ()) (\<lambda>_. L)" for b ip k
    by (rule locks_refs lck keep bounds_weaken [OF bounds_keeps [of _ end_op]] | force)+
  note z = bounds_bnd [OF this]
  show ?thesis unfolding filewrite_def pipewrite_def by (rule w z lck keep | simp)+
qed

lemma locks_create: "locks L (create path type major minor) (\<lambda>r. L \<union> set_option r)"
proof -
  have "locks K (if b then create_dots dp ip else ret ()) (\<lambda>_. K)" for K b dp ip
    unfolding create_dots_def by (rule bounds_bnd [OF locks_dirlink] bounds_guard lck keep | simp)+
  note d = bounds_bnd [OF this]
  show ?thesis unfolding create_def
    by (rule d bounds_bnd [OF locks_namei(2)] bounds_bnd [OF locks_dirlink] locks_refs lck keep | force)+
qed

lemma locks_unlink: "locks L (sys_dounlink path) (\<lambda>_. L)"
proof -
  have "locks K (if b then isdirempty ip else ret True) (\<lambda>_. K)" for K b ip
    by (rule lck keep bounds_keeps | simp)+
  note e = bounds_bnd [OF this]
  have "locks K (if b then bnd (upd_ino dp (\<lambda>d. d\<lparr>i_nlink := i_nlink d - 1\<rparr>)) (\<lambda>_. iupdate dp) else ret ()) (\<lambda>_. K)" for K b dp
    by (rule lck keep bounds_keeps | simp)+
  note n = bounds_bnd [OF this]
  show ?thesis unfolding sys_dounlink_def unlink_entry_def unlink_bad_def
    by (rule e n bounds_bnd [OF locks_namei(2)] locks_refs lck keep | force)+
qed

lemma locks_dolink: "locks L (sys_dolink old new) (\<lambda>_. L)"
proof -
  have bad: "locks K (link_bad ip) (\<lambda>_. K)" for K ip
    unfolding link_bad_def by (rule locks_refs lck keep | force)+
  have "locks K (if b then ret (-1) else dirlink dp name inum) (\<lambda>_. K)" for K b dp name inum
    by (rule locks_dirlink lck | simp)+
  note d = bounds_bnd [OF this]
  have e: "locks K (link_entry ip new) (\<lambda>_. K)" for K ip
    unfolding link_entry_def by (rule d bounds_bnd [OF locks_namei(2)] bounds_weaken [OF bad] locks_refs lck keep | force)+
  show ?thesis unfolding sys_dolink_def
    by (rule bounds_bnd [OF locks_namei(1)] bounds_weaken [OF e] locks_refs lck keep | force)+
qed

lemma locks_open: "locks L (sys_open path omode) (\<lambda>_. L)"
proof -
  have f: "locks (insert ip L) (open_file ip omode) (\<lambda>_. L)" for ip
    unfolding open_file_def by (rule locks_refs lck keep | force)+
  show ?thesis unfolding sys_open_def
    by (rule bounds_bnd [OF locks_create] bounds_bnd [OF locks_namei(1)] bounds_weaken [OF f] locks_refs lck keep | force)+
qed


lemma locks_calls:
  "locks L (sys_fileclose f) (\<lambda>_. L)" "locks L (sys_read fh sz off) (\<lambda>_. L)" "locks L (sys_write fh buf off) (\<lambda>_. L)"
  "locks L (sys_readdirent fh off) (\<lambda>_. L)" "locks L (sys_unlink path) (\<lambda>_. L)"
  "locks L (sys_mkdir path) (\<lambda>_. L)" "locks L (sys_mksock path) (\<lambda>_. L)"
  unfolding sys_fileclose_def sys_read_def sys_write_def sys_readdirent_def sys_unlink_def sys_mkdir_def sys_mksock_def make_node_def
  by (rule bounds_bnd [OF locks_files(1)] bounds_bnd [OF locks_create] bounds_bnd [OF locks_unlink] locks_files locks_filewrite
      locks_refs lck keep | force)+

lemma locks_by_name:
  "locks L (sys_fstat path) (\<lambda>_. L)" "locks L (sys_truncate path) (\<lambda>_. L)" "locks L (sys_utime path time) (\<lambda>_. L)"
  unfolding sys_fstat_def sys_truncate_def sys_utime_def
  by (rule bounds_bnd [OF locks_open] bounds_bnd [OF locks_files(1)] bounds_bnd [OF locks_files(2)] locks_refs lck keep | force)+

lemma locks_rename: "locks L (sys_rename path1 path2) (\<lambda>_. L)"
proof -
  have "locks L (if b then bnd (sys_dolink path1 path2) (\<lambda>r. if r = 0 then sys_dounlink path1 else ret r) else ret r) (\<lambda>_. L)" for b r
    by (rule bounds_bnd [OF locks_dolink] lck locks_unlink | simp)+
  note l = bounds_bnd [OF this]
  show ?thesis unfolding sys_rename_def by (rule l bounds_bnd [OF locks_unlink] lck keep | simp)+
qed

lemma any_call_locks:
  assumes "any_call s t" "busy s \<subseteq> L"
  shows "busy t \<subseteq> L"
  using assms
  by (elim any_call.cases)
    (auto elim!: syscallE dest!: boundsD [OF locks_rename assms(2)] boundsD [OF locks_open assms(2)]
      locks_calls [THEN boundsD, OF assms(2)] locks_by_name [THEN boundsD, OF assms(2)])

lemma reachable_unlocked:
  assumes "mount (process_start d n) = Inr ((), s)" "any_call\<^sup>*\<^sup>* s t"
  shows "busy t = {}"
proof -
  have "busy (process_start d n) = {}" by (simp add: busy_def process_start_def zero_inode_def flag_def)
  then have "busy s \<subseteq> {}" using keepsD [OF bl.mount_keeps assms(1)] by simp
  with assms(2) have "busy t \<subseteq> {}" by (induction rule: rtranclp_induct) (auto dest: any_call_locks)
  then show ?thesis by simp
qed

end
