(* ===== verification/Buf_Locks.thy ===== *)
theory Buf_Locks
  imports Ilocks
begin

text \<open>
  Buffer locks.  A buffer is busy from the \<open>bread\<close> that returns it to its \<open>brelse\<close>.  Every function
  above the buffer cache releases the buffers it reads, on every path on which it returns.
\<close>

section \<open>Busy buffers\<close>

definition bufbusy :: "kern \<Rightarrow> nat set" where
  "bufbusy s = {b. flag B_BUSY (b_flags (bufs s b))}"

text \<open>\<open>evenly m\<close>: \<open>m\<close> leaves no buffer busy that was not.\<close>

definition evenly :: "'a act \<Rightarrow> bool" where
  "evenly m \<longleftrightarrow> (\<forall>L. bounds bufbusy L m (\<lambda>_. L))"

named_theorems evn

lemma evenlyI: "(\<And>L. bounds bufbusy L m (\<lambda>_. L)) \<Longrightarrow> evenly m"
  by (simp add: evenly_def)

lemma evenlyD: "evenly m \<Longrightarrow> m s = Inr (x, t) \<Longrightarrow> bufbusy t \<subseteq> bufbusy s"
  unfolding evenly_def bounds_def by blast

lemma bounds_evenly: "evenly m \<Longrightarrow> L \<subseteq> K \<Longrightarrow> bounds bufbusy L m (\<lambda>_. K)"
  unfolding evenly_def by (meson bounds_weaken order_refl)

lemma bounds_bnd_evenly: "evenly m \<Longrightarrow> (\<And>x. bounds bufbusy L (f x) E) \<Longrightarrow> bounds bufbusy L (bnd m f) E"
  unfolding evenly_def by (rule bounds_bnd [of _ _ _ "\<lambda>_. L"]) simp_all

lemma evenly_bnd [evn]: "evenly m \<Longrightarrow> (\<And>x. evenly (f x)) \<Longrightarrow> evenly (bnd m f)"
  by (rule evenlyI, rule bounds_bnd_evenly) (auto simp: evenly_def)

lemma evenly_keeps: "keeps bufbusy m \<Longrightarrow> evenly m"
  by (rule evenlyI) (rule bounds_keeps)

lemma evenly_basic [evn]: "evenly (ret x)" "evenly (fail e)" "evenly (gets f)" "evenly (guard b e)" "evenly (lift r)"
  by (rule evenly_keeps, rule keep)+

lemma evenly_if [evn]: "(b \<Longrightarrow> evenly m) \<Longrightarrow> (\<not> b \<Longrightarrow> evenly n) \<Longrightarrow> evenly (if b then m else n)"
  by simp

lemma evenly_option [evn]:
  "(r = None \<Longrightarrow> evenly m) \<Longrightarrow> (\<And>x. r = Some x \<Longrightarrow> evenly (f x)) \<Longrightarrow> evenly (case r of None \<Rightarrow> m | Some x \<Rightarrow> f x)"
  by (cases r) auto

lemma evenly_prod [evn]: "(\<And>x y. r = (x, y) \<Longrightarrow> evenly (f x y)) \<Longrightarrow> evenly (case r of (x, y) \<Rightarrow> f x y)"
  by (cases r) auto

lemma evenly_let [evn]: "(\<And>x. evenly (f x)) \<Longrightarrow> evenly (let x = v in f x)"
  by simp

lemma evenly_fd [evn]: "evenly m \<Longrightarrow> evenly n \<Longrightarrow> evenly o' \<Longrightarrow> evenly (case t of FD_NONE \<Rightarrow> m | FD_PIPE \<Rightarrow> n | FD_INODE \<Rightarrow> o')"
  by (cases t) auto

section \<open>The buffer cache and the log\<close>

lemma evenly_state [evn]:
  "evenly (upd_ino ip g)" "evenly (upd_file f h)" "evenly (upd_log k)" "evenly (upd_lh j)" "evenly (unix_write a d)"
  "evenly (unix_read a)" "evenly ideflush"
proof -
  have m: "evenly (modify u)" if "\<And>s. bufs (u s) = bufs s" for u
    by (rule evenly_keeps, rule keeps_modify) (simp add: bufbusy_def that)
  show "evenly (upd_ino ip g)" "evenly (upd_file f h)" "evenly (upd_log k)" "evenly (upd_lh j)" for k j
    unfolding upd_ino_def upd_file_def upd_log_def upd_lh_def by (intro m; simp)+
  show "evenly (unix_write a d)" "evenly (unix_read a)" "evenly ideflush"
    unfolding unix_write_def unix_read_def ideflush_def unix_flush_def by (intro evn m; simp add: pwrite_block_def)+
qed

lemma evenly_buf: "(\<And>bp. flag B_BUSY (b_flags (g bp)) = flag B_BUSY (b_flags bp)) \<Longrightarrow> evenly (upd_buf b g)"
  by (rule evenly_keeps) (auto simp: upd_buf_def keeps_def bufbusy_def)

lemma evenly_reads [evn]: "evenly (buf_at b)" "evenly (buf_data b)" "evenly (ino_at ip)" "evenly (file_at f)" "evenly unix_time" "evenly (deref ipo)"
  unfolding buf_at_def buf_data_def ino_at_def file_at_def unix_time_def deref_def by (intro evn)+

lemma evenly_driver [evn]: "evenly (iderw b)" "evenly (bwrite b)" "evenly (set_data b d)" "evenly (log_write b)"
  unfolding iderw_def bwrite_def set_data_def log_write_def by ((intro evn evenly_buf; simp)+)[4]

lemma bounds_bread: "bounds bufbusy L (bread dev a) (\<lambda>b. insert b L)"
proof -
  have "bounds bufbusy L (upd_buf b g) (\<lambda>_. insert b L)" for b g
    by (auto simp: bounds_def upd_buf_def bufbusy_def split: if_splits)
  note u = bounds_bnd [OF this]
  have "bounds bufbusy L (bget dev a) (\<lambda>b. insert b L)"
    unfolding bget_unfold by (rule u bounds_basic bounds_bnd_evenly evn | simp)+
  note g = bounds_bnd [OF this]
  show ?thesis unfolding bread_def by (rule g bounds_basic bounds_bnd_evenly evn | simp)+
qed

lemma bounds_brelse: "bounds bufbusy L (brelse b) (\<lambda>_. L - {b})"
  unfolding bounds_def
proof (intro allI impI)
  fix s x t
  assume s: "bufbusy s \<subseteq> L" "brelse b s = Inr (x, t)"
  have "bufs t = (\<lambda>c. let bp = brelse_links b (bufs s) c in if c = b then bp\<lparr>b_flags := clear_flag B_BUSY (b_flags bp)\<rparr> else bp)"
    using s(2) by (auto simp: brelse_def bnd_eq_Inr buf_at_def upd_buf_def split: if_splits)
  with s(1) show "bufbusy t \<subseteq> L - {b}" by (auto simp: bufbusy_def Let_def split: if_splits)
qed


lemma bounds_brelse_last: "L - {b} \<subseteq> K \<Longrightarrow> bounds bufbusy L (brelse b) (\<lambda>_. K)"
  by (rule bounds_weaken [OF bounds_brelse]) simp_all

text \<open>Between reading a buffer and releasing it.\<close>

lemmas bounds_bufs = bounds_bnd [OF bounds_bread] bounds_bnd [OF bounds_brelse] bounds_brelse_last
  bounds_basic bounds_bnd_evenly bounds_evenly

lemma evenly_log [evn]: "evenly begin_op" "evenly end_op" "evenly (readsb dev)" "evenly install_trans" "evenly write_head"
proof -
  have one: "evenly (install_one i)" for i
    unfolding install_one_def by (rule evenlyI, (rule bounds_bufs evn | force)+)
  have two: "evenly (write_log_one i)" for i
    unfolding write_log_one_def by (rule evenlyI, (rule bounds_bufs evn | force)+)
  have f: "evenly (install_from k i)" for k i by (induction k arbitrary: i) (simp_all only: install_from.simps, (intro evn one; assumption?)+)
  moreover have "evenly (write_log_from k i)" for k i
    by (induction k arbitrary: i) (simp_all only: write_log_from.simps, (intro evn two; assumption?)+)
  moreover show h: "evenly write_head" unfolding write_head_def by (rule evenlyI, (rule bounds_bufs evn | force)+)
  moreover show i: "evenly install_trans" unfolding install_trans_def by (intro evn f)
  ultimately have "evenly commit" unfolding commit_def write_log_def by (intro evn)
  then show "evenly begin_op" "evenly end_op" unfolding begin_op_unfold end_op_def by (intro evn)+
  show "evenly (readsb dev)" unfolding readsb_def by (rule evenlyI, (rule bounds_bufs evn | force)+)
qed


section \<open>Blocks and inodes\<close>

lemma evenly_bzero [evn]: "evenly (xv6_bzero dev b)"
  unfolding xv6_bzero_def by (rule evenlyI, (rule bounds_bufs evn | force)+)

lemma evenly_bfree [evn]: "evenly (bfree dev b)"
  unfolding bfree_def by (rule evenlyI, (rule bounds_bufs evn | force)+)

lemma evenly_balloc [evn]: "evenly (balloc dev)"
proof -
  have "evenly (balloc_from dev sb b)" for sb b
  proof (induction dev sb b rule: balloc_from.induct)
    case (1 dev sb b)
    show ?case by (subst balloc_from.simps, rule evenlyI) (rule bounds_bufs evn 1 | force)+
  qed
  then show ?thesis unfolding balloc_def by (intro evn)
qed

lemma evenly_disk_form [evn]: "evenly (iupdate ip)"
  unfolding iupdate_def by (rule evenlyI, (rule bounds_bufs evn | force)+)

lemma evenly_ilock [evn]: "evenly (ilock ipo)"
  unfolding ilock_unfold by (rule evenlyI, (rule bounds_bufs evn | force)+)

lemma evenly_iunlock [evn]: "evenly (iunlock ipo)" "evenly (stati ip)" "evenly (iget dev inum)" "evenly (idup ip)"
  unfolding iunlock_def stati_def iget_def idup_def by (intro evn)+

lemma evenly_bmap [evn]: "evenly (bmap ip bn)"
proof -
  have "evenly (bmap_indirect dev a k)" for dev a k
    unfolding bmap_indirect_def by (rule evenlyI, (rule bounds_bufs evn | force)+)
  then show ?thesis unfolding bmap_def bmap_slot_def by (intro evn)
qed

lemma evenly_ialloc [evn]: "evenly (ialloc dev type)"
proof -
  have "evenly (ialloc_from dev type sb i)" for sb i
  proof (induction dev type sb i rule: ialloc_from.induct)
    case (1 dev type sb i)
    show ?case by (subst ialloc_from.simps, rule evenlyI) (rule bounds_bufs evn 1 | force)+
  qed
  then show ?thesis unfolding ialloc_def by (intro evn)
qed

lemma evenly_itrunc [evn]: "evenly (itrunc ip)"
proof -
  have d: "evenly (itrunc_direct ip ks)" for ks by (induction ks) (simp_all only: itrunc_direct.simps, (intro evn; assumption?)+)
  have i: "evenly (itrunc_indirect dev bp js)" for dev bp js
    by (induction js) (simp_all only: itrunc_indirect.simps, (intro evn; assumption?)+)
  have r: "evenly (if b then bnd (bread dev a) (\<lambda>bp. bnd (itrunc_indirect dev bp js) (\<lambda>_.
      bnd (brelse bp) (\<lambda>_. bnd (bfree dev a) (\<lambda>_. upd_ino ip g)))) else ret ())" for b dev a js g
    by (rule evenlyI, (rule bounds_bufs evn i | force)+)
  show ?thesis unfolding itrunc_def by (rule r d evn)+
qed

lemma evenly_iput [evn]: "evenly (iput ip)" "evenly (iunlockput ip)"
  unfolding iput_def iunlockput_def by (intro evn)+

lemma evenly_readi [evn]: "evenly (readi ip off n)"
proof -
  have "evenly (readi_loop ip off k dst)" for off k dst
  proof (induction ip off k dst rule: readi_loop.induct)
    case (1 ip off k dst)
    show ?case by (subst readi_loop.simps, rule evenlyI) (rule bounds_bufs evn 1 | force)+
  qed
  then show ?thesis unfolding readi_def by (intro evn) (auto simp: devsw_def)
qed

lemma evenly_writei [evn]: "evenly (writei ip src off n)"
proof -
  have "evenly (writei_loop ip off src)" for off src
  proof (induction ip off src rule: writei_loop.induct)
    case (1 ip off src)
    show ?case by (subst writei_loop.simps, rule evenlyI) (rule bounds_bufs evn 1 | force)+
  qed
  then show ?thesis unfolding writei_def by (intro evn) (auto simp: devsw_def)
qed

lemma evenly_zeroi [evn]: "evenly (zeroi ip off n)"
proof -
  have "evenly (zeroi_loop ip off k)" for off k
  proof (induction ip off k rule: zeroi_loop.induct)
    case (1 ip off k)
    show ?case by (subst zeroi_loop.simps, rule evenlyI) (rule bounds_bufs evn 1 | force)+
  qed
  then show ?thesis unfolding zeroi_def by (intro evn)
qed


section \<open>Directories, files and system calls\<close>

lemma evenly_dirlookup [evn]: "evenly (dirlookup dp name)" "evenly (read_dirent dp o1 msg)"
proof -
  show r: "evenly (read_dirent dp o1 msg)" for dp o1 msg unfolding read_dirent_def by (intro evn)
  have "evenly (dirlookup_from dp name off)" for off
  proof (induction dp name off rule: dirlookup_from.induct)
    case (1 dp name off)
    show ?case by (subst dirlookup_from.simps) (intro evn r 1; assumption)
  qed
  then show "evenly (dirlookup dp name)" unfolding dirlookup_def by (intro evn)
qed

lemma evenly_dirlink [evn]: "evenly (dirlink dp name inum)"
proof -
  have "evenly (dirlink_slot dp off)" for off
  proof (induction dp off rule: dirlink_slot.induct)
    case (1 dp off)
    show ?case by (subst dirlink_slot.simps) (intro evn 1; assumption)
  qed
  then show ?thesis unfolding dirlink_def by (intro evn)
qed

lemma evenly_isdirempty [evn]: "evenly (isdirempty dp)"
proof -
  have "evenly (isdirempty_from dp off)" for off
  proof (induction dp off rule: isdirempty_from.induct)
    case (1 dp off)
    show ?case by (subst isdirempty_from.simps) (intro evn 1; assumption)
  qed
  then show ?thesis unfolding isdirempty_def .
qed

lemma evenly_namei [evn]: "evenly (namei path)" "evenly (nameiparent path)"
proof -
  have "evenly (namex_loop ip path parent name)" for ip path parent name
  proof (induction ip path parent name rule: namex_loop.induct)
    case (1 ip path parent name)
    show ?case by (subst namex_loop.simps) (intro evn; fast intro: 1)
  qed
  then have x: "evenly (namex path parent)" for path parent unfolding namex_def by (intro evn)
  show "evenly (namei path)" "evenly (nameiparent path)" unfolding namei_def nameiparent_def by (intro evn x)+
qed

lemma evenly_names [evn]: "evenly (create path type major minor)" "evenly (sys_dounlink path)" "evenly (sys_dolink old new)"
  unfolding create_def create_dots_def sys_dounlink_def unlink_entry_def unlink_bad_def sys_dolink_def link_entry_def link_bad_def
  by (intro evn)+

lemma evenly_files [evn]: "evenly filealloc" "evenly (fileclose f)" "evenly (filestat f)" "evenly (fileread f n)" "evenly (filewrite f addr n)"
proof -
  show "evenly filealloc" "evenly (fileclose f)" "evenly (filestat f)" "evenly (fileread f n)"
    unfolding filealloc_def fileclose_def filestat_def fileread_def piperead_def pipeclose_def by (intro evn)+
  have "evenly (filewrite_loop f ip src)" for ip src
  proof (induction f ip src rule: filewrite_loop.induct)
    case (1 f ip src)
    show ?case by (subst filewrite_loop.simps) (intro evn; fast intro: 1)
  qed
  then show "evenly (filewrite f addr n)" unfolding filewrite_def pipewrite_def by (intro evn)
qed

lemma evenly_open [evn]: "evenly (sys_open path omode)"
  unfolding sys_open_def open_file_def by (intro evn)

lemma evenly_calls:
  "evenly (sys_fileclose f)" "evenly (sys_read fh sz off)" "evenly (sys_write fh buf off)" "evenly (sys_fstat path)"
  "evenly (sys_readdirent fh off)" "evenly (sys_truncate path)" "evenly (sys_mkdir path)" "evenly (sys_mksock path)"
  "evenly (sys_unlink path)" "evenly (sys_rename path1 path2)" "evenly (sys_utime path time)"
  unfolding sys_fileclose_def sys_read_def sys_write_def sys_fstat_def sys_readdirent_def sys_truncate_def sys_mkdir_def
    sys_mksock_def make_node_def sys_unlink_def sys_rename_def sys_utime_def
  by (intro evn)+

lemma any_call_bufs: "any_call s t \<Longrightarrow> bufbusy t \<subseteq> bufbusy s"
  by (erule any_call.cases) (auto elim!: syscallE dest: evenlyD [OF evenly_open] evenly_calls [THEN evenlyD])


lemma evenly_mount: "evenly mount"
proof -
  have "bufbusy (s\<lparr>bufs := fold binit_step bs g\<rparr>) = {b. flag B_BUSY (b_flags (g b))}" for bs g and s :: kern
    by (induction bs arbitrary: g) (simp_all add: bufbusy_def binit_step_def Let_def)
  then have "evenly binit" by (intro evenly_keeps) (simp add: binit_def keeps_def bufbusy_def)
  moreover have "evenly read_head" unfolding read_head_def by (rule evenlyI, (rule bounds_bufs evn | force)+)
  moreover have "evenly ideinit" unfolding ideinit_def by (intro evn)
  ultimately show ?thesis unfolding mount_def initlog_def recover_from_log_def by (intro evn)
qed

text \<open>
  C12: System calls release every lock.  In every state that a process reaches by mounting any
  image and running any system calls that return, on whatever arguments and along whichever error
  path, no entry of the inode cache is locked and no buffer is busy; so a call never waits for a
  lock that an earlier call left behind.
\<close>

theorem calls_release_locks:
  assumes "mount (process_start d n) = Inr ((), s)" "any_call\<^sup>*\<^sup>* s t"
  shows "\<not> flag I_BUSY (i_flags (inodes t ip)) \<and> \<not> flag B_BUSY (b_flags (bufs t b))"
proof -
  have "bufbusy (process_start d n) = {}" by (simp add: bufbusy_def process_start_def zero_buf_def flag_def)
  then have "bufbusy s \<subseteq> {}" using evenlyD [OF evenly_mount assms(1)] by simp
  with assms(2) have "bufbusy t \<subseteq> {}" by (induction rule: rtranclp_induct) (auto dest: any_call_bufs)
  with reachable_unlocked [OF assms] show ?thesis by (auto simp: busy_def bufbusy_def)
qed

theorem calls_release_locks_witness:
  "\<exists>s :: kern. sample_handle (process_start sample_img 100) = Inr (Some 0, s) \<and> 1 \<le> i_ref (inodes s 0) \<and>
     \<not> flag I_BUSY (i_flags (inodes s 0)) \<and> \<not> flag B_BUSY (b_flags (bufs s 3))"
proof -
  from sample_handle_ok obtain s where s: "sample_handle (process_start sample_img 100) = Inr (Some 0, s)" "inode_ready (inodes s 0)"
    by blast
  then obtain m where m: "mount (process_start sample_img 100) = Inr ((), m)" "sys_open (cstr ''/'') O_RDWR m = Inr (Some 0, s)"
    by (auto simp: sample_handle_def bnd_eq_Inr)
  have "any_call\<^sup>*\<^sup>* m s" using m(2) by (intro r_into_rtranclp any_other c_open)
  from calls_release_locks [OF m(1) this, of 0 3] s show ?thesis by (auto simp: inode_ready_def)
qed

end
