(* ===== verification/Dirlink.thy ===== *)
theory Dirlink
  imports Dir_Props
begin

text \<open>
  The steps of \<open>dirlink\<close>: the search for the first free entry, and what storing an entry does to the
  others.
\<close>

lemma dirlink_slot_ok:
  assumes "linv s" "room s 1" "dir_ok s (inodes s dp) n" "k \<le> j" "j \<le> n"
    "\<forall>m. k \<le> m \<longrightarrow> m < j \<longrightarrow> de_inum (entry s (inodes s dp) m) \<noteq> 0" "j < n \<Longrightarrow> de_inum (entry s (inodes s dp) j) = 0"
  shows "\<exists>s'. dirlink_slot dp (k * SIZEOF_DIRENT) s = Inr (j * SIZEOF_DIRENT, s') \<and> calm s s'"
  using assms
proof (induction "j - k" arbitrary: k s)
  case 0
  then have k: "k = j" by simp
  have sz: "unat (i_size (inodes s dp)) = n * SIZEOF_DIRENT" using 0(4) by (simp add: dir_ok_def)
  show ?case
  proof (cases "j < n")
    case True
    from read_dirent_ok [OF 0(2-4) True, of "''dirlink read''"] obtain t where t:
      "read_dirent dp (of_nat (j * SIZEOF_DIRENT)) ''dirlink read'' s = Inr (entry s (inodes s dp) j, t)" "calm s t" by blast
    have "j * SIZEOF_DIRENT < unat (i_size (inodes s dp))" using True sz by (simp add: layout)
    with t 0(8) [OF True] show ?thesis unfolding k by (subst dirlink_slot.simps) (simp add: ino_at_def)
  next
    case False
    then have "\<not> j * SIZEOF_DIRENT < unat (i_size (inodes s dp))" using 0(6) sz by simp
    with calm_refl [OF 0(2)] show ?thesis unfolding k by (subst dirlink_slot.simps) (simp add: ino_at_def)
  qed
next
  case (Suc d)
  let ?i = "inodes s dp"
  have k: "k < j" "d = j - Suc k" "k < n" using Suc.hyps(2) Suc.prems(5) by simp_all
  from read_dirent_ok [OF Suc.prems(1-3) k(3), of "''dirlink read''"] obtain t where t:
    "read_dirent dp (of_nat (k * SIZEOF_DIRENT)) ''dirlink read'' s = Inr (entry s ?i k, t)" "calm s t" by blast
  note c = calm_frame [OF t(2)]
  have sz: "unat (i_size ?i) = n * SIZEOF_DIRENT" "unat (i_size ?i) < 2 ^ 31" using Suc.prems(3) by (simp_all add: dir_ok_def)
  have le: "Suc k * SIZEOF_DIRENT \<le> n * SIZEOF_DIRENT" using k(3) by (intro mult_le_mono1) simp
  then have lt: "k * SIZEOF_DIRENT < unat (i_size ?i)" using sz(1) by (simp add: layout)
  have im: "int (k * SIZEOF_DIRENT + SIZEOF_DIRENT) \<le> INT_MAX" using le sz by (simp add: INT_MAX_def layout)
  have run: "dirlink_slot dp (k * SIZEOF_DIRENT) s = dirlink_slot dp (Suc k * SIZEOF_DIRENT) t"
    using t(1) lt im Suc.prems(6) k(1) by (subst dirlink_slot.simps) (simp add: ino_at_def add.commute)
  have e: "entry t (inodes t dp) = entry s ?i" using calm_entry [OF t(2)] c(4) by simp
  have "\<exists>s'. dirlink_slot dp (Suc k * SIZEOF_DIRENT) t = Inr (j * SIZEOF_DIRENT, s') \<and> calm t s'"
    by (rule Suc.hyps(1) [OF k(2) c(1)]) (use Suc.prems k calm_dir_ok [OF t(2)] c e in simp_all)
  with run calm_trans [OF t(2)] show ?case by auto
qed

section \<open>The entry written\<close>

lemma nchunks_dirent: "nchunks (j * SIZEOF_DIRENT) SIZEOF_DIRENT = 1"
proof -
  have "j * SIZEOF_DIRENT mod BSIZE = (j mod 64) * SIZEOF_DIRENT" using mult_mod_left [of j 64 64] by (simp add: layout)
  then show ?thesis by (simp add: nchunks_def layout)
qed

lemma entry_wrote:
  assumes "wrote s i (j * SIZEOF_DIRENT) (bytes_of_dirent de) t" "length (de_name de) = DIRSIZ" "dir_ok s i n" "k < n"
  shows "entry t i k = (if k = j then de else entry s i k)"
proof -
  note len = length_bytes_of_dirent [OF assms(2)]
  have fb: "fbyte t i (k * SIZEOF_DIRENT + x) =
      (if k = j then bytes_of_dirent de ! x else fbyte s i (k * SIZEOF_DIRENT + x))" if "x < SIZEOF_DIRENT" for x
  proof -
    let ?p = "k * SIZEOF_DIRENT + x"
    have "Suc k * SIZEOF_DIRENT \<le> n * SIZEOF_DIRENT" using assms(4) by (intro mult_le_mono1) simp
    then have "?p < unat (i_size i)" using that assms(3) by (simp add: dir_ok_def)
    then have "mapped s i (?p div BSIZE)" using assms(3) by (simp add: dir_ok_def)
    then have m: "?p div BSIZE < NB" "iaddr s i (?p div BSIZE) \<noteq> 0" by (simp_all add: mapped_def usable_blk_def NB_def)
    have "j * SIZEOF_DIRENT \<le> ?p \<and> ?p < j * SIZEOF_DIRENT + SIZEOF_DIRENT \<longleftrightarrow> k = j"
      using that by (auto simp: layout)
    with assms(1) m len show ?thesis unfolding wrote_def by auto
  qed
  show ?thesis
  proof (cases "k = j")
    case True
    then have "file_bytes t i (k * SIZEOF_DIRENT) SIZEOF_DIRENT = bytes_of_dirent de"
      by (intro nth_equalityI) (use fb len in \<open>simp_all add: file_bytes_def\<close>)
    with True dirent_roundtrip [OF assms(2)] show ?thesis by (simp add: entry_def)
  next
    case False
    then have "file_bytes t i (k * SIZEOF_DIRENT) SIZEOF_DIRENT = file_bytes s i (k * SIZEOF_DIRENT) SIZEOF_DIRENT"
      using fb by (simp add: file_bytes_def)
    with False show ?thesis by (simp add: entry_def)
  qed
qed

section \<open>Adding and finding\<close>

end
