(* ===== verification/Truncate.thy ===== *)
theory Truncate
  imports Inode_Disk
begin

text \<open>
  Truncation: \<open>itrunc\<close> gives back every block of a file, its indirect block included, and
  nothing else, and leaves an empty file on disk.
\<close>

section \<open>Freeing several blocks\<close>

lemma bnd_run: "m s = Inr (x, t) \<Longrightarrow> bnd m f s = f x t"
  by (simp add: bnd_def)

definition bitmap :: "superblock \<Rightarrow> u32 set" where
  "bitmap sb = bmp sb ` {..<unat (sb_size sb)}"

text \<open>The log and the cache have room for all of the sectors \<open>A\<close>, which may be logged already.\<close>

definition log_space :: "kern \<Rightarrow> u32 set \<Rightarrow> bool" where
  "log_space s A \<longleftrightarrow> finite A \<and> int (card (set (lsec s) \<union> A)) + 1 < log_size (thelog s) \<and>
     card (held s) + card (set (lsec s) \<union> A) + 1 \<le> NBUF"

lemma bmp_div:
  assumes "bmp sb b = bmp sb c" "b < 2 ^ 32" "c < 2 ^ 32"
  shows "b div BPB = c div BPB"
proof -
  have "of_nat (b div BPB) = (of_nat (c div BPB) :: u32)"
    using assms by (simp add: bmp_def BBLOCK_def unat_of_nat_small)
  moreover have "b div BPB < 2 ^ 32" "c div BPB < 2 ^ 32" using assms(2,3) by (meson div_le_dividend le_less_trans)+
  ultimately show ?thesis using unat_of_nat_small by metis
qed

lemma clear_used:
  assumes "b < 2 ^ 32" "c < 2 ^ 32" "view s' = (view s)(bmp sb b := clear_bit (view s (bmp sb b)) (b mod BPB))"
  shows "blk_used s' sb c \<longleftrightarrow> blk_used s sb c \<and> c \<noteq> b"
proof (cases "bmp sb c = bmp sb b")
  case True
  then have "c div BPB = b div BPB" using bmp_div [of sb c b] assms by simp
  then have "c mod BPB = b mod BPB \<longleftrightarrow> c = b" by (metis div_mod_decomp)
  then show ?thesis using True assms(3) by (auto simp: blk_used_def bit_used_clear)
qed (use assms(3) in \<open>auto simp: blk_used_def\<close>)

text \<open>From \<open>s\<close> to \<open>s'\<close> exactly the blocks \<open>bs\<close> have been freed.\<close>

definition freed :: "superblock \<Rightarrow> kern \<Rightarrow> u32 list \<Rightarrow> kern \<Rightarrow> bool" where
  "freed sb s bs s' \<longleftrightarrow> tstep s s' \<and> set (lsec s) \<subseteq> set (lsec s') \<and> set (lsec s') \<subseteq> set (lsec s) \<union> bitmap sb \<and>
     (\<forall>a. a \<notin> bitmap sb \<longrightarrow> view s' a = view s a) \<and>
     (\<forall>c < unat (sb_size sb). blk_used s' sb c \<longleftrightarrow> blk_used s sb c \<and> c \<notin> unat ` set bs)"

lemma freed_nil: "linv s \<Longrightarrow> freed sb s [] s"
  by (simp add: freed_def tstep_refl)

lemma freed_trans: "freed sb s as t \<Longrightarrow> freed sb t bs u \<Longrightarrow> freed sb s (as @ bs) u"
  unfolding freed_def using tstep_trans by (auto simp: subset_iff)

lemma freed_inodes: "linv s \<Longrightarrow> freed sb s bs t \<Longrightarrow> freed sb s bs (t\<lparr>inodes := f\<rparr>)"
  using ino_step [of t f] tstep_trans [of s t] by (auto simp: freed_def tstep_linv blk_used_def)

text \<open>What freeing the blocks \<open>bs\<close> needs.\<close>

definition freeable :: "superblock \<Rightarrow> kern \<Rightarrow> u32 list \<Rightarrow> bool" where
  "freeable sb s bs \<longleftrightarrow> linv s \<and> fs_geom s sb \<and> outstanding (thelog s) \<ge> 1 \<and> log_space s (bitmap sb) \<and>
     1 \<notin> held s \<and> held s \<inter> bitmap sb = {} \<and> distinct bs \<and>
     (\<forall>b \<in> set bs. unat b < unat (sb_size sb) \<and> blk_used s sb (unat b))"

lemma log_space_room:
  assumes "linv s" "log_space s A"
  shows "int (length (lsec s)) + 1 < log_size (thelog s)" "room s 1"
proof -
  have "length (lsec s) = card (set (lsec s))" using linv_facts(3) [OF assms(1)] by (simp add: lsecs_ok_def distinct_card)
  also have "\<dots> \<le> card (set (lsec s) \<union> A)" using assms(2) by (intro card_mono) (auto simp: log_space_def)
  finally show "int (length (lsec s)) + 1 < log_size (thelog s)" "room s 1"
    using assms(2) by (auto simp: log_space_def room_def)
qed

lemma log_space_step:
  assumes "log_space s A" "tstep s s'" "set (lsec s) \<subseteq> set (lsec s')" "set (lsec s') \<subseteq> set (lsec s) \<union> A"
  shows "log_space s' A"
proof -
  have "set (lsec s') \<union> A = set (lsec s) \<union> A" using assms(3,4) by auto
  with assms(1) tstep_held [OF assms(2)] tstep_geom(4) [OF assms(2)] show ?thesis by (simp add: log_space_def)
qed

lemma one_not_bitmap: "fs_geom s sb \<Longrightarrow> 1 \<notin> bitmap sb"
  using not_one_home [of s 1] unfolding fs_geom_def bitmap_def by fastforce

lemma freeable_step:
  assumes "freeable sb s (as @ bs)" "freed sb s as t"
  shows "freeable sb t bs"
proof -
  have f: "tstep s t" "set (lsec s) \<subseteq> set (lsec t)" "set (lsec t) \<subseteq> set (lsec s) \<union> bitmap sb"
    "\<forall>a. a \<notin> bitmap sb \<longrightarrow> view t a = view s a"
    "\<forall>c < unat (sb_size sb). blk_used t sb c \<longleftrightarrow> blk_used s sb c \<and> c \<notin> unat ` set as" using assms(2) by (simp_all add: freed_def)
  have s: "fs_geom s sb" "log_space s (bitmap sb)" using assms(1) by (simp_all add: freeable_def)
  have "view t 1 = view s 1" using f(4) one_not_bitmap [OF s(1)] by blast
  with fs_geom_step [OF s(1) f(1)] log_space_step [OF s(2) f(1-3)] have g: "fs_geom t sb" "log_space t (bitmap sb)" by auto
  have "blk_used t sb (unat b)" if "b \<in> set bs" for b
  proof -
    have "b \<notin> set as" "unat b < unat (sb_size sb)" "blk_used s sb (unat b)" using assms(1) that by (auto simp: freeable_def)
    then show ?thesis using f(5) by (auto simp: unat_image_iff)
  qed
  with assms(1) g tstep_linv [OF f(1)] tstep_held [OF f(1)] tstep_geom(5) [OF f(1)] show ?thesis
    by (simp add: freeable_def)
qed

lemma bfree_freed:
  assumes "freeable sb s (b # bs)"
  shows "\<exists>t. bfree ROOTDEV b s = Inr ((), t) \<and> freed sb s [b] t \<and> inodes t = inodes s"
proof -
  have a: "linv s" "fs_geom s sb" "outstanding (thelog s) \<ge> 1" "log_space s (bitmap sb)" "1 \<notin> held s"
    "held s \<inter> bitmap sb = {}" "unat b < unat (sb_size sb)" "blk_used s sb (unat b)" using assms by (auto simp: freeable_def)
  have bm: "bmp sb (unat b) \<in> bitmap sb" using a(7) by (auto simp: bitmap_def)
  note r = log_space_room [OF a(1,4)]
  from bfree_step [OF a(1-3) r(2,1) a(7,5)] a(6,8) bm obtain t where t: "bfree ROOTDEV b s = Inr ((), t)" "tstep s t"
    "lsec t = log_add (bmp sb (unat b)) (lsec s)" "inodes t = inodes s"
    "view t = (view s)(bmp sb (unat b) := clear_bit (view s (bmp sb (unat b))) (unat b mod BPB))" by auto
  have sz: "unat (sb_size sb) \<le> 2 ^ 19" using a(2) by (rule fs_geom_small)
  have "blk_used t sb c \<longleftrightarrow> blk_used s sb c \<and> c \<noteq> unat b" if "c < unat (sb_size sb)" for c
    by (rule clear_used [OF _ _ t(5)]) (use that a(7) sz in simp_all)
  with t bm have "freed sb s [b] t" by (auto simp: freed_def)
  with t(1,4) show ?thesis by blast
qed


section \<open>The loops of itrunc\<close>

definition slots :: "inode \<Rightarrow> nat list \<Rightarrow> u32 list" where
  "slots i ks = filter (\<lambda>a. a \<noteq> 0) (map (i_addrs i) ks)"

definition entries :: "block \<Rightarrow> nat list \<Rightarrow> u32 list" where
  "entries d js = filter (\<lambda>a. a \<noteq> 0) (map (\<lambda>j. get32 d (4 * j)) js)"

lemma slots_simps [simp]: "slots i [] = []" "slots i (k # ks) = (if i_addrs i k \<noteq> 0 then [i_addrs i k] else []) @ slots i ks"
  by (simp_all add: slots_def)

lemma entries_simps [simp]: "entries d [] = []" "entries d (j # js) = (if get32 d (4 * j) \<noteq> 0 then [get32 d (4 * j)] else []) @ entries d js"
  by (simp_all add: entries_def)

lemma itrunc_direct_ok:
  assumes "freeable sb s (slots (inodes s ip) ks @ bs)" "i_dev (inodes s ip) = ROOTDEV" "distinct ks"
  shows "\<exists>t. itrunc_direct ip ks s = Inr ((), t) \<and> freed sb s (slots (inodes s ip) ks) t \<and>
    inodes t = (inodes s)(ip := (inodes s ip)\<lparr>i_addrs := (\<lambda>k. if k \<in> set ks then 0 else i_addrs (inodes s ip) k)\<rparr>)"
  using assms
proof (induction ks arbitrary: s)
  case Nil
  then have "linv s" by (simp add: freeable_def)
  then show ?case by (auto intro!: freed_nil)
next
  case (Cons k ks)
  let ?i = "inodes s ip"
  have lv: "linv s" using Cons.prems(1) by (simp add: freeable_def)
  have d: "k \<notin> set ks" "distinct ks" using Cons.prems(3) by auto
  show ?case
  proof (cases "i_addrs ?i k = 0")
    case True
    have run: "itrunc_direct ip (k # ks) s = itrunc_direct ip ks s" using True by (simp add: ino_at_def)
    have ext: "(\<lambda>j. if j \<in> set (k # ks) then 0 else i_addrs ?i j) = (\<lambda>j. if j \<in> set ks then 0 else i_addrs ?i j)"
      using True by (auto simp: fun_eq_iff)
    show ?thesis unfolding run ext using Cons.IH [of s] Cons.prems True d(2) by simp
  next
    case False
    let ?a = "i_addrs ?i k"
    have fr: "freeable sb s (?a # slots ?i ks @ bs)" using Cons.prems(1) False by simp
    from bfree_freed [OF fr] obtain t where t: "bfree ROOTDEV ?a s = Inr ((), t)" "freed sb s [?a] t" "inodes t = inodes s" by blast
    let ?j = "?i\<lparr>i_addrs := (i_addrs ?i)(k := 0)\<rparr>"
    let ?u = "t\<lparr>inodes := (inodes s)(ip := ?j)\<rparr>"
    have run: "itrunc_direct ip (k # ks) s = itrunc_direct ip ks ?u"
      using t(1,3) False Cons.prems(2) by (simp add: ino_at_def upd_ino_def)
    have "map (i_addrs ?j) ks = map (i_addrs ?i) ks" by (rule map_cong) (use d(1) in auto)
    then have sl: "slots ?j ks = slots ?i ks" unfolding slots_def by (rule arg_cong)
    have fu: "freed sb s [?a] ?u" using freed_inodes [OF lv t(2)] .
    from freeable_step [of sb s "[?a]" "slots ?i ks @ bs" ?u] fr fu have "freeable sb ?u (slots (inodes ?u ip) ks @ bs)" by (simp add: sl)
    moreover have dv: "i_dev (inodes ?u ip) = ROOTDEV" using Cons.prems(2) by simp
    ultimately obtain v where v: "itrunc_direct ip ks ?u = Inr ((), v)" "freed sb ?u (slots (inodes ?u ip) ks) v"
      "inodes v = (inodes ?u)(ip := (inodes ?u ip)\<lparr>i_addrs := (\<lambda>j. if j \<in> set ks then 0 else i_addrs (inodes ?u ip) j)\<rparr>)"
      using Cons.IH [of ?u] d(2) by blast
    have "(\<lambda>j. if j \<in> set ks then 0 else i_addrs (inodes ?u ip) j) = (\<lambda>j. if j \<in> set (k # ks) then 0 else i_addrs ?i j)"
      by (auto simp: fun_eq_iff)
    then have iv: "inodes v = (inodes s)(ip := ?i\<lparr>i_addrs := (\<lambda>j. if j \<in> set (k # ks) then 0 else i_addrs ?i j)\<rparr>)"
      using v(3) by simp
    have fv: "freed sb s (slots ?i (k # ks)) v" using freed_trans [OF fu v(2)] False sl by simp
    have "itrunc_direct ip (k # ks) s = Inr ((), v)" unfolding run by (rule v(1))
    with fv iv show ?thesis by (intro exI conjI)
  qed
qed

lemma itrunc_indirect_ok:
  assumes "freeable sb s (entries (view s a) js @ bs)" "owns s bp a" "a \<notin> bitmap sb"
  shows "\<exists>t. itrunc_indirect ROOTDEV bp js s = Inr ((), t) \<and> freed sb s (entries (view s a) js) t \<and> inodes t = inodes s"
  using assms
proof (induction js arbitrary: s)
  case Nil
  then have "linv s" by (simp add: freeable_def)
  then show ?case by (simp add: freed_nil)
next
  case (Cons j js)
  let ?b = "get32 (view s a) (4 * j)"
  have data: "buf_data bp s = Inr (view s a, s)" using bc.data_ok [OF Cons.prems(2)] .
  show ?case
  proof (cases "?b = 0")
    case True
    with Cons.IH [of s] Cons.prems data show ?thesis by simp
  next
    case False
    have fr: "freeable sb s (?b # entries (view s a) js @ bs)" using Cons.prems(1) False by simp
    from bfree_freed [OF fr] obtain t where t: "bfree ROOTDEV ?b s = Inr ((), t)" "freed sb s [?b] t" "inodes t = inodes s" by blast
    have v: "view t a = view s a" "owns t bp a" using t(2) Cons.prems(2,3) by (auto simp: freed_def tstep_def)
    from freeable_step [of sb s "[?b]" _ t] fr t(2) have "freeable sb t (entries (view t a) js @ bs)" by (simp add: v(1))
    from Cons.IH [OF this v(2) Cons.prems(3)] obtain u where u: "itrunc_indirect ROOTDEV bp js t = Inr ((), u)"
      "freed sb t (entries (view s a) js) u" "inodes u = inodes t" by (auto simp: v(1))
    from freed_trans [OF t(2) u(2)] u(1,3) t(1,3) data False show ?thesis by simp
  qed
qed


text \<open>The indirect block is held while its entries are freed, and freed last.\<close>

lemma freeable_held:
  assumes "freeable sb s bs" "held s = {}" "linv t" "tenv t = tenv s" "view t = view s" "lsec t = lsec s"
    "held t = insert a (held s)" "a \<noteq> 1" "a \<notin> bitmap sb"
  shows "freeable sb t bs"
proof -
  have f: "fs_geom s sb" "outstanding (thelog s) \<ge> 1" "log_space s (bitmap sb)" using assms(1) by (auto simp: freeable_def)
  have "log_size (thelog s) \<le> 30" using linv_facts(2) [of s] assms(1) by (simp add: freeable_def log_geom_def layout)
  then have "log_space t (bitmap sb)" using f(3) assms(2,4,6,7) by (auto simp: log_space_def tenv_eq layout)
  moreover have "fs_geom t sb" using f(1) assms(5) tenv_geom [OF assms(4)] by (simp add: fs_geom_def)
  moreover have "blk_used t = blk_used s" using assms(5) by (intro ext) (simp add: blk_used_def)
  ultimately show ?thesis using assms f(2) by (auto simp: freeable_def tenv_eq)
qed

lemma free_indirect:
  assumes "freeable sb s (entries (view s a) [0..<NINDIRECT] @ [a])" "held s = {}" "home_sector s a" "a \<notin> bitmap sb"
  shows "\<exists>bp t u v w. bread ROOTDEV a s = Inr (bp, t) \<and> itrunc_indirect ROOTDEV bp [0..<NINDIRECT] t = Inr ((), u) \<and>
    brelse bp u = Inr ((), v) \<and> bfree ROOTDEV a v = Inr ((), w) \<and> inodes w = inodes s \<and>
    freed sb s (entries (view s a) [0..<NINDIRECT] @ [a]) w"
proof -
  let ?es = "entries (view s a) [0..<NINDIRECT]"
  have lv: "linv s" "log_space s (bitmap sb)" using assms(1) by (simp_all add: freeable_def)
  have na: "a \<notin> held s" "a \<noteq> 1" using assms(2) not_one_home [OF assms(3)] by auto
  from bread_step [OF lv(1) home_usable [OF lv(1) assms(3)] na(1) log_space_room(2) [OF lv]] obtain bp t where t:
    "bread ROOTDEV a s = Inr (bp, t)" "linv t" "tenv t = tenv s" "disk t = disk s" "events t = events s" "view t = view s"
    "lsec t = lsec s" "inodes t = inodes s" "owns t bp a" "held t = insert a (held s)" "\<forall>c x. owns s c x \<longrightarrow> owns t c x" by blast
  have "freeable sb t (entries (view t a) [0..<NINDIRECT] @ [a])"
    using freeable_held [OF assms(1,2) t(2,3,6,7,10) na(2) assms(4)] t(6) by simp
  from itrunc_indirect_ok [OF this t(9) assms(4)] t(6,8) obtain u where u: "itrunc_indirect ROOTDEV bp [0..<NINDIRECT] t = Inr ((), u)"
    "freed sb t ?es u" "inodes u = inodes s" by auto
  have fu: "tstep t u" "view u a = view s a" "set (lsec s) \<subseteq> set (lsec u)" using u(2) assms(4) t(6,7) by (auto simp: freed_def)
  have tu: "linv u" "tenv u = tenv s" "disk u = disk s" "events u = events s" "owns u = owns t" using fu(1) t(3-5) by (auto simp: tstep_def)
  have cl: "a \<in> dirty u \<or> view u a = disk u (unat a)"
    using clean_or_dirty [OF lv(1) na(1)] linv_facts(4) [OF lv(1)] linv_facts(4) [OF tu(1)] fu(2,3) tu(3) by auto
  have "owns u bp a" using tu(5) t(9) by simp
  from brelse_step [OF tu(1) this cl] obtain v where v: "brelse bp u = Inr ((), v)" "linv v" "tenv v = tenv u" "disk v = disk u"
    "events v = events u" "view v = view u" "lsec v = lsec u" "inodes v = inodes u" "\<forall>c x. owns v c x \<longleftrightarrow> owns u c x \<and> x \<noteq> a" by blast
  have "owns v = owns s" by (rule bc.owns_after_release [OF t(10,11) na(1)]) (use v(9) tu(5) in simp)
  with v tu have "tstep s v" by (simp add: tstep_def)
  with u(2) v(6,7) t(6,7) have fv: "freed sb s ?es v" by (simp add: freed_def blk_used_def)
  from bfree_freed [OF freeable_step [OF assms(1) fv]] obtain w where w: "bfree ROOTDEV a v = Inr ((), w)" "freed sb v [a] w" "inodes w = inodes v" by blast
  from freed_trans [OF fv w(2)] show ?thesis using t(1) u(1,3) v(1,8) w(1,3) by (intro exI conjI) simp_all
qed


section \<open>Truncating a file\<close>

text \<open>The blocks of a file in the order in which \<open>itrunc\<close> frees them, the indirect block last.\<close>

definition file_blocks :: "kern \<Rightarrow> inode \<Rightarrow> u32 list" where
  "file_blocks s i = slots i [0..<NDIRECT] @
     (if i_addrs i NDIRECT = 0 then [] else entries (view s (i_addrs i NDIRECT)) [0..<NINDIRECT] @ [i_addrs i NDIRECT])"

definition emptied :: "inode \<Rightarrow> inode" where
  "emptied i = i\<lparr>i_size := 0, i_addrs := (\<lambda>k. if k \<le> NDIRECT then 0 else i_addrs i k)\<rparr>"

lemma log_space_intro:
  assumes "linv s" "held s = {}" "finite A" "int (card (set (lsec s) \<union> A)) + 1 < log_size (thelog s)"
  shows "log_space s A"
  using linv_facts(2) [OF assms(1)] assms(2-4) by (simp add: log_space_def log_geom_def layout)

lemma itrunc_ok:
  assumes "linv s" "held s = {}" "fs_geom s sb" "outstanding (thelog s) \<ge> 1"
    and "i_dev (inodes s ip) = ROOTDEV" "home_sector s (IBLOCK (i_inum (inodes s ip)))" "IBLOCK (i_inum (inodes s ip)) \<notin> bitmap sb"
    and "distinct (file_blocks s (inodes s ip))"
    and "\<forall>b \<in> set (file_blocks s (inodes s ip)). unat b < unat (sb_size sb) \<and> blk_used s sb (unat b)"
    and "i_addrs (inodes s ip) NDIRECT \<noteq> 0 \<longrightarrow> home_sector s (i_addrs (inodes s ip) NDIRECT) \<and> i_addrs (inodes s ip) NDIRECT \<notin> bitmap sb"
    and "int (card (set (lsec s) \<union> bitmap sb)) + 2 < log_size (thelog s)"
  shows "\<exists>t s'. itrunc ip s = Inr ((), s') \<and> freed sb s (file_blocks s (inodes s ip)) t \<and> tstep s s' \<and>
    inodes s' = (inodes s)(ip := emptied (inodes s ip)) \<and>
    view s' = (view t)(IBLOCK (i_inum (inodes s ip)) := put_dinode (NDIRECT + 1) (view s (IBLOCK (i_inum (inodes s ip))))
      (dinode_offset (i_inum (inodes s ip))) (dinode_of (emptied (inodes s ip)))) \<and>
    set (lsec s') \<subseteq> set (lsec s) \<union> bitmap sb \<union> {IBLOCK (i_inum (inodes s ip))}"
proof -
  let ?i = "inodes s ip" and ?ds = "slots (inodes s ip) [0..<NDIRECT]"
  let ?a = "i_addrs ?i NDIRECT" and ?B = "IBLOCK (i_inum ?i)"
  let ?es = "if ?a = 0 then [] else entries (view s ?a) [0..<NINDIRECT] @ [?a]"
  have sp: "log_space s (bitmap sb)" by (rule log_space_intro [OF assms(1,2)]) (use assms(11) in \<open>simp_all add: bitmap_def\<close>)
  then have fr: "freeable sb s (?ds @ ?es)" using assms by (simp add: freeable_def file_blocks_def)
  let ?j = "?i\<lparr>i_addrs := (\<lambda>k. if k < NDIRECT then 0 else i_addrs ?i k)\<rparr>"
  from itrunc_direct_ok [OF fr assms(5)] obtain t1 where t1: "itrunc_direct ip [0..<NDIRECT] s = Inr ((), t1)" "freed sb s ?ds t1"
    "inodes t1 = (inodes s)(ip := ?j)" by auto
  note f1 = freeable_step [OF fr t1(2)] and s1 = t1(2) [unfolded freed_def, THEN conjunct1]
  have v1: "view t1 ?a = view s ?a" if "?a \<noteq> 0" using t1(2) assms(10) that by (simp add: freed_def)
  have h1: "held t1 = {}" "home_sector t1 = home_sector s" using tstep_held [OF s1] tstep_geom(1) [OF s1] assms(2) by simp_all
  let ?rest = "\<lambda>i. if i_addrs i NDIRECT \<noteq> 0
          then bnd (bread (i_dev i) (i_addrs i NDIRECT)) (\<lambda>bp.
               bnd (itrunc_indirect (i_dev i) bp [0..<NINDIRECT]) (\<lambda>_.
               bnd (brelse bp) (\<lambda>_.
               bnd (bfree (i_dev i) (i_addrs i NDIRECT)) (\<lambda>_.
               upd_ino ip (\<lambda>i. i\<lparr>i_addrs := (i_addrs i)(NDIRECT := 0)\<rparr>)))))
          else ret ()"
  let ?k = "?i\<lparr>i_addrs := (\<lambda>k. if k \<le> NDIRECT then 0 else i_addrs ?i k)\<rparr>"
  have "\<exists>t2. ?rest ?j t1 = Inr ((), t2) \<and> freed sb t1 ?es t2 \<and> inodes t2 = (inodes s)(ip := ?k)"
  proof (cases "?a = 0")
    case True
    then have "?j = ?k" by (auto simp: fun_eq_iff le_less intro!: inode.equality)
    with True t1(3) freed_nil [OF tstep_linv [OF s1]] show ?thesis by auto
  next
    case False
    have "freeable sb t1 (entries (view t1 ?a) [0..<NINDIRECT] @ [?a])" using f1 False v1 by simp
    from free_indirect [OF this h1(1)] assms(10) False h1(2) obtain bp t u v w where w: "bread ROOTDEV ?a t1 = Inr (bp, t)"
      "itrunc_indirect ROOTDEV bp [0..<NINDIRECT] t = Inr ((), u)" "brelse bp u = Inr ((), v)" "bfree ROOTDEV ?a v = Inr ((), w)"
      "inodes w = inodes t1" "freed sb t1 (entries (view t1 ?a) [0..<NINDIRECT] @ [?a]) w" by auto
    have k: "?j\<lparr>i_addrs := (i_addrs ?j)(NDIRECT := 0)\<rparr> = ?k" by (auto simp: fun_eq_iff)
    let ?w = "w\<lparr>inodes := (inodes s)(ip := ?k)\<rparr>"
    have "?rest ?j t1 = Inr ((), ?w)"
      using False w(1-5) assms(5) t1(3) k by (simp add: upd_ino_def)
    moreover have "freed sb t1 ?es ?w" using freed_inodes [OF tstep_linv [OF s1] w(6)] False v1 by simp
    ultimately show ?thesis by auto
  qed
  then obtain t2 where t2: "?rest ?j t1 = Inr ((), t2)" "freed sb t1 ?es t2" "inodes t2 = (inodes s)(ip := ?k)" by blast
  have fd: "freed sb s (file_blocks s ?i) t2" unfolding file_blocks_def by (rule freed_trans [OF t1(2) t2(2)])
  let ?e = "emptied ?i"
  let ?t3 = "t2\<lparr>inodes := (inodes s)(ip := ?e)\<rparr>"
  have s3: "tstep s ?t3" using freed_inodes [OF assms(1) fd] by (simp add: freed_def)
  have e: "i_dev ?e = ROOTDEV" "i_inum ?e = i_inum ?i" "?k\<lparr>i_size := 0\<rparr> = ?e" using assms(5) by (simp_all add: emptied_def)
  have lf: "set (lsec ?t3) \<subseteq> set (lsec s) \<union> bitmap sb" "view ?t3 ?B = view s ?B" using fd assms(7) by (simp_all add: freed_def lsec_def)
  have "length (lsec ?t3) = card (set (lsec ?t3))" using linv_facts(3) [OF tstep_linv [OF s3]] by (simp add: lsecs_ok_def distinct_card)
  also have "\<dots> \<le> card (set (lsec s) \<union> bitmap sb)" using lf(1) by (intro card_mono) (simp_all add: bitmap_def)
  finally have fit: "int (length (lsec ?t3)) + 1 < log_size (thelog ?t3)" using assms(11) tstep_geom(4) [OF s3] by linarith
  have "log_size (thelog ?t3) \<le> 30" using linv_facts(2) [OF tstep_linv [OF s3]] by (simp add: log_geom_def layout)
  then have rm: "room ?t3 1" using fit tstep_held [OF s3] assms(2) by (simp add: room_def layout)
  from iupdate_ok [OF tstep_linv [OF s3] rm, of ip] fit e(1,2) tstep_held [OF s3] tstep_geom [OF s3] assms(2,4,6) obtain s' where s':
    "iupdate ip ?t3 = Inr ((), s')" "tstep ?t3 s'" "inodes s' = inodes ?t3"
    "view s' = (view ?t3)(?B := put_dinode (NDIRECT + 1) (view ?t3 ?B) (dinode_offset (i_inum ?i)) (dinode_of ?e))"
    "lsec s' = log_add ?B (lsec ?t3)" by auto
  have ls: "set (lsec s') \<subseteq> set (lsec s) \<union> bitmap sb \<union> {?B}" using s'(5) lf(1) by (auto simp: log_add_def split: if_splits)
  have run: "itrunc ip s = iupdate ip ?t3"
  proof -
    let ?f = "\<lambda>_ :: unit. bnd (upd_ino ip (\<lambda>i. i\<lparr>i_size := 0\<rparr>)) (\<lambda>_. iupdate ip)"
    have "itrunc ip s = bnd (?rest (inodes t1 ip)) ?f t1" using t1(1) by (simp add: itrunc_def ino_at_def)
    also have "inodes t1 ip = ?j" using t1(3) by simp
    also have "bnd (?rest ?j) ?f t1 = ?f () t2" by (rule bnd_run) (rule t2(1))
    also have "\<dots> = iupdate ip ?t3" using t2(3) e(3) by (simp add: upd_ino_def)
    finally show ?thesis .
  qed
  have "view s' = (view t2)(?B := put_dinode (NDIRECT + 1) (view s ?B) (dinode_offset (i_inum ?i)) (dinode_of ?e))"
    using s'(4) lf(2) by simp
  with run s'(1-3) fd ls tstep_trans [OF s3 s'(2)] show ?thesis by auto
qed


text \<open>
  C27: \<open>itrunc\<close> gives back exactly the blocks of the file.  Inside a transaction with room for the
  bitmap, on a file whose blocks are distinct and marked as used, it completes; a block is in use
  afterwards if and only if it was and is neither a data block nor the indirect block of the file;
  the inode has size 0 and no addresses, in the cache and in its disk form; no block but the
  inode's and those of the bitmap has changed.
\<close>

theorem itrunc_frees_blocks:
  assumes "linv s" "held s = {}" "fs_geom s sb" "outstanding (thelog s) \<ge> 1"
    and "i_dev (inodes s ip) = ROOTDEV" "home_sector s (IBLOCK (i_inum (inodes s ip)))" "IBLOCK (i_inum (inodes s ip)) \<notin> bitmap sb"
    and "distinct (file_blocks s (inodes s ip))"
    and "\<forall>b \<in> set (file_blocks s (inodes s ip)). unat b < unat (sb_size sb) \<and> blk_used s sb (unat b)"
    and "i_addrs (inodes s ip) NDIRECT \<noteq> 0 \<longrightarrow> home_sector s (i_addrs (inodes s ip) NDIRECT) \<and> i_addrs (inodes s ip) NDIRECT \<notin> bitmap sb"
    and "int (card (set (lsec s) \<union> bitmap sb)) + 2 < log_size (thelog s)"
  shows "\<exists>s'. itrunc ip s = Inr ((), s') \<and> linv s' \<and> held s' = {} \<and>
    (\<forall>b < unat (sb_size sb). blk_used s' sb b \<longleftrightarrow> blk_used s sb b \<and> of_nat b \<notin> set (file_blocks s (inodes s ip))) \<and>
    inodes s' = (inodes s)(ip := emptied (inodes s ip)) \<and> same_file (emptied (inodes s ip)) (loaded s' (inodes s ip)) \<and>
    (\<forall>a. a \<notin> bitmap sb \<longrightarrow> a \<noteq> IBLOCK (i_inum (inodes s ip)) \<longrightarrow> view s' a = view s a)"
proof -
  let ?i = "inodes s ip" and ?B = "IBLOCK (i_inum (inodes s ip))"
  from itrunc_ok [OF assms] obtain t s' where s': "itrunc ip s = Inr ((), s')" "freed sb s (file_blocks s ?i) t" "tstep s s'"
    "inodes s' = (inodes s)(ip := emptied ?i)"
    "view s' = (view t)(?B := put_dinode (NDIRECT + 1) (view s ?B) (dinode_offset (i_inum ?i)) (dinode_of (emptied ?i)))" by blast
  have sz: "unat (sb_size sb) \<le> 2 ^ 19" by (rule fs_geom_small [OF assms(3)])
  have "blk_used s' sb b \<longleftrightarrow> blk_used s sb b \<and> of_nat b \<notin> set (file_blocks s ?i)" if b: "b < unat (sb_size sb)" for b
  proof -
    have "bmp sb b \<in> bitmap sb" using b by (simp add: bitmap_def)
    then have "bmp sb b \<noteq> ?B" using assms(7) by metis
    then have "blk_used s' sb b = blk_used t sb b" using s'(5) by (simp add: blk_used_def)
    moreover have "unat (of_nat b :: u32) = b" using b sz by (intro unat_of_nat_small) simp
    then have "b \<in> unat ` set (file_blocks s ?i) \<longleftrightarrow> of_nat b \<in> set (file_blocks s ?i)" using unat_image_iff [of "of_nat b"] by simp
    ultimately show ?thesis using s'(2) b by (simp add: freed_def)
  qed
  moreover have "same_file (emptied ?i) (loaded s' ?i)" by (rule loaded_after_put [where d = "view s ?B"]) (use s'(5) in simp)
  moreover have "view s' a = view s a" if "a \<notin> bitmap sb" "a \<noteq> ?B" for a using that s'(2,5) by (simp add: freed_def)
  ultimately show ?thesis using s'(1,3,4) tstep_linv [OF s'(3)] tstep_held [OF s'(3)] assms(2) by blast
qed


text \<open>The sample file with its two blocks, 40 and 41, marked in the bitmap.\<close>

definition sample_trunc_img :: "nat \<Rightarrow> block" where
  "sample_trunc_img = sample_img(4 := zero_block(5 := 3))"

lemma sample_trunc_bits: "bit_used (zero_block(5 := 3)) b \<longleftrightarrow> b = 40 \<or> b = 41"
proof -
  have three: "bit (3 :: u8) k \<longleftrightarrow> k = 0 \<or> k = 1" for k
  proof -
    have "(3 :: u8) = mask 2" by (simp add: mask_eq_exp_minus_1)
    then show ?thesis by (simp only: bit_mask_iff possible_bit_word) (auto simp add: less_2_cases_iff)
  qed
  have split: "b div 8 = 5 \<and> (b mod 8 = 0 \<or> b mod 8 = 1) \<longleftrightarrow> b = 40 \<or> b = 41" by presburger
  have "bit_used (zero_block(5 := 3)) b \<longleftrightarrow> b div 8 = 5 \<and> bit (3 :: u8) (b mod 8)" by (simp add: bit_used_iff zero_block_def)
  then show ?thesis unfolding three by (rule trans) (rule split)
qed

lemma sample_bitmap: "bitmap sample_sb = {4}"
proof -
  have "bitmap sample_sb = (\<lambda>_. 4) ` {..<100 :: nat}"
    unfolding bitmap_def by (rule image_cong) (simp_all add: sample_bmp, simp add: sample_sb_def)
  moreover have "0 \<in> {..<100 :: nat}" by simp
  ultimately show ?thesis by (metis image_constant)
qed

theorem itrunc_frees_blocks_witness:
  "\<exists>s s'. sample_iopen (process_start sample_trunc_img 100) = Inr (0, s) \<and> itrunc 0 s = Inr ((), s') \<and>
     blk_used s sample_sb 40 \<and> blk_used s sample_sb 41 \<and> \<not> blk_used s' sample_sb 40 \<and> \<not> blk_used s' sample_sb 41 \<and>
     i_size (inodes s' 0) = 0"
proof -
  have img: "sb_of_block (sample_trunc_img 1) = sample_sb" "head_n (sample_trunc_img 70) = 0"
    "sample_trunc_img 2 = put_dinode (NDIRECT + 1) zero_block (dinode_offset 1) sample_dinode" "di_type sample_dinode \<noteq> 0"
    using sample_head by (simp_all add: sample_trunc_img_def sample_img_def sample_image_def sample_dinode_def layout)
  have d: "di_addrs sample_dinode k = (if k = 0 then 40 else if k = 1 then 41 else 0)" for k by (simp add: sample_dinode_def)
  from image_open [where d = sample_trunc_img, OF img] obtain s where s: "sample_iopen (process_start sample_trunc_img 100) = Inr (0, s)"
    "linv s" "held s = {}" "lsec s = []" "outstanding (thelog s) = 1" "log_size (thelog s) = 30" "i_dev (inodes s 0) = ROOTDEV"
    "i_inum (inodes s 0) = 1" "\<forall>k \<le> NDIRECT. i_addrs (inodes s 0) k = (if k = 0 then 40 else if k = 1 then 41 else 0)"
    "\<forall>a. home_sector s a \<longleftrightarrow> 2 \<le> unat a \<and> unat a < 70" "\<forall>a. unat a \<noteq> 70 \<longrightarrow> view s a = sample_trunc_img (unat a)"
    "log_at s sample_sb" unfolding d by blast
  have v: "view s 1 = put_sb zero_block sample_sb" "view s 4 = zero_block(5 := 3)"
    using s(11) by (simp_all add: sample_trunc_img_def sample_img_def sample_image_def sample_disk_def)
  have sz: "unat (sb_size sample_sb) = 100" by (simp add: sample_sb_def)
  have g: "fs_geom s sample_sb" using s(10,12) v(1) sz by (auto simp: fs_geom_def sample_bmp)
  have us: "blk_used s sample_sb b \<longleftrightarrow> b = 40 \<or> b = 41" if "b < 100" for b
    using that v(2) by (simp add: blk_used_def sample_bmp sample_trunc_bits layout)
  have nd: "i_addrs (inodes s 0) NDIRECT = 0" using s(9) by (simp add: layout)
  have "[0..<NDIRECT] = [0, 1] @ [2..<NDIRECT]" by (simp add: layout upt_rec)
  moreover have "slots (inodes s 0) [2..<NDIRECT] = []" using s(9) by (auto simp: slots_def filter_empty_conv)
  moreover have "i_addrs (inodes s 0) 0 = 40" "i_addrs (inodes s 0) 1 = 41" using s(9) by (simp_all add: layout)
  ultimately have fb: "file_blocks s (inodes s 0) = [40, 41]" using nd by (simp add: file_blocks_def slots_def)
  have ib: "IBLOCK (i_inum (inodes s 0)) = 2" using s(8) by (simp add: IBLOCK_def layout)
  have pre: "outstanding (thelog s) \<ge> 1" "home_sector s (IBLOCK (i_inum (inodes s 0)))" "IBLOCK (i_inum (inodes s 0)) \<notin> bitmap sample_sb"
    "distinct (file_blocks s (inodes s 0))"
    "\<forall>b \<in> set (file_blocks s (inodes s 0)). unat b < unat (sb_size sample_sb) \<and> blk_used s sample_sb (unat b)"
    "i_addrs (inodes s 0) NDIRECT \<noteq> 0 \<longrightarrow> home_sector s (i_addrs (inodes s 0) NDIRECT) \<and> i_addrs (inodes s 0) NDIRECT \<notin> bitmap sample_sb"
    "int (card (set (lsec s) \<union> bitmap sample_sb)) + 2 < log_size (thelog s)"
    using s(4-6,10) ib fb us nd sz by (simp_all add: sample_bitmap)
  from itrunc_frees_blocks [OF s(2,3) g pre(1) s(7) pre(2-7)] obtain s' where s': "itrunc 0 s = Inr ((), s')"
    "\<forall>b < unat (sb_size sample_sb). blk_used s' sample_sb b \<longleftrightarrow> blk_used s sample_sb b \<and> of_nat b \<notin> set (file_blocks s (inodes s 0))"
    "inodes s' = (inodes s)(0 := emptied (inodes s 0))" by blast
  have "i_size (inodes s' 0) = 0" using s'(3) by (simp add: emptied_def)
  moreover have "\<not> blk_used s' sample_sb 40" "\<not> blk_used s' sample_sb 41"
    using s'(2) [rule_format, of 40] s'(2) [rule_format, of 41] fb sz by simp_all
  moreover have "blk_used s sample_sb 40" "blk_used s sample_sb 41" using us by simp_all
  ultimately show ?thesis using s(1) s'(1) by blast
qed

end
