(* ===== verification/Append.thy ===== *)
theory Append
  imports Truncate File_Content
begin

text \<open>
  Writes that extend a file: \<open>bmap\<close> allocates the blocks that are missing, direct, indirect and the
  index block itself, and \<open>writei\<close> fills them and stores the new size and addresses.
\<close>

section \<open>Allocating a block\<close>

text \<open>The blocks before the log that are free, and what the allocator needs of the rest.\<close>

definition free_blocks :: "kern \<Rightarrow> superblock \<Rightarrow> nat set" where
  "free_blocks s sb = {b. b < sb_start sb \<and> \<not> blk_used s sb b}"

definition alloc_ready :: "kern \<Rightarrow> superblock \<Rightarrow> bool" where
  "alloc_ready s sb \<longleftrightarrow> linv s \<and> fs_geom s sb \<and> outstanding (thelog s) \<ge> 1 \<and>
     (\<forall>b < 2. blk_used s sb b) \<and> (\<forall>a \<in> bitmap sb. blk_used s sb (unat a))"

text \<open>From \<open>s\<close> to \<open>t\<close> the block \<open>a\<close> has been allocated and cleared, and nothing else has changed.\<close>

definition fresh_block :: "superblock \<Rightarrow> kern \<Rightarrow> u32 \<Rightarrow> kern \<Rightarrow> bool" where
  "fresh_block sb s a t \<longleftrightarrow> home_sector s a \<and> a \<notin> bitmap sb \<and> \<not> blk_used s sb (unat a) \<and>
     view t a = zero_block \<and> (\<forall>x. x \<notin> bitmap sb \<longrightarrow> x \<noteq> a \<longrightarrow> view t x = view s x) \<and>
     (\<forall>b < unat (sb_size sb). blk_used t sb b \<longleftrightarrow> blk_used s sb b \<or> b = unat a)"

definition new_block :: "superblock \<Rightarrow> kern \<Rightarrow> u32 \<Rightarrow> kern \<Rightarrow> bool" where
  "new_block sb s a t \<longleftrightarrow> tstep s t \<and> fresh_block sb s a t \<and>
     set (lsec s) \<subseteq> set (lsec t) \<and> set (lsec t) \<subseteq> set (lsec s) \<union> bitmap sb \<union> {a}"

lemma geom_start:
  assumes "fs_geom s sb"
  shows "home_sector s a \<longleftrightarrow> 2 \<le> unat a \<and> unat a < sb_start sb" "sb_start sb \<le> unat (sb_size sb)"
  using assms log_at_geom(4) by (auto simp: fs_geom_def sb_start_def)

lemma bmp_in_bitmap: "b < unat (sb_size sb) \<Longrightarrow> bmp sb b \<in> bitmap sb"
  by (simp add: bitmap_def)

lemma mark_used:
  assumes "b < 2 ^ 32" "c < 2 ^ 32" "of_nat b \<noteq> bmp sb c" "view s' = alloc_view sb b (view s)"
  shows "blk_used s' sb c \<longleftrightarrow> blk_used s sb c \<or> c = b"
proof (cases "bmp sb c = bmp sb b")
  case True
  then have "c div BPB = b div BPB" using bmp_div [of sb c b] assms by simp
  then have "c mod BPB = b mod BPB \<longleftrightarrow> c = b" by (metis div_mod_decomp)
  then show ?thesis using True assms(3,4) by (auto simp: blk_used_def alloc_view_def bit_used_mark)
qed (use assms(3,4) in \<open>auto simp: blk_used_def alloc_view_def\<close>)

lemma balloc_new:
  assumes "alloc_ready s sb" "free_blocks s sb \<noteq> {}" "int (length (lsec s)) + 2 < log_size (thelog s)" "card (held s) \<le> 1"
    "\<forall>a \<in> held s. 2 \<le> unat a \<and> a \<notin> bitmap sb \<and> blk_used s sb (unat a)"
  shows "\<exists>a t. balloc ROOTDEV s = Inr (a, t) \<and> new_block sb s a t \<and> inodes t = inodes s \<and>
    card (free_blocks s sb) = Suc (card (free_blocks t sb))"
proof -
  have r: "linv s" "fs_geom s sb" "outstanding (thelog s) \<ge> 1" "\<forall>b < 2. blk_used s sb b" "\<forall>a \<in> bitmap sb. blk_used s sb (unat a)"
    using assms(1) by (auto simp: alloc_ready_def)
  obtain n where "n \<in> free_blocks s sb" and below: "\<forall>b < n. b \<notin> free_blocks s sb"
    using assms(2) exists_least_iff [of "\<lambda>b. b \<in> free_blocks s sb"] by blast
  then have n: "n < sb_start sb" "\<not> blk_used s sb n" by (simp_all add: free_blocks_def)
  with below have least: "\<forall>b < n. blk_used s sb b" by (auto simp: free_blocks_def)
  note g = geom_start [OF r(2)]
  have sz: "n < unat (sb_size sb)" "unat (sb_size sb) \<le> 2 ^ 19" using n(1) g(2) fs_geom_small [OF r(2)] by auto
  have un: "unat (of_nat n :: u32) = n" by (rule unat_of_nat_small) (use sz in simp)
  have "2 \<le> n" using r(4) n(2) by (meson not_le)
  then have hm: "home_sector s (of_nat n)" using g(1) un n(1) by simp
  have nb: "of_nat n \<notin> bitmap sb" using r(5) n(2) un by force
  have nh: "of_nat n \<notin> held s" "1 \<notin> held s" "\<forall>b < unat (sb_size sb). bmp sb b \<notin> held s"
    using assms(5) n(2) un by (force simp: bitmap_def)+
  have "log_size (thelog s) \<le> 30" using linv_facts(2) [OF r(1)] by (simp add: log_geom_def layout)
  then have rm: "room s 2" using assms(3,4) by (simp add: room_def layout)
  have "first_free s sb n" using n(2) least sz by (simp add: first_free_def)
  from balloc_ok [OF r(1-3) rm assms(3) this hm nh] obtain t where t: "balloc ROOTDEV s = Inr (of_nat n, t)" "tstep s t"
    "view t = alloc_view sb n (view s)" "lsec t = log_add (of_nat n) (log_add (bmp sb n) (lsec s))" "inodes t = inodes s" by blast
  have bm: "bmp sb n \<in> bitmap sb" "\<And>b. b < unat (sb_size sb) \<Longrightarrow> of_nat n \<noteq> bmp sb b" using sz nb by (auto simp: bitmap_def)
  have us: "blk_used t sb b \<longleftrightarrow> blk_used s sb b \<or> b = n" if "b < unat (sb_size sb)" for b
    by (rule mark_used [OF _ _ bm(2) t(3)]) (use that sz in simp_all)
  have "view t x = view s x" if "x \<notin> bitmap sb" "x \<noteq> of_nat n" for x using that bm(1) t(3) by (auto simp: alloc_view_def)
  moreover have "view t (of_nat n) = zero_block" using t(3) by (simp add: alloc_view_def)
  ultimately have nw: "new_block sb s (of_nat n) t" using t(2,4) hm nb n(2) un us bm(1) by (auto simp: new_block_def fresh_block_def)
  have "free_blocks s sb = insert n (free_blocks t sb)" "n \<notin> free_blocks t sb" "finite (free_blocks t sb)"
    using us n g(2) by (auto simp: free_blocks_def)
  then have "card (free_blocks s sb) = Suc (card (free_blocks t sb))" by simp
  with t(1,5) nw show ?thesis by blast
qed

section \<open>Extending a file\<close>

text \<open>
  The blocks of a file, its index block included; they are different, marked in use, and neither
  in the bitmap nor in the log.
\<close>

definition file_blks :: "kern \<Rightarrow> inode \<Rightarrow> u32 set" where
  "file_blks s i = {a. a \<noteq> 0 \<and> (a = i_addrs i NDIRECT \<or> (\<exists>bn < NB. a = iaddr s i bn))}"

definition file_wf :: "kern \<Rightarrow> superblock \<Rightarrow> inode \<Rightarrow> bool" where
  "file_wf s sb i \<longleftrightarrow> file_inj s i \<and> (\<forall>a \<in> file_blks s i. home_sector s a \<and> unat a < unat (sb_size sb) \<and> a \<notin> bitmap sb \<and> blk_used s sb (unat a))"

text \<open>
  From \<open>s\<close> to \<open>t\<close> the file \<open>i\<close> has become \<open>j\<close>: blocks it had are still where they were, blocks it
  has now besides were free, \<open>xs\<close> is stored at \<open>off\<close>, and other bytes are as before, or zero in
  a new block.  No block but those of the file and the bitmap has changed.
\<close>

definition extended :: "superblock \<Rightarrow> kern \<Rightarrow> inode \<Rightarrow> nat \<Rightarrow> bytes \<Rightarrow> kern \<Rightarrow> inode \<Rightarrow> bool" where
  "extended sb s i off xs t j \<longleftrightarrow> tstep s t \<and> file_wf t sb j \<and> j = i\<lparr>i_addrs := i_addrs j\<rparr> \<and>
     (\<forall>bn < NB. iaddr s i bn \<noteq> 0 \<longrightarrow> iaddr t j bn = iaddr s i bn) \<and>
     (i_addrs i NDIRECT \<noteq> 0 \<longrightarrow> i_addrs j NDIRECT = i_addrs i NDIRECT) \<and>
     (\<forall>b < unat (sb_size sb). blk_used t sb b \<longleftrightarrow> blk_used s sb b \<or> of_nat b \<in> file_blks t j) \<and>
     (\<forall>a \<in> file_blks t j. a \<in> file_blks s i \<or> \<not> blk_used s sb (unat a)) \<and>
     (\<forall>x. x \<notin> bitmap sb \<longrightarrow> x \<notin> file_blks t j \<longrightarrow> view t x = view s x) \<and>
     (\<forall>p. off \<le> p \<longrightarrow> p < off + length xs \<longrightarrow> p div BSIZE < NB \<and> iaddr t j (p div BSIZE) \<noteq> 0) \<and>
     (\<forall>p. p div BSIZE < NB \<longrightarrow> iaddr t j (p div BSIZE) \<noteq> 0 \<longrightarrow>
        fbyte t j p = (if off \<le> p \<and> p < off + length xs then xs ! (p - off)
          else if iaddr s i (p div BSIZE) \<noteq> 0 then fbyte s i p else 0))"

lemma extendedD:
  assumes "extended sb s i off xs t j"
  shows "tstep s t" "file_wf t sb j" "j = i\<lparr>i_addrs := i_addrs j\<rparr>"
    "bn < NB \<Longrightarrow> iaddr s i bn \<noteq> 0 \<Longrightarrow> iaddr t j bn = iaddr s i bn"
    "i_addrs i NDIRECT \<noteq> 0 \<Longrightarrow> i_addrs j NDIRECT = i_addrs i NDIRECT"
    "b < unat (sb_size sb) \<Longrightarrow> blk_used t sb b \<longleftrightarrow> blk_used s sb b \<or> of_nat b \<in> file_blks t j"
    "a \<in> file_blks t j \<Longrightarrow> a \<in> file_blks s i \<or> \<not> blk_used s sb (unat a)"
    "x \<notin> bitmap sb \<Longrightarrow> x \<notin> file_blks t j \<Longrightarrow> view t x = view s x"
    "off \<le> p \<Longrightarrow> p < off + length xs \<Longrightarrow> p div BSIZE < NB \<and> iaddr t j (p div BSIZE) \<noteq> 0"
    "p div BSIZE < NB \<Longrightarrow> iaddr t j (p div BSIZE) \<noteq> 0 \<Longrightarrow>
        fbyte t j p = (if off \<le> p \<and> p < off + length xs then xs ! (p - off)
          else if iaddr s i (p div BSIZE) \<noteq> 0 then fbyte s i p else 0)"
  using assms unfolding extended_def by (simp_all only: simp_thms)

lemma extended_fields:
  assumes "extended sb s i off xs t j"
  shows "i_dev j = i_dev i" "i_inum j = i_inum i" "i_type j = i_type i" "i_size j = i_size i"
proof -
  note j = extendedD(3) [OF assms]
  show "i_dev j = i_dev i" "i_inum j = i_inum i" "i_type j = i_type i" "i_size j = i_size i"
    using arg_cong [OF j, of i_dev] arg_cong [OF j, of i_inum] arg_cong [OF j, of i_type] arg_cong [OF j, of i_size] by simp_all
qed

lemma extended_blks: "extended sb s i off xs t j \<Longrightarrow> file_blks s i \<subseteq> file_blks t j"
proof
  fix a
  assume e: "extended sb s i off xs t j" and "a \<in> file_blks s i"
  then have nz: "a \<noteq> 0" and "a = i_addrs i NDIRECT \<or> (\<exists>bn < NB. a = iaddr s i bn)" by (auto simp: file_blks_def)
  then consider "a = i_addrs i NDIRECT" | bn where "bn < NB" "a = iaddr s i bn" by blast
  then show "a \<in> file_blks t j"
  proof cases
    case 1
    with nz extendedD(5) [OF e] show ?thesis by (simp add: file_blks_def)
  next
    case 2
    with nz extendedD(4) [OF e 2(1)] show ?thesis by (auto simp: file_blks_def)
  qed
qed

lemma extended_refl:
  assumes "linv s" "fs_geom s sb" "file_wf s sb i"
  shows "extended sb s i off [] s i"
proof -
  have "blk_used s sb b" if "b < unat (sb_size sb)" "of_nat b \<in> file_blks s i" for b
  proof -
    have "unat (of_nat b :: u32) = b" using that(1) fs_geom_small [OF assms(2)] by (intro unat_of_nat_small) simp
    with assms(3) that(2) show ?thesis unfolding file_wf_def by metis
  qed
  with assms show ?thesis by (auto simp: extended_def tstep_refl)
qed

lemma extended_trans:
  assumes "extended sb s i off xs t j" "extended sb t j (off + length xs) ys u k"
  shows "extended sb s i off (xs @ ys) u k"
proof -
  note e = extendedD [OF assms(1)] and f = extendedD [OF assms(2)]
  note sub = extended_blks [OF assms(1)] extended_blks [OF assms(2)]
  have ia: "iaddr u k bn = iaddr s i bn" if "bn < NB" "iaddr s i bn \<noteq> 0" for bn using e(4) f(4) that by simp
  have fb: "fbyte u k p = (if off \<le> p \<and> p < off + length (xs @ ys) then (xs @ ys) ! (p - off)
      else if iaddr s i (p div BSIZE) \<noteq> 0 then fbyte s i p else 0)" if p: "p div BSIZE < NB" "iaddr u k (p div BSIZE) \<noteq> 0" for p
  proof (cases "iaddr t j (p div BSIZE) = 0")
    case True
    then have "iaddr s i (p div BSIZE) = 0" using e(4) p(1) by metis
    with True f(10) [OF p] e(9) [of p] show ?thesis by (auto simp: nth_append)
  next
    case False
    with e(10) [OF p(1) False] f(10) [OF p] show ?thesis by (auto simp: nth_append)
  qed
  have "k = i\<lparr>i_addrs := i_addrs k\<rparr>" using e(3) f(3) by (metis inode.surjective inode.update_convs(13))
  moreover have "blk_used u sb b \<longleftrightarrow> blk_used s sb b \<or> of_nat b \<in> file_blks u k" if "b < unat (sb_size sb)" for b
    using e(6) f(6) that sub(2) by blast
  moreover have "a \<in> file_blks s i \<or> \<not> blk_used s sb (unat a)" if "a \<in> file_blks u k" for a
    using e(7) f(7) [OF that] e(6) f(2) that by (auto simp: file_wf_def)
  moreover have "view u x = view s x" if "x \<notin> bitmap sb" "x \<notin> file_blks u k" for x using e(8) f(8) that sub(2) by (metis subset_iff)
  moreover have "p div BSIZE < NB \<and> iaddr u k (p div BSIZE) \<noteq> 0" if "off \<le> p" "p < off + length (xs @ ys)" for p
  proof (cases "p < off + length xs")
    case True
    with e(9) [OF that(1) True] f(4) show ?thesis by simp
  next
    case False
    with that f(9) [of p] show ?thesis by simp
  qed
  ultimately show ?thesis using ia fb tstep_trans [OF e(1) f(1)] f(2) e(5) f(5) by (simp add: extended_def)
qed

text \<open>A block \<open>a\<close> that was free becomes part of the file.\<close>

lemma extended_by:
  assumes "fs_geom s sb" "file_wf s sb i" "fresh_block sb s a t" "tstep s u" "j = i\<lparr>i_addrs := i_addrs j\<rparr>"
    and v: "\<And>x. x = a \<or> x \<in> bitmap sb \<or> (x \<noteq> i_addrs i NDIRECT \<or> x = 0) \<Longrightarrow> view u x = view t x"
    and ind: "i_addrs i NDIRECT \<noteq> 0 \<longrightarrow> i_addrs j NDIRECT = i_addrs i NDIRECT"
    and ia: "\<And>bn. bn < NB \<Longrightarrow> iaddr u j bn = iaddr s i bn \<or> iaddr s i bn = 0 \<and> iaddr u j bn = a"
    and fb: "file_blks u j = insert a (file_blks s i)" and inj: "file_inj u j"
  shows "extended sb s i off [] u j"
proof -
  have n: "home_sector s a" "a \<notin> bitmap sb" "\<not> blk_used s sb (unat a)" "view t a = zero_block"
    "\<And>x. x \<notin> bitmap sb \<Longrightarrow> x \<noteq> a \<Longrightarrow> view t x = view s x"
    "\<And>b. b < unat (sb_size sb) \<Longrightarrow> blk_used t sb b \<longleftrightarrow> blk_used s sb b \<or> b = unat a" using assms(3) by (auto simp: fresh_block_def)
  have w: "\<And>x. x \<in> file_blks s i \<Longrightarrow> home_sector s x \<and> unat x < unat (sb_size sb) \<and> x \<notin> bitmap sb \<and> blk_used s sb (unat x)"
    "file_inj s i" using assms(2) by (auto simp: file_wf_def)
  have sz: "unat a < unat (sb_size sb)" using geom_start [OF assms(1)] n(1) by fastforce
  have us: "blk_used u sb b \<longleftrightarrow> blk_used s sb b \<or> b = unat a" if "b < unat (sb_size sb)" for b
  proof -
    have "bmp sb b \<in> bitmap sb" by (rule bmp_in_bitmap [OF that])
    then show ?thesis using n(6) [OF that] v [of "bmp sb b"] by (simp add: blk_used_def)
  qed
  have "blk_used u sb b \<longleftrightarrow> blk_used s sb b \<or> of_nat b \<in> file_blks u j" if b: "b < unat (sb_size sb)" for b
  proof -
    have un: "unat (of_nat b :: u32) = b" using b fs_geom_small [OF assms(1)] by (intro unat_of_nat_small) simp
    then have "of_nat b = a \<longleftrightarrow> b = unat a" by auto
    moreover have "blk_used s sb b" if "of_nat b \<in> file_blks s i" using w(1) [OF that] un by simp
    ultimately show ?thesis using us [OF b] by (auto simp: fb)
  qed
  moreover have "view u x = view s x" if "x \<notin> bitmap sb" "x \<notin> file_blks u j" for x
  proof -
    have "x \<noteq> a" "x \<noteq> i_addrs i NDIRECT \<or> x = 0" using that(2) fb by (auto simp: file_blks_def)
    with v [of x] n(5) [OF that(1)] show ?thesis by simp
  qed
  moreover have "fbyte u j p = (if iaddr s i (p div BSIZE) \<noteq> 0 then fbyte s i p else 0)"
    if p: "p div BSIZE < NB" "iaddr u j (p div BSIZE) \<noteq> 0" for p
  proof (cases "iaddr s i (p div BSIZE) = 0")
    case True
    with ia [OF p(1)] p(2) have "iaddr u j (p div BSIZE) = a" by auto
    with True v [of a] n(4) show ?thesis by (simp add: fbyte_def zero_block_def)
  next
    case False
    let ?x = "iaddr s i (p div BSIZE)"
    have "?x \<in> file_blks s i" using False p(1) by (auto simp: file_blks_def)
    with w(1) [OF this] n(3) have x: "?x \<notin> bitmap sb" "?x \<noteq> a" by auto
    have "?x \<noteq> i_addrs i NDIRECT" using w(2) p(1) False by (simp add: file_inj_def)
    with v [of ?x] n(5) [OF x] ia [OF p(1)] False show ?thesis by (simp add: fbyte_def)
  qed
  moreover have "file_wf u sb j"
    unfolding file_wf_def fb using inj w(1) n(1,2) sz us tstep_geom(1) [OF assms(4)] by auto
  ultimately show ?thesis using assms(4,5) ind ia n(3) unfolding extended_def fb by auto
qed

text \<open>The three places: a direct address, an entry of the index block, the index block itself.\<close>

lemma extended_entry:
  assumes "fs_geom s sb" "file_wf s sb i" "fresh_block sb s a t" "tstep s u" "j = i\<lparr>i_addrs := i_addrs j\<rparr>"
    and v: "\<And>x. x = a \<or> x \<in> bitmap sb \<or> (x \<noteq> i_addrs i NDIRECT \<or> x = 0) \<Longrightarrow> view u x = view t x"
    and k: "k < NB" "iaddr s i k = 0" "i_addrs j NDIRECT = i_addrs i NDIRECT"
    and ia: "\<And>bn. bn < NB \<Longrightarrow> iaddr u j bn = (if bn = k then a else iaddr s i bn)"
  shows "extended sb s i off [] u j"
proof -
  have "2 \<le> unat a" using geom_start(1) [OF assms(1)] assms(3) by (simp add: fresh_block_def)
  then have a: "a \<noteq> 0" by auto
  have "\<not> blk_used s sb (unat a)" using assms(3) by (simp add: fresh_block_def)
  with assms(2) have na: "a \<notin> file_blks s i" by (auto simp: file_wf_def)
  have "iaddr s i bn \<noteq> a" if "bn < NB" for bn using na that a by (auto simp: file_blks_def)
  moreover have "i_addrs i NDIRECT \<noteq> a" using na a by (auto simp: file_blks_def)
  moreover have "file_inj s i" using assms(2) by (simp add: file_wf_def)
  ultimately have inj: "file_inj u j" unfolding file_inj_def k(3) using ia by (metis (full_types))
  have fb: "file_blks u j = insert a (file_blks s i)"
  proof (rule set_eqI)
    fix x
    have "(\<exists>bn < NB. x = iaddr u j bn) \<longleftrightarrow> x = a \<or> (\<exists>bn < NB. bn \<noteq> k \<and> x = iaddr s i bn)" using ia k(1) by metis
    then show "x \<in> file_blks u j \<longleftrightarrow> x \<in> insert a (file_blks s i)" using a k(2,3) by (auto simp: file_blks_def)
  qed
  show ?thesis by (rule extended_by [OF assms(1-5) v _ _ fb inj]) (use k ia in auto)
qed

lemma extended_index:
  assumes "fs_geom s sb" "file_wf s sb i" "fresh_block sb s a t" "tstep s u" "j = i\<lparr>i_addrs := i_addrs j\<rparr>" "view u = view t"
    and k: "i_addrs i NDIRECT = 0" "i_addrs j NDIRECT = a" and ia: "\<And>bn. bn < NB \<Longrightarrow> iaddr u j bn = iaddr s i bn"
  shows "extended sb s i off [] u j"
proof -
  have "2 \<le> unat a" using geom_start(1) [OF assms(1)] assms(3) by (simp add: fresh_block_def)
  then have a: "a \<noteq> 0" by auto
  have "\<not> blk_used s sb (unat a)" using assms(3) by (simp add: fresh_block_def)
  with assms(2) have na: "a \<notin> file_blks s i" by (auto simp: file_wf_def)
  have "iaddr s i bn \<noteq> a" if "bn < NB" for bn using na that a by (auto simp: file_blks_def)
  moreover have "file_inj s i" using assms(2) by (simp add: file_wf_def)
  ultimately have inj: "file_inj u j" unfolding file_inj_def k(2) using ia by (metis (full_types))
  have fb: "file_blks u j = insert a (file_blks s i)" using a k ia by (auto simp: file_blks_def)
  show ?thesis by (rule extended_by [OF assms(1-5) _ _ _ fb inj]) (use k ia assms(6) in auto)
qed

section \<open>Mapping blocks\<close>

text \<open>The log has room for \<open>k\<close> blocks besides the bitmap and the index block.\<close>

definition log_blks :: "kern \<Rightarrow> superblock \<Rightarrow> inode \<Rightarrow> u32 set" where
  "log_blks s sb i = set (lsec s) \<union> bitmap sb \<union> {i_addrs i NDIRECT}"

definition log_fits :: "kern \<Rightarrow> superblock \<Rightarrow> inode \<Rightarrow> nat \<Rightarrow> bool" where
  "log_fits s sb i k \<longleftrightarrow> int (card (log_blks s sb i)) + int k < log_size (thelog s)"

lemma finite_bitmap [simp]: "finite (bitmap sb)"
  by (simp add: bitmap_def)

lemma lsec_card: "linv s \<Longrightarrow> set (lsec s) \<subseteq> A \<Longrightarrow> finite A \<Longrightarrow> length (lsec s) \<le> card A"
  using linv_facts(3) [of s] distinct_card [of "lsec s"] card_mono [of A "set (lsec s)"] by (simp add: lsecs_ok_def)

lemma log_fits_length: "linv s \<Longrightarrow> log_fits s sb i k \<Longrightarrow> int (length (lsec s)) + int k < log_size (thelog s)"
  using lsec_card [of s "log_blks s sb i"] by (simp add: log_fits_def log_blks_def subset_insertI2)

lemma new_block_iaddr:
  assumes "file_wf s sb i" "fresh_block sb s a t"
  shows "iaddr t i = iaddr s i" "x \<in> file_blks s i \<Longrightarrow> view t x = view s x"
proof -
  show x: "view t x = view s x" if "x \<in> file_blks s i" for x
    using that assms unfolding file_wf_def fresh_block_def by metis
  have "i_addrs i NDIRECT \<noteq> 0 \<longrightarrow> view t (i_addrs i NDIRECT) = view s (i_addrs i NDIRECT)"
    using x [of "i_addrs i NDIRECT"] by (simp add: file_blks_def)
  then show "iaddr t i = iaddr s i" by (intro ext) (simp add: iaddr_def)
qed

lemma slot_extends:
  assumes "alloc_ready s sb" "held s = {}" "i_dev (inodes s ip) = ROOTDEV" "file_wf s sb (inodes s ip)" "k \<le> NDIRECT"
    "int (length (lsec s)) + 2 < log_size (thelog s)" "i_addrs (inodes s ip) k = 0 \<Longrightarrow> free_blocks s sb \<noteq> {}"
  shows "\<exists>t j. bmap_slot ip k s = Inr (i_addrs j k, t) \<and> i_addrs j k \<noteq> 0 \<and> inodes t = (inodes s)(ip := j) \<and>
    extended sb s (inodes s ip) off [] t j \<and> (k \<noteq> NDIRECT \<longrightarrow> i_addrs j NDIRECT = i_addrs (inodes s ip) NDIRECT) \<and>
    (k = NDIRECT \<longrightarrow> (\<forall>bn < NB. iaddr t j bn = iaddr s (inodes s ip) bn)) \<and>
    set (lsec t) \<subseteq> set (lsec s) \<union> bitmap sb \<union> {i_addrs j k} \<and>
    card (free_blocks s sb) = card (free_blocks t sb) + (if i_addrs (inodes s ip) k = 0 then 1 else 0)"
proof -
  let ?i = "inodes s ip"
  have r: "linv s" "fs_geom s sb" using assms(1) by (auto simp: alloc_ready_def)
  show ?thesis
  proof (cases "i_addrs ?i k = 0")
    case False
    with extended_refl [OF r assms(4)] show ?thesis
      by (intro exI [of _ s] exI [of _ ?i]) (auto simp: bmap_slot_hit)
  next
    case True
    from balloc_new [OF assms(1) assms(7) [OF True] assms(6)] assms(2) obtain a t where t: "balloc ROOTDEV s = Inr (a, t)"
      "new_block sb s a t" "inodes t = inodes s" "card (free_blocks s sb) = Suc (card (free_blocks t sb))" by auto
    let ?j = "?i\<lparr>i_addrs := (i_addrs ?i)(k := a)\<rparr>"
    let ?u = "t\<lparr>inodes := (inodes s)(ip := ?j)\<rparr>"
    have run: "bmap_slot ip k s = Inr (a, ?u)" using True t(1,3) assms(3) by (simp add: bmap_slot_def ino_at_def upd_ino_def)
    have n: "tstep s t" "home_sector s a" "view t a = zero_block" "set (lsec t) \<subseteq> set (lsec s) \<union> bitmap sb \<union> {a}"
      and fr: "fresh_block sb s a t" using t(2) by (simp_all add: new_block_def fresh_block_def)
    have "2 \<le> unat a" using geom_start(1) [OF r(2)] n(2) by simp
    then have a: "a \<noteq> 0" by auto
    have tu: "tstep s ?u" using tstep_trans [OF n(1) ino_step [OF tstep_linv [OF n(1)]]] .
    note ia = new_block_iaddr(1) [OF assms(4) fr]
    have "extended sb s ?i off [] ?u ?j"
    proof (cases "k = NDIRECT")
      case False
      then have k: "k < NDIRECT" "k < NB" "iaddr s ?i k = 0" using assms(5) True by (simp_all add: NB_def iaddr_def)
      have "iaddr ?u ?j bn = (if bn = k then a else iaddr s ?i bn)" for bn
        using fun_cong [OF ia, of bn] False k(1) by (auto simp: iaddr_def)
      then show ?thesis using False by (intro extended_entry [OF r(2) assms(4) fr tu _ _ k(2,3)]) auto
    next
      case True
      with \<open>i_addrs ?i k = 0\<close> n(3) have "iaddr ?u ?j bn = iaddr s ?i bn" for bn by (auto simp: iaddr_def)
      then show ?thesis using True \<open>i_addrs ?i k = 0\<close> by (intro extended_index [OF r(2) assms(4) fr tu]) auto
    qed
    moreover have "iaddr ?u ?j bn = iaddr s ?i bn" if "k = NDIRECT" for bn
      using True n(3) that by (auto simp: iaddr_def)
    ultimately show ?thesis using run a n(4) t(4) True
      by (intro exI [of _ ?u] exI [of _ ?j]) (auto simp: lsec_def free_blocks_def blk_used_def)
  qed
qed

text \<open>An entry of the index block, which is held while the block for it is allocated.\<close>

lemma alloc_ready_held:
  assumes "alloc_ready s sb" "linv t" "tenv t = tenv s" "view t = view s"
  shows "alloc_ready t sb" "free_blocks t sb = free_blocks s sb" "fresh_block sb t a u = fresh_block sb s a u"
proof -
  have us: "blk_used t = blk_used s" using assms(4) by (intro ext) (simp add: blk_used_def)
  note g = tenv_geom [OF assms(3)]
  show "alloc_ready t sb" using assms us g by (simp add: alloc_ready_def fs_geom_def tenv_eq)
  show "free_blocks t sb = free_blocks s sb" by (simp add: free_blocks_def us)
  show "fresh_block sb t a u = fresh_block sb s a u" by (simp add: fresh_block_def us g assms(4))
qed

lemma put_entry_iaddr:
  assumes "i_addrs i NDIRECT \<noteq> 0" "view u (i_addrs i NDIRECT) = put32 (view s (i_addrs i NDIRECT)) (4 * m) a"
  shows "iaddr u i bn = (if bn = NDIRECT + m then a else iaddr s i bn)"
proof (cases "bn < NDIRECT \<or> bn = NDIRECT + m")
  case False
  then have "4 * (bn - NDIRECT) + 4 \<le> 4 * m \<or> 4 * m + 4 \<le> 4 * (bn - NDIRECT)" by linarith
  with False assms show ?thesis by (simp add: iaddr_def)
qed (use assms in \<open>auto simp: iaddr_def\<close>)

lemma entry_extends:
  assumes "alloc_ready s sb" "held s = {}" "file_wf s sb i" "i_addrs i NDIRECT \<noteq> 0" "m < NINDIRECT" "log_fits s sb i 2"
    "iaddr s i (NDIRECT + m) = 0 \<Longrightarrow> free_blocks s sb \<noteq> {}"
  shows "\<exists>t. bmap_indirect ROOTDEV (i_addrs i NDIRECT) m s = Inr (iaddr t i (NDIRECT + m), t) \<and> iaddr t i (NDIRECT + m) \<noteq> 0 \<and>
    inodes t = inodes s \<and> extended sb s i off [] t i \<and>
    set (lsec t) \<subseteq> set (lsec s) \<union> bitmap sb \<union> {i_addrs i NDIRECT, iaddr t i (NDIRECT + m)} \<and>
    card (free_blocks s sb) = card (free_blocks t sb) + (if iaddr s i (NDIRECT + m) = 0 then 1 else 0)"
proof -
  let ?x = "i_addrs i NDIRECT" and ?k = "NDIRECT + m"
  have r: "linv s" "fs_geom s sb" "outstanding (thelog s) \<ge> 1" using assms(1) by (auto simp: alloc_ready_def)
  have xf: "?x \<in> file_blks s i" using assms(4) by (simp add: file_blks_def)
  with assms(3) have x: "home_sector s ?x" "?x \<notin> bitmap sb" "blk_used s sb (unat ?x)" by (auto simp: file_wf_def)
  have e: "get32 (view s ?x) (4 * m) = iaddr s i ?k" using assms(4) by (simp add: iaddr_def)
  have rm: "room s 1" by (rule linv_room [OF r(1) assms(2)])
  have nh: "?x \<notin> held s" using assms(2) by simp
  note sok = home_usable [OF r(1) x(1)]
  show ?thesis
  proof (cases "iaddr s i ?k = 0")
    case False
    from peek_calm [OF r(1) sok nh rm] obtain b t s' where t: "bread ROOTDEV ?x s = Inr (b, t)" "buf_data b t = Inr (view s ?x, t)"
      "brelse b t = Inr ((), s')" "calm s s'" by blast
    note c = calm_frame [OF t(4)]
    have ia: "iaddr s' = iaddr s" using calm_mapped [OF t(4)] by simp
    have us: "blk_used s' = blk_used s" using c(2) by (intro ext) (simp add: blk_used_def)
    have fb: "file_blks s' = file_blks s" "fbyte s' = fbyte s" using c(2) ia by (auto simp: fun_eq_iff file_blks_def fbyte_def)
    have "extended sb s i off [] s' i"
      using extended_refl [OF r(1,2) assms(3), of off] t(4) c(8) unfolding extended_def file_wf_def file_inj_def ia us fb c(2) calm_def by simp
    moreover have "bmap_indirect ROOTDEV ?x m s = Inr (iaddr s i ?k, s')" using t(1-3) e False by (simp add: bmap_indirect_def)
    ultimately show ?thesis using False c by (intro exI [of _ s']) (auto simp: ia free_blocks_def us)
  next
    case True
    from bread_step [OF r(1) sok nh rm] obtain b t where t: "bread ROOTDEV ?x s = Inr (b, t)" "linv t" "tenv t = tenv s"
      "disk t = disk s" "events t = events s" "view t = view s" "lsec t = lsec s" "inodes t = inodes s" "owns t b ?x"
      "held t = insert ?x (held s)" "\<forall>c y. owns s c y \<longrightarrow> owns t c y" by blast
    note ah = alloc_ready_held [OF assms(1) t(2,3,6)] and gt = tenv_geom [OF t(3)]
    have lt: "thelog t = (thelog t)\<lparr>lh := lh (thelog t)\<rparr>" "log_size (thelog t) = log_size (thelog s)" "outstanding (thelog t) = outstanding (thelog s)"
      using t(3) by (simp_all add: tenv_eq)
    have "int (length (lsec t)) + 2 < log_size (thelog t)" using log_fits_length [OF r(1) assms(6)] lt t(7) by simp
    moreover have "free_blocks t sb \<noteq> {}" using assms(7) [OF True] ah(2) by simp
    moreover have "2 \<le> unat ?x" using geom_start(1) [OF r(2)] x(1) by simp
    moreover have "blk_used t sb (unat ?x)" using x(3) t(6) by (simp add: blk_used_def)
    ultimately obtain a u where u: "balloc ROOTDEV t = Inr (a, u)" "new_block sb t a u" "inodes u = inodes t"
      "card (free_blocks t sb) = Suc (card (free_blocks u sb))" using balloc_new [OF ah(1)] t(10) assms(2) x(2) by auto
    have tu: "tstep t u" and lu: "set (lsec s) \<subseteq> set (lsec u)" "set (lsec u) \<subseteq> set (lsec s) \<union> bitmap sb \<union> {a}"
      and fr: "fresh_block sb s a u" using u(2) t(7) ah(3) by (simp_all add: new_block_def)
    have n: "home_sector s a" "\<not> blk_used s sb (unat a)" using fr by (simp_all add: fresh_block_def)
    note gu = tstep_geom [OF tu]
    have ax: "a \<noteq> ?x" "a \<noteq> 0" using n x(3) geom_start(1) [OF r(2), of a] by auto
    have vx: "view u ?x = view s ?x" by (rule new_block_iaddr(2) [OF assms(3) fr xf])
    have own: "owns u b ?x" using tu t(9) by (simp add: tstep_def)
    have "length (lsec u) \<le> card (insert a (log_blks s sb i))"
      by (rule lsec_card [OF tstep_linv [OF tu]]) (use lu in \<open>auto simp: log_blks_def\<close>)
    also have "\<dots> \<le> Suc (card (log_blks s sb i))" by (simp add: card_insert_if log_blks_def)
    finally have fit: "int (length (lsec u)) + 1 < log_size (thelog u)" using assms(6) gu(4) lt(2) by (simp add: log_fits_def)
    from logged_step [OF tstep_linv [OF tu] own _ _ fit, of "put32 (view s ?x) (4 * m) a"] x(1) r(3) gu gt lt obtain v w s' where s':
      "set_data b (put32 (view s ?x) (4 * m) a) u = Inr ((), v)" "log_write b v = Inr ((), w)" "brelse b w = Inr ((), s')" "linv s'"
      "tenv s' = tenv u" "disk s' = disk u" "events s' = events u" "view s' = (view u)(?x := put32 (view s ?x) (4 * m) a)"
      "lsec s' = log_add ?x (lsec u)" "inodes s' = inodes u" "\<forall>c y. owns s' c y \<longleftrightarrow> owns u c y \<and> y \<noteq> ?x" by auto
    have "owns s' = owns s" by (rule bc.owns_after_release [OF t(10,11) nh]) (use s'(11) tu in \<open>simp add: tstep_def\<close>)
    then have ts: "tstep s s'" using s'(4-7) t(3-5) tu by (simp add: tstep_def)
    note ia = put_entry_iaddr [OF assms(4), of s' s m a]
    have "extended sb s i off [] s' i"
      by (rule extended_entry [OF r(2) assms(3) fr ts, where k = ?k]) (use s'(8) True assms(4,5) ax x(2) ia in \<open>auto simp: NB_def\<close>)
    moreover have "bmap_indirect ROOTDEV ?x m s = Inr (a, s')"
      using t(1) bc.data_ok [OF t(9)] bc.data_ok [OF own] u(1) s'(1-3) True e vx t(6) by (simp add: bmap_indirect_def)
    moreover have "bmp sb c \<noteq> ?x" if "c < unat (sb_size sb)" for c using x(2) bmp_in_bitmap [OF that] by metis
    then have "free_blocks s' sb = free_blocks u sb"
      using s'(8) geom_start(2) [OF r(2)] by (auto simp: free_blocks_def blk_used_def)
    then have "card (free_blocks s sb) = Suc (card (free_blocks s' sb))" using u(4) ah(2) by simp
    ultimately show ?thesis using ia s'(8-10) t(8) u(3) lu True ax(2) by (intro exI [of _ s']) auto
  qed
qed

text \<open>What stays true while the file grows.\<close>

lemma extended_ready:
  assumes "alloc_ready s sb" "extended sb s i off xs t j"
  shows "alloc_ready t sb"
proof -
  have r: "fs_geom s sb" "outstanding (thelog s) \<ge> 1" "\<forall>b < 2. blk_used s sb b" "\<forall>a \<in> bitmap sb. blk_used s sb (unat a)"
    using assms(1) by (auto simp: alloc_ready_def)
  note e = extendedD [OF assms(2)] and g = geom_start [OF r(1)]
  have "2 \<le> unat (sb_size sb)" using r(1) by (auto simp: fs_geom_def log_at_def sb_geom_def)
  then have low: "\<forall>b < 2. blk_used t sb b" using r(3) e(6) by simp
  have "unat a < unat (sb_size sb)" if "a \<in> bitmap sb" for a
  proof -
    have "home_sector s a" using that r(1) by (auto simp: bitmap_def fs_geom_def)
    with g show ?thesis by simp
  qed
  with r(4) e(6) have bm: "\<forall>a \<in> bitmap sb. blk_used t sb (unat a)" by blast
  have "1 \<notin> file_blks t j"
  proof
    assume "1 \<in> file_blks t j"
    then have "home_sector s 1" using e(2) tstep_geom(1) [OF e(1)] by (auto simp: file_wf_def)
    then show False using not_one_home by blast
  qed
  with e(8) one_not_bitmap [OF r(1)] have "view t 1 = view s 1" by blast
  with fs_geom_step [OF r(1) e(1)] low bm r(2) tstep_linv [OF e(1)] tstep_geom(5) [OF e(1)] show ?thesis by (simp add: alloc_ready_def)
qed

lemma log_fits_step:
  assumes "alloc_ready s sb" "extended sb s i off xs t j" "set (lsec t) \<subseteq> set (lsec s) \<union> bitmap sb \<union> {i_addrs j NDIRECT} \<union> B"
    "finite B" "log_fits s sb i (k + card B)"
  shows "log_fits t sb j k"
proof -
  have r: "linv s" "fs_geom s sb" using assms(1) by (auto simp: alloc_ready_def)
  let ?A = "set (lsec s) \<union> bitmap sb"
  have "home_sector s a" if "a \<in> ?A" for a
    using that r(2) linv_facts(3) [OF r(1)] by (auto simp: lsecs_ok_def list_all_iff bitmap_def fs_geom_def)
  then have z: "0 \<notin> ?A" using geom_start(1) [OF r(2)] by fastforce
  have "card (insert (i_addrs j NDIRECT) ?A) \<le> card (log_blks s sb i)"
  proof (cases "i_addrs i NDIRECT = 0")
    case True
    then show ?thesis using z card_insert_if [of ?A] by (simp add: log_blks_def)
  next
    case False
    then show ?thesis using extendedD(5) [OF assms(2)] by (simp add: log_blks_def)
  qed
  moreover have "card (log_blks t sb j) \<le> card (insert (i_addrs j NDIRECT) ?A \<union> B)"
    by (rule card_mono) (use assms(3,4) in \<open>auto simp: log_blks_def\<close>)
  moreover have "card (insert (i_addrs j NDIRECT) ?A \<union> B) \<le> card (insert (i_addrs j NDIRECT) ?A) + card B" by (rule card_Un_le)
  ultimately show ?thesis using assms(5) tstep_geom(4) [OF extendedD(1) [OF assms(2)]] by (simp add: log_fits_def)
qed

text \<open>There are \<open>k\<close> free blocks besides one for a missing index block.\<close>

definition has_free :: "kern \<Rightarrow> superblock \<Rightarrow> inode \<Rightarrow> nat \<Rightarrow> bool" where
  "has_free s sb i k \<longleftrightarrow> k + (if i_addrs i NDIRECT = 0 then 1 else 0) \<le> card (free_blocks s sb)"

lemma bmap_extends:
  assumes "alloc_ready s sb" "held s = {}" "i_dev (inodes s ip) = ROOTDEV" "file_wf s sb (inodes s ip)" "bn < NB"
    "log_fits s sb (inodes s ip) 2" "has_free s sb (inodes s ip) 1"
  shows "\<exists>t j. bmap ip bn s = Inr (iaddr t j bn, t) \<and> iaddr t j bn \<noteq> 0 \<and> inodes t = (inodes s)(ip := j) \<and>
    extended sb s (inodes s ip) off [] t j \<and> set (lsec t) \<subseteq> set (lsec s) \<union> bitmap sb \<union> {i_addrs j NDIRECT, iaddr t j bn} \<and>
    (\<forall>k. has_free s sb (inodes s ip) (Suc k) \<longrightarrow> has_free t sb j k)"
proof -
  let ?i = "inodes s ip"
  have r: "linv s" using assms(1) by (simp add: alloc_ready_def)
  have len: "int (length (lsec s)) + 2 < log_size (thelog s)" using log_fits_length [OF r assms(6)] by simp
  have "card (free_blocks s sb) \<noteq> 0" using assms(7) by (auto simp: has_free_def split: if_splits)
  then have fr: "free_blocks s sb \<noteq> {}" by auto
  show ?thesis
  proof (cases "bn < NDIRECT")
    case True
    then obtain t j where t: "bmap_slot ip bn s = Inr (i_addrs j bn, t)" "i_addrs j bn \<noteq> 0" "inodes t = (inodes s)(ip := j)"
      "extended sb s ?i off [] t j" "i_addrs j NDIRECT = i_addrs ?i NDIRECT" "set (lsec t) \<subseteq> set (lsec s) \<union> bitmap sb \<union> {i_addrs j bn}"
      "card (free_blocks s sb) = card (free_blocks t sb) + (if i_addrs ?i bn = 0 then 1 else 0)"
      using slot_extends [OF assms(1-4) _ len, of bn off] fr by auto
    have "has_free t sb j k" if "has_free s sb ?i (Suc k)" for k using that t(5,7) by (auto simp: has_free_def split: if_splits)
    with t True show ?thesis by (intro exI [of _ t] exI [of _ j]) (auto simp: bmap_def iaddr_def)
  next
    case False
    obtain m where m: "bn = NDIRECT + m" "m < NINDIRECT" using False assms(5) by (metis NB_def add_less_cancel_left le_iff_add not_less)
    from slot_extends [OF assms(1-4) _ len, of NDIRECT off] fr obtain t j where t: "bmap_slot ip NDIRECT s = Inr (i_addrs j NDIRECT, t)"
      "i_addrs j NDIRECT \<noteq> 0" "inodes t = (inodes s)(ip := j)" "extended sb s ?i off [] t j"
      "\<forall>bn < NB. iaddr t j bn = iaddr s ?i bn" "set (lsec t) \<subseteq> set (lsec s) \<union> bitmap sb \<union> {i_addrs j NDIRECT}"
      "card (free_blocks s sb) = card (free_blocks t sb) + (if i_addrs ?i NDIRECT = 0 then 1 else 0)" by auto
    note e = extendedD [OF t(4)]
    have h: "held t = {}" using tstep_held [OF e(1)] assms(2) by simp
    have "log_fits t sb j 2" by (rule log_fits_step [OF assms(1) t(4), where B = "{}"]) (use t(6) assms(6) in auto)
    moreover have "free_blocks t sb \<noteq> {}" using t(7) assms(7) by (auto simp: has_free_def split: if_splits)
    ultimately obtain u where u: "bmap_indirect ROOTDEV (i_addrs j NDIRECT) m t = Inr (iaddr u j bn, u)" "iaddr u j bn \<noteq> 0"
      "inodes u = inodes t" "extended sb t j off [] u j" "set (lsec u) \<subseteq> set (lsec t) \<union> bitmap sb \<union> {i_addrs j NDIRECT, iaddr u j bn}"
      "card (free_blocks t sb) = card (free_blocks u sb) + (if iaddr t j bn = 0 then 1 else 0)"
      using entry_extends [OF extended_ready [OF assms(1) t(4)] h e(2) t(2) m(2), of off] m(1) by auto
    have "i_dev j = ROOTDEV" using extended_fields(1) [OF t(4)] assms(3) by simp
    then have run: "bmap ip bn s = Inr (iaddr u j bn, u)" using t(1,3) u(1) m by (simp add: bmap_def ino_at_def)
    have "extended sb s ?i off [] u j" using extended_trans [OF t(4), of "[]" u j] u(4) by simp
    moreover have "has_free u sb j k" if "has_free s sb ?i (Suc k)" for k
      using that t(2,7) u(6) by (auto simp: has_free_def split: if_splits)
    moreover have "set (lsec u) \<subseteq> set (lsec s) \<union> bitmap sb \<union> {i_addrs j NDIRECT, iaddr u j bn}" using u(5) t(6) by auto
    ultimately show ?thesis using run u(2,3) t(3) by (intro exI [of _ u] exI [of _ j]) simp
  qed
qed

section \<open>Writing\<close>

lemma used_outside_bitmap:
  assumes "view u = (view t)(a := d)" "a \<notin> bitmap sb" "b < unat (sb_size sb)"
  shows "blk_used u sb b = blk_used t sb b"
  using assms(1,2) bmp_in_bitmap [OF assms(3)] by (auto simp: blk_used_def)

lemma extended_chunk:
  assumes "fs_geom t sb" "file_wf t sb j" "tstep t u" "off div BSIZE < NB" "iaddr t j (off div BSIZE) \<noteq> 0" "off mod BSIZE + length xs \<le> BSIZE"
    "view u = (view t)(iaddr t j (off div BSIZE) := blit_list (view t (iaddr t j (off div BSIZE))) (off mod BSIZE) xs)"
  shows "extended sb t j off xs u j" "free_blocks u sb = free_blocks t sb"
proof -
  let ?a = "iaddr t j (off div BSIZE)"
  have w: "file_inj t j" "\<And>x. x \<in> file_blks t j \<Longrightarrow> home_sector t x \<and> unat x < unat (sb_size sb) \<and> x \<notin> bitmap sb \<and> blk_used t sb (unat x)"
    using assms(2) by (auto simp: file_wf_def)
  have af: "?a \<in> file_blks t j" using assms(4,5) by (auto simp: file_blks_def)
  note us = used_outside_bitmap [OF assms(7)]
  have ab: "?a \<notin> bitmap sb" using w(2) [OF af] by simp
  from wrote_chunk [OF w(1) assms(4-7)] have wr: "iaddr u j = iaddr t j"
    "\<And>p. p div BSIZE < NB \<Longrightarrow> iaddr t j (p div BSIZE) \<noteq> 0 \<Longrightarrow>
      fbyte u j p = (if off \<le> p \<and> p < off + length xs then xs ! (p - off) else fbyte t j p)" by (auto simp: wrote_def)
  have fb: "file_blks u j = file_blks t j" by (simp add: file_blks_def wr(1))
  have wf: "file_wf u sb j"
    unfolding file_wf_def file_inj_def fb wr(1) using w us ab tstep_geom(1) [OF assms(3)] by (auto simp: file_inj_def)
  have "p div BSIZE = off div BSIZE" if "off \<le> p" "p < off + length xs" for p
    using same_block(1) [of off "p - off"] that assms(6) by simp
  moreover have "blk_used u sb b \<longleftrightarrow> blk_used t sb b \<or> of_nat b \<in> file_blks t j" if b: "b < unat (sb_size sb)" for b
  proof -
    have "unat (of_nat b :: u32) = b" using b fs_geom_small [OF assms(1)] by (intro unat_of_nat_small) simp
    then have "blk_used t sb b" if "of_nat b \<in> file_blks t j" using w(2) [OF that] by simp
    with us [OF ab b] show ?thesis by blast
  qed
  moreover have "view u x = view t x" if "x \<notin> file_blks t j" for x using that af assms(7) by auto
  ultimately show "extended sb t j off xs u j"
    unfolding extended_def fb wr(1) using assms(3-5) wf wr(2) by auto
  show "free_blocks u sb = free_blocks t sb"
    using us [OF ab] geom_start(2) [OF assms(1)] by (auto simp: free_blocks_def)
qed

lemma writei_chunk_extends:
  assumes "alloc_ready s sb" "held s = {}" "i_dev (inodes s ip) = ROOTDEV" "file_wf s sb (inodes s ip)" "unat off div BSIZE < NB"
    "log_fits s sb (inodes s ip) (k + 2)" "has_free s sb (inodes s ip) 1" "unat off mod BSIZE + length xs \<le> BSIZE"
  shows "\<exists>a t b d v w u j. bmap ip (unat off div BSIZE) s = Inr (a, t) \<and> i_dev (inodes t ip) = ROOTDEV \<and>
    bread ROOTDEV a t = Inr (b, d) \<and> (\<exists>c. buf_data b d = Inr (c, d) \<and> set_data b (blit_list c (unat off mod BSIZE) xs) d = Inr ((), v)) \<and>
    log_write b v = Inr ((), w) \<and> brelse b w = Inr ((), u) \<and> inodes u = (inodes s)(ip := j) \<and>
    extended sb s (inodes s ip) (unat off) xs u j \<and> log_fits u sb j (k + 1) \<and> (\<forall>m. has_free s sb (inodes s ip) (Suc m) \<longrightarrow> has_free u sb j m)"
proof -
  let ?i = "inodes s ip" and ?bn = "unat off div BSIZE"
  have "log_fits s sb ?i 2" using assms(6) by (simp add: log_fits_def)
  from bmap_extends [OF assms(1-5) this assms(7), of "unat off"] obtain t j where t: "bmap ip ?bn s = Inr (iaddr t j ?bn, t)"
    "iaddr t j ?bn \<noteq> 0" "inodes t = (inodes s)(ip := j)" "extended sb s ?i (unat off) [] t j"
    "set (lsec t) \<subseteq> set (lsec s) \<union> bitmap sb \<union> {i_addrs j NDIRECT, iaddr t j ?bn}" "\<forall>m. has_free s sb ?i (Suc m) \<longrightarrow> has_free t sb j m" by blast
  let ?a = "iaddr t j ?bn"
  note e = extendedD [OF t(4)]
  have r: "linv t" "fs_geom t sb" "outstanding (thelog t) \<ge> 1" using extended_ready [OF assms(1) t(4)] by (auto simp: alloc_ready_def)
  have ft: "log_fits t sb j (k + 1)"
    by (rule log_fits_step [OF assms(1) t(4), where B = "{?a}"]) (use t(5) assms(6) in auto)
  have h: "held t = {}" using tstep_held [OF e(1)] assms(2) by simp
  have "?a \<in> file_blks t j" using t(2) assms(5) by (auto simp: file_blks_def)
  with e(2) have hm: "home_sector t ?a" by (auto simp: file_wf_def)
  have fit: "int (length (lsec t)) + 1 < log_size (thelog t)" using log_fits_length [OF r(1) ft] by simp
  from session [OF r(1) home_usable [OF r(1) hm] _ linv_room [OF r(1) h]] h hm r(3) fit obtain b d where d: "bread ROOTDEV ?a t = Inr (b, d)"
    "buf_data b d = Inr (view t ?a, d)" "\<And>x. \<exists>v w u. set_data b x d = Inr ((), v) \<and> log_write b v = Inr ((), w) \<and> brelse b w = Inr ((), u) \<and>
        tstep t u \<and> view u = (view t)(?a := x) \<and> lsec u = log_add ?a (lsec t) \<and> inodes u = inodes t" by (metis empty_iff)
  from d(3) [of "blit_list (view t ?a) (unat off mod BSIZE) xs"] obtain v w u where u:
    "set_data b (blit_list (view t ?a) (unat off mod BSIZE) xs) d = Inr ((), v)" "log_write b v = Inr ((), w)" "brelse b w = Inr ((), u)"
    "tstep t u" "view u = (view t)(?a := blit_list (view t ?a) (unat off mod BSIZE) xs)" "lsec u = log_add ?a (lsec t)" "inodes u = inodes t" by blast
  note c = extended_chunk [OF r(2) e(2) u(4) assms(5) t(2) assms(8) u(5)]
  have eu: "extended sb s ?i (unat off) xs u j" using extended_trans [OF t(4), of xs u j] c(1) by simp
  have lf: "log_fits u sb j (k + 1)"
    by (rule log_fits_step [OF assms(1) eu, where B = "{?a}"]) (use t(5) u(6) assms(6) in auto)
  have hf: "\<forall>m. has_free s sb ?i (Suc m) \<longrightarrow> has_free u sb j m" using t(6) c(2) by (simp add: has_free_def)
  have dev: "i_dev (inodes t ip) = ROOTDEV" using t(3) extended_fields(1) [OF t(4)] assms(3) by simp
  have iu: "inodes u = (inodes s)(ip := j)" using t(3) u(7) by simp
  show ?thesis by (intro exI conjI) (rule t(1) dev d(1,2) u(1-3) iu eu lf hf)+
qed

lemma writei_loop_extends:
  assumes "alloc_ready s sb" "held s = {}" "i_dev (inodes s ip) = ROOTDEV" "file_wf s sb (inodes s ip)" "unat off + length src \<le> NB * BSIZE"
    "log_fits s sb (inodes s ip) (nchunks (unat off) (length src) + 1)" "has_free s sb (inodes s ip) (nchunks (unat off) (length src))"
  shows "\<exists>t j. writei_loop ip off src s = Inr (off + of_nat (length src), t) \<and> inodes t = (inodes s)(ip := j) \<and>
    extended sb s (inodes s ip) (unat off) src t j \<and> log_fits t sb j 1 \<and>
    (\<forall>m. has_free s sb (inodes s ip) (nchunks (unat off) (length src) + m) \<longrightarrow> has_free t sb j m)"
  using assms
proof (induction "length src" arbitrary: s off src rule: less_induct)
  case less
  note pre = less.prems
  let ?i = "inodes s ip"
  have r: "linv s" "fs_geom s sb" using pre(1) by (auto simp: alloc_ready_def)
  show ?case
  proof (cases "src = []")
    case True
    with extended_refl [OF r pre(4)] pre(6) show ?thesis
      by (subst writei_loop.simps) (auto simp: nchunks_def intro!: exI [of _ ?i])
  next
    case False
    let ?m = "chunk off (length src)" and ?bn = "unat off div BSIZE"
    have m: "0 < ?m" "?m \<le> length src" "?m = min (length src) (BSIZE - unat off mod BSIZE)"
      using chunk_pos [of "length src" off] False by (auto simp: chunk_def)
    define k where "k = nchunks (unat off + ?m) (length src - ?m)"
    have nch: "nchunks (unat off) (length src) = Suc k" unfolding k_def by (rule nchunks_step) (use False m in auto)
    have "unat off < NB * BSIZE" using pre(5) False by (metis add_lessD1 le_less_trans length_greater_0_conv less_add_same_cancel1 less_le_trans)
    then have bn: "?bn < NB" by (simp add: less_mult_imp_div_less)
    have "unat off mod BSIZE < BSIZE" "?m \<le> BSIZE - unat off mod BSIZE" using m(3) by (simp_all add: layout)
    then have fits: "unat off mod BSIZE + length (take ?m src) \<le> BSIZE" using m(2) by simp
    have "log_fits s sb ?i (k + 2)" "has_free s sb ?i 1" using pre(6,7) nch by (auto simp: has_free_def split: if_splits)
    from writei_chunk_extends [OF pre(1-4) bn this fits] obtain a t b d v w u j c where
      u: "bmap ip ?bn s = Inr (a, t)" "i_dev (inodes t ip) = ROOTDEV" "bread ROOTDEV a t = Inr (b, d)" "buf_data b d = Inr (c, d)"
      "set_data b (blit_list c (unat off mod BSIZE) (take ?m src)) d = Inr ((), v)" "log_write b v = Inr ((), w)" "brelse b w = Inr ((), u)"
      "inodes u = (inodes s)(ip := j)" "extended sb s ?i (unat off) (take ?m src) u j" "log_fits u sb j (k + 1)"
      "\<And>m. has_free s sb ?i (Suc m) \<Longrightarrow> has_free u sb j m" by blast
    note e = extendedD [OF u(9)]
    have run: "writei_loop ip off src s = writei_loop ip (off + of_nat ?m) (drop ?m src) u"
      using False u(1-7) by (subst writei_loop.simps) (simp add: ino_at_def)
    have big: "NB * BSIZE < 2 ^ 32" by (simp add: NB_def layout)
    have off': "unat (off + of_nat ?m) = unat off + ?m"
      using pre(5) m(2) big by (simp add: unat_word_ariths unat_of_nat take_bit_nat_eq_self)
    have "i_dev j = ROOTDEV" using extended_fields(1) [OF u(9)] pre(3) by simp
    then have "i_dev (inodes u ip) = ROOTDEV" "file_wf u sb (inodes u ip)" "inodes u ip = j" using u(8) e(2) by simp_all
    moreover have "held u = {}" using tstep_held [OF e(1)] pre(2) by simp
    moreover have "length (drop ?m src) < length src" "unat (off + of_nat ?m) + length (drop ?m src) \<le> NB * BSIZE"
      "nchunks (unat (off + of_nat ?m)) (length (drop ?m src)) = k" using m(1,2) pre(5) off' k_def by simp_all
    moreover have "has_free u sb j k" using u(11) pre(7) nch by simp
    ultimately have more: "\<exists>t' j'. writei_loop ip (off + of_nat ?m) (drop ?m src) u = Inr (off + of_nat ?m + of_nat (length (drop ?m src)), t') \<and>
      inodes t' = (inodes u)(ip := j') \<and> extended sb u j (unat (off + of_nat ?m)) (drop ?m src) t' j' \<and> log_fits t' sb j' 1 \<and>
      (\<forall>m. has_free u sb j (k + m) \<longrightarrow> has_free t' sb j' m)"
      using less.hyps [of "drop ?m src" u "off + of_nat ?m"] extended_ready [OF pre(1) u(9)] u(10) by simp
    then obtain t' j' where t': "writei_loop ip (off + of_nat ?m) (drop ?m src) u = Inr (off + of_nat ?m + of_nat (length (drop ?m src)), t')"
      "inodes t' = (inodes u)(ip := j')" "extended sb u j (unat (off + of_nat ?m)) (drop ?m src) t' j'" "log_fits t' sb j' 1"
      "\<And>m. has_free u sb j (k + m) \<Longrightarrow> has_free t' sb j' m" by blast
    have "extended sb s ?i (unat off) (take ?m src @ drop ?m src) t' j'"
      by (rule extended_trans [OF u(9)]) (use t'(3) off' m(2) in simp)
    moreover have "off + of_nat ?m + of_nat (length (drop ?m src)) = off + of_nat (length src)"
      using m(2) by (simp flip: of_nat_add)
    moreover have "has_free t' sb j' m" if "has_free s sb ?i (nchunks (unat off) (length src) + m)" for m
      using t'(5) u(11) [of "k + m"] that nch by simp
    ultimately show ?thesis using run t'(1,2,4) u(8) by (intro exI [of _ t'] exI [of _ j']) simp
  qed
qed

lemma writei_extends_ok:
  assumes "alloc_ready s sb" "held s = {}" "i_dev (inodes s ip) = ROOTDEV" "i_type (inodes s ip) \<noteq> T_DEV" "file_wf s sb (inodes s ip)"
    and "home_sector s (IBLOCK (i_inum (inodes s ip)))" "unat n = length src" "unat off \<le> unat (i_size (inodes s ip))"
    and "unat (i_size (inodes s ip)) < unat off + length src" "unat off + length src \<le> NB * BSIZE"
    and "log_fits s sb (inodes s ip) (nchunks (unat off) (length src) + 1)" "has_free s sb (inodes s ip) (nchunks (unat off) (length src))"
  shows "\<exists>t j s'. writei ip src off n s = Inr (sint n, s') \<and> extended sb s (inodes s ip) (unat off) src t j \<and>
    inodes s' = (inodes s)(ip := j\<lparr>i_size := off + n, i_mtime := clock s\<rparr>) \<and> tstep s s' \<and>
    view s' = (view t)(IBLOCK (i_inum (inodes s ip)) := put_dinode (NDIRECT + 1) (view t (IBLOCK (i_inum (inodes s ip))))
      (dinode_offset (i_inum (inodes s ip))) (dinode_of (j\<lparr>i_size := off + n, i_mtime := clock s\<rparr>))) \<and>
    (\<forall>m. has_free s sb (inodes s ip) (nchunks (unat off) (length src) + m) \<longrightarrow> has_free t sb j m)"
proof -
  let ?i = "inodes s ip"
  have big: "NB * BSIZE < 2 ^ 31" by (simp add: NB_def layout)
  have lt: "unat off + unat n < 2 ^ 32" using assms(7,10) big by simp
  note w = word_add_bounds [OF lt]
  have small: "\<not> MAXFILE * BSIZE < unat (off + n)" using lt w(2) by (simp add: layout)
  have off: "\<not> i_size ?i < off" using assms(8) by (simp add: word_less_nat_alt)
  have "0 < unat n" using assms(7-9) by linarith
  then have n: "of_nat (length src) = n" "n > 0" using assms(7) by (metis of_nat_unat_eq, simp add: word_less_nat_alt)
  from writei_loop_extends [OF assms(1-3,5,10-12)] n(1) obtain t j where t: "writei_loop ip off src s = Inr (off + n, t)"
    "inodes t = (inodes s)(ip := j)" "extended sb s ?i (unat off) src t j" "log_fits t sb j 1"
    "\<forall>m. has_free s sb ?i (nchunks (unat off) (length src) + m) \<longrightarrow> has_free t sb j m" by auto
  note e = extendedD [OF t(3)]
  have j: "i_size j = i_size ?i" "i_dev j = ROOTDEV" "i_inum j = i_inum ?i"
    using extended_fields [OF t(3)] assms(3) by simp_all
  have gt: "off + n > i_size j" using assms(7,9) w(2) j(1) by (simp add: word_less_nat_alt)
  let ?k = "j\<lparr>i_size := off + n, i_mtime := clock s\<rparr>"
  let ?u = "t\<lparr>inodes := (inodes s)(ip := ?k)\<rparr>"
  have lu: "linv ?u" "held ?u = {}" "tstep s ?u" using tstep_linv [OF e(1)] tstep_held [OF e(1)] assms(2) tstep_trans [OF e(1) ino_step] by simp_all
  have "int (length (lsec ?u)) + 1 < log_size (thelog ?u)" using log_fits_length [OF tstep_linv [OF e(1)] t(4)] by (simp add: lsec_def)
  moreover have "outstanding (thelog ?u) \<ge> 1" using extended_ready [OF assms(1) t(3)] by (simp add: alloc_ready_def)
  moreover have "home_sector ?u (IBLOCK (i_inum (inodes ?u ip)))" using assms(6) j(3) tstep_geom(1) [OF e(1)] by simp
  ultimately obtain s' where s': "iupdate ip ?u = Inr ((), s')" "tstep ?u s'" "inodes s' = inodes ?u"
    "view s' = (view t)(IBLOCK (i_inum ?i) := put_dinode (NDIRECT + 1) (view t (IBLOCK (i_inum ?i))) (dinode_offset (i_inum ?i)) (dinode_of ?k))"
    using iupdate_ok [OF lu(1) linv_room [OF lu(1,2)], of ip] j(2,3) lu(2) by auto
  have ck: "clock t = clock s" using tstep_geom(6) [OF e(1)] .
  have "writei ip src off n s = Inr (sint n, s')"
    using assms(4,7) off w(1) small t(1,2) n gt s'(1) ck by (simp add: writei_def ino_at_def upd_ino_def unix_time_def)
  with t(3,5) s'(3,4) tstep_trans [OF lu(3) s'(2)] show ?thesis by (intro exI [of _ t] exI [of _ j] exI [of _ s']) simp
qed

text \<open>What a file is depends on the blocks it has, not on where its inode is stored.\<close>

lemma extended_stored:
  assumes "extended sb s i off xs t j" "tstep s s'" "view s' = (view t)(B := d)" "B \<notin> bitmap sb" "B \<notin> file_blks t j" "i_addrs k = i_addrs j"
  shows "file_wf s' sb k" "file_blks s' k = file_blks t j" "iaddr s' k = iaddr t j"
    "\<And>b. b < unat (sb_size sb) \<Longrightarrow> blk_used s' sb b = blk_used t sb b"
    "\<And>p. p div BSIZE < NB \<Longrightarrow> iaddr t j (p div BSIZE) \<noteq> 0 \<Longrightarrow> fbyte s' k p = fbyte t j p"
proof -
  note e = extendedD [OF assms(1)]
  have x: "B \<noteq> i_addrs j NDIRECT \<or> i_addrs j NDIRECT = 0" using assms(5) by (auto simp: file_blks_def)
  then show ia: "iaddr s' k = iaddr t j" by (auto simp: fun_eq_iff iaddr_def assms(3,6))
  then show fb: "file_blks s' k = file_blks t j" by (simp add: file_blks_def assms(6))
  show us: "blk_used s' sb b = blk_used t sb b" if "b < unat (sb_size sb)" for b by (rule used_outside_bitmap [OF assms(3,4) that])
  show "file_wf s' sb k" using e(2) us tstep_geom(1) [OF assms(2)] tstep_geom(1) [OF e(1)]
    unfolding file_wf_def file_inj_def fb ia assms(6) by auto
  show "fbyte s' k p = fbyte t j p" if p: "p div BSIZE < NB" "iaddr t j (p div BSIZE) \<noteq> 0" for p
  proof -
    have "iaddr t j (p div BSIZE) \<noteq> B" using p assms(5) by (auto simp: file_blks_def)
    then show ?thesis by (simp add: fbyte_def ia assms(3))
  qed
qed

lemma file_wf_mapped:
  assumes "linv s" "held s = {}" "file_wf s sb i" "bn < NB" "iaddr s i bn \<noteq> 0"
  shows "mapped s i bn"
proof -
  have ok: "usable_blk s a" if "a \<in> file_blks s i" for a
  proof -
    have "home_sector s a" "a \<noteq> 0" using assms(3) that by (auto simp: file_wf_def file_blks_def)
    with home_usable [OF assms(1)] assms(2) show ?thesis by (simp add: usable_blk_def)
  qed
  have "iaddr s i bn \<in> file_blks s i" using assms(4,5) by (auto simp: file_blks_def)
  moreover have "i_addrs i NDIRECT \<in> file_blks s i" if "NDIRECT \<le> bn" using assms(5) that by (auto simp: file_blks_def iaddr_def split: if_splits)
  ultimately show ?thesis using ok assms(4) by (simp add: mapped_def NB_def)
qed

text \<open>
  C26: Extending a file.  A \<open>writei\<close> that starts inside the file or at its end and ends behind it, with enough
  free blocks and log space, returns its count, and the file grows to the end of the write:
  \<open>readi\<close> returns the bytes written, bytes outside the range are as before and those of new blocks
  zero; the blocks it had are where they were and those it got were free, are now marked in use
  and belong to no other block of the file; the inode on disk has the new addresses and size; and
  no block but those of the file, the bitmap and the inode has changed.
\<close>

theorem writei_extends:
  assumes "alloc_ready s sb" "held s = {}" "i_dev (inodes s ip) = ROOTDEV" "i_type (inodes s ip) \<noteq> T_DEV" "file_wf s sb (inodes s ip)"
    and "home_sector s (IBLOCK (i_inum (inodes s ip)))" "unat n = length src" "unat off \<le> unat (i_size (inodes s ip))"
    and "unat (i_size (inodes s ip)) < unat off + length src" "unat off + length src \<le> NB * BSIZE"
    and "log_fits s sb (inodes s ip) (nchunks (unat off) (length src) + 1)" "has_free s sb (inodes s ip) (nchunks (unat off) (length src))"
    and "IBLOCK (i_inum (inodes s ip)) \<notin> bitmap sb" "blk_used s sb (unat (IBLOCK (i_inum (inodes s ip))))"
    and "IBLOCK (i_inum (inodes s ip)) \<notin> file_blks s (inodes s ip)"
  shows "\<exists>s' s''. writei ip src off n s = Inr (int (length src), s') \<and> readi ip off n s' = Inr ((int (length src), src), s'') \<and>
    unat (i_size (inodes s' ip)) = unat off + length src \<and> same_file (inodes s' ip) (loaded s' (inodes s' ip)) \<and> file_wf s' sb (inodes s' ip) \<and>
    (\<forall>bn < NB. iaddr s (inodes s ip) bn \<noteq> 0 \<longrightarrow> iaddr s' (inodes s' ip) bn = iaddr s (inodes s ip) bn) \<and>
    (\<forall>p. p div BSIZE < NB \<longrightarrow> iaddr s' (inodes s' ip) (p div BSIZE) \<noteq> 0 \<longrightarrow> fbyte s' (inodes s' ip) p =
       (if unat off \<le> p \<and> p < unat off + length src then src ! (p - unat off)
        else if iaddr s (inodes s ip) (p div BSIZE) \<noteq> 0 then fbyte s (inodes s ip) p else 0)) \<and>
    (\<forall>b < unat (sb_size sb). blk_used s' sb b \<longleftrightarrow> blk_used s sb b \<or> of_nat b \<in> file_blks s' (inodes s' ip)) \<and>
    (\<forall>a \<in> file_blks s' (inodes s' ip). a \<in> file_blks s (inodes s ip) \<or> \<not> blk_used s sb (unat a)) \<and>
    (\<forall>x. x \<notin> bitmap sb \<longrightarrow> x \<noteq> IBLOCK (i_inum (inodes s ip)) \<longrightarrow> x \<notin> file_blks s' (inodes s' ip) \<longrightarrow> view s' x = view s x)"
proof -
  let ?i = "inodes s ip" and ?B = "IBLOCK (i_inum (inodes s ip))"
  from writei_extends_ok [OF assms(1-12)] obtain t j s' where s': "writei ip src off n s = Inr (sint n, s')"
    "extended sb s ?i (unat off) src t j" "inodes s' = (inodes s)(ip := j\<lparr>i_size := off + n, i_mtime := clock s\<rparr>)" "tstep s s'"
    "view s' = (view t)(?B := put_dinode (NDIRECT + 1) (view t ?B) (dinode_offset (i_inum ?i)) (dinode_of (j\<lparr>i_size := off + n, i_mtime := clock s\<rparr>)))"
    by blast
  let ?k = "inodes s' ip"
  have k: "?k = j\<lparr>i_size := off + n, i_mtime := clock s\<rparr>" using s'(3) by simp
  note e = extendedD [OF s'(2)]
  have "?B \<notin> file_blks t j" using e(7) assms(14,15) by blast
  note st = extended_stored [OF s'(2,4,5) assms(13) this, of ?k, unfolded k, simplified, folded k]
  have j: "i_dev ?k = ROOTDEV" "i_type ?k \<noteq> T_DEV" "i_inum ?k = i_inum ?i" "i_size ?k = off + n"
    unfolding k using extended_fields [OF s'(2)] assms(3,4) by simp_all
  have big: "NB * BSIZE < 2 ^ 31" by (simp add: NB_def layout)
  have lt: "unat off + unat n < 2 ^ 32" "length src < 2 ^ 31" using assms(7,10) big by simp_all
  have sz: "unat (off + n) = unat off + length src" using word_add_bounds(2) [OF lt(1)] assms(7) by simp
  have sn: "sint n = int (length src)" using sint_of_small [OF lt(2)] assms(7) by (metis of_nat_unat_eq)
  have fb: "fbyte s' ?k p = (if unat off \<le> p \<and> p < unat off + length src then src ! (p - unat off)
        else if iaddr s ?i (p div BSIZE) \<noteq> 0 then fbyte s ?i p else 0)" if "p div BSIZE < NB" "iaddr s' ?k (p div BSIZE) \<noteq> 0" for p
    using e(10) [of p] st(3,5) that by simp
  have lv: "linv s'" "held s' = {}" using tstep_linv [OF s'(4)] tstep_held [OF s'(4)] assms(2) by simp_all
  have rng: "p div BSIZE < NB \<and> iaddr s' ?k (p div BSIZE) \<noteq> 0" if "unat off \<le> p" "p < unat off + length src" for p
    using e(9) [OF that] st(3) by simp
  then have mp: "\<forall>p. unat off \<le> p \<longrightarrow> p < unat off + length src \<longrightarrow> mapped s' ?k (p div BSIZE)"
    using file_wf_mapped [OF lv st(1)] by blast
  have cont: "file_bytes s' ?k (unat off) (length src) = src"
    by (rule nth_equalityI) (use fb rng in \<open>simp_all add: file_bytes_def\<close>)
  have "length src = min (unat n) (unat (i_size ?k) - unat off)" "unat off \<le> unat (i_size ?k)" using assms(7) j(4) sz by simp_all
  from readi_ok [OF lv(1) linv_room [OF lv] j(1,2) this(2) lt(1) this(1) mp] obtain s'' where
    "readi ip off n s' = Inr ((sint (of_nat (length src) :: u32), src), s'')" by (auto simp: cont)
  moreover have "same_file ?k (loaded s' ?k)"
    by (rule loaded_after_put [where d = "view t ?B"]) (use s'(5) j(3) k in simp)
  moreover have "view s' x = view s x" if "x \<notin> bitmap sb" "x \<noteq> ?B" "x \<notin> file_blks s' ?k" for x
    using that e(8) [of x] s'(5) st(2) by simp
  ultimately show ?thesis using s'(1) sn sint_of_small [OF lt(2)] j(4) sz st e(4,6,7) fb
    by (intro exI [of _ s'] exI [of _ s''] conjI) auto
qed

text \<open>The sample file with its blocks and the first eight marked in use: it grows into a third block.\<close>

definition sample_append_img :: "nat \<Rightarrow> block" where
  "sample_append_img = sample_img(4 := zero_block(0 := 0xFF, 5 := 3))"

lemma sample_append_bits: "b < 100 \<Longrightarrow> bit_used (zero_block(0 := 0xFF, 5 := 3)) b \<longleftrightarrow> b < 8 \<or> b = 40 \<or> b = 41"
proof -
  assume "b < 100"
  have "bit_used (zero_block(0 := 0xFF, 5 := 3)) b \<longleftrightarrow> (if b div 8 = 5 then bit_used (zero_block(5 := 3)) b else bit_used (zero_block(0 := 0xFF)) b)"
    by (auto simp: bit_used_iff)
  then show ?thesis unfolding sample_trunc_bits sample_bits by (auto split: if_splits)
qed

lemma sample_append_file:
  assumes "linv s" "held s = {}" "log_at s sample_sb" "sb_of_block (view s 1) = sample_sb" "view s 4 = zero_block(0 := 0xFF, 5 := 3)"
    "\<forall>a. home_sector s a \<longleftrightarrow> 2 \<le> unat a \<and> unat a < 70" "\<forall>k \<le> NDIRECT. i_addrs i k = (if k = 0 then 40 else if k = 1 then 41 else 0)"
  shows "b < 100 \<Longrightarrow> blk_used s sample_sb b \<longleftrightarrow> b < 8 \<or> b = 40 \<or> b = 41" "fs_geom s sample_sb" "file_blks s i \<subseteq> {40, 41}" "file_wf s sample_sb i"
    "p < 8192 \<Longrightarrow> p div BSIZE < NB \<and> iaddr s i (p div BSIZE) \<noteq> 0" "B \<subseteq> {8..<40 :: nat} \<Longrightarrow> card B \<le> card (free_blocks s sample_sb)"
proof -
  have sz: "unat (sb_size sample_sb) = 100" "sb_start sample_sb = 70" using sample_geom by (simp_all add: sample_sb_def)
  show g: "fs_geom s sample_sb" using assms(3,4,6) sz by (auto simp: fs_geom_def sample_bmp)
  show us: "blk_used s sample_sb b \<longleftrightarrow> b < 8 \<or> b = 40 \<or> b = 41" if "b < 100" for b
    using that assms(5) by (simp add: blk_used_def sample_bmp sample_append_bits layout)
  note m = sample_file_mapped [OF assms(1,2,7,6)]
  have nd: "i_addrs i NDIRECT = 0" using assms(7) by (simp add: layout)
  have "iaddr s i bn \<in> {0, 40, 41}" for bn by (simp add: m(2))
  then show fb: "file_blks s i \<subseteq> {40, 41}" using nd by (auto simp: file_blks_def)
  then show "file_wf s sample_sb i" using m(3) us assms(6) sz by (auto simp: file_wf_def sample_bitmap)
  show "p div BSIZE < NB \<and> iaddr s i (p div BSIZE) \<noteq> 0" if "p < 8192" using m(1) [OF that] by (simp add: mapped_def usable_blk_def NB_def)
  assume "B \<subseteq> {8..<40}"
  then have "B \<subseteq> free_blocks s sample_sb" using us sz by (fastforce simp: free_blocks_def)
  then show "card B \<le> card (free_blocks s sample_sb)" by (rule card_mono [rotated]) (simp add: free_blocks_def)
qed

theorem writei_extends_witness:
  "\<exists>s s' s''. sample_iopen (process_start sample_append_img 100) = Inr (0, s) \<and> i_size (inodes s 0) = 5000 \<and>
     writei 0 (replicate 4000 9) 5000 4000 s = Inr (4000, s') \<and> readi 0 5000 4000 s' = Inr ((4000, replicate 4000 9), s'') \<and>
     unat (i_size (inodes s' 0)) = 9000"
proof -
  have img: "sb_of_block (sample_append_img 1) = sample_sb" "head_n (sample_append_img 70) = 0"
    "sample_append_img 2 = put_dinode (NDIRECT + 1) zero_block (dinode_offset 1) sample_dinode" "di_type sample_dinode \<noteq> 0"
    using sample_head by (simp_all add: sample_append_img_def sample_img_def sample_image_def sample_dinode_def layout)
  have d: "di_addrs sample_dinode k = (if k = 0 then 40 else if k = 1 then 41 else 0)" "di_size sample_dinode = 5000"
    "di_type sample_dinode = T_FILE" for k by (simp_all add: sample_dinode_def)
  from image_open [where d = sample_append_img, OF img] obtain s where s: "sample_iopen (process_start sample_append_img 100) = Inr (0, s)"
    "linv s" "held s = {}" "lsec s = []" "outstanding (thelog s) = 1" "log_size (thelog s) = 30" "i_dev (inodes s 0) = ROOTDEV"
    "i_inum (inodes s 0) = 1" "i_type (inodes s 0) = T_FILE" "i_size (inodes s 0) = 5000"
    "\<forall>k \<le> NDIRECT. i_addrs (inodes s 0) k = (if k = 0 then 40 else if k = 1 then 41 else 0)"
    "\<forall>a. home_sector s a \<longleftrightarrow> 2 \<le> unat a \<and> unat a < 70" "\<forall>a. unat a \<noteq> 70 \<longrightarrow> view s a = sample_append_img (unat a)"
    "log_at s sample_sb" unfolding d by blast
  let ?i = "inodes s 0"
  have v: "sb_of_block (view s 1) = sample_sb" "view s 4 = zero_block(0 := 0xFF, 5 := 3)"
    using s(13) by (simp_all add: sample_append_img_def sample_img_def sample_image_def sample_disk_def)
  note fl = sample_append_file [OF s(2,3,14) v s(12,11)]
  have ready: "alloc_ready s sample_sb" using s(2,5) fl(1,2) by (simp add: alloc_ready_def sample_bitmap)
  have nd: "i_addrs ?i NDIRECT = 0" using s(11) by (simp add: layout)
  have ib: "IBLOCK (i_inum ?i) = 2" using s(8) by (simp add: IBLOCK_def layout)
  have nc: "nchunks (unat (5000 :: u32)) (length (replicate 4000 (9 :: u8))) = 2" by (simp add: nchunks_def layout)
  have "3 \<le> card (free_blocks s sample_sb)" using fl(6) [of "{8, 9, 10}"] by simp
  then have hf: "has_free s sample_sb ?i (nchunks (unat (5000 :: u32)) (length (replicate 4000 (9 :: u8))))" unfolding nc by (simp add: has_free_def)
  have lf: "log_fits s sample_sb ?i (nchunks (unat (5000 :: u32)) (length (replicate 4000 (9 :: u8))) + 1)"
    unfolding nc using s(4,6) nd by (simp add: log_fits_def log_blks_def sample_bitmap)
  have pre: "i_type ?i \<noteq> T_DEV" "home_sector s (IBLOCK (i_inum ?i))" "unat (4000 :: u32) = length (replicate 4000 (9 :: u8))"
    "unat (5000 :: u32) \<le> unat (i_size ?i)" "unat (i_size ?i) < unat (5000 :: u32) + length (replicate 4000 (9 :: u8))"
    "unat (5000 :: u32) + length (replicate 4000 (9 :: u8)) \<le> NB * BSIZE" "IBLOCK (i_inum ?i) \<notin> bitmap sample_sb"
    "blk_used s sample_sb (unat (IBLOCK (i_inum ?i)))" "IBLOCK (i_inum ?i) \<notin> file_blks s ?i"
    using s(9,10,12) ib fl(1,3) by (auto simp: sample_bitmap NB_def layout)
  from writei_extends [OF ready s(3,7) pre(1) fl(4) pre(2-6) lf hf pre(7-9)] obtain s' s'' where
    "writei 0 (replicate 4000 9) 5000 4000 s = Inr (int (length (replicate 4000 (9 :: u8))), s')"
    "readi 0 5000 4000 s' = Inr ((int (length (replicate 4000 (9 :: u8))), replicate 4000 9), s'')"
    "unat (i_size (inodes s' 0)) = unat (5000 :: u32) + length (replicate 4000 (9 :: u8))" by blast
  with s(1,10) show ?thesis by (intro exI [of _ s] exI [of _ s'] exI [of _ s'']) simp
qed

end
