(* ===== verification/Resolve.thy ===== *)
theory Resolve
  imports Dir_Props "HOL-Library.Multiset"
begin

text \<open>
  Path lookup through several directories.  The specification follows the names of a path through
  the directories on disk; \<open>namex\<close> does it through the inode cache, locking one inode at a time
  and exchanging its reference for one to the next.
\<close>

section \<open>Directories on disk\<close>

definition disk_inode :: "kern \<Rightarrow> u32 \<Rightarrow> inode" where
  "disk_inode s n = loaded s (zero_inode\<lparr>i_dev := ROOTDEV, i_inum := n\<rparr>)"

definition dir_entries :: "inode \<Rightarrow> nat" where
  "dir_entries i = unat (i_size i) div SIZEOF_DIRENT"

text \<open>The inode number under a name, from the first entry in use that has it.\<close>

definition dir_find :: "kern \<Rightarrow> inode \<Rightarrow> bytes \<Rightarrow> u32 option" where
  "dir_find s i name = map_option (\<lambda>j. ucast (de_inum (entry s i j))) (lookup_from s i name 0 (dir_entries i))"

fun resolve :: "kern \<Rightarrow> u32 \<Rightarrow> bool \<Rightarrow> bytes list \<Rightarrow> u32 option" where
  "resolve s n parent [] = (if parent then None else Some n)"
| "resolve s n parent (e # es) =
     (if i_type (disk_inode s n) \<noteq> T_DIR then None
      else if parent \<and> es = [] then Some n
      else case dir_find s (disk_inode s n) e of None \<Rightarrow> None | Some m \<Rightarrow> resolve s m parent es)"

text \<open>The inodes met on the way are allocated and linked, and their directories can be read.\<close>

definition inode_ok :: "kern \<Rightarrow> u32 \<Rightarrow> bool" where
  "inode_ok s n \<longleftrightarrow> sector_ok s (IBLOCK n) \<and> i_type (disk_inode s n) \<noteq> 0 \<and> i_nlink (disk_inode s n) \<noteq> 0 \<and>
     (i_type (disk_inode s n) = T_DIR \<longrightarrow> dir_ok s (disk_inode s n) (dir_entries (disk_inode s n)))"

fun path_ok :: "kern \<Rightarrow> u32 \<Rightarrow> bytes list \<Rightarrow> bool" where
  "path_ok s n [] \<longleftrightarrow> inode_ok s n"
| "path_ok s n (e # es) \<longleftrightarrow> inode_ok s n \<and>
     (i_type (disk_inode s n) = T_DIR \<longrightarrow> (case dir_find s (disk_inode s n) e of None \<Rightarrow> True | Some m \<Rightarrow> path_ok s m es))"

lemma path_ok_inode: "path_ok s n es \<Longrightarrow> inode_ok s n"
  by (cases es) auto

text \<open>What a directory holds depends on the fields an inode has on disk.\<close>

lemma same_file_iaddr: "same_file i j \<Longrightarrow> iaddr s j = iaddr s i"
  by (auto simp: fun_eq_iff iaddr_def same_file_def)

lemma same_file_dir:
  assumes "same_file i j" "i_dev j = i_dev i"
  shows "entry s j = entry s i" "dir_ok s j = dir_ok s i" "lookup_from s j = lookup_from s i" "dir_entries j = dir_entries i"
    "i_type j = i_type i" "i_nlink j = i_nlink i"
proof -
  note ia = same_file_iaddr [OF assms(1)]
  have f: "i_type j = i_type i" "i_size j = i_size i" "i_addrs j NDIRECT = i_addrs i NDIRECT" "i_nlink j = i_nlink i"
    using assms(1) by (simp_all add: same_file_def)
  have "fbyte s j = fbyte s i" by (simp add: fun_eq_iff fbyte_def ia)
  then have "file_bytes s j = file_bytes s i" by (simp add: fun_eq_iff file_bytes_def)
  then show e: "entry s j = entry s i" by (simp add: fun_eq_iff entry_def)
  show "dir_ok s j = dir_ok s i" using f assms(2) by (simp add: fun_eq_iff dir_ok_def mapped_def ia)
  show "lookup_from s j = lookup_from s i" by (simp add: fun_eq_iff lookup_from_def e)
  show "dir_entries j = dir_entries i" "i_type j = i_type i" "i_nlink j = i_nlink i" using f by (simp_all add: dir_entries_def)
qed

section \<open>Steps of a lookup\<close>

text \<open>
  Live cache entries agree with the disk once loaded, and only those in \<open>L\<close> are locked.
\<close>

definition coherent :: "nat set \<Rightarrow> kern \<Rightarrow> bool" where
  "coherent L s \<longleftrightarrow> (\<forall>ip < NINODE. i_ref (inodes s ip) \<ge> 1 \<longrightarrow> i_dev (inodes s ip) = ROOTDEV \<and>
     (flag I_BUSY (i_flags (inodes s ip)) \<longrightarrow> ip \<in> L) \<and>
     (flag I_VALID (i_flags (inodes s ip)) \<longrightarrow> same_file (disk_inode s (i_inum (inodes s ip))) (inodes s ip)))"

text \<open>A reference count, with room for the two more that a walk along a path takes at a time.\<close>

definition ref_room :: "int \<Rightarrow> bool" where
  "ref_room r \<longleftrightarrow> 0 \<le> r \<and> r + 2 \<le> INT_MAX"

text \<open>From \<open>s0\<close> to \<open>s\<close> nothing but the inode cache has changed, and its counts only by the references \<open>R\<close>.\<close>

definition on_way :: "kern \<Rightarrow> kern \<Rightarrow> nat multiset \<Rightarrow> nat set \<Rightarrow> bool" where
  "on_way s0 s R L \<longleftrightarrow> tstep s0 s \<and> view s = view s0 \<and> lsec s = lsec s0 \<and> coherent L s \<and> (\<forall>ip \<in># R. ip < NINODE) \<and>
     (\<forall>ip. i_ref (inodes s ip) = i_ref (inodes s0 ip) + int (count R ip)) \<and>
     (\<forall>ip < NINODE. ref_room (i_ref (inodes s0 ip))) \<and> (\<forall>ip. i_ref (inodes s0 ip) \<ge> 1 \<longrightarrow> ikey (inodes s ip) = ikey (inodes s0 ip))"

lemma on_way_frame:
  assumes "on_way s0 s R L"
  shows "linv s" "held s = held s0" "sector_ok s = sector_ok s0" "room s = room s0" "disk_inode s = disk_inode s0"
    "entry s = entry s0" "dir_ok s = dir_ok s0" "lookup_from s = lookup_from s0"
proof -
  have t: "tstep s0 s" "view s = view s0" "lsec s = lsec s0" using assms by (auto simp: on_way_def)
  show h: "linv s" "held s = held s0" "sector_ok s = sector_ok s0"
    using tstep_linv [OF t(1)] tstep_held [OF t(1)] tstep_geom [OF t(1)] by simp_all
  show "room s = room s0" by (rule ext) (simp add: room_def h t(3))
  show "disk_inode s = disk_inode s0" by (simp add: fun_eq_iff disk_inode_def loaded_def t(2))
  have ia: "iaddr s = iaddr s0" by (intro ext) (simp add: iaddr_def t(2))
  then have "file_bytes s = file_bytes s0" by (intro ext) (simp add: file_bytes_def fbyte_def t(2))
  then show e: "entry s = entry s0" by (intro ext) (simp add: entry_def)
  show "dir_ok s = dir_ok s0" by (intro ext) (simp add: dir_ok_def mapped_def usable_blk_def ia h)
  show "lookup_from s = lookup_from s0" by (intro ext) (simp add: lookup_from_def e)
qed


definition entry_ok :: "kern \<Rightarrow> nat set \<Rightarrow> nat \<Rightarrow> inode \<Rightarrow> bool" where
  "entry_ok s L ip i \<longleftrightarrow> i_dev i = ROOTDEV \<and> (flag I_BUSY (i_flags i) \<longrightarrow> ip \<in> L) \<and>
     (flag I_VALID (i_flags i) \<longrightarrow> same_file (disk_inode s (i_inum i)) i)"

lemma coherent_entry: "coherent L s \<longleftrightarrow> (\<forall>ip < NINODE. i_ref (inodes s ip) \<ge> 1 \<longrightarrow> entry_ok s L ip (inodes s ip))"
  by (simp add: coherent_def entry_ok_def)

lemma on_way_held: "on_way s0 s R L \<Longrightarrow> ip \<in># R \<Longrightarrow> ip < NINODE \<and> i_ref (inodes s ip) \<ge> 1 \<and> entry_ok s0 L ip (inodes s ip)"
proof -
  assume a: "on_way s0 s R L" "ip \<in># R"
  then have ip: "ip < NINODE" "i_ref (inodes s ip) = i_ref (inodes s0 ip) + int (count R ip)" "0 \<le> i_ref (inodes s0 ip)" "coherent L s"
    by (auto simp: on_way_def ref_room_def)
  moreover have "count R ip \<ge> 1" using a(2) by (simp add: Suc_le_eq)
  ultimately have "i_ref (inodes s ip) \<ge> 1" by linarith
  with ip(1,4) show ?thesis by (simp add: coherent_entry entry_ok_def on_way_frame [OF a(1)])
qed

text \<open>One entry changes.\<close>

lemma on_way_set:
  assumes "on_way s0 s R L" "tstep s t" "view t = view s" "lsec t = lsec s" "inodes t = (inodes s)(ip := i)" "ip < NINODE"
    and "i_ref i + int (count R ip) = i_ref (inodes s ip) + int (count R' ip)" "\<And>jp. jp \<noteq> ip \<Longrightarrow> count R' jp = count R jp"
    and "i_ref i \<ge> 1 \<longrightarrow> entry_ok s0 L' ip i" "L - {ip} \<subseteq> L'" "i_ref (inodes s0 ip) \<ge> 1 \<Longrightarrow> ikey i = ikey (inodes s ip)"
  shows "on_way s0 t R' L'"
proof -
  have o: "tstep s0 s" "view s = view s0" "lsec s = lsec s0" "coherent L s" "\<forall>jp \<in># R. jp < NINODE"
    "\<And>jp. i_ref (inodes s jp) = i_ref (inodes s0 jp) + int (count R jp)" "\<forall>jp < NINODE. ref_room (i_ref (inodes s0 jp))"
    "\<And>jp. i_ref (inodes s0 jp) \<ge> 1 \<Longrightarrow> ikey (inodes s jp) = ikey (inodes s0 jp)" using assms(1) by (auto simp: on_way_def)
  have d: "disk_inode t = disk_inode s0" "disk_inode s = disk_inode s0" by (intro ext, simp add: disk_inode_def loaded_def assms(3) o(2))+
  have "entry_ok t L' jp (inodes t jp)" if "jp < NINODE" "i_ref (inodes t jp) \<ge> 1" for jp
  proof (cases "jp = ip")
    case True
    with assms(5,9) that(2) show ?thesis by (simp add: entry_ok_def d)
  next
    case False
    with that assms(5) o(4) have "entry_ok s L jp (inodes s jp)" by (simp add: coherent_entry)
    with False assms(5,10) show ?thesis by (auto simp: entry_ok_def d)
  qed
  then have "coherent L' t" by (simp add: coherent_entry)
  moreover have "jp < NINODE" if "jp \<in># R'" for jp
  proof (cases "jp = ip")
    case False
    then have "jp \<in># R" using that assms(8) [OF False] by (simp only: count_greater_zero_iff [symmetric])
    with o(5) show ?thesis by blast
  qed (use assms(6) in simp)
  moreover have "i_ref (inodes t jp) = i_ref (inodes s0 jp) + int (count R' jp)" for jp
    using assms(5,7) assms(8) [of jp] o(6) [of jp] by (cases "jp = ip") simp_all
  moreover have "ikey (inodes t jp) = ikey (inodes s0 jp)" if "i_ref (inodes s0 jp) \<ge> 1" for jp
    using assms(5,11) o(8) that by (cases "jp = ip") simp_all
  ultimately show ?thesis using o(2,3,7) assms(3,4) tstep_trans [OF o(1) assms(2)] by (simp add: on_way_def)
qed

text \<open>The entries nobody uses.\<close>

definition free_entries :: "kern \<Rightarrow> nat set" where
  "free_entries s = {ip. ip < NINODE \<and> i_ref (inodes s ip) = 0}"

lemma card_set_mset_le: "card (set_mset R) \<le> size R"
  by (induction R) (auto intro: order_trans [OF card_insert_le_m1] simp: card_insert_if)

lemma on_way_empty:
  assumes "on_way s0 s R L" "size R < card (free_entries s0)"
  shows "\<exists>ip. iget_empty (inodes s) = Some ip \<and> ip < NINODE \<and> i_ref (inodes s ip) = 0"
proof -
  have r: "\<And>jp. i_ref (inodes s jp) = i_ref (inodes s0 jp) + int (count R jp)" using assms(1) by (simp add: on_way_def)
  have "card (set_mset R) \<le> size R" by (rule card_set_mset_le)
  then have "\<not> free_entries s0 \<subseteq> set_mset R" using assms(2) card_mono [of "set_mset R" "free_entries s0"] by auto
  then obtain jp where "jp < NINODE" "i_ref (inodes s0 jp) = 0" "jp \<notin># R" by (auto simp: free_entries_def)
  with r [of jp] have "jp < NINODE" "i_ref (inodes s jp) = 0" by (simp_all add: not_in_iff)
  then obtain ip where ip: "iget_empty (inodes s) = Some ip" unfolding iget_empty_def using find_ex [of jp "[0..<NINODE]" "\<lambda>i. i_ref (inodes s i) = 0"] by auto
  then show ?thesis using find_SomeD [OF ip [unfolded iget_empty_def]] by auto
qed

lemma iget_on_way:
  assumes "on_way s0 s R L" "size R \<le> 1 \<and> size R < card (free_entries s0)"
  shows "\<exists>ip t. iget ROOTDEV n s = Inr (ip, t) \<and> on_way s0 t (add_mset ip R) L \<and> i_inum (inodes t ip) = n \<and>
    (\<forall>jp. i_ref (inodes s jp) \<ge> 1 \<longrightarrow> (\<exists>r. inodes t jp = (inodes s jp)\<lparr>i_ref := r\<rparr>))"
proof (cases "iget_hit (inodes s) ROOTDEV n")
  case (Some ip)
  note h = iget_hitD [OF Some]
  let ?i = "(inodes s ip)\<lparr>i_ref := i_ref (inodes s ip) + 1\<rparr>"
  let ?t = "s\<lparr>inodes := (inodes s)(ip := ?i)\<rparr>"
  have "count R ip \<le> 1" using assms(2) count_le_size [of R ip] by linarith
  moreover have "i_ref (inodes s ip) = i_ref (inodes s0 ip) + int (count R ip)" "ref_room (i_ref (inodes s0 ip))"
    using assms(1) h by (simp_all add: on_way_def)
  ultimately have "int_range (i_ref (inodes s ip) + 1)" by (simp add: ref_room_def int_range_def INT_MIN_def)
  then have run: "iget ROOTDEV n s = Inr (ip, ?t)" by (simp add: iget_hit_eq [OF Some])
  have "coherent L s" using assms(1) by (simp add: on_way_def)
  with h have "entry_ok s L ip (inodes s ip)" by (simp add: coherent_entry)
  then have "entry_ok s0 L ip ?i" by (simp add: entry_ok_def same_file_def on_way_frame [OF assms(1)])
  then have "on_way s0 ?t (add_mset ip R) L"
    by (intro on_way_set [OF assms(1), of ?t ip ?i]) (use h ino_step on_way_frame [OF assms(1)] in \<open>simp_all add: lsec_def ikey_def\<close>)
  moreover have "\<exists>r. inodes ?t jp = (inodes s jp)\<lparr>i_ref := r\<rparr>" for jp
    by (cases "jp = ip") (auto intro: exI [of _ "i_ref (inodes s jp)"])
  ultimately show ?thesis using run h by (intro exI [of _ ip] exI [of _ ?t]) (auto simp: ikey_def)
next
  case None
  from on_way_empty [OF assms(1)] assms(2) obtain ip where ip: "iget_empty (inodes s) = Some ip" and e: "ip < NINODE" "i_ref (inodes s ip) = 0" by blast
  have e0: "\<not> i_ref (inodes s0 ip) \<ge> 1" using e(2) assms(1) by (auto simp: on_way_def)
  let ?i = "(inodes s ip)\<lparr>i_dev := ROOTDEV, i_inum := n, i_ref := 1, i_flags := 0\<rparr>"
  let ?t = "s\<lparr>inodes := (inodes s)(ip := ?i)\<rparr>"
  have run: "iget ROOTDEV n s = Inr (ip, ?t)" using None ip by (simp add: iget_def upd_ino_def)
  have "entry_ok s0 L ip ?i" by (simp add: entry_ok_def flag_def)
  then have "on_way s0 ?t (add_mset ip R) L"
    by (intro on_way_set [OF assms(1), of ?t ip ?i]) (use e e0 ino_step on_way_frame [OF assms(1)] in \<open>simp_all add: lsec_def ikey_def\<close>)
  moreover have "\<exists>r. inodes ?t jp = (inodes s jp)\<lparr>i_ref := r\<rparr>" if "i_ref (inodes s jp) \<ge> 1" for jp
    using that e(2) by (cases "jp = ip") (auto intro: exI [of _ "i_ref (inodes s jp)"])
  ultimately show ?thesis using run by (intro exI [of _ ip] exI [of _ ?t]) auto
qed

text \<open>Locking, unlocking and dropping one of the references.\<close>

lemma lock_on_way:
  assumes "on_way s0 s R L" "ip \<in># R" "ip \<notin> L" "held s0 = {}" "room s0 1" "inode_ok s0 (i_inum (inodes s ip))"
  shows "\<exists>t. ilock (Some ip) s = Inr ((), t) \<and> on_way s0 t R (insert ip L) \<and> i_inum (inodes t ip) = i_inum (inodes s ip) \<and>
    flag I_BUSY (i_flags (inodes t ip)) \<and> flag I_VALID (i_flags (inodes t ip)) \<and> same_file (disk_inode s0 (i_inum (inodes s ip))) (inodes t ip) \<and>
    (\<forall>jp. jp \<noteq> ip \<longrightarrow> inodes t jp = inodes s jp)"
proof -
  let ?i = "inodes s ip"
  note f = on_way_frame [OF assms(1)] and h = on_way_held [OF assms(1,2)]
  have k: "tstep s0 s" "view s = view s0" using assms(1) by (simp_all add: on_way_def)
  have dev: "i_dev ?i = ROOTDEV" "\<not> flag I_BUSY (i_flags ?i)" using h assms(3) by (auto simp: entry_ok_def)
  have flags: "flag I_BUSY (set_flag I_BUSY x)" "flag I_BUSY (set_flag I_VALID (set_flag I_BUSY x))"
    "flag I_VALID (set_flag I_VALID x)" for x by simp_all
  show ?thesis
  proof (cases "flag I_VALID (i_flags ?i)")
    case True
    let ?j = "?i\<lparr>i_flags := set_flag I_BUSY (i_flags ?i)\<rparr>"
    let ?t = "s\<lparr>inodes := (inodes s)(ip := ?j)\<rparr>"
    have "ilock (Some ip) s = Inr ((), ?t)" using True dev h by (simp add: ilock_unfold ino_at_def upd_ino_def)
    moreover have sf: "same_file (disk_inode s0 (i_inum ?i)) ?j" using h True by (simp add: entry_ok_def same_file_def)
    have "on_way s0 ?t R (insert ip L)"
      by (rule on_way_set [OF assms(1), of ?t ip ?j]) (use h sf dev ino_step [OF f(1)] in \<open>auto simp: entry_ok_def lsec_def ikey_def\<close>)
    ultimately show ?thesis using sf flags True by (intro exI [of _ ?t]) simp
  next
    case False
    let ?j = "loaded s ?i"
    have sf: "same_file (disk_inode s0 (i_inum ?i)) ?j"
      by (simp add: disk_inode_def loaded_def load_dinode_def same_file_def k(2))
    have i: "i_ref ?j = i_ref ?i" "i_dev ?j = ROOTDEV" "i_inum ?j = i_inum ?i" "flag I_BUSY (i_flags ?j)" "flag I_VALID (i_flags ?j)"
      using dev flags by (simp_all add: loaded_def load_dinode_def)
    have "i_type ?j \<noteq> 0" using sf assms(6) by (simp add: inode_ok_def same_file_def)
    then obtain t where t: "ilock (Some ip) s = Inr ((), t)" "tstep s t" "view t = view s" "lsec t = lsec s"
      "inodes t = (inodes s)(ip := ?j)"
      using ilock_load [of s ip] f h dev False assms(4-6) by (auto simp: inode_ok_def)
    have "on_way s0 t R (insert ip L)"
      by (rule on_way_set [OF assms(1) t(2-5)]) (use h sf i in \<open>auto simp: entry_ok_def ikey_def\<close>)
    with t(1,5) sf i show ?thesis by (intro exI [of _ t]) simp
  qed
qed

lemma unlock_on_way:
  assumes "on_way s0 s R L" "ip \<in># R" "flag I_BUSY (i_flags (inodes s ip))"
  shows "\<exists>t. iunlock (Some ip) s = Inr ((), t) \<and> on_way s0 t R (L - {ip}) \<and> (\<forall>jp. i_inum (inodes t jp) = i_inum (inodes s jp))"
proof -
  let ?i = "inodes s ip"
  let ?j = "?i\<lparr>i_flags := clear_flag I_BUSY (i_flags ?i)\<rparr>"
  let ?t = "s\<lparr>inodes := (inodes s)(ip := ?j)\<rparr>"
  note f = on_way_frame [OF assms(1)] and h = on_way_held [OF assms(1,2)]
  have "iunlock (Some ip) s = Inr ((), ?t)" using h assms(3) by (simp add: iunlock_def ino_at_def upd_ino_def)
  moreover have "entry_ok s0 (L - {ip}) ip ?j" using h by (auto simp: entry_ok_def same_file_def)
  then have "on_way s0 ?t R (L - {ip})"
    by (intro on_way_set [OF assms(1), of ?t ip ?j]) (use h ino_step [OF f(1)] in \<open>auto simp: lsec_def ikey_def\<close>)
  ultimately show ?thesis by (intro exI [of _ ?t]) simp
qed

lemma put_on_way:
  assumes "on_way s0 s R L" "ip \<in># R" "inode_ok s0 (i_inum (inodes s ip))"
  shows "\<exists>t. iput ip s = Inr ((), t) \<and> on_way s0 t (R - {#ip#}) L \<and> (\<forall>jp. i_inum (inodes t jp) = i_inum (inodes s jp))"
proof -
  let ?i = "inodes s ip"
  let ?j = "?i\<lparr>i_ref := i_ref ?i - 1\<rparr>"
  let ?t = "s\<lparr>inodes := (inodes s)(ip := ?j)\<rparr>"
  note f = on_way_frame [OF assms(1)] and h = on_way_held [OF assms(1,2)]
  have "\<not> (flag I_VALID (i_flags ?i) \<and> i_nlink ?i = 0)" using h assms(3) by (auto simp: entry_ok_def inode_ok_def same_file_def)
  then have "iput ip s = Inr ((), ?t)" using h by (auto simp: iput_def ino_at_def upd_ino_def INT_MIN_def)
  moreover have "entry_ok s0 L ip ?j" using h by (simp add: entry_ok_def same_file_def)
  moreover have "int (count R ip) = int (count (R - {#ip#}) ip) + 1"
    using assms(2) by (simp add: Suc_le_eq)
  ultimately have "on_way s0 ?t (R - {#ip#}) L"
    by (intro on_way_set [OF assms(1), of ?t ip ?j]) (use h ino_step [OF f(1)] in \<open>auto simp: lsec_def ikey_def\<close>)
  with \<open>iput ip s = Inr ((), ?t)\<close> show ?thesis by (intro exI [of _ ?t]) simp
qed

lemma unlockput_on_way:
  assumes "on_way s0 s R L" "ip \<in># R" "flag I_BUSY (i_flags (inodes s ip))" "inode_ok s0 (i_inum (inodes s ip))"
  shows "\<exists>t. iunlockput ip s = Inr ((), t) \<and> on_way s0 t (R - {#ip#}) (L - {ip}) \<and> (\<forall>jp. i_inum (inodes t jp) = i_inum (inodes s jp))"
proof -
  from unlock_on_way [OF assms(1-3)] obtain t where t: "iunlock (Some ip) s = Inr ((), t)" "on_way s0 t R (L - {ip})"
    "\<forall>jp. i_inum (inodes t jp) = i_inum (inodes s jp)" by blast
  with put_on_way [OF t(2) assms(2)] assms(4) show ?thesis by (auto simp: iunlockput_def)
qed

section \<open>The loop over the names\<close>

lemma skipelem_sub: "skipelem path = Some (name, path1) \<Longrightarrow> set name \<subseteq> set path \<and> set path1 \<subseteq> set path"
  by (auto simp: skipelem_def Let_def split: if_splits dest!: in_set_takeD set_takeWhileD set_dropWhileD)

lemma no_more_names: "dropWhile (\<lambda>c. c = SLASH) path = path \<Longrightarrow> path = [] \<longleftrightarrow> path_elems path = []"
  using skipelem_elems [of path] by (auto simp: path_elems_def skipelem_def Let_def split: option.splits if_splits)

text \<open>What the loop has found: nothing and no reference left, or an entry for the inode, with one reference.\<close>

definition arrived :: "kern \<Rightarrow> u32 option \<Rightarrow> bytes \<Rightarrow> (nat option \<times> bytes) \<Rightarrow> kern \<Rightarrow> bool" where
  "arrived s0 r nm res t \<longleftrightarrow>
     (case r of
        None \<Rightarrow> fst res = None \<and> on_way s0 t {#} {}
      | Some m \<Rightarrow> (\<exists>ip. fst res = Some ip \<and> i_inum (inodes t ip) = m \<and> on_way s0 t {#ip#} {}) \<and> snd res = nm)"

lemma dirlookup_on_way:
  assumes "on_way s0 s R L" "ip \<in># R" "same_file (disk_inode s0 n) (inodes s ip)" "inode_ok s0 n"
    "i_type (inodes s ip) = T_DIR" "0 \<notin> set name" "room s0 1" "size R \<le> 1 \<and> size R < card (free_entries s0)"
  shows "case dir_find s0 (disk_inode s0 n) name of
      None \<Rightarrow> \<exists>t. dirlookup ip name s = Inr (None, t) \<and> on_way s0 t R L \<and> inodes t = inodes s
    | Some m \<Rightarrow> \<exists>jp j t. dirlookup ip name s = Inr (Some (jp, of_nat (j * SIZEOF_DIRENT)), t) \<and> on_way s0 t (add_mset jp R) L \<and>
        lookup_from s0 (disk_inode s0 n) name 0 (dir_entries (disk_inode s0 n)) = Some j \<and>
        i_inum (inodes t jp) = m \<and> (\<exists>r. inodes t ip = (inodes s ip)\<lparr>i_ref := r\<rparr>)"
proof -
  note f = on_way_frame [OF assms(1)] and h = on_way_held [OF assms(1,2)]
  let ?d = "disk_inode s0 n"
  have dev: "i_dev (inodes s ip) = i_dev ?d" using h by (simp add: entry_ok_def disk_inode_def loaded_def load_dinode_def)
  note sf = same_file_dir [OF assms(3) dev]
  have ok: "dir_ok s (inodes s ip) (dir_entries ?d)" using assms(4,5) sf f by (simp add: inode_ok_def)
  have "room s 1" using assms(7) f by simp
  from dirlookup_ok [OF f(1) this ok assms(6), unfolded f(6,8) sf(1,3)] obtain u where u: "calm s u" "dirlookup ip name s =
    (case lookup_from s0 ?d name 0 (dir_entries ?d) of None \<Rightarrow> Inr (None, u) | Some j \<Rightarrow> found ROOTDEV (entry s0 ?d j) j u)"
    by blast
  have "i_dev (inodes s ip) = ROOTDEV" using h by (simp add: entry_ok_def)
  have w: "on_way s0 u R L"
    by (rule on_way_set [OF assms(1), of u ip "inodes s ip"]) (use u(1) h in \<open>auto simp: calm_def fun_eq_iff\<close>)
  show ?thesis
  proof (cases "lookup_from s0 ?d name 0 (dir_entries ?d)")
    case None
    with u w calm_frame(4) [OF u(1)] show ?thesis by (simp add: dir_find_def)
  next
    case (Some j)
    from iget_on_way [OF w assms(8), of "ucast (de_inum (entry s0 ?d j))"] obtain jp t where
      t: "iget ROOTDEV (ucast (de_inum (entry s0 ?d j))) u = Inr (jp, t)" "on_way s0 t (add_mset jp R) L"
      "i_inum (inodes t jp) = ucast (de_inum (entry s0 ?d j))"
      "\<forall>kp. i_ref (inodes u kp) \<ge> 1 \<longrightarrow> (\<exists>r. inodes t kp = (inodes u kp)\<lparr>i_ref := r\<rparr>)" by blast
    with u(2) Some h calm_frame(4) [OF u(1)] show ?thesis by (auto simp: dir_find_def found_def)
  qed
qed

lemma namex_loop_ok:
  assumes "on_way s0 s {#ip#} {}" "path_ok s0 (i_inum (inodes s ip)) (path_elems path)" "held s0 = {}" "room s0 1"
    "2 \<le> card (free_entries s0)" "0 \<notin> set path"
  shows "\<exists>res t. namex_loop ip path parent name s = Inr (res, t) \<and>
    arrived s0 (resolve s0 (i_inum (inodes s ip)) parent (path_elems path)) (last (name # path_elems path)) res t"
  using assms
proof (induction "length path" arbitrary: ip path name s rule: less_induct)
  case less
  let ?n = "i_inum (inodes s ip)"
  let ?d = "disk_inode s0 ?n"
  have ok: "inode_ok s0 ?n" by (rule path_ok_inode [OF less.prems(2)])
  show ?case
  proof (cases "skipelem path")
    case None
    then have el: "path_elems path = []" using skipelem_elems [of path] by simp
    from put_on_way [OF less.prems(1) _ ok] obtain t where "iput ip s = Inr ((), t)" "on_way s0 t {#} {}" by auto
    with None el less.prems(1) show ?thesis by (subst namex_loop.simps) (simp add: arrived_def)
  next
    case (Some p)
    obtain e path1 where p: "p = (e, path1)" by (cases p)
    note sk = Some [unfolded p]
    have el: "path_elems path = e # path_elems path1" "path1 = [] \<longleftrightarrow> path_elems path1 = []"
      using skipelem_elems [of path] sk no_more_names [of path1] by auto
    have z: "0 \<notin> set e" "0 \<notin> set path1" using skipelem_sub [OF sk] less.prems(6) by auto
    from lock_on_way [OF less.prems(1) _ _ less.prems(3,4) ok] obtain u where u: "ilock (Some ip) s = Inr ((), u)"
      "on_way s0 u {#ip#} {ip}" "i_inum (inodes u ip) = ?n" "flag I_BUSY (i_flags (inodes u ip))" "same_file ?d (inodes u ip)" by auto
    have ty: "i_type (inodes u ip) = i_type ?d" using u(5) by (simp add: same_file_def)
    consider "i_type ?d \<noteq> T_DIR" | "i_type ?d = T_DIR" "parent \<and> path1 = []" | "i_type ?d = T_DIR" "\<not> (parent \<and> path1 = [])" by blast
    then show ?thesis
    proof cases
      case 1
      from unlockput_on_way [OF u(2) _ u(4)] ok u(3) obtain t where "iunlockput ip u = Inr ((), t)" "on_way s0 t {#} {}" by auto
      with 1 sk u(1) ty el show ?thesis by (subst namex_loop.simps) (simp add: ino_at_def arrived_def)
    next
      case 2
      from unlock_on_way [OF u(2) _ u(4)] u(3) obtain t where "iunlock (Some ip) u = Inr ((), t)" "on_way s0 t {#ip#} {}"
        "i_inum (inodes t ip) = ?n" by auto
      with 2 sk u(1) ty el show ?thesis by (subst namex_loop.simps) (simp add: ino_at_def arrived_def)
    next
      case 3
      have "size {#ip#} \<le> 1 \<and> size {#ip#} < card (free_entries s0)" using less.prems(5) by simp
      note dl = dirlookup_on_way [OF u(2) _ u(5) ok _ z(1) less.prems(4) this]
      have run: "namex_loop ip path parent name s = bnd (dirlookup ip e) (\<lambda>r. case r of
          None \<Rightarrow> bnd (iunlockput ip) (\<lambda>_. ret (None, e))
        | Some (next, _) \<Rightarrow> bnd (iunlockput ip) (\<lambda>_. namex_loop next path1 parent e)) u"
        using 3 sk u(1) ty by (subst namex_loop.simps) (auto simp: ino_at_def)
      show ?thesis
      proof (cases "dir_find s0 ?d e")
        case None
        with dl 3 ty obtain v where v: "dirlookup ip e u = Inr (None, v)" "on_way s0 v {#ip#} {ip}" "inodes v = inodes u" by auto
        from unlockput_on_way [OF v(2)] v(3) u(3,4) ok obtain t where "iunlockput ip v = Inr ((), t)" "on_way s0 t {#} {}" by auto
        with None 3 v(1) run el show ?thesis by (auto simp: arrived_def)
      next
        case (Some m)
        with dl 3 ty obtain jp off v r where v: "dirlookup ip e u = Inr (Some (jp, off), v)" "on_way s0 v (add_mset jp {#ip#}) {ip}"
          "i_inum (inodes v jp) = m" "inodes v ip = (inodes u ip)\<lparr>i_ref := r\<rparr>" by auto
        from unlockput_on_way [OF v(2), of ip] v(3,4) u(3,4) ok obtain t where t: "iunlockput ip v = Inr ((), t)"
          "on_way s0 t {#jp#} {}" "i_inum (inodes t jp) = m" by (auto simp: add_mset_commute)
        have "path_ok s0 m (path_elems path1)" using less.prems(2) el(1) 3(1) Some by simp
        with less.hyps [of path1 t jp e] t(2,3) less.prems(3-5) z(2) skipelem_shorter [OF sk] obtain res t' where
          "namex_loop jp path1 parent e t = Inr (res, t')" "arrived s0 (resolve s0 m parent (path_elems path1)) (last (e # path_elems path1)) res t'" by auto
        with run v(1) t(1) 3 el Some show ?thesis by (auto split: if_splits)
      qed
    qed
  qed
qed

lemma namex_arrives:
  assumes "linv s" "held s = {}" "room s 1" "coherent {} s" "\<forall>ip < NINODE. ref_room (i_ref (inodes s ip))" "2 \<le> card (free_entries s)"
    and "path \<noteq> []" "hd path = SLASH" "0 \<notin> set path" "path_ok s ROOTINO (path_elems path)"
  shows "\<exists>r name s'. namex path parent s = Inr ((r, name), s') \<and>
    arrived s (resolve s ROOTINO parent (path_elems path)) (last ([] # path_elems path)) (r, name) s'"
proof -
  have "on_way s s {#} {}" using assms(1,4,5) by (simp add: on_way_def tstep_refl)
  from iget_on_way [OF this, of ROOTINO] assms(6) obtain ip t where t: "iget ROOTDEV ROOTINO s = Inr (ip, t)"
    "on_way s t {#ip#} {}" "i_inum (inodes t ip) = ROOTINO" by auto
  from namex_loop_ok [OF t(2) _ assms(2,3,6,9), of parent "[]"] t(3) assms(10) obtain r name s' where
    run: "namex_loop ip path parent [] t = Inr ((r, name), s')" and
    to: "arrived s (resolve s ROOTINO parent (path_elems path)) (last ([] # path_elems path)) (r, name) s'" by auto
  with t(1) assms(7,8) show ?thesis by (intro exI [of _ r] exI [of _ name] exI [of _ s']) (simp add: namex_def)
qed

section \<open>The property\<close>

text \<open>
  C24: \<open>namex\<close> follows paths.  For an absolute path whose directories can be read, with inodes that
  are allocated and linked, it returns exactly what following the names through the directories on disk
  gives: no inode when a name is missing or an inode on the way is not a directory, otherwise
  an entry for the inode reached (or for its parent, with the last name of the path, which then need not
  exist).  One reference is added for the entry returned and every other count is as before, entries in
  use keep their inode, no inode stays locked, and no block and no log entry changes.
  (No entry of the inode cache is within two references of the largest \<open>int\<close>.)
\<close>

theorem namex_resolves:
  assumes "linv s" "held s = {}" "room s 1" "coherent {} s" "\<forall>ip < NINODE. ref_room (i_ref (inodes s ip))" "2 \<le> card (free_entries s)"
    and "path \<noteq> []" "hd path = SLASH" "0 \<notin> set path" "path_ok s ROOTINO (path_elems path)"
  shows "\<exists>r name s'. namex path parent s = Inr ((r, name), s') \<and> coherent {} s' \<and> view s' = view s \<and> disk s' = disk s \<and> lsec s' = lsec s \<and>
    (\<forall>jp. i_ref (inodes s jp) \<ge> 1 \<longrightarrow> ikey (inodes s' jp) = ikey (inodes s jp)) \<and>
    (case resolve s ROOTINO parent (path_elems path) of
       None \<Rightarrow> r = None \<and> (\<forall>jp. i_ref (inodes s' jp) = i_ref (inodes s jp))
     | Some n \<Rightarrow> \<exists>ip. r = Some ip \<and> ikey (inodes s' ip) = (ROOTDEV, n) \<and> name = last ([] # path_elems path) \<and>
         (\<forall>jp. i_ref (inodes s' jp) = i_ref (inodes s jp) + (if jp = ip then 1 else 0)))"
proof -
  from namex_arrives [OF assms] obtain r name s' where run: "namex path parent s = Inr ((r, name), s')" and
    to: "arrived s (resolve s ROOTINO parent (path_elems path)) (last ([] # path_elems path)) (r, name) s'" by blast
  have w: "coherent {} s' \<and> view s' = view s \<and> disk s' = disk s \<and> lsec s' = lsec s \<and>
      (\<forall>jp. i_ref (inodes s jp) \<ge> 1 \<longrightarrow> ikey (inodes s' jp) = ikey (inodes s jp)) \<and>
      (\<forall>jp. i_ref (inodes s' jp) = i_ref (inodes s jp) + int (count R jp))" if "on_way s s' R {}" for R
    using that unfolding on_way_def tstep_def by blast
  show ?thesis
  proof (cases "resolve s ROOTINO parent (path_elems path)")
    case None
    then have "r = None" "on_way s s' {#} {}" using to by (simp_all add: arrived_def)
    with None run w [of "{#}"] show ?thesis by (intro exI [of _ r] exI [of _ name] exI [of _ s']) simp
  next
    case (Some n)
    then obtain ip where ip: "r = Some ip" "i_inum (inodes s' ip) = n" "on_way s s' {#ip#} {}" "name = last ([] # path_elems path)"
      using to by (auto simp: arrived_def)
    have "ikey (inodes s' ip) = (ROOTDEV, n)" using on_way_held [OF ip(3)] ip(2) by (simp add: entry_ok_def ikey_def)
    with Some run w [OF ip(3)] ip(1,4) show ?thesis by (intro exI [of _ r] exI [of _ name] exI [of _ s']) simp
  qed
qed

text \<open>A root directory with the file \<open>a\<close>, inode 5.\<close>

definition sample_tree :: "nat \<Rightarrow> block" where
  "sample_tree = sample_disk(
     2 := put_dinode (NDIRECT + 1) (put_dinode (NDIRECT + 1) zero_block (dinode_offset 5) sample_dinode) (dinode_offset 1) sample_dir,
     40 := blit_list zero_block SIZEOF_DIRENT (bytes_of_dirent sample_entry))"

lemma get_put_dinode_later: "p + 24 + 4 * k \<le> q \<Longrightarrow> get_dinode (put_dinode k d p di) q = get_dinode d q"
  by (simp add: get_dinode_def fun_eq_iff) (intro conjI allI get16_cong get32_cong; simp add: put_dinode_other)

lemma sample_dir_disk:
  assumes "linv s" "held s = {}" "sector_ok s 2" "sector_ok s 40"
    "view s 2 = put_dinode (NDIRECT + 1) d (dinode_offset 1) sample_dir" "view s 40 = blit_list zero_block SIZEOF_DIRENT (bytes_of_dirent sample_entry)"
  shows "i_type (disk_inode s 1) = T_DIR" "dir_entries (disk_inode s 1) = 2" "inode_ok s 1" "entry s (disk_inode s 1) 1 = sample_entry"
    "de_inum (entry s (disk_inode s 1) 0) = 0" "k \<le> NDIRECT \<Longrightarrow> i_addrs (disk_inode s 1) k = (if k = 0 then 40 else 0)"
proof -
  have ib: "IBLOCK 1 = 2" by (simp add: IBLOCK_def layout)
  have d1: "i_type (disk_inode s 1) = T_DIR" "i_nlink (disk_inode s 1) = 1" "i_size (disk_inode s 1) = 128"
    "\<And>k. k \<le> NDIRECT \<Longrightarrow> i_addrs (disk_inode s 1) k = (if k = 0 then 40 else 0)" "i_dev (disk_inode s 1) = ROOTDEV"
    by (simp_all add: disk_inode_def loaded_def load_dinode_def ib assms(5) get_put_dinode_fields get_put_dinode_addrs sample_dir_def)
  show "i_type (disk_inode s 1) = T_DIR" by (rule d1(1))
  show "i_addrs (disk_inode s 1) k = (if k = 0 then 40 else 0)" if "k \<le> NDIRECT" by (rule d1(4) [OF that])
  have a0: "i_addrs (disk_inode s 1) 0 = 40" using d1(4) [of 0] by simp
  show "entry s (disk_inode s 1) 1 = sample_entry" "de_inum (entry s (disk_inode s 1) 0) = 0" by (rule sample_dir_entries [OF assms(6) a0])+
  show n: "dir_entries (disk_inode s 1) = 2" using d1(3) by (simp add: dir_entries_def layout)
  have "iaddr s (disk_inode s 1) 0 = 40" using a0 by (simp add: iaddr_def layout)
  then have "dir_ok s (disk_inode s 1) 2" using d1 assms(2,4) by (auto simp: dir_ok_def mapped_def usable_blk_def layout)
  then show "inode_ok s 1" using d1 n assms(3) ib by (simp add: inode_ok_def layout)
qed

theorem namex_resolves_witness:
  "\<exists>s s' ip. sample_open (process_start sample_tree 100) = Inr ((), s) \<and> resolve s ROOTINO False [cstr ''a''] = Some 5 \<and>
     namex (SLASH # cstr ''a'') False s = Inr ((Some ip, cstr ''a''), s') \<and> ikey (inodes s' ip) = (ROOTDEV, 5)"
proof -
  have "sb_of_block (sample_tree 1) = sample_sb" "head_n (sample_tree 70) = 0"
    using sample_head by (simp_all add: sample_tree_def)
  from sample_ready [where d = sample_tree, OF this] obtain s where s:
    "sample_open (process_start sample_tree 100) = Inr ((), s)" "linv s" "held s = {}" "lsec s = []"
    "log_at s sample_sb" "inodes s = (\<lambda>_. zero_inode)" "\<forall>a. unat a \<noteq> 70 \<longrightarrow> view s a = sample_tree (unat a)" by blast
  have hm: "home_sector s a \<longleftrightarrow> 2 \<le> unat a \<and> unat a < 70" for a using log_at_geom(4) [OF s(5)] sample_geom by simp
  have sok: "sector_ok s 2" "sector_ok s 40" by (rule home_usable [OF s(2)], simp add: hm)+
  have v: "view s 2 = sample_tree 2" "view s 40 = blit_list zero_block SIZEOF_DIRENT (bytes_of_dirent sample_entry)"
    using s(7) by (simp_all add: sample_tree_def)
  have ib: "IBLOCK 1 = 2" "IBLOCK 5 = 2" "dinode_offset 1 + 24 + 4 * (NDIRECT + 1) \<le> dinode_offset 5"
    by (simp_all add: IBLOCK_def dinode_offset_def layout)
  have d5: "i_type (disk_inode s 5) = T_FILE" "i_nlink (disk_inode s 5) = 1"
    using get_put_dinode_later [OF ib(3)]
    by (simp_all add: disk_inode_def loaded_def load_dinode_def ib v(1) sample_tree_def get_put_dinode_fields sample_dinode_def)
  have "view s 2 = put_dinode (NDIRECT + 1) (put_dinode (NDIRECT + 1) zero_block (dinode_offset 5) sample_dinode) (dinode_offset 1) sample_dir"
    using v(1) by (simp add: sample_tree_def)
  note d1 = sample_dir_disk [OF s(2,3) sok this v(2)]
  have f: "dir_find s (disk_inode s 1) (cstr ''a'') = Some 5"
    using sample_dir_find [OF d1(4,5)] d1(2,4) by (simp add: dir_find_def lookup_from_def sample_entry_def)
  note d1(3)
  moreover have "inode_ok s 5" using d5 sok ib by (simp add: inode_ok_def layout)
  moreover have el: "path_elems (SLASH # cstr ''a'') = [cstr ''a'']" by (simp add: path_elems_def cstr_def layout SLASH_def)
  ultimately have ok: "path_ok s ROOTINO (path_elems (SLASH # cstr ''a''))" using f by (simp add: layout)
  have r: "resolve s ROOTINO False [cstr ''a''] = Some 5" using d1 f by (simp add: layout)
  have "free_entries s = {..<NINODE}" using s(6) by (auto simp: free_entries_def zero_inode_def)
  moreover have "coherent {} s" using s(6) by (simp add: coherent_def zero_inode_def)
  moreover have "\<forall>ip < NINODE. ref_room (i_ref (inodes s ip))" using s(6) by (simp add: ref_room_def zero_inode_def INT_MAX_def)
  moreover have "room s 1" using s(3,4) by (simp add: room_def layout)
  moreover have "0 \<notin> set (SLASH # cstr ''a'')" by (simp add: cstr_def SLASH_def)
  ultimately have "\<exists>ip s'. namex (SLASH # cstr ''a'') False s = Inr ((Some ip, cstr ''a''), s') \<and> ikey (inodes s' ip) = (ROOTDEV, 5)"
    using namex_resolves [OF s(2,3) _ _ _ _ _ _ _ ok, of False] s(6) r el by (auto simp: layout zero_inode_def cstr_def)
  with s(1) r show ?thesis by blast
qed

end
