(* ===== verification/Create.thy ===== *)
theory Create
  imports Dirlink Append Resolve
begin

text \<open>
  Creating files: \<open>dirlink\<close> on directories with and without a free entry, \<open>ialloc\<close>, and \<open>create\<close>
  as a whole.
\<close>

section \<open>What the system needs\<close>

text \<open>The first inode number whose inode on disk is free.\<close>

definition disk_type :: "kern \<Rightarrow> nat \<Rightarrow> u16" where
  "disk_type s k = di_type (get_dinode (view s (IBLOCK (of_nat k))) (dinode_offset (of_nat k)))"

definition first_inode :: "kern \<Rightarrow> superblock \<Rightarrow> nat \<Rightarrow> bool" where
  "first_inode s sb m \<longleftrightarrow> 1 \<le> m \<and> m < unat (sb_ninodes sb) \<and> unat (sb_ninodes sb) \<le> 2 ^ 16 \<and> disk_type s m = 0 \<and>
     (\<forall>k. 1 \<le> k \<longrightarrow> k < m \<longrightarrow> disk_type s k \<noteq> 0) \<and> (\<forall>k. 1 \<le> k \<longrightarrow> k \<le> m \<longrightarrow> home_sector s (IBLOCK (of_nat k)))"

lemma same_growth:
  assumes "tstep s u" "view u = view s" "lsec u = lsec s"
  shows "blk_used u = blk_used s" "file_blks u = file_blks s" "file_wf u = file_wf s" "log_fits u = log_fits s"
    "has_free u = has_free s" "alloc_ready s sb \<Longrightarrow> alloc_ready u sb" "loaded u = loaded s" "first_inode u = first_inode s"
proof -
  note g = tstep_geom [OF assms(1)]
  show us: "blk_used u = blk_used s" by (intro ext) (simp add: blk_used_def assms)
  have ia: "iaddr u = iaddr s" by (intro ext) (simp add: iaddr_def assms)
  show fb: "file_blks u = file_blks s" by (intro ext) (simp add: file_blks_def ia)
  show "file_wf u = file_wf s" by (intro ext) (simp add: file_wf_def file_inj_def ia us fb g)
  show "log_fits u = log_fits s" by (intro ext) (simp add: log_fits_def log_blks_def assms g)
  show "has_free u = has_free s" by (intro ext) (simp add: has_free_def free_blocks_def us)
  show "alloc_ready s sb \<Longrightarrow> alloc_ready u sb" using tstep_linv [OF assms(1)] by (simp add: alloc_ready_def fs_geom_def g us assms)
  show "loaded u = loaded s" by (intro ext) (simp add: loaded_def assms)
  show "first_inode u = first_inode s" by (intro ext) (simp add: first_inode_def disk_type_def assms g)
qed

section \<open>Directories that grow\<close>

text \<open>The entry a new name goes to: the first free one, or the one behind the last.\<close>

definition free_slot :: "kern \<Rightarrow> inode \<Rightarrow> nat \<Rightarrow> nat \<Rightarrow> bool" where
  "free_slot s i n j \<longleftrightarrow> j \<le> n \<and> (\<forall>k < j. de_inum (entry s i k) \<noteq> 0) \<and> (j < n \<longrightarrow> de_inum (entry s i j) = 0)"

text \<open>From \<open>s\<close> to \<open>t\<close> the directory \<open>i\<close> of \<open>n\<close> entries has become \<open>i'\<close>, with \<open>de\<close> at entry \<open>j\<close>.\<close>

definition linked :: "superblock \<Rightarrow> kern \<Rightarrow> inode \<Rightarrow> nat \<Rightarrow> nat \<Rightarrow> dirent \<Rightarrow> kern \<Rightarrow> inode \<Rightarrow> bool" where
  "linked sb s i n j de t i' \<longleftrightarrow> tstep s t \<and> dir_ok t i' (max n (Suc j)) \<and> file_wf t sb i' \<and>
     i_dev i' = i_dev i \<and> i_inum i' = i_inum i \<and> i_ref i' = i_ref i \<and> i_flags i' = i_flags i \<and> i_nlink i' = i_nlink i \<and>
     (\<forall>k < max n (Suc j). entry t i' k = (if k = j then de else entry s i k)) \<and>
     (same_file i (loaded s i) \<longrightarrow> same_file i' (loaded t i')) \<and>
     (\<forall>a \<in> file_blks t i'. a \<in> file_blks s i \<or> \<not> blk_used s sb (unat a)) \<and>
     (\<forall>x. x \<noteq> 0 \<longrightarrow> x \<notin> bitmap sb \<longrightarrow> x \<notin> file_blks t i' \<longrightarrow> x \<noteq> IBLOCK (i_inum i) \<longrightarrow> view t x = view s x) \<and>
     (\<forall>p. view t (IBLOCK (i_inum i)) p \<noteq> view s (IBLOCK (i_inum i)) p \<longrightarrow>
        dinode_offset (i_inum i) \<le> p \<and> p < dinode_offset (i_inum i) + SIZEOF_DINODE)"

text \<open>The inode's own block is not one of its blocks.\<close>

definition inode_apart :: "kern \<Rightarrow> superblock \<Rightarrow> inode \<Rightarrow> bool" where
  "inode_apart s sb i \<longleftrightarrow> home_sector s (IBLOCK (i_inum i)) \<and> IBLOCK (i_inum i) \<notin> bitmap sb \<and>
     blk_used s sb (unat (IBLOCK (i_inum i))) \<and> IBLOCK (i_inum i) \<notin> file_blks s i"

lemma entry_extended:
  assumes "\<And>p. p div BSIZE < NB \<Longrightarrow> iaddr t i' (p div BSIZE) \<noteq> 0 \<Longrightarrow>
      fbyte t i' p = (if j * SIZEOF_DIRENT \<le> p \<and> p < j * SIZEOF_DIRENT + length (bytes_of_dirent de) then bytes_of_dirent de ! (p - j * SIZEOF_DIRENT)
          else if iaddr s i (p div BSIZE) \<noteq> 0 then fbyte s i p else 0)"
    and "length (de_name de) = DIRSIZ" "\<And>p. p < (max n (Suc j)) * SIZEOF_DIRENT \<Longrightarrow> p div BSIZE < NB \<and> iaddr t i' (p div BSIZE) \<noteq> 0"
    and "\<And>p. p < n * SIZEOF_DIRENT \<Longrightarrow> iaddr s i (p div BSIZE) \<noteq> 0" "k < max n (Suc j)" "j \<le> n"
  shows "entry t i' k = (if k = j then de else entry s i k)"
proof -
  note len = length_bytes_of_dirent [OF assms(2)]
  have fb: "fbyte t i' (k * SIZEOF_DIRENT + x) =
      (if k = j then bytes_of_dirent de ! x else fbyte s i (k * SIZEOF_DIRENT + x))" if "x < SIZEOF_DIRENT" for x
  proof -
    let ?p = "k * SIZEOF_DIRENT + x"
    have "Suc k * SIZEOF_DIRENT \<le> max n (Suc j) * SIZEOF_DIRENT" using assms(5) by (intro mult_le_mono1) simp
    then have m: "?p div BSIZE < NB" "iaddr t i' (?p div BSIZE) \<noteq> 0" using assms(3) [of ?p] that by simp_all
    have eq: "j * SIZEOF_DIRENT \<le> ?p \<and> ?p < j * SIZEOF_DIRENT + SIZEOF_DIRENT \<longleftrightarrow> k = j" using that by (auto simp: layout)
    show ?thesis
    proof (cases "k = j")
      case False
      then have "k < n" using assms(5,6) by simp
      then have "Suc k * SIZEOF_DIRENT \<le> n * SIZEOF_DIRENT" by (intro mult_le_mono1) simp
      then have "iaddr s i (?p div BSIZE) \<noteq> 0" using assms(4) [of ?p] that by simp
      with False eq assms(1) [OF m] len show ?thesis by auto
    qed (use eq assms(1) [OF m] len in simp)
  qed
  show ?thesis
  proof (cases "k = j")
    case True
    then have "file_bytes t i' (k * SIZEOF_DIRENT) SIZEOF_DIRENT = bytes_of_dirent de"
      by (intro nth_equalityI) (use fb len in \<open>simp_all add: file_bytes_def\<close>)
    with True dirent_roundtrip [OF assms(2)] show ?thesis by (simp add: entry_def)
  next
    case False
    then have "file_bytes t i' (k * SIZEOF_DIRENT) SIZEOF_DIRENT = file_bytes s i (k * SIZEOF_DIRENT) SIZEOF_DIRENT"
      using fb by (simp add: file_bytes_def)
    with False show ?thesis by (simp add: entry_def)
  qed
qed

lemma dir_ok_mapped:
  assumes "dir_ok s i n" "p < n * SIZEOF_DIRENT"
  shows "p div BSIZE < NB \<and> iaddr s i (p div BSIZE) \<noteq> 0 \<and> mapped s i (p div BSIZE)"
proof -
  have "mapped s i (p div BSIZE)" using assms by (simp add: dir_ok_def)
  then show ?thesis by (auto simp: mapped_def usable_blk_def NB_def)
qed

lemma link_in_place:
  assumes "alloc_ready s sb" "held s = {}" "dir_ok s (inodes s dp) n" "file_wf s sb (inodes s dp)" "inode_apart s sb (inodes s dp)"
    "j < n" "log_fits s sb (inodes s dp) 2" "length (de_name de) = DIRSIZ"
  shows "\<exists>t. writei dp (bytes_of_dirent de) (of_nat (j * SIZEOF_DIRENT)) (of_nat SIZEOF_DIRENT) s = Inr (int SIZEOF_DIRENT, t) \<and>
    inodes t = inodes s \<and> linked sb s (inodes s dp) n j de t (inodes s dp) \<and> length (lsec t) \<le> Suc (length (lsec s)) \<and>
    (\<forall>x. x \<noteq> 0 \<longrightarrow> x \<notin> file_blks s (inodes s dp) \<longrightarrow> view t x = view s x)"
proof -
  let ?i = "inodes s dp" and ?o = "of_nat (j * SIZEOF_DIRENT) :: u32"
  have r: "linv s" "fs_geom s sb" "outstanding (thelog s) \<ge> 1" using assms(1) by (auto simp: alloc_ready_def)
  have w: "file_inj s ?i" "\<And>x. x \<in> file_blks s ?i \<Longrightarrow> home_sector s x \<and> unat x < unat (sb_size sb) \<and> x \<notin> bitmap sb \<and> blk_used s sb (unat x)"
    using assms(4) by (auto simp: file_wf_def)
  note len = length_bytes_of_dirent [OF assms(8)]
  have d: "i_type ?i = T_DIR" "i_dev ?i = ROOTDEV" "unat (i_size ?i) = n * SIZEOF_DIRENT" "unat (i_size ?i) < 2 ^ 31"
    using assms(3) by (auto simp: dir_ok_def)
  have le: "j * SIZEOF_DIRENT + SIZEOF_DIRENT \<le> n * SIZEOF_DIRENT" using assms(6) mult_le_mono1 [of "Suc j" n SIZEOF_DIRENT] by simp
  have o: "unat ?o = j * SIZEOF_DIRENT" by (rule unat_of_nat_small) (use le d in simp)
  have nn: "unat (of_nat SIZEOF_DIRENT :: u32) = SIZEOF_DIRENT" "sint (of_nat SIZEOF_DIRENT :: u32) = int SIZEOF_DIRENT"
    by (simp add: layout, rule sint_of_small, simp add: layout)
  have "home_sector s (iaddr s ?i (p div BSIZE))" if "p < n * SIZEOF_DIRENT" for p
    using dir_ok_mapped [OF assms(3) that] w(2) by (auto simp: file_blks_def)
  then have wr: "writable s ?i (unat ?o) (length (bytes_of_dirent de))" using dir_ok_mapped [OF assms(3)] le len o by (simp add: writable_def)
  have fit: "int (length (lsec s)) + int (nchunks (unat ?o) (length (bytes_of_dirent de))) < log_size (thelog s)"
    using log_fits_length [OF r(1) assms(7)] o len by (simp add: nchunks_dirent)
  have "i_type ?i \<noteq> T_DEV" using d(1) by (simp add: layout)
  from writei_ok [OF r(1) assms(2) d(2) this r(3) w(1) wr fit, of "of_nat SIZEOF_DIRENT"] nn o len le d(3) obtain t where
    t: "writei dp (bytes_of_dirent de) ?o (of_nat SIZEOF_DIRENT) s = Inr (int SIZEOF_DIRENT, t)" "tstep s t" "inodes t = inodes s"
    "wrote s ?i (j * SIZEOF_DIRENT) (bytes_of_dirent de) t" "length (lsec t) \<le> Suc (length (lsec s))" by (auto simp: nchunks_dirent)
  have ia: "iaddr t ?i = iaddr s ?i" using t(4) by (simp add: wrote_def)
  then have fb: "file_blks t ?i = file_blks s ?i" by (simp add: file_blks_def)
  have v: "view t x = view s x" if "x \<noteq> 0" "x \<notin> file_blks s ?i" for x
    using t(4) that unfolding wrote_def file_blks_def by auto
  have bz: "x \<noteq> 0 \<and> x \<notin> file_blks s ?i" if "x \<in> bitmap sb" for x
  proof -
    have "home_sector s x" using that r(2) by (auto simp: bitmap_def fs_geom_def)
    then have "x \<noteq> 0" using geom_start(1) [OF r(2), of x] by auto
    with w(2) [of x] that show ?thesis by blast
  qed
  have us: "blk_used t sb b = blk_used s sb b" if "b < unat (sb_size sb)" for b
    using v [of "bmp sb b"] bz [OF bmp_in_bitmap [OF that]] by (simp add: blk_used_def)
  have vb: "view t (IBLOCK (i_inum ?i)) = view s (IBLOCK (i_inum ?i))"
    using assms(5) geom_start(1) [OF r(2), of "IBLOCK (i_inum ?i)"] by (intro v) (auto simp: inode_apart_def)
  have "dir_ok t ?i n" using assms(3) mapped_step(1) [OF t(2) ia] by (simp add: dir_ok_def)
  moreover have "file_wf t sb ?i" unfolding file_wf_def file_inj_def fb ia using w us tstep_geom(1) [OF t(2)] by (auto simp: file_inj_def)
  moreover have "loaded t ?i = loaded s ?i" using vb by (simp add: loaded_def)
  ultimately have "linked sb s ?i n j de t ?i"
    using t(2) entry_wrote [OF t(4) assms(8,3)] assms(6) fb v vb by (simp add: linked_def max_absorb1)
  with t(1,3,5) v show ?thesis by blast
qed

lemma link_behind:
  assumes "alloc_ready s sb" "held s = {}" "dir_ok s (inodes s dp) n" "file_wf s sb (inodes s dp)" "inode_apart s sb (inodes s dp)"
    "log_fits s sb (inodes s dp) 2" "has_free s sb (inodes s dp) 1" "Suc n * SIZEOF_DIRENT \<le> NB * BSIZE" "length (de_name de) = DIRSIZ"
  shows "\<exists>t i'. writei dp (bytes_of_dirent de) (of_nat (n * SIZEOF_DIRENT)) (of_nat SIZEOF_DIRENT) s = Inr (int SIZEOF_DIRENT, t) \<and>
    inodes t = (inodes s)(dp := i') \<and> linked sb s (inodes s dp) n n de t i'"
proof -
  let ?i = "inodes s dp" and ?o = "of_nat (n * SIZEOF_DIRENT) :: u32" and ?B = "IBLOCK (i_inum (inodes s dp))"
  note len = length_bytes_of_dirent [OF assms(9)]
  have d: "i_type ?i = T_DIR" "i_dev ?i = ROOTDEV" "unat (i_size ?i) = n * SIZEOF_DIRENT" "unat (i_size ?i) < 2 ^ 31"
    using assms(3) by (auto simp: dir_ok_def)
  have o: "unat ?o = n * SIZEOF_DIRENT" by (rule unat_of_nat_small) (use d in simp)
  have nn: "unat (of_nat SIZEOF_DIRENT :: u32) = SIZEOF_DIRENT" "sint (of_nat SIZEOF_DIRENT :: u32) = int SIZEOF_DIRENT"
    by (simp add: layout, rule sint_of_small, simp add: layout)
  have nd: "i_type ?i \<noteq> T_DEV" using d(1) by (simp add: layout)
  have ap: "home_sector s ?B" "?B \<notin> bitmap sb" "blk_used s sb (unat ?B)" "?B \<notin> file_blks s ?i" using assms(5) by (auto simp: inode_apart_def)
  have nc: "nchunks (unat ?o) (length (bytes_of_dirent de)) = 1" using o len by (simp add: nchunks_dirent)
  have pre: "unat (of_nat SIZEOF_DIRENT :: u32) = length (bytes_of_dirent de)" "unat ?o \<le> unat (i_size ?i)"
    "unat (i_size ?i) < unat ?o + length (bytes_of_dirent de)" "unat ?o + length (bytes_of_dirent de) \<le> NB * BSIZE"
    "log_fits s sb ?i (nchunks (unat ?o) (length (bytes_of_dirent de)) + 1)" "has_free s sb ?i (nchunks (unat ?o) (length (bytes_of_dirent de)))"
    unfolding nc using nn o len d(3) assms(6-8) by (simp_all add: layout numeral_2_eq_2)
  from writei_extends_ok [OF assms(1,2) d(2) nd assms(4) ap(1) pre, unfolded o nn(2)]
  obtain u j t where t: "writei dp (bytes_of_dirent de) ?o (of_nat SIZEOF_DIRENT) s = Inr (int SIZEOF_DIRENT, t)"
    "extended sb s ?i (n * SIZEOF_DIRENT) (bytes_of_dirent de) u j"
    "inodes t = (inodes s)(dp := j\<lparr>i_size := ?o + of_nat SIZEOF_DIRENT, i_mtime := clock s\<rparr>)" "tstep s t"
    "view t = (view u)(?B := put_dinode (NDIRECT + 1) (view u ?B) (dinode_offset (i_inum ?i))
       (dinode_of (j\<lparr>i_size := ?o + of_nat SIZEOF_DIRENT, i_mtime := clock s\<rparr>)))" by blast
  define i' where "i' = j\<lparr>i_size := ?o + of_nat SIZEOF_DIRENT, i_mtime := clock s\<rparr>"
  note e = extendedD [OF t(2)]
  have nb: "?B \<notin> file_blks u j" using e(7) ap(3,4) by blast
  have ad: "i_addrs i' = i_addrs j" by (simp add: i'_def)
  note st = extended_stored [OF t(2,4,5) ap(2) nb ad]
  have fl: "i_dev i' = i_dev ?i" "i_inum i' = i_inum ?i" "i_ref i' = i_ref ?i" "i_flags i' = i_flags ?i" "i_nlink i' = i_nlink ?i" "i_type i' = T_DIR"
    unfolding i'_def using arg_cong [OF e(3), of i_ref] arg_cong [OF e(3), of i_flags] arg_cong [OF e(3), of i_nlink] extended_fields [OF t(2)] d(1) by simp_all
  have "unat ?o + unat (of_nat SIZEOF_DIRENT :: u32) < 2 ^ 32" using o nn(1) d(3,4) by (simp add: layout)
  from word_add_bounds(2) [OF this] have sz: "unat (i_size i') = Suc n * SIZEOF_DIRENT" unfolding i'_def o nn(1) by simp
  have lv: "linv t" "held t = {}" using tstep_linv [OF t(4)] tstep_held [OF t(4)] assms(2) by simp_all
  have mp: "p div BSIZE < NB \<and> iaddr t i' (p div BSIZE) \<noteq> 0" if "p < Suc n * SIZEOF_DIRENT" for p
  proof (cases "p < n * SIZEOF_DIRENT")
    case True
    with dir_ok_mapped [OF assms(3) True] e(4) st(3) show ?thesis by simp
  next
    case False
    with e(9) [of p] that len st(3) show ?thesis by simp
  qed
  have "unat (i_size i') < 2 ^ 31" using sz assms(8) by (simp add: NB_def layout)
  then have "dir_ok t i' (Suc n)" using fl d(2) sz mp file_wf_mapped [OF lv st(1)] by (simp add: dir_ok_def)
  moreover have "entry t i' k = (if k = n then de else entry s ?i k)" if "k < Suc n" for k
    by (rule entry_extended [OF _ assms(9)]) (use e(10) st(3,5) mp dir_ok_mapped [OF assms(3)] that in auto)
  moreover have "same_file i' (loaded t i')"
    by (rule loaded_after_put [where d = "view u ?B"]) (use t(5) fl(2) i'_def in simp)
  moreover have "view t x = view s x" if "x \<notin> bitmap sb" "x \<notin> file_blks t i'" "x \<noteq> ?B" for x using that e(8) [of x] t(5) st(2) by simp
  moreover have "view u ?B = view s ?B" using e(8) ap(2) nb by simp
  then have "dinode_offset (i_inum ?i) \<le> p \<and> p < dinode_offset (i_inum ?i) + SIZEOF_DINODE" if "view t ?B p \<noteq> view s ?B p" for p
    using that put_dinode_other [of p "dinode_offset (i_inum ?i)" "NDIRECT + 1" "view u ?B"] t(5) by (fastforce simp: layout not_less)
  ultimately have "linked sb s ?i n n de t i'" using t(4) st(1,2) fl e(7) by (simp add: linked_def)
  with t(1,3) show ?thesis unfolding i'_def by blast
qed

lemma linked_calm:
  assumes "calm s u" "linked sb u i n j de t i'"
  shows "linked sb s i n j de t i'"
proof -
  have c: "tstep s u" "view u = view s" "lsec u = lsec s" using assms(1) by (simp_all add: calm_def)
  note g = same_growth [OF c]
  have "tstep s t" using assms(2) tstep_trans [OF c(1)] by (simp add: linked_def)
  then show ?thesis using assms(2) calm_entry [OF assms(1)] g c(2) by (simp add: linked_def)
qed

lemma dirlink_linked:
  assumes "alloc_ready s sb" "held s = {}" "dir_ok s (inodes s dp) n" "file_wf s sb (inodes s dp)" "inode_apart s sb (inodes s dp)"
    "log_fits s sb (inodes s dp) 2" "has_free s sb (inodes s dp) 1" "Suc n * SIZEOF_DIRENT \<le> NB * BSIZE"
    "free_slot s (inodes s dp) n j" "0 \<notin> set name" "\<forall>k < n. \<not> is_entry name (entry s (inodes s dp) k)"
  shows "\<exists>t i'. dirlink dp name inum s = Inr (0, t) \<and> inodes t = (inodes s)(dp := i') \<and>
    linked sb s (inodes s dp) n j \<lparr>de_inum = ucast inum, de_name = strncpy name DIRSIZ\<rparr> t i'"
proof -
  let ?i = "inodes s dp" and ?de = "\<lparr>de_inum = ucast inum, de_name = strncpy name DIRSIZ\<rparr>"
  have r: "linv s" using assms(1) by (simp add: alloc_ready_def)
  have f: "j \<le> n" "\<forall>k < j. de_inum (entry s ?i k) \<noteq> 0" "j < n \<Longrightarrow> de_inum (entry s ?i j) = 0" using assms(9) by (auto simp: free_slot_def)
  have "lookup_from s ?i name 0 n = None" using assms(11) by (auto simp: lookup_from_def find_None_iff)
  with dirlookup_ok [OF r linv_room [OF r assms(2)] assms(3,10)] obtain t where t: "dirlookup dp name s = Inr (None, t)" "calm s t" by auto
  note ct = calm_frame [OF t(2)]
  have et: "dir_ok t (inodes t dp) n" "entry t (inodes t dp) = entry s ?i" "room t 1"
    using assms(3) calm_dir_ok [OF t(2)] calm_entry [OF t(2)] ct linv_room [OF r assms(2)] by simp_all
  have "\<exists>u. dirlink_slot dp (0 * SIZEOF_DIRENT) t = Inr (j * SIZEOF_DIRENT, u) \<and> calm t u"
    by (rule dirlink_slot_ok [OF ct(1) et(3,1)]) (use f et(2) in simp_all)
  then obtain u where u: "dirlink_slot dp 0 t = Inr (j * SIZEOF_DIRENT, u)" "calm s u" using calm_trans [OF t(2)] by auto
  have "tstep s u" "view u = view s" "lsec u = lsec s" using u(2) by (simp_all add: calm_def)
  note g = same_growth [OF this] and cu = calm_frame [OF u(2)]
  have pre: "alloc_ready u sb" "held u = {}" "dir_ok u (inodes u dp) n" "file_wf u sb (inodes u dp)" "inode_apart u sb (inodes u dp)"
    "log_fits u sb (inodes u dp) 2" "has_free u sb (inodes u dp) 1"
    using assms(1-7) calm_dir_ok [OF u(2)] cu g by (simp_all add: inode_apart_def)
  have len: "length (de_name ?de) = DIRSIZ" by simp
  have "\<exists>v i'. writei dp (bytes_of_dirent ?de) (of_nat (j * SIZEOF_DIRENT)) (of_nat SIZEOF_DIRENT) u = Inr (int SIZEOF_DIRENT, v) \<and>
      inodes v = (inodes u)(dp := i') \<and> linked sb u (inodes u dp) n j ?de v i'"
  proof (cases "j < n")
    case True
    from link_in_place [OF pre(1-5) True pre(6) len] show ?thesis by (metis fun_upd_triv)
  next
    case False
    then have "j = n" using f(1) by simp
    with link_behind [OF pre assms(8) len] show ?thesis by blast
  qed
  then obtain v i' where v: "writei dp (bytes_of_dirent ?de) (of_nat (j * SIZEOF_DIRENT)) (of_nat SIZEOF_DIRENT) u = Inr (int SIZEOF_DIRENT, v)"
    "inodes v = (inodes u)(dp := i')" "linked sb u (inodes u dp) n j ?de v i'" by blast
  have "dirlink dp name inum s = Inr (0, v)" using t(1) u(1) v(1) by (simp add: dirlink_def)
  with v(2) linked_calm [OF u(2) v(3)] cu(4) show ?thesis by (intro exI [of _ v] exI [of _ i']) simp
qed

section \<open>A new inode\<close>

definition clear_dinode :: "block \<Rightarrow> nat \<Rightarrow> u16 \<Rightarrow> block" where
  "clear_dinode d p ty = put16 (blit d p SIZEOF_DINODE zero_block) p ty"

lemma ialloc_from_ok:
  assumes "linv s" "held s = {}" "outstanding (thelog s) \<ge> 1" "int (length (lsec s)) + 1 < log_size (thelog s)" "first_inode s sb m" "1 \<le> k" "k \<le> m"
  shows "\<exists>t. ialloc_from ROOTDEV ty sb k s = iget ROOTDEV (of_nat m) t \<and> tstep s t \<and> inodes t = inodes s \<and>
    lsec t = log_add (IBLOCK (of_nat m)) (lsec s) \<and>
    view t = (view s)(IBLOCK (of_nat m) := clear_dinode (view s (IBLOCK (of_nat m))) (dinode_offset (of_nat m)) ty)"
  using assms
proof (induction "m - k" arbitrary: k s)
  case 0
  then have k: "k = m" by simp
  have f: "m < unat (sb_ninodes sb)" "disk_type s m = 0" "home_sector s (IBLOCK (of_nat m))" using 0(6,7) k by (auto simp: first_inode_def)
  let ?a = "IBLOCK (of_nat m)"
  have nh: "?a \<notin> held s" using 0(3) by simp
  from session [OF 0(2) home_usable [OF 0(2) f(3)] nh linv_room [OF 0(2,3)]] f(3) 0(4,5) obtain b t where t: "bread ROOTDEV ?a s = Inr (b, t)"
    "buf_data b t = Inr (view s ?a, t)" "\<And>d. \<exists>u v s'. set_data b d t = Inr ((), u) \<and> log_write b u = Inr ((), v) \<and> brelse b v = Inr ((), s') \<and>
      tstep s s' \<and> view s' = (view s)(?a := d) \<and> lsec s' = log_add ?a (lsec s) \<and> inodes s' = inodes s" by metis
  from t(3) [of "clear_dinode (view s ?a) (dinode_offset (of_nat m)) ty"] obtain u v s' where s':
    "set_data b (clear_dinode (view s ?a) (dinode_offset (of_nat m)) ty) t = Inr ((), u)" "log_write b u = Inr ((), v)" "brelse b v = Inr ((), s')"
    "tstep s s'" "view s' = (view s)(?a := clear_dinode (view s ?a) (dinode_offset (of_nat m)) ty)" "lsec s' = log_add ?a (lsec s)"
    "inodes s' = inodes s" by blast
  have "ialloc_from ROOTDEV ty sb k s = iget ROOTDEV (of_nat m) s'"
    unfolding k using f(1,2) t(1,2) s'(1-3) by (subst ialloc_from.simps) (simp add: disk_type_def clear_dinode_def)
  with s'(4-7) show ?case by blast
next
  case (Suc x)
  then have k: "k < m" "x = m - Suc k" by simp_all
  have f: "k < unat (sb_ninodes sb)" "disk_type s k \<noteq> 0" "home_sector s (IBLOCK (of_nat k))" "unat (sb_ninodes sb) \<le> 2 ^ 16"
    using Suc.prems(5-7) k by (auto simp: first_inode_def)
  have nh: "IBLOCK (of_nat k) \<notin> held s" using Suc.prems(2) by simp
  from peek_calm [OF Suc.prems(1) home_usable [OF Suc.prems(1) f(3)] nh linv_room [OF Suc.prems(1,2)]] obtain b t u where
    t: "bread ROOTDEV (IBLOCK (of_nat k)) s = Inr (b, t)" "buf_data b t = Inr (view s (IBLOCK (of_nat k)), t)" "brelse b t = Inr ((), u)" "calm s u" by blast
  note c = calm_frame [OF t(4)]
  have run: "ialloc_from ROOTDEV ty sb k s = ialloc_from ROOTDEV ty sb (Suc k) u"
    using f t(1-3) by (subst ialloc_from.simps) (simp add: disk_type_def INT_MAX_def)
  have "first_inode u sb m" using Suc.prems(5) c by (simp add: first_inode_def disk_type_def)
  with Suc.hyps(1) [OF k(2) c(1), of] Suc.prems(2-4) k(1) c obtain t' where t': "ialloc_from ROOTDEV ty sb (Suc k) u = iget ROOTDEV (of_nat m) t'"
    "tstep u t'" "inodes t' = inodes s" "lsec t' = log_add (IBLOCK (of_nat m)) (lsec s)"
    "view t' = (view s)(IBLOCK (of_nat m) := clear_dinode (view s (IBLOCK (of_nat m))) (dinode_offset (of_nat m)) ty)" by auto
  with run tstep_trans [of s u t'] t(4) show ?case by (auto simp: calm_def)
qed

lemma ialloc_ok:
  assumes "linv s" "held s = {}" "outstanding (thelog s) \<ge> 1" "int (length (lsec s)) + 1 < log_size (thelog s)" "first_inode s sb m"
    "sb_of_block (view s 1) = sb"
  shows "\<exists>t. ialloc ROOTDEV ty s = iget ROOTDEV (of_nat m) t \<and> tstep s t \<and> inodes t = inodes s \<and>
    lsec t = log_add (IBLOCK (of_nat m)) (lsec s) \<and>
    view t = (view s)(IBLOCK (of_nat m) := clear_dinode (view s (IBLOCK (of_nat m))) (dinode_offset (of_nat m)) ty)"
proof -
  have "1 \<notin> held s" using assms(2) by simp
  from readsb_step [OF assms(1) this linv_room [OF assms(1,2)]] assms(6) obtain u where u: "readsb ROOTDEV s = Inr (sb, u)" "tstep s u"
    "view u = view s" "lsec u = lsec s" "inodes u = inodes s" by auto
  have "first_inode u sb m" using assms(5) u(3) tstep_geom(1) [OF u(2)] by (simp add: first_inode_def disk_type_def)
  moreover have "1 \<le> m" using assms(5) by (simp add: first_inode_def)
  ultimately obtain t where "ialloc_from ROOTDEV ty sb 1 u = iget ROOTDEV (of_nat m) t" "tstep u t" "inodes t = inodes u"
    "lsec t = log_add (IBLOCK (of_nat m)) (lsec u)"
    "view t = (view u)(IBLOCK (of_nat m) := clear_dinode (view u (IBLOCK (of_nat m))) (dinode_offset (of_nat m)) ty)"
    using ialloc_from_ok [OF tstep_linv [OF u(2)], of sb m 1 ty] assms(2-4) tstep_held [OF u(2)] tstep_geom [OF u(2)] u(4) by auto
  with u tstep_trans [OF u(2)] show ?thesis by (auto simp: ialloc_def)
qed

lemma get_clear_dinode:
  "di_type (get_dinode (clear_dinode d p ty) p) = ty" "di_size (get_dinode (clear_dinode d p ty) p) = 0"
  "k \<le> NDIRECT \<Longrightarrow> di_addrs (get_dinode (clear_dinode d p ty) p) k = 0"
  "i < p \<or> p + SIZEOF_DINODE \<le> i \<Longrightarrow> clear_dinode d p ty i = d i"
proof -
  have z: "get32 (clear_dinode d p ty) q = 0" if "p + 2 \<le> q" "q + 4 \<le> p + SIZEOF_DINODE" for q
  proof -
    have "get32 (clear_dinode d p ty) q = get32 zero_block q"
      by (rule get32_cong) (use that in \<open>auto simp: clear_dinode_def blit_def zero_block_def\<close>)
    then show ?thesis by simp
  qed
  show "di_type (get_dinode (clear_dinode d p ty) p) = ty" by (simp add: get_dinode_def clear_dinode_def)
  show "di_size (get_dinode (clear_dinode d p ty) p) = 0" using z [of "p + 8"] by (simp add: get_dinode_def layout)
  show "k \<le> NDIRECT \<Longrightarrow> di_addrs (get_dinode (clear_dinode d p ty) p) k = 0" using z [of "p + 24 + 4 * k"] by (simp add: get_dinode_def layout)
  show "i < p \<or> p + SIZEOF_DINODE \<le> i \<Longrightarrow> clear_dinode d p ty i = d i" by (auto simp: clear_dinode_def blit_def layout)
qed

text \<open>The inode \<open>i\<close> of a new, empty file with number \<open>m\<close>, cached, locked and stored.\<close>

definition fresh_inode :: "kern \<Rightarrow> nat \<Rightarrow> u16 \<Rightarrow> inode \<Rightarrow> bool" where
  "fresh_inode t m ty i \<longleftrightarrow> ikey i = (ROOTDEV, of_nat m) \<and> i_ref i = 1 \<and> flag I_BUSY (i_flags i) \<and> flag I_VALID (i_flags i) \<and> i_type i = ty \<and>
     i_nlink i = 1 \<and> i_size i = 0 \<and> (\<forall>k \<le> NDIRECT. i_addrs i k = 0) \<and> same_file i (loaded t i)"

lemma new_inode_ok:
  assumes "linv s" "held s = {}" "outstanding (thelog s) \<ge> 1" "int (length (lsec s)) + 2 < log_size (thelog s)" "first_inode s sb m"
    "sb_of_block (view s 1) = sb" "iget_hit (inodes s) ROOTDEV (of_nat m) = None" "iget_empty (inodes s) = Some ip" "ty \<noteq> 0"
  shows "\<exists>t i. (\<forall>F. bnd (ialloc ROOTDEV ty) (\<lambda>ip. bnd (ilock (Some ip)) (\<lambda>_. bnd unix_time (\<lambda>c.
      bnd (upd_ino ip (new_inode 0 0 c)) (\<lambda>_. bnd (iupdate ip) (\<lambda>_. F ip))))) s = F ip t) \<and>
    tstep s t \<and> inodes t = (inodes s)(ip := i) \<and> set (lsec t) = insert (IBLOCK (of_nat m)) (set (lsec s)) \<and> fresh_inode t m ty i \<and>
    (\<forall>x. x \<noteq> IBLOCK (of_nat m) \<longrightarrow> view t x = view s x) \<and>
    (\<forall>p. p < dinode_offset (of_nat m) \<or> dinode_offset (of_nat m) + SIZEOF_DINODE \<le> p \<longrightarrow>
       view t (IBLOCK (of_nat m)) p = view s (IBLOCK (of_nat m)) p)"
proof -
  let ?n = "of_nat m :: u32" and ?a = "IBLOCK (of_nat m)" and ?o = "dinode_offset (of_nat m)"
  have hm: "home_sector s ?a" using assms(5) by (simp add: first_inode_def)
  have "int (length (lsec s)) + 1 < log_size (thelog s)" using assms(4) by simp
  from ialloc_ok [OF assms(1-3) this assms(5,6), of ty] obtain a where a: "ialloc ROOTDEV ty s = iget ROOTDEV ?n a" "tstep s a" "inodes a = inodes s"
    "lsec a = log_add ?a (lsec s)" "view a = (view s)(?a := clear_dinode (view s ?a) ?o ty)" by blast
  note ga = tstep_geom [OF a(2)]
  let ?i = "(inodes s ip)\<lparr>i_dev := ROOTDEV, i_inum := ?n, i_ref := 1, i_flags := 0\<rparr>"
  let ?b = "a\<lparr>inodes := (inodes s)(ip := ?i)\<rparr>"
  have b: "ialloc ROOTDEV ty s = Inr (ip, ?b)" using a(1,3) assms(7,8) by (simp add: iget_def upd_ino_def)
  have lb: "linv ?b" "held ?b = {}" "tstep s ?b" using tstep_linv [OF a(2)] tstep_held [OF a(2)] assms(2) tstep_trans [OF a(2) ino_step] by simp_all
  have ld: "i_type (loaded ?b ?i) = ty" "i_size (loaded ?b ?i) = 0" "\<forall>k \<le> NDIRECT. i_addrs (loaded ?b ?i) k = 0" "i_ref (loaded ?b ?i) = 1"
    "ikey (loaded ?b ?i) = (ROOTDEV, ?n)" "flag I_BUSY (i_flags (loaded ?b ?i))" "flag I_VALID (i_flags (loaded ?b ?i))"
    using a(5) by (simp_all add: loaded_def load_dinode_def get_clear_dinode ikey_def)
  have "sector_ok ?b ?a" using home_usable [OF lb(1), of ?a] hm ga(1) by simp
  with ilock_load [OF lb(1) linv_room [OF lb(1,2)], of ip] lb(2) ld(1) assms(9) obtain c where c: "ilock (Some ip) ?b = Inr ((), c)" "tstep ?b c"
    "view c = view a" "lsec c = lsec a" "inodes c = (inodes s)(ip := loaded ?b ?i)" by (auto simp: flag_def)
  let ?j = "new_inode 0 0 (clock c) (loaded ?b ?i)"
  let ?d = "c\<lparr>inodes := (inodes s)(ip := ?j)\<rparr>"
  have sc: "tstep s c" using tstep_trans [OF lb(3) c(2)] .
  have ldd: "linv ?d" "held ?d = {}" "tstep s ?d" using tstep_linv [OF sc] tstep_held [OF sc] assms(2) tstep_trans [OF sc ino_step] by simp_all
  have j: "i_dev ?j = ROOTDEV" "i_inum ?j = ?n" using ld(5) by (simp_all add: new_inode_def ikey_def)
  have ll: "length (lsec c) \<le> Suc (length (lsec s))" using c(4) a(4) by simp
  have gd: "home_sector ?d ?a" "outstanding (thelog ?d) \<ge> 1" "int (length (lsec ?d)) + 1 < log_size (thelog ?d)"
    using hm assms(3,4) tstep_geom [OF ldd(3)] ll by simp_all
  obtain t where t: "iupdate ip ?d = Inr ((), t)" "tstep ?d t" "inodes t = inodes ?d" "lsec t = log_add ?a (lsec ?d)"
    "view t = (view a)(?a := put_dinode (NDIRECT + 1) (view a ?a) ?o (dinode_of ?j))"
    using iupdate_ok [OF ldd(1) linv_room [OF ldd(1,2)], of ip] j gd ldd(2) c(3) by auto
  have run: "bnd (ialloc ROOTDEV ty) (\<lambda>ip. bnd (ilock (Some ip)) (\<lambda>_. bnd unix_time (\<lambda>c.
      bnd (upd_ino ip (new_inode 0 0 c)) (\<lambda>_. bnd (iupdate ip) (\<lambda>_. F ip))))) s = F ip t" for F
    using b c(1,5) t(1) by (simp add: unix_time_def upd_ino_def)
  have "same_file ?j (loaded t ?j)" by (rule loaded_after_put [where d = "view a ?a"]) (use t(5) j(2) in simp)
  then have fi: "fresh_inode t m ty ?j" using ld j by (simp add: fresh_inode_def new_inode_def ikey_def)
  have "set (lsec t) = insert ?a (set (lsec s))" using t(4) c(4) a(4) by simp
  moreover have "view t x = view s x" if "x \<noteq> ?a" for x using that t(5) a(5) by simp
  moreover have "view t ?a p = view s ?a p" if "p < ?o \<or> ?o + SIZEOF_DINODE \<le> p" for p
    using that t(5) a(5) put_dinode_other [of p ?o "NDIRECT + 1"] get_clear_dinode(4) [of p ?o] by (auto simp: layout)
  ultimately show ?thesis using run fi t(3) tstep_trans [OF ldd(3) t(2)] by (intro exI [of _ t] exI [of _ ?j]) auto
qed

section \<open>Creating a file\<close>

text \<open>An inode depends on the bytes of its slot, and slots do not overlap.\<close>

lemma loaded_cong:
  assumes "\<And>p. dinode_offset (i_inum i) \<le> p \<Longrightarrow> p < dinode_offset (i_inum i) + SIZEOF_DINODE \<Longrightarrow>
    view t (IBLOCK (i_inum i)) p = view s (IBLOCK (i_inum i)) p"
  shows "loaded t i = loaded s i"
proof -
  let ?o = "dinode_offset (i_inum i)" and ?v = "view t (IBLOCK (i_inum i))" and ?w = "view s (IBLOCK (i_inum i))"
  have g: "get16 ?v (?o + k) = get16 ?w (?o + k)" if "k + 2 \<le> SIZEOF_DINODE" for k by (rule get16_cong) (use that assms in simp)
  have h: "get32 ?v (?o + k) = get32 ?w (?o + k)" if "k + 4 \<le> SIZEOF_DINODE" for k by (rule get32_cong) (use that assms in simp)
  have "get32 ?v (?o + 24 + 4 * k) = get32 ?w (?o + 24 + 4 * k)" if "k < NDIRECT + 1" for k using h [of "24 + 4 * k"] that by (simp add: layout add.assoc)
  then show ?thesis using g [of 0] g [of 2] g [of 4] g [of 6] h [of 8] h [of 12] h [of 16] h [of 20]
    by (auto simp: loaded_def load_dinode_def get_dinode_def fun_eq_iff layout)
qed

lemma slots_apart:
  assumes "IBLOCK a = IBLOCK b" "a \<noteq> b"
  shows "dinode_offset a + SIZEOF_DINODE \<le> dinode_offset b \<or> dinode_offset b + SIZEOF_DINODE \<le> dinode_offset a"
proof -
  have "unat a div IPB + 2 < 2 ^ 32" "unat b div IPB + 2 < 2 ^ 32"
    using unsigned_less [of a, where ?'a = nat] unsigned_less [of b, where ?'a = nat] by (simp_all add: layout)
  then have "unat a div IPB = unat b div IPB" using assms(1) unat_of_nat_small unfolding IBLOCK_def by (metis add_right_cancel)
  then have "unat a mod IPB \<noteq> unat b mod IPB" using assms(2) by (metis div_mod_decomp word_unat_eq_iff)
  then have "Suc (unat a mod IPB) \<le> unat b mod IPB \<or> Suc (unat b mod IPB) \<le> unat a mod IPB" by linarith
  then show ?thesis unfolding dinode_offset_def by (auto dest: mult_le_mono1 [of _ _ SIZEOF_DINODE])
qed

lemma stored_iff: "same_file d (loaded s d) \<longleftrightarrow> same_file (disk_inode s (i_inum d)) d"
  by (auto simp: same_file_def disk_inode_def loaded_def load_dinode_def)

lemma same_file_wf:
  assumes "same_file i j"
  shows "file_blks s j = file_blks s i" "file_wf s sb j = file_wf s sb i" "log_fits s sb j = log_fits s sb i" "has_free s sb j = has_free s sb i"
proof -
  have a: "i_addrs j NDIRECT = i_addrs i NDIRECT" using assms by (simp add: same_file_def)
  note ia = same_file_iaddr [OF assms, of s]
  show fb: "file_blks s j = file_blks s i" by (simp add: file_blks_def ia a)
  show "file_wf s sb j = file_wf s sb i" by (simp add: file_wf_def file_inj_def fb ia a)
  show "log_fits s sb j = log_fits s sb i" by (intro ext) (simp add: log_fits_def log_blks_def a)
  show "has_free s sb j = has_free s sb i" by (intro ext) (simp add: has_free_def a)
qed

lemma ex_free_slot: "\<exists>j. free_slot s i n j"
proof (cases "\<exists>k < n. de_inum (entry s i k) = 0")
  case True
  then obtain j where "j < n \<and> de_inum (entry s i j) = 0" "\<forall>k < j. \<not> (k < n \<and> de_inum (entry s i k) = 0)"
    using exists_least_iff [of "\<lambda>k. k < n \<and> de_inum (entry s i k) = 0"] by blast
  then show ?thesis by (intro exI [of _ j]) (auto simp: free_slot_def)
qed (auto simp: free_slot_def)

text \<open>A block that is neither in the bitmap nor one of the directory's may change.\<close>

lemma elsewhere:
  assumes "alloc_ready s sb" "file_wf s sb d" "dir_ok s d n" "tstep s t" "\<forall>x. x \<noteq> B \<longrightarrow> view t x = view s x"
    "B \<notin> bitmap sb" "B \<notin> file_blks s d" "home_sector s B"
  shows "alloc_ready t sb" "file_wf t sb d" "dir_ok t d n" "file_blks t d = file_blks s d" "\<And>k. k < n \<Longrightarrow> entry t d k = entry s d k"
    "\<And>b. b < unat (sb_size sb) \<Longrightarrow> blk_used t sb b = blk_used s sb b" "has_free t sb d = has_free s sb d"
proof -
  have r: "fs_geom s sb" "outstanding (thelog s) \<ge> 1" "\<forall>b < 2. blk_used s sb b" "\<forall>a \<in> bitmap sb. blk_used s sb (unat a)"
    using assms(1) by (auto simp: alloc_ready_def)
  note g = geom_start [OF r(1)] and gt = tstep_geom [OF assms(4)]
  show us: "blk_used t sb b = blk_used s sb b" if "b < unat (sb_size sb)" for b
  proof -
    have "bmp sb b \<noteq> B" using assms(6) bmp_in_bitmap [OF that] by metis
    with assms(5) show ?thesis by (simp add: blk_used_def)
  qed
  have "unat a < unat (sb_size sb)" if "a \<in> bitmap sb" for a
  proof -
    have "home_sector s a" using that r(1) by (auto simp: bitmap_def fs_geom_def)
    with g show ?thesis by simp
  qed
  moreover have "2 \<le> unat (sb_size sb)" using r(1) by (auto simp: fs_geom_def log_at_def sb_geom_def)
  moreover have "view t 1 = view s 1" using assms(5) not_one_home [OF assms(8)] by metis
  ultimately show "alloc_ready t sb" using r us fs_geom_step [OF r(1) assms(4)] tstep_linv [OF assms(4)] gt(5) by (simp add: alloc_ready_def)
  have "i_addrs d NDIRECT \<noteq> 0 \<longrightarrow> view t (i_addrs d NDIRECT) = view s (i_addrs d NDIRECT)"
    using assms(5,7) by (auto simp: file_blks_def)
  then have ia: "iaddr t d = iaddr s d" by (intro ext) (simp add: iaddr_def)
  then show fb: "file_blks t d = file_blks s d" by (simp add: file_blks_def)
  show "file_wf t sb d" using assms(2) us gt(1) unfolding file_wf_def file_inj_def fb ia by auto
  show "dir_ok t d n" using assms(3) mapped_step(1) [OF assms(4) ia] by (simp add: dir_ok_def)
  have "free_blocks t sb = free_blocks s sb" using us g(2) by (auto simp: free_blocks_def)
  then show "has_free t sb d = has_free s sb d" by (intro ext) (simp add: has_free_def)
  show "entry t d k = entry s d k" if "k < n" for k
  proof -
    have "fbyte t d (k * SIZEOF_DIRENT + x) = fbyte s d (k * SIZEOF_DIRENT + x)" if "x < SIZEOF_DIRENT" for x
    proof -
      have "Suc k * SIZEOF_DIRENT \<le> n * SIZEOF_DIRENT" using \<open>k < n\<close> by (intro mult_le_mono1) simp
      with that dir_ok_mapped [OF assms(3), of "k * SIZEOF_DIRENT + x"] have "iaddr s d ((k * SIZEOF_DIRENT + x) div BSIZE) \<in> file_blks s d"
        by (auto simp: file_blks_def)
      with assms(7) have "iaddr s d ((k * SIZEOF_DIRENT + x) div BSIZE) \<noteq> B" by metis
      with assms(5) show ?thesis by (simp add: fbyte_def ia)
    qed
    then have "file_bytes t d (k * SIZEOF_DIRENT) SIZEOF_DIRENT = file_bytes s d (k * SIZEOF_DIRENT) SIZEOF_DIRENT"
      by (simp add: file_bytes_def)
    then show ?thesis by (simp add: entry_def)
  qed
qed

lemma find_snoc: "\<not> P x \<Longrightarrow> List.find P (xs @ [x]) = List.find P xs"
  by (induction xs) auto

lemma lookup_linked:
  assumes "linked sb s i n j de t i'" "free_slot s i n j"
  shows "is_entry name de \<Longrightarrow> \<forall>k < n. \<not> is_entry name (entry s i k) \<Longrightarrow> lookup_from t i' name 0 (max n (Suc j)) = Some j"
    "\<not> is_entry name de \<Longrightarrow> lookup_from t i' name 0 (max n (Suc j)) = lookup_from s i name 0 n"
proof -
  have e: "entry t i' k = (if k = j then de else entry s i k)" if "k < max n (Suc j)" for k using assms(1) that by (simp add: linked_def)
  have f: "j \<le> n" "j < n \<Longrightarrow> \<not> is_entry nm (entry s i j)" for nm using assms(2) by (auto simp: free_slot_def is_entry_def)
  show "lookup_from t i' name 0 (max n (Suc j)) = Some j" if "is_entry name de" "\<forall>k < n. \<not> is_entry name (entry s i k)"
    unfolding lookup_from_def find_Some_iff by (intro exI [of _ j]) (use that e f(1) in auto)
  assume no: "\<not> is_entry name de"
  have "List.find (\<lambda>k. is_entry name (entry t i' k)) [0..<n] = List.find (\<lambda>k. is_entry name (entry s i k)) [0..<n]"
    by (rule find_cong) (use e f no in auto)
  then show "lookup_from t i' name 0 (max n (Suc j)) = lookup_from s i name 0 n"
  proof (cases "j < n")
    case False
    then have "j = n" using f(1) by simp
    with e [of n] no have "\<not> is_entry name (entry t i' n)" by simp
    with \<open>j = n\<close> \<open>List.find _ _ = _\<close> show ?thesis by (simp add: lookup_from_def find_snoc)
  qed (simp add: lookup_from_def max_absorb1)
qed

lemma resolve_parent_ok:
  "path_ok s r es \<Longrightarrow> resolve s r True es = Some n \<Longrightarrow> inode_ok s n \<and> i_type (disk_inode s n) = T_DIR"
  by (induction s r True es rule: resolve.induct) (auto split: if_splits option.splits dest: path_ok_inode)

end
