(* ===== verification/Create_Props.thy ===== *)
theory Create_Props
  imports Create Sysfile
begin

text \<open>
  \<open>create\<close> as a whole, for everything but directories: it looks up the parent, allocates an inode,
  stores it and enters it in the parent.
\<close>

section \<open>The steps after the lookup\<close>

text \<open>
  What creating a file in directory \<open>n\<close> as inode \<open>m\<close> needs: free blocks, log space and a free inode that
  nobody has in the cache.
\<close>

definition can_create :: "kern \<Rightarrow> superblock \<Rightarrow> u32 \<Rightarrow> nat \<Rightarrow> bool" where
  "can_create s sb n m \<longleftrightarrow> alloc_ready s sb \<and> file_wf s sb (disk_inode s n) \<and> inode_apart s sb (disk_inode s n) \<and>
     Suc (dir_entries (disk_inode s n)) * SIZEOF_DIRENT \<le> NB * BSIZE \<and> first_inode s sb m \<and>
     IBLOCK (of_nat m) \<notin> bitmap sb \<and> blk_used s sb (unat (IBLOCK (of_nat m))) \<and> IBLOCK (of_nat m) \<notin> file_blks s (disk_inode s n) \<and>
     (\<forall>ip < NINODE. i_ref (inodes s ip) \<ge> 1 \<longrightarrow> i_inum (inodes s ip) \<noteq> of_nat m) \<and>
     log_fits s sb (disk_inode s n) 3 \<and> has_free s sb (disk_inode s n) 1"

text \<open>The part of \<open>create\<close> behind the lookup of a name that is missing.\<close>

definition create_new :: "nat \<Rightarrow> bytes \<Rightarrow> u16 \<Rightarrow> nat option act" where
  "create_new dp name type =
     bnd (ino_at dp) (\<lambda>d.
     bnd (ialloc (i_dev d) type) (\<lambda>ip.
     bnd (ilock (Some ip)) (\<lambda>_.
     bnd unix_time (\<lambda>t.
     bnd (upd_ino ip (new_inode 0 0 t)) (\<lambda>_.
     bnd (iupdate ip) (\<lambda>_.
     bnd (if type = T_DIR then create_dots dp ip else ret ()) (\<lambda>_.
     bnd (ino_at ip) (\<lambda>i.
     bnd (dirlink dp name (i_inum i)) (\<lambda>r.
     bnd (guard (r \<ge> 0) (Panic ''create: dirlink'')) (\<lambda>_.
     bnd (iunlockput dp) (\<lambda>_.
     ret (Some ip))))))))))))"

lemma disk_inode_inum: "i_inum (disk_inode s n) = n" "i_dev (disk_inode s n) = ROOTDEV"
  by (simp_all add: disk_inode_def loaded_def load_dinode_def)

lemma inodes_disk [simp]:
  "disk_inode (u\<lparr>inodes := f\<rparr>) = disk_inode u" "loaded (u\<lparr>inodes := f\<rparr>) = loaded u" "entry (u\<lparr>inodes := f\<rparr>) = entry u"
  "lookup_from (u\<lparr>inodes := f\<rparr>) = lookup_from u" "file_blks (u\<lparr>inodes := f\<rparr>) = file_blks u"
  by (intro ext, simp add: disk_inode_def loaded_def lookup_from_def entry_def file_bytes_def fbyte_def file_blks_def)+

lemma inodes_wf [simp]: "file_wf (u\<lparr>inodes := f\<rparr>) = file_wf u" "dir_ok (u\<lparr>inodes := f\<rparr>) = dir_ok u"
  by (intro ext, simp add: file_wf_def file_inj_def blk_used_def home_sector_def dir_ok_def mapped_def usable_blk_def sector_ok_def)+

lemma no_hit:
  assumes "on_way s0 s {#dp#} L" "i_inum (inodes s dp) \<noteq> m" "\<forall>ip < NINODE. i_ref (inodes s0 ip) \<ge> 1 \<longrightarrow> i_inum (inodes s0 ip) \<noteq> m"
  shows "iget_hit (inodes s) ROOTDEV m = None"
proof (rule ccontr)
  assume "iget_hit (inodes s) ROOTDEV m \<noteq> None"
  then obtain ip where "iget_hit (inodes s) ROOTDEV m = Some ip" by blast
  from iget_hitD [OF this] have ip: "ip < NINODE" "0 < i_ref (inodes s ip)" "i_inum (inodes s ip) = m" by (simp_all add: ikey_def)
  then have "ip \<noteq> dp" using assms(2) by blast
  moreover have "i_ref (inodes s ip) = i_ref (inodes s0 ip) + int (count {#dp#} ip)" using assms(1) by (simp add: on_way_def)
  ultimately have "i_ref (inodes s0 ip) \<ge> 1" using ip(2) by simp
  moreover from this have "ikey (inodes s ip) = ikey (inodes s0 ip)" using assms(1) by (simp add: on_way_def)
  ultimately show False using assms(3) ip(1,3) by (auto simp: ikey_def)
qed

text \<open>A block outside the bitmap and the directory has been changed and logged.\<close>

lemma still_apart:
  assumes "alloc_ready s sb" "file_wf s sb d" "dir_ok s d n" "tstep s t" "\<forall>x. x \<noteq> B \<longrightarrow> view t x = view s x"
    "B \<notin> bitmap sb" "B \<notin> file_blks s d" "home_sector s B" "inode_apart s sb d"
  shows "inode_apart t sb d"
proof -
  note el = elsewhere [OF assms(1-8)]
  have "unat (IBLOCK (i_inum d)) < unat (sb_size sb)" using geom_start [of s sb] assms(1,9) by (simp add: alloc_ready_def inode_apart_def)
  then show ?thesis using el(4,6) assms(9) tstep_geom(1) [OF assms(4)] by (simp add: inode_apart_def)
qed

lemma one_more_logged:
  assumes "tstep s t" "set (lsec t) = insert a (set (lsec s))" "log_fits s sb d (Suc k)"
  shows "log_fits t sb d k"
proof -
  have "log_blks t sb d \<subseteq> insert a (log_blks s sb d)" using assms(2) by (auto simp: log_blks_def)
  then have "card (log_blks t sb d) \<le> card (insert a (log_blks s sb d))" by (intro card_mono) (auto simp: log_blks_def)
  also have "\<dots> \<le> Suc (card (log_blks s sb d))" by (simp add: card_insert_if log_blks_def)
  finally show ?thesis using assms(3) tstep_geom(4) [OF assms(1)] by (simp add: log_fits_def)
qed

lemma not_free_inode: "first_inode s sb m \<Longrightarrow> i_type (disk_inode s n) = T_DIR \<Longrightarrow> n \<noteq> of_nat m"
  by (auto simp: first_inode_def disk_inode_def loaded_def load_dinode_def disk_type_def layout)

text \<open>The state after the steps: the new inode \<open>i\<close> in entry \<open>ip\<close> and the directory \<open>d'\<close>, unlocked and dropped.\<close>

lemma create_new_ok:
  assumes w: "on_way s0 s {#dp#} {dp}" "held s0 = {}" "2 \<le> card (free_entries s0)"
    and d: "i_inum (inodes s dp) = n" "flag I_BUSY (i_flags (inodes s dp))" "same_file (disk_inode s0 n) (inodes s dp)"
    and ok: "inode_ok s0 n" "i_type (disk_inode s0 n) = T_DIR" "dir_find s0 (disk_inode s0 n) name = None" "0 \<notin> set name"
    and can: "can_create s0 sb n m" and ty: "ty \<noteq> 0" "ty \<noteq> T_DIR"
    and j: "free_slot s0 (disk_inode s0 n) (dir_entries (disk_inode s0 n)) j"
  shows "\<exists>ip t u i d'. create_new dp name ty s = Inr (Some ip, u\<lparr>inodes := (inodes s)(ip := i,
      dp := d'\<lparr>i_flags := clear_flag I_BUSY (i_flags d'), i_ref := i_ref d' - 1\<rparr>)\<rparr>) \<and> ip \<noteq> dp \<and> i_ref (inodes s ip) = 0 \<and>
    tstep s0 u \<and> fresh_inode t m ty i \<and> (\<forall>x. x \<noteq> IBLOCK (of_nat m) \<longrightarrow> view t x = view s0 x) \<and>
    (\<forall>p. p < dinode_offset (of_nat m) \<or> dinode_offset (of_nat m) + SIZEOF_DINODE \<le> p \<longrightarrow>
       view t (IBLOCK (of_nat m)) p = view s0 (IBLOCK (of_nat m)) p) \<and>
    (\<forall>k < dir_entries (disk_inode s0 n). entry t (inodes s dp) k = entry s0 (disk_inode s0 n) k) \<and>
    linked sb t (inodes s dp) (dir_entries (disk_inode s0 n)) j \<lparr>de_inum = ucast (of_nat m :: u32), de_name = strncpy name DIRSIZ\<rparr> u d' \<and>
    file_blks t (inodes s dp) = file_blks s0 (disk_inode s0 n) \<and> (\<forall>b < unat (sb_size sb). blk_used t sb b = blk_used s0 sb b)"
proof -
  let ?d = "inodes s dp" and ?D = "disk_inode s0 n" and ?a = "IBLOCK (of_nat m)"
  define N where "N = dir_entries ?D"
  have c: "alloc_ready s0 sb" "file_wf s0 sb ?D" "inode_apart s0 sb ?D" "Suc N * SIZEOF_DIRENT \<le> NB * BSIZE" "first_inode s0 sb m"
    "?a \<notin> bitmap sb" "blk_used s0 sb (unat ?a)" "?a \<notin> file_blks s0 ?D"
    "\<forall>ip < NINODE. i_ref (inodes s0 ip) \<ge> 1 \<longrightarrow> i_inum (inodes s0 ip) \<noteq> of_nat m" "log_fits s0 sb ?D 3" "has_free s0 sb ?D 1"
    using can by (simp_all add: can_create_def N_def)
  have st: "tstep s0 s" "view s = view s0" "lsec s = lsec s0" using w(1) by (auto simp: on_way_def)
  note g = same_growth [OF st] and gs = tstep_geom [OF st(1)] and f = on_way_frame [OF w(1)]
  have hd: "i_dev ?d = ROOTDEV" "i_ref ?d \<ge> 1" using on_way_held [OF w(1), of dp] by (simp_all add: entry_ok_def)
  have dv: "i_dev ?d = i_dev ?D" using hd(1) disk_inode_inum(2) by simp
  note sd = same_file_dir [OF d(3) dv] and sw = same_file_wf [OF d(3)]
  have dk: "dir_ok s ?d N" using ok(1,2) sd f by (simp add: inode_ok_def N_def)
  have ar: "alloc_ready s sb" "file_wf s sb ?d" "?a \<notin> file_blks s ?d" "first_inode s sb m" "log_fits s sb ?d 3" "has_free s sb ?d 1"
    using g c sw by simp_all
  have r: "linv s" "outstanding (thelog s) \<ge> 1" "sb_of_block (view s 1) = sb" "held s = {}"
    using ar(1) f(2) w(2) by (auto simp: alloc_ready_def fs_geom_def)
  have ha: "home_sector s ?a" using ar(4) by (simp add: first_inode_def)
  have len: "int (length (lsec s)) + 2 < log_size (thelog s)" using log_fits_length [OF r(1) ar(5)] by simp
  have nm: "n \<noteq> of_nat m" by (rule not_free_inode [OF c(5) ok(2)])
  have hit: "iget_hit (inodes s) ROOTDEV (of_nat m) = None" by (rule no_hit [OF w(1)]) (use nm d(1) c(9) in auto)
  from on_way_empty [OF w(1)] w(3) obtain ip where ip: "iget_empty (inodes s) = Some ip" "i_ref (inodes s ip) = 0" by auto
  then have ne: "ip \<noteq> dp" using hd(2) by auto
  from new_inode_ok [OF r(1,4,2) len ar(4) r(3) hit ip(1) ty(1)] obtain t i where
    t: "\<And>F :: nat \<Rightarrow> nat option act. bnd (ialloc ROOTDEV ty) (\<lambda>ip. bnd (ilock (Some ip)) (\<lambda>_. bnd unix_time (\<lambda>c.
      bnd (upd_ino ip (new_inode 0 0 c)) (\<lambda>_. bnd (iupdate ip) (\<lambda>_. F ip))))) s = F ip t"
    "tstep s t" "inodes t = (inodes s)(ip := i)" "set (lsec t) = insert ?a (set (lsec s))" "fresh_inode t m ty i"
    "\<forall>x. x \<noteq> ?a \<longrightarrow> view t x = view s x"
    "\<forall>p. p < dinode_offset (of_nat m) \<or> dinode_offset (of_nat m) + SIZEOF_DINODE \<le> p \<longrightarrow> view t ?a p = view s ?a p" by blast
  have td: "inodes t dp = ?d" using t(3) ne by simp
  note el = elsewhere [OF ar(1,2) dk t(2) t(6) c(6) ar(3) ha]
  have ht: "held t = {}" using tstep_held [OF t(2)] r(4) by simp
  have "inode_apart s sb ?d" using c(3) g(1,2) gs(1) sw(1) disk_inode_inum d(1) by (simp add: inode_apart_def)
  note ap = still_apart [OF ar(1,2) dk t(2,6) c(6) ar(3) ha this] 
  have lf: "log_fits t sb ?d 2" by (rule one_more_logged [OF t(2,4)]) (use ar(5) in simp)
  have en: "entry t ?d k = entry s0 ?D k" if "k < N" for k using el(5) [OF that] sd(1) f(6) by simp
  have fs: "free_slot t ?d N j" using j en unfolding free_slot_def N_def [symmetric] by auto
  have ab: "\<forall>k < N. \<not> is_entry name (entry t ?d k)"
    using ok(3) en by (auto simp: dir_find_def lookup_from_def find_None_iff N_def)
  have hf: "has_free t sb ?d 1" using ar(6) el(7) by simp
  have pre: "dir_ok t (inodes t dp) N" "file_wf t sb (inodes t dp)" "inode_apart t sb (inodes t dp)" "log_fits t sb (inodes t dp) 2"
    "has_free t sb (inodes t dp) 1" "free_slot t (inodes t dp) N j" "\<forall>k < N. \<not> is_entry name (entry t (inodes t dp) k)"
    unfolding td by (rule el(3) el(2) ap lf hf fs ab)+
  from dirlink_linked [OF el(1) ht pre(1-5) c(4) pre(6) ok(4) pre(7), of "of_nat m"] td obtain u d' where u: "dirlink dp name (of_nat m) t = Inr (0, u)"
    "inodes u = (inodes t)(dp := d')" "linked sb t ?d N j \<lparr>de_inum = ucast (of_nat m :: u32), de_name = strncpy name DIRSIZ\<rparr> u d'" by auto
  have fd: "i_flags d' = i_flags ?d" "i_ref d' = i_ref ?d" "i_nlink d' = i_nlink ?d" "tstep t u" using u(3) by (simp_all add: linked_def)
  have "i_nlink d' \<noteq> 0" using ok(1) sd(6) fd(3) by (simp add: inode_ok_def)
  then have put: "iunlockput dp u = Inr ((), u\<lparr>inodes := (inodes s)(ip := i, dp := d'\<lparr>i_flags := clear_flag I_BUSY (i_flags d'), i_ref := i_ref d' - 1\<rparr>)\<rparr>)"
    using u(2) t(3) fd(1,2) d(2) hd(2) by (simp add: iunlockput_def iunlock_def iput_def ino_at_def upd_ino_def INT_MIN_def)
  have "i_inum (inodes t ip) = of_nat m" using t(3,5) by (simp add: fresh_inode_def ikey_def)
  let ?F = "\<lambda>ip. bnd (if ty = T_DIR then create_dots dp ip else ret ()) (\<lambda>_. bnd (ino_at ip) (\<lambda>i. bnd (dirlink dp name (i_inum i)) (\<lambda>r.
     bnd (guard (r \<ge> 0) (Panic ''create: dirlink'')) (\<lambda>_. bnd (iunlockput dp) (\<lambda>_. ret (Some ip))))))"
  have "create_new dp name ty s = ?F ip t"
    unfolding create_new_def by (subst bnd_run [of "ino_at dp" s ?d s]) (simp add: ino_at_def, unfold hd(1), rule t(1) [of ?F])
  then have run: "create_new dp name ty s = Inr (Some ip, u\<lparr>inodes := (inodes s)(ip := i, dp := d'\<lparr>i_flags := clear_flag I_BUSY (i_flags d'), i_ref := i_ref d' - 1\<rparr>)\<rparr>)"
    using ty(2) u(1) put \<open>i_inum (inodes t ip) = of_nat m\<close> by (simp add: ino_at_def)
  have us: "\<forall>b < unat (sb_size sb). blk_used t sb b = blk_used s0 sb b" using el(6) g(1) by simp
  have fb: "file_blks t ?d = file_blks s0 ?D" using el(4) g(2) sw(1) by simp
  have su: "tstep s0 u" by (rule tstep_trans [OF st(1) tstep_trans [OF t(2) fd(4)]])
  have vt: "\<forall>x. x \<noteq> ?a \<longrightarrow> view t x = view s0 x"
    "\<forall>p. p < dinode_offset (of_nat m) \<or> dinode_offset (of_nat m) + SIZEOF_DINODE \<le> p \<longrightarrow> view t ?a p = view s0 ?a p" using t(6,7) st(2) by simp_all
  have en': "\<forall>k < dir_entries ?D. entry t ?d k = entry s0 ?D k" using en by (simp add: N_def)
  show ?thesis by (intro exI conjI) (rule run ne ip(2) su t(5) vt en' u(3) [unfolded N_def] fb us)+
qed

section \<open>The new name\<close>

lemma split_at_sub: "e \<in> set (split_at c xs) \<Longrightarrow> set e \<subseteq> set xs"
proof (induction xs arbitrary: e)
  case (Cons x xs)
  then show ?case using split_at_nonempty [of c xs] by (fastforce split: if_splits list.splits)
qed simp

lemma path_elems_sub: "e \<in> set (path_elems path) \<Longrightarrow> set e \<subseteq> set path"
  unfolding path_elems_def using split_at_sub by (fastforce dest: in_set_takeD)

text \<open>The inodes of directory and file on disk, after the file's has been stored and the name entered.\<close>

lemma new_stays:
  assumes "linked sb t d N j de u d'" "i_inum i = of_nat m" "i_inum d \<noteq> of_nat m" "IBLOCK (of_nat m) \<noteq> 0" "IBLOCK (of_nat m) \<notin> bitmap sb"
    "IBLOCK (of_nat m) \<notin> file_blks t d" "blk_used t sb (unat (IBLOCK (of_nat m)))"
  shows "loaded u i = loaded t i"
proof (rule loaded_cong, unfold assms(2))
  fix p
  assume p: "dinode_offset (of_nat m) \<le> p" "p < dinode_offset (of_nat m) + SIZEOF_DINODE"
  show "view u (IBLOCK (of_nat m)) p = view t (IBLOCK (of_nat m)) p"
  proof (cases "IBLOCK (of_nat m) = IBLOCK (i_inum d)")
    case True
    with slots_apart [OF True] assms(3) p have "\<not> (dinode_offset (i_inum d) \<le> p \<and> p < dinode_offset (i_inum d) + SIZEOF_DINODE)" by auto
    with True assms(1) show ?thesis by (auto simp: linked_def)
  next
    case False
    have "IBLOCK (of_nat m) \<notin> file_blks u d'" using assms(1,6,7) unfolding linked_def by blast
    with False assms(1,4,5) show ?thesis unfolding linked_def by simp
  qed
qed

lemma dir_stays:
  assumes "\<forall>x. x \<noteq> IBLOCK (of_nat m) \<longrightarrow> view t x = view s x"
    "\<forall>p. p < dinode_offset (of_nat m) \<or> dinode_offset (of_nat m) + SIZEOF_DINODE \<le> p \<longrightarrow> view t (IBLOCK (of_nat m)) p = view s (IBLOCK (of_nat m)) p"
    "i_inum d \<noteq> of_nat m"
  shows "loaded t d = loaded s d"
proof (rule loaded_cong)
  fix p
  assume p: "dinode_offset (i_inum d) \<le> p" "p < dinode_offset (i_inum d) + SIZEOF_DINODE"
  show "view t (IBLOCK (i_inum d)) p = view s (IBLOCK (i_inum d)) p"
  proof (cases "IBLOCK (i_inum d) = IBLOCK (of_nat m)")
    case True
    with slots_apart [OF True assms(3)] p have "p < dinode_offset (of_nat m) \<or> dinode_offset (of_nat m) + SIZEOF_DINODE \<le> p" by auto
    with True assms(2) show ?thesis by auto
  qed (use assms(1) in simp)
qed

text \<open>Lookups in the directory before and after.\<close>

lemma dir_find_linked:
  assumes "linked sb t d N j \<lparr>de_inum = ucast (of_nat m :: u32), de_name = strncpy name DIRSIZ\<rparr> u d'" "free_slot t d N j"
    "\<forall>k < N. \<not> is_entry name (entry t d k)" "0 \<notin> set name" "1 \<le> m" "m < 2 ^ 16"
  shows "dir_find u d' name = Some (of_nat m)"
    "take DIRSIZ nm \<noteq> take DIRSIZ name \<Longrightarrow> dir_find u d' nm = map_option (\<lambda>k. ucast (de_inum (entry t d k))) (lookup_from t d nm 0 N)"
proof -
  let ?de = "\<lparr>de_inum = ucast (of_nat m :: u32), de_name = strncpy name DIRSIZ\<rparr>"
  have de: "dir_ok u d' (max N (Suc j))" "\<And>k. k < max N (Suc j) \<Longrightarrow> entry u d' k = (if k = j then ?de else entry t d k)"
    using assms(1) by (simp_all add: linked_def)
  have n: "dir_entries d' = max N (Suc j)" using de(1) by (simp add: dir_ok_def dir_entries_def layout)
  have um: "ucast (of_nat m :: u32) \<noteq> (0 :: u16)" "ucast (ucast (of_nat m :: u32) :: u16) = (of_nat m :: u32)"
    using assms(5,6) by (simp_all add: word_unat_eq_iff unsigned_ucast_eq unsigned_take_bit_eq unat_of_nat take_bit_nat_eq_self)
  have ie: "is_entry x ?de \<longleftrightarrow> take DIRSIZ x = take DIRSIZ name" for x
    using um(1) assms(4) by (auto simp: is_entry_def c_string_strncpy)
  have "lookup_from u d' name 0 (max N (Suc j)) = Some j" by (rule lookup_linked(1) [OF assms(1,2) _ assms(3)]) (simp add: ie)
  then show "dir_find u d' name = Some (of_nat m)" using de(2) [of j] um(2) by (simp add: dir_find_def n)
  assume "take DIRSIZ nm \<noteq> take DIRSIZ name"
  then have no: "\<not> is_entry nm ?de" by (simp add: ie)
  have lk: "lookup_from u d' nm 0 (max N (Suc j)) = lookup_from t d nm 0 N" by (rule lookup_linked(2) [OF assms(1,2) no])
  have "entry u d' k = entry t d k" if "lookup_from t d nm 0 N = Some k" for k
  proof -
    have k: "k < N" "is_entry nm (entry u d' k)" using that lk find_SomeD [of _ _ k] by (fastforce simp: lookup_from_def)+
    with no de(2) [of k] show ?thesis by (cases "k = j") auto
  qed
  then show "dir_find u d' nm = map_option (\<lambda>k. ucast (de_inum (entry t d k))) (lookup_from t d nm 0 N)"
    by (cases "lookup_from t d nm 0 N") (simp_all add: dir_find_def n lk)
qed

lemma create_missing:
  assumes "linv s" "held s = {}" "coherent {} s" "\<forall>ip < NINODE. ref_room (i_ref (inodes s ip))" "2 \<le> card (free_entries s)"
    and "path \<noteq> []" "hd path = SLASH" "0 \<notin> set path" "path_ok s ROOTINO (path_elems path)"
    and "resolve s ROOTINO True (path_elems path) = Some n" "dir_find s (disk_inode s n) (last (path_elems path)) = None"
  shows "\<exists>dp t. create path ty 0 0 s = create_new dp (last (path_elems path)) ty t \<and> on_way s t {#dp#} {dp} \<and> i_inum (inodes t dp) = n \<and>
    flag I_BUSY (i_flags (inodes t dp)) \<and> same_file (disk_inode s n) (inodes t dp) \<and> inode_ok s n \<and> i_type (disk_inode s n) = T_DIR \<and>
    0 \<notin> set (last (path_elems path))"
proof -
  let ?name = "last (path_elems path)"
  note rm = linv_room [OF assms(1,2)]
  have ne: "path_elems path \<noteq> []" using assms(10) by (cases "path_elems path") auto
  have z: "0 \<notin> set ?name" using path_elems_sub [of ?name path] ne assms(8) by auto
  note ok = resolve_parent_ok [OF assms(9,10)]
  from namex_arrives [OF assms(1,2) rm assms(3-9), of True] assms(10) ne obtain dp a where a: "namex path True s = Inr ((Some dp, ?name), a)"
    "i_inum (inodes a dp) = n" "on_way s a {#dp#} {}" by (auto simp: arrived_def)
  from lock_on_way [OF a(3) _ _ assms(2) rm] ok a(2) obtain b where b: "ilock (Some dp) a = Inr ((), b)" "on_way s b {#dp#} {dp}"
    "i_inum (inodes b dp) = n" "flag I_BUSY (i_flags (inodes b dp))" "same_file (disk_inode s n) (inodes b dp)" by auto
  have "i_type (inodes b dp) = T_DIR" using b(5) ok by (simp add: same_file_def)
  from dirlookup_on_way [OF b(2) _ b(5) _ this z rm] ok assms(5,11) obtain t where t: "dirlookup dp ?name b = Inr (None, t)"
    "on_way s t {#dp#} {dp}" "inodes t = inodes b" by auto
  have "create path ty 0 0 s = create_new dp ?name ty t"
    using a(1) b(1) t(1) by (simp add: create_def nameiparent_def create_new_def)
  with t(2,3) b(3-5) ok z show ?thesis by (intro exI [of _ dp] exI [of _ t]) simp
qed

text \<open>
  From \<open>s\<close> to \<open>t\<close> the name has been entered in directory \<open>n\<close> for the new inode \<open>m\<close>, held in entry \<open>ip\<close>.
\<close>

definition created :: "superblock \<Rightarrow> kern \<Rightarrow> u32 \<Rightarrow> nat \<Rightarrow> u16 \<Rightarrow> bytes \<Rightarrow> nat \<Rightarrow> kern \<Rightarrow> bool" where
  "created sb s n m ty name ip t \<longleftrightarrow> tstep s t \<and> fresh_inode t m ty (inodes t ip) \<and> dir_find t (disk_inode t n) name = Some (of_nat m) \<and>
     (\<forall>nm. take DIRSIZ nm \<noteq> take DIRSIZ name \<longrightarrow> dir_find t (disk_inode t n) nm = dir_find s (disk_inode s n) nm) \<and>
     (\<forall>jp. jp \<noteq> ip \<longrightarrow> i_ref (inodes t jp) = i_ref (inodes s jp)) \<and>
     (\<forall>x. x \<noteq> 0 \<longrightarrow> x \<notin> bitmap sb \<longrightarrow> x \<noteq> IBLOCK n \<longrightarrow> x \<noteq> IBLOCK (of_nat m) \<longrightarrow> x \<notin> file_blks t (disk_inode t n) \<longrightarrow> view t x = view s x) \<and>
     file_wf t sb (disk_inode t n) \<and> dir_ok t (disk_inode t n) (dir_entries (disk_inode t n))"

lemma create_ok:
  assumes "linv s" "held s = {}" "coherent {} s" "\<forall>ip < NINODE. ref_room (i_ref (inodes s ip))" "2 \<le> card (free_entries s)"
    and "path \<noteq> []" "hd path = SLASH" "0 \<notin> set path" "path_ok s ROOTINO (path_elems path)"
    and "resolve s ROOTINO True (path_elems path) = Some n" "dir_find s (disk_inode s n) (last (path_elems path)) = None"
    and "can_create s sb n m" "ty \<noteq> 0" "ty \<noteq> T_DIR"
  shows "\<exists>ip s'. create path ty 0 0 s = Inr (Some ip, s') \<and> created sb s n m ty (last (path_elems path)) ip s'"
proof -
  let ?name = "last (path_elems path)" and ?D = "disk_inode s n" and ?a = "IBLOCK (of_nat m)"
  from create_missing [OF assms(1-11)] obtain dp a where a: "create path ty 0 0 s = create_new dp ?name ty a" "on_way s a {#dp#} {dp}"
    "i_inum (inodes a dp) = n" "flag I_BUSY (i_flags (inodes a dp))" "same_file ?D (inodes a dp)" "inode_ok s n" "i_type ?D = T_DIR"
    "0 \<notin> set ?name" by blast
  let ?d = "inodes a dp"
  define N where "N = dir_entries ?D"
  obtain j where j: "free_slot s ?D (dir_entries ?D) j" using ex_free_slot by blast
  from create_new_ok [OF a(2) assms(2,5) a(3-7) assms(11) a(8) assms(12-14) j] obtain ip t u i d' where
    run: "create_new dp ?name ty a = Inr (Some ip, u\<lparr>inodes := (inodes a)(ip := i, dp := d'\<lparr>i_flags := clear_flag I_BUSY (i_flags d'), i_ref := i_ref d' - 1\<rparr>)\<rparr>)"
    and r: "ip \<noteq> dp" "i_ref (inodes a ip) = 0" "tstep s u" "fresh_inode t m ty i" "\<forall>x. x \<noteq> ?a \<longrightarrow> view t x = view s x"
    "\<forall>p. p < dinode_offset (of_nat m) \<or> dinode_offset (of_nat m) + SIZEOF_DINODE \<le> p \<longrightarrow> view t ?a p = view s ?a p"
    "\<forall>k < N. entry t ?d k = entry s ?D k" "linked sb t ?d N j \<lparr>de_inum = ucast (of_nat m :: u32), de_name = strncpy ?name DIRSIZ\<rparr> u d'"
    "file_blks t ?d = file_blks s ?D" "\<forall>b < unat (sb_size sb). blk_used t sb b = blk_used s sb b"
    unfolding N_def by blast
  let ?s = "u\<lparr>inodes := (inodes a)(ip := i, dp := d'\<lparr>i_flags := clear_flag I_BUSY (i_flags d'), i_ref := i_ref d' - 1\<rparr>)\<rparr>"
  have c: "alloc_ready s sb" "first_inode s sb m" "?a \<notin> bitmap sb" "blk_used s sb (unat ?a)" "?a \<notin> file_blks s ?D"
    using assms(12) by (simp_all add: can_create_def)
  have m: "1 \<le> m" "m < 2 ^ 16" "home_sector s ?a" "disk_type s m = 0" using c(2) by (auto simp: first_inode_def)
  have nm: "i_inum ?d \<noteq> of_nat m" unfolding a(3) by (rule not_free_inode [OF c(2) a(7)])
  have g: "fs_geom s sb" using c(1) by (simp add: alloc_ready_def)
  have az: "?a \<noteq> 0" "unat ?a < unat (sb_size sb)" using geom_start [OF g] m(3) by auto
  have fd: "i_inum d' = n" "i_dev d' = ROOTDEV" "i_ref d' = i_ref ?d"
    using r(8) a(3) on_way_held [OF a(2), of dp] by (simp_all add: linked_def entry_ok_def)
  have "same_file ?d (loaded s ?d)" using a(5,3) by (simp add: stored_iff)
  then have "same_file ?d (loaded t ?d)" using dir_stays [OF r(5,6) nm] by simp
  then have "same_file d' (loaded u d')" using r(8) by (simp add: linked_def)
  then have sd: "same_file (disk_inode u n) d'" using stored_iff [of d' u] fd(1) by simp
  have dv: "i_dev d' = i_dev (disk_inode u n)" using fd(2) disk_inode_inum(2) by simp
  note sf = same_file_dir [OF sd dv] and fb = same_file_wf(1) [OF sd]
  have df: "dir_find ?s (disk_inode ?s n) x = dir_find u d' x" for x using sf(1,3,4) by (simp add: dir_find_def)
  have fs: "free_slot t ?d N j" using j r(7) unfolding free_slot_def N_def [symmetric] by auto
  have ab: "\<forall>k < N. \<not> is_entry ?name (entry t ?d k)" using assms(11) r(7) by (auto simp: dir_find_def lookup_from_def find_None_iff N_def)
  note find = dir_find_linked [OF r(8) fs ab a(8) m(1,2)]
  have "lookup_from t ?d x 0 N = lookup_from s ?D x 0 N" for x
    unfolding lookup_from_def by (rule find_cong) (use r(7) in auto)
  moreover have "k < N" if "lookup_from s ?D x 0 N = Some k" for k x using that find_SomeD by (fastforce simp: lookup_from_def)
  ultimately have old: "map_option (\<lambda>k. ucast (de_inum (entry t ?d k))) (lookup_from t ?d x 0 N) = dir_find s ?D x" for x
    using r(7) by (cases "lookup_from s ?D x 0 N") (simp_all add: dir_find_def N_def [symmetric])
  have "i_inum i = of_nat m" using r(4) by (simp add: fresh_inode_def ikey_def)
  from new_stays [OF r(8) this nm az(1) c(3)] r(9,10) c(4,5) az(2) have "loaded u i = loaded t i" by simp
  then have fr: "fresh_inode ?s m ty i" using r(4) by (simp add: fresh_inode_def)
  have ref: "i_ref (inodes ?s jp) = i_ref (inodes s jp)" if "jp \<noteq> ip" for jp
    using that fd(3) a(2) by (cases "jp = dp") (simp_all add: on_way_def)
  have vw: "view ?s x = view s x" if "x \<noteq> 0" "x \<notin> bitmap sb" "x \<noteq> IBLOCK n" "x \<noteq> ?a" "x \<notin> file_blks ?s (disk_inode ?s n)" for x
  proof -
    have "x \<notin> file_blks u d'" using that(5) fb by simp
    then have "view u x = view t x" using r(8) that(1-3) a(3) unfolding linked_def by simp
    then show ?thesis using r(5) that(4) by simp
  qed
  have st: "tstep s ?s" using r(3) by (simp add: tstep_def tenv_eq)
  have wf: "file_wf ?s sb (disk_inode ?s n)" "dir_ok ?s (disk_inode ?s n) (dir_entries (disk_inode ?s n))"
    using r(8) same_file_wf(2) [OF sd] sf(2) by (simp_all add: linked_def) (auto simp: dir_ok_def dir_entries_def)
  have ii: "inodes ?s ip = i" using r(1) by simp
  have "created sb s n m ty ?name ip ?s" unfolding created_def ii
    by (intro conjI) (use st fr find df old ref vw wf in \<open>simp_all add: fun_eq_iff\<close>)
  with a(1) run show ?thesis by (intro exI [of _ ip] exI [of _ ?s]) simp
qed

text \<open>
  C25: Creating a file.  When the parent of an absolute path is a directory without the name, \<open>create\<close> of
  anything but a directory returns an entry for the first free inode: it is of the type asked
  for, empty, has one link and one reference, is locked, and is stored on disk.  The name now leads to
  it in the parent, and every other name
  leads where it did.  All other reference counts are as before, and besides the parent's
  blocks, the two inode blocks and the bitmap no block has changed.
  (No entry of the inode cache is within two references of the largest \<open>int\<close>.)
\<close>

theorem create_file:
  assumes "linv s" "held s = {}" "coherent {} s" "\<forall>ip < NINODE. ref_room (i_ref (inodes s ip))" "2 \<le> card (free_entries s)"
    and "path \<noteq> []" "hd path = SLASH" "0 \<notin> set path" "path_ok s ROOTINO (path_elems path)"
    and "resolve s ROOTINO True (path_elems path) = Some n" "dir_find s (disk_inode s n) (last (path_elems path)) = None"
    and "can_create s sb n m" "ty \<noteq> 0" "ty \<noteq> T_DIR"
  shows "\<exists>ip s'. create path ty 0 0 s = Inr (Some ip, s') \<and> linv s' \<and> held s' = {} \<and> fresh_inode s' m ty (inodes s' ip) \<and>
    dir_find s' (disk_inode s' n) (last (path_elems path)) = Some (of_nat m) \<and>
    (\<forall>nm. take DIRSIZ nm \<noteq> take DIRSIZ (last (path_elems path)) \<longrightarrow> dir_find s' (disk_inode s' n) nm = dir_find s (disk_inode s n) nm) \<and>
    (\<forall>jp. jp \<noteq> ip \<longrightarrow> i_ref (inodes s' jp) = i_ref (inodes s jp)) \<and>
    (\<forall>x. x \<noteq> 0 \<longrightarrow> x \<notin> bitmap sb \<longrightarrow> x \<noteq> IBLOCK n \<longrightarrow> x \<noteq> IBLOCK (of_nat m) \<longrightarrow> x \<notin> file_blks s' (disk_inode s' n) \<longrightarrow> view s' x = view s x)"
proof -
  from create_ok [OF assms] obtain ip s' where "create path ty 0 0 s = Inr (Some ip, s')" "created sb s n m ty (last (path_elems path)) ip s'" by blast
  moreover from this(2) have "linv s'" "held s' = {}" using tstep_linv tstep_held assms(2) by (auto simp: created_def)
  ultimately show ?thesis by (intro exI [of _ ip] exI [of _ s']) (simp add: created_def)
qed

text \<open>The directory with \<open>a\<close> as the root of an image with a bitmap: creating \<open>b\<close>.\<close>

definition sample_create_img :: "nat \<Rightarrow> block" where
  "sample_create_img = sample_dir_img(4 := zero_block(0 := 0xFF, 5 := 3))"

lemma sample_can_create:
  assumes "linv s" "held s = {}" "lsec s = []" "log_at s sample_sb" "outstanding (thelog s) = 1" "inodes s = (\<lambda>_. zero_inode)"
    "\<forall>a. unat a \<noteq> 70 \<longrightarrow> view s a = sample_create_img (unat a)"
  shows "can_create s sample_sb 1 2" "inode_ok s 1" "i_type (disk_inode s 1) = T_DIR" "dir_find s (disk_inode s 1) (cstr ''b'') = None"
proof -
  let ?D = "disk_inode s 1"
  have hm: "home_sector s a \<longleftrightarrow> 2 \<le> unat a \<and> unat a < 70" for a using log_at_geom(4) [OF assms(4)] sample_geom by simp
  have sok: "sector_ok s 2" "sector_ok s 40" by (rule home_usable [OF assms(1)], simp add: hm)+
  have v: "view s 2 = put_dinode (NDIRECT + 1) zero_block (dinode_offset 1) sample_dir" "view s 1 = put_sb zero_block sample_sb"
    "view s 40 = blit_list zero_block SIZEOF_DIRENT (bytes_of_dirent sample_entry)" "view s 4 = zero_block(0 := 0xFF, 5 := 3)"
    using assms(7) by (simp_all add: sample_create_img_def sample_dir_img_def sample_image_def sample_disk_def)
  note d = sample_dir_disk [OF assms(1,2) sok v(1,3)]
  show "inode_ok s 1" "i_type ?D = T_DIR" by (rule d)+
  have z: "0 \<notin> set (cstr ''a'')" by (simp add: cstr_def)
  have "\<not> is_entry (cstr ''b'') sample_entry"
    by (simp add: is_entry_def sample_entry_def c_string_strncpy [OF z]) (simp add: cstr_def layout)
  then show "dir_find s ?D (cstr ''b'') = None" using d(2,4,5) by (auto simp: dir_find_def lookup_from_def upt_rec is_entry_def)
  have sz: "unat (sb_size sample_sb) = 100" "sb_start sample_sb = 70" "unat (sb_ninodes sample_sb) = 64" using sample_geom by (simp_all add: sample_sb_def)
  have g: "fs_geom s sample_sb" using hm assms(4) v(2) sz by (auto simp: fs_geom_def sample_bmp)
  have us: "blk_used s sample_sb b \<longleftrightarrow> b < 8 \<or> b = 40 \<or> b = 41" if "b < 100" for b
    using that v(4) by (simp add: blk_used_def sample_bmp sample_append_bits layout)
  have nd: "i_addrs ?D NDIRECT = 0" using d(6) [of NDIRECT] by (simp add: layout)
  have ia: "iaddr s ?D bn = (if bn = 0 then 40 else 0)" for bn using d(6) [of bn] nd by (auto simp: iaddr_def layout)
  then have fb: "file_blks s ?D \<subseteq> {40}" using nd by (auto simp: file_blks_def split: if_splits)
  have "file_inj s ?D" using ia nd by (auto simp: file_inj_def split: if_splits)
  then have wf: "file_wf s sample_sb ?D" using fb us hm sz by (auto simp: file_wf_def sample_bitmap)
  have ib: "IBLOCK 1 = 2" "IBLOCK 2 = 2" "dinode_offset 1 + 24 + 4 * (NDIRECT + 1) \<le> dinode_offset 2"
    by (simp_all add: IBLOCK_def dinode_offset_def layout)
  have t2: "disk_type s 2 = 0" using get_put_dinode_later [OF ib(3)] by (simp add: disk_type_def ib(2) v(1) get_dinode_def)
  have "disk_type s 1 = T_DIR" by (simp add: disk_type_def ib(1) v(1) get_put_dinode_fields sample_dir_def)
  then have t1: "disk_type s (Suc 0) \<noteq> 0" by (simp add: layout)
  have hs: "home_sector s (IBLOCK (of_nat k))" if "1 \<le> k" "k \<le> 2" for k
  proof -
    from that have "k = 1 \<or> k = 2" by auto
    then show ?thesis using ib(1,2) hm [of 2] by auto
  qed
  have nf: "disk_type s k \<noteq> 0" if "1 \<le> k" "k < 2" for k using that t1 by (cases "k = Suc 0") auto
  have fi: "first_inode s sample_sb 2" unfolding first_inode_def using nf hs t2 sz(3) by simp
  have "{8, 9} \<subseteq> free_blocks s sample_sb" using us sz by (auto simp: free_blocks_def)
  then have "2 \<le> card (free_blocks s sample_sb)" using card_mono [of "free_blocks s sample_sb" "{8, 9}"] by (simp add: free_blocks_def)
  then have hf: "has_free s sample_sb ?D 1" using nd by (simp add: has_free_def)
  have "log_size (thelog s) = 30" using assms(4) sample_geom by (simp add: log_at_def)
  then have lf: "log_fits s sample_sb ?D 3" using assms(3) nd by (simp add: log_fits_def log_blks_def sample_bitmap)
  have ready: "alloc_ready s sample_sb" using assms(1,5) g us by (simp add: alloc_ready_def sample_bitmap)
  have ap: "inode_apart s sample_sb ?D" using hm us fb ib disk_inode_inum by (auto simp: inode_apart_def sample_bitmap)
  have "Suc 2 * SIZEOF_DIRENT \<le> NB * BSIZE" by (simp add: NB_def layout)
  then show "can_create s sample_sb 1 2" using ready wf ap fi lf hf us ib fb d(2) assms(6)
    by (auto simp: can_create_def sample_bitmap zero_inode_def)
qed

definition sample_path :: bytes where
  "sample_path = SLASH # cstr ''b''"

lemma sample_path: "path_elems sample_path = [cstr ''b'']" "sample_path \<noteq> []" "hd sample_path = SLASH" "0 \<notin> set sample_path"
  by (simp_all add: sample_path_def path_elems_def cstr_def layout SLASH_def)

lemma sample_create_ready:
  "\<exists>s. sample_open (process_start sample_create_img 100) = Inr ((), s) \<and> linv s \<and> held s = {} \<and> coherent {} s \<and>
     (\<forall>ip < NINODE. ref_room (i_ref (inodes s ip))) \<and> 2 \<le> card (free_entries s) \<and> path_ok s ROOTINO (path_elems sample_path) \<and>
     resolve s ROOTINO True (path_elems sample_path) = Some 1 \<and> dir_find s (disk_inode s 1) (last (path_elems sample_path)) = None \<and>
     can_create s sample_sb 1 2 \<and> ftable s = (\<lambda>_. zero_file) \<and> log_at s sample_sb \<and> head_n (disk s 70) = 0 \<and> sb_of_block (disk s 1) = sample_sb"
proof -
  have "sb_of_block (sample_create_img 1) = sample_sb" "head_n (sample_create_img 70) = 0"
    using sample_head by (simp_all add: sample_create_img_def sample_dir_img_def sample_image_def)
  from sample_ready [where d = sample_create_img, OF this] obtain s where s:
    "sample_open (process_start sample_create_img 100) = Inr ((), s)" "linv s" "held s = {}" "lsec s = []" "log_at s sample_sb"
    "outstanding (thelog s) = 1" "inodes s = (\<lambda>_. zero_inode)" "\<forall>a. unat a \<noteq> 70 \<longrightarrow> view s a = sample_create_img (unat a)"
    "ftable s = (\<lambda>_. zero_file)" "head_n (disk s 70) = 0" "sb_of_block (disk s 1) = sample_sb" by blast
  note c = sample_can_create [OF s(2-8)]
  have pa: "path_ok s ROOTINO (path_elems sample_path)" "resolve s ROOTINO True (path_elems sample_path) = Some 1"
    "dir_find s (disk_inode s 1) (last (path_elems sample_path)) = None"
    unfolding sample_path using c(2-4) by (simp_all add: ROOTINO_def)
  have co: "coherent {} s" "\<forall>ip < NINODE. ref_room (i_ref (inodes s ip))" using s(7) by (simp_all add: coherent_def zero_inode_def ref_room_def INT_MAX_def)
  have "free_entries s = {..<NINODE}" using s(7) by (auto simp: free_entries_def zero_inode_def)
  then have fe: "2 \<le> card (free_entries s)" by (simp add: layout)
  show ?thesis by (intro exI conjI) (rule s(1-3) co fe pa c(1) s(9,5,10,11))+
qed

theorem create_file_witness:
  "\<exists>s ip s'. sample_open (process_start sample_create_img 100) = Inr ((), s) \<and> create sample_path T_FILE 0 0 s = Inr (Some ip, s') \<and>
     fresh_inode s' 2 T_FILE (inodes s' ip) \<and> dir_find s' (disk_inode s' 1) (cstr ''b'') = Some 2 \<and>
     dir_find s' (disk_inode s' 1) (cstr ''a'') = dir_find s (disk_inode s 1) (cstr ''a'')"
proof -
  from sample_create_ready obtain s where s: "sample_open (process_start sample_create_img 100) = Inr ((), s)" "linv s" "held s = {}" "coherent {} s"
    "\<forall>ip < NINODE. ref_room (i_ref (inodes s ip))" "2 \<le> card (free_entries s)" "path_ok s ROOTINO (path_elems sample_path)"
    "resolve s ROOTINO True (path_elems sample_path) = Some 1" "dir_find s (disk_inode s 1) (last (path_elems sample_path)) = None"
    "can_create s sample_sb 1 2" by blast
  have ty: "T_FILE \<noteq> 0" "T_FILE \<noteq> T_DIR" by (simp_all add: layout)
  from create_file [OF s(2-6) sample_path(2-4) s(7-10) ty] obtain ip s' where
    "create sample_path T_FILE 0 0 s = Inr (Some ip, s')" "fresh_inode s' 2 T_FILE (inodes s' ip)"
    "dir_find s' (disk_inode s' 1) (cstr ''b'') = Some (of_nat 2)"
    "\<forall>nm. take DIRSIZ nm \<noteq> take DIRSIZ (cstr ''b'') \<longrightarrow> dir_find s' (disk_inode s' 1) nm = dir_find s (disk_inode s 1) nm"
    unfolding sample_path(1) last.simps by auto
  moreover have "take DIRSIZ (cstr ''a'') \<noteq> take DIRSIZ (cstr ''b'')" by (simp add: cstr_def layout)
  ultimately show ?thesis using s(1) by (intro exI [of _ s] exI [of _ ip] exI [of _ s']) auto
qed

end
