(* ===== verification/Create_Crash.thy ===== *)
theory Create_Crash
  imports Create_Props Write_Through
begin

text \<open>
  Creating a file through \<open>sys_open\<close>: one transaction from the lookup to the new name, so that a crash
  leaves the directory without the name, or with the name and the inode it leads to.
\<close>

section \<open>Directories on disk\<close>

text \<open>What a directory holds depends on the blocks before the log only.\<close>

lemma disk_inode_cong:
  assumes "\<forall>a. home_sector s a \<longrightarrow> view t a = view s a" "home_sector s (IBLOCK n)"
  shows "disk_inode t n = disk_inode s n"
  using assms by (simp add: disk_inode_def loaded_def)

lemma file_cong:
  assumes v: "\<forall>a \<in> file_blks s i. view t a = view s a"
  shows "iaddr t i = iaddr s i" "file_blks t i = file_blks s i"
    "p div BSIZE < NB \<Longrightarrow> iaddr s i (p div BSIZE) \<noteq> 0 \<Longrightarrow> fbyte t i p = fbyte s i p"
proof -
  have "view t (i_addrs i NDIRECT) = view s (i_addrs i NDIRECT)" if "i_addrs i NDIRECT \<noteq> 0"
    using v that by (simp add: file_blks_def)
  then show ia: "iaddr t i = iaddr s i" by (intro ext) (simp add: iaddr_def)
  then show "file_blks t i = file_blks s i" by (simp add: file_blks_def)
  assume "p div BSIZE < NB" "iaddr s i (p div BSIZE) \<noteq> 0"
  then have "iaddr s i (p div BSIZE) \<in> file_blks s i" by (auto simp: file_blks_def)
  then show "fbyte t i p = fbyte s i p" using v ia by (simp add: fbyte_def)
qed

lemma home_blks: "file_wf s sb i \<Longrightarrow> \<forall>a. home_sector s a \<longrightarrow> view t a = view s a \<Longrightarrow> \<forall>a \<in> file_blks s i. view t a = view s a"
  by (simp add: file_wf_def)

lemma entry_cong:
  assumes v: "\<forall>a \<in> file_blks s i. view t a = view s a" and ok: "dir_ok s i n" "k < n"
  shows "entry t i k = entry s i k"
proof -
  have fb: "fbyte t i p = fbyte s i p" if "p < unat (i_size i)" for p
    using ok(1) that file_cong(3) [OF v, of p] by (auto simp: dir_ok_def mapped_def usable_blk_def NB_def)
  have "Suc k * SIZEOF_DIRENT \<le> n * SIZEOF_DIRENT" using ok(2) by (intro mult_le_mono1) simp
  also have "\<dots> = unat (i_size i)" using ok(1) by (simp add: dir_ok_def)
  finally have "k * SIZEOF_DIRENT + SIZEOF_DIRENT \<le> unat (i_size i)" by (simp add: add.commute)
  then have "file_bytes t i (k * SIZEOF_DIRENT) SIZEOF_DIRENT = file_bytes s i (k * SIZEOF_DIRENT) SIZEOF_DIRENT"
    unfolding file_bytes_def using fb by (intro map_cong) auto
  then show ?thesis by (simp add: entry_def)
qed

lemma dir_find_cong:
  assumes v: "\<forall>a \<in> file_blks s i. view t a = view s a" and ok: "dir_ok s i (dir_entries i)"
  shows "dir_find t i = dir_find s i"
proof
  fix nm
  note en = entry_cong [OF v ok]
  have "lookup_from t i nm 0 (dir_entries i) = lookup_from s i nm 0 (dir_entries i)"
    unfolding lookup_from_def by (rule find_cong) (use en in auto)
  moreover have "k < dir_entries i" if "lookup_from s i nm 0 (dir_entries i) = Some k" for k
    using that find_SomeD by (fastforce simp: lookup_from_def)
  ultimately show "dir_find t i nm = dir_find s i nm"
    using en by (cases "lookup_from s i nm 0 (dir_entries i)") (simp_all add: dir_find_def)
qed

section \<open>The transaction\<close>

text \<open>
  The machine that is started on what a crash leaves shows one of the idle states whose disks the run
  is safe for.
\<close>

lemma crash_seen:
  assumes "log_ready s sb" "crash_safe sb s v (disk ` U)" "\<forall>u \<in> U. quiescent u" "events v = events s @ es @ fs" "crash_image es (disk s) d"
  shows "\<exists>t. \<exists>u \<in> U. mount (process_start d (nblk s)) = Inr ((), t) \<and> lsec t = [] \<and>
    (\<forall>a. home_sector s a \<longrightarrow> disk t (unat a) = disk u (unat a) \<and> view t a = view u a)"
proof -
  have at: "log_at s sb" "sb_geom sb (nblk s)" using assms(1) by (simp_all add: log_ready_def log_at_def)
  obtain u where u: "u \<in> U" "recovers sb d (disk u)" using crash_safe_prefix [OF assms(2,4,5)] by auto
  from recovers_mount [OF u(2) at(2)] obtain t where t: "mount (process_start d (nblk s)) = Inr ((), t)" "linv t" "held t = {}" "lsec t = []"
    "\<forall>a < sb_start sb. disk t a = disk u a" by blast
  have "disk t (unat a) = disk u (unat a) \<and> view t a = disk t (unat a)" if "home_sector s a" for a
    using that t(5) log_at_geom(4) [OF at(1)] idle_clean [OF linv_facts(1) [OF t(2)], of a] linv_facts(4) [OF t(2)] t(3,4) by simp
  moreover have "quiescent u" using u(1) assms(3) by blast
  ultimately show ?thesis using t(1,4) u(1) quiescent_disk [of u] by (intro exI [of _ t] bexI [of _ u]) simp_all
qed

lemma one_of_two:
  assumes "quiescent s" "quiescent v" "log_ready s sb" "crash_safe sb s v {disk s, disk v}" "events v = events s @ es @ fs" "crash_image es (disk s) d"
    and P: "\<And>t. \<forall>a. home_sector s a \<longrightarrow> view t a = view s a \<Longrightarrow> P t" and Q: "\<And>t. \<forall>a. home_sector s a \<longrightarrow> view t a = view v a \<Longrightarrow> Q t"
  shows "\<exists>t. mount (process_start d (nblk s)) = Inr ((), t) \<and> lsec t = [] \<and>
    ((\<forall>a. home_sector s a \<longrightarrow> disk t (unat a) = disk s (unat a)) \<and> P t \<or>
     (\<forall>a. home_sector s a \<longrightarrow> disk t (unat a) = disk v (unat a)) \<and> Q t)"
proof -
  have "crash_safe sb s v (disk ` {s, v})" "\<forall>u \<in> {s, v}. quiescent u" using assms(1,2,4) by simp_all
  from crash_seen [OF assms(3) this assms(5,6)] obtain t u where t: "u \<in> {s, v}" "mount (process_start d (nblk s)) = Inr ((), t)" "lsec t = []"
    "\<forall>a. home_sector s a \<longrightarrow> disk t (unat a) = disk u (unat a) \<and> view t a = view u a" by blast
  from t(1) have "u = s \<or> u = v" by simp
  then show ?thesis using t(2-4) P [of t] Q [of t] by (intro exI [of _ t]) auto
qed

lemma created_seen:
  assumes "created sb s n m ty name ip c" "home_sector s (IBLOCK n)" "home_sector s (IBLOCK (of_nat m))" "\<forall>a. home_sector s a \<longrightarrow> view t a = view c a"
  shows "dir_find t (disk_inode t n) name = Some (of_nat m)" "i_type (disk_inode t (of_nat m)) = ty"
proof -
  have c: "tstep s c" "fresh_inode c m ty (inodes c ip)" "dir_find c (disk_inode c n) name = Some (of_nat m)"
    "file_wf c sb (disk_inode c n)" "dir_ok c (disk_inode c n) (dir_entries (disk_inode c n))" using assms(1) by (auto simp: created_def)
  note h = tstep_geom(1) [OF c(1)]
  have "i_type (disk_inode c (of_nat m)) = ty"
    using c(2) by (auto simp: fresh_inode_def ikey_def same_file_def disk_inode_def loaded_def load_dinode_def)
  then show "dir_find t (disk_inode t n) name = Some (of_nat m)" "i_type (disk_inode t (of_nat m)) = ty"
    using disk_inode_cong [of c t] dir_find_cong [OF home_blks [OF c(4)] c(5), of t] assms(2-4) h c(3) by simp_all
qed

text \<open>The slot \<open>filealloc\<close> takes.\<close>

lemma filealloc_ok:
  assumes "\<exists>f < NFILE. f_ref (ftable s f) = 0"
  shows "\<exists>f < NFILE. f_ref (ftable s f) = 0 \<and> filealloc s = Inr (Some f, s\<lparr>ftable := (ftable s)(f := (ftable s f)\<lparr>f_ref := 1\<rparr>)\<rparr>)"
proof -
  from assms have "List.find (\<lambda>f. f_ref (ftable s f) = 0) [0..<NFILE] \<noteq> None" by (auto simp: find_None_iff)
  then obtain f where f: "List.find (\<lambda>f. f_ref (ftable s f) = 0) [0..<NFILE] = Some f" by blast
  moreover from this have "f < NFILE" "f_ref (ftable s f) = 0" using find_SomeD by fastforce+
  ultimately show ?thesis by (auto simp: filealloc_def upd_file_def)
qed

lemma open_new_ok:
  assumes t: "tstep s t" "fresh_inode t m ty (inodes t ip)" and s: "held s = {}" "outstanding (thelog s) = 1" "committing (thelog s) = 0"
    and f: "\<exists>f < NFILE. f_ref (ftable s f) = 0"
  defines "i \<equiv> (inodes t ip)\<lparr>i_flags := clear_flag I_BUSY (i_flags (inodes t ip))\<rparr>"
  shows "\<exists>f x u s'. open_file ip omode t = Inr (Some f, s'\<lparr>ftable := (ftable s)(f := x)\<rparr>) \<and> f < NFILE \<and> f_ref (ftable s f) = 0 \<and>
    f_ref x = 1 \<and> f_type x = FD_INODE \<and> f_ip x = Some ip \<and> quiescent s' \<and> settled s s' \<and> end_op u = Inr ((), s') \<and> linv u \<and> held u = {} \<and>
    outstanding (thelog u) = 1 \<and> committing (thelog u) = 0 \<and> disk u = disk s \<and> events u = events s \<and> log_at u = log_at s \<and>
    inodes s' = (inodes t)(ip := i) \<and> home_sector s' = home_sector s \<and> (\<forall>a. home_sector s a \<longrightarrow> view s' a = view t a)"
proof -
  note g = tstep_geom [OF t(1)]
  have e: "disk t = disk s" "events t = events s" "committing (thelog t) = 0" using t(1) s(3) by (simp_all add: tstep_def tenv_eq)
  from filealloc_ok [of t] f g(7) obtain f where f: "f < NFILE" "f_ref (ftable s f) = 0"
    "filealloc t = Inr (Some f, t\<lparr>ftable := (ftable t)(f := (ftable t f)\<lparr>f_ref := 1\<rparr>)\<rparr>)" by auto
  let ?u = "t\<lparr>ftable := (ftable t)(f := (ftable t f)\<lparr>f_ref := 1\<rparr>), inodes := (inodes t)(ip := i)\<rparr>"
  have un: "iunlock (Some ip) (t\<lparr>ftable := (ftable t)(f := (ftable t f)\<lparr>f_ref := 1\<rparr>)\<rparr>) = Inr ((), ?u)"
    using t(2) by (simp add: iunlock_def ino_at_def upd_ino_def fresh_inode_def i_def)
  have u: "linv ?u" "held ?u = {}" "outstanding (thelog ?u) = 1" "committing (thelog ?u) = 0"
    using tstep_linv [OF t(1)] tstep_held [OF t(1)] s(1,2) g(5) e(3) by simp_all
  from end_op_last [OF u] obtain s' where s': "end_op ?u = Inr ((), s')" "linv s'" "held s' = {}" "lsec s' = []"
    "outstanding (thelog s') = 0" "committing (thelog s') = 0" "inodes s' = (inodes t)(ip := i)" "ftable s' = ftable ?u"
    "home_sector s' = home_sector ?u" "settled ?u s'" "\<forall>a. home_sector ?u a \<longrightarrow> view s' a = view ?u a" by auto
  define x where "x = (ftable t f)\<lparr>f_ref := 1, f_type := FD_INODE, f_ip := Some ip, f_off := 0,
    f_readable := \<not> flag O_WRONLY omode, f_writable := flag O_WRONLY omode \<or> flag O_RDWR omode\<rparr>"
  have run: "open_file ip omode t = Inr (Some f, s'\<lparr>ftable := (ftable s)(f := x)\<rparr>)"
    using f(3) un s'(1,8) g(7) by (simp add: open_file_def upd_file_def x_def)
  have q: "quiescent s'" using s'(2-6) by (simp add: quiescent_def)
  have st: "settled s s'" using s'(10) e by (simp add: settled_def)
  have hs: "home_sector s' = home_sector s" "\<forall>a. home_sector s a \<longrightarrow> view s' a = view t a" using s'(9,11) g(1) by simp_all
  have x: "f_ref x = 1" "f_type x = FD_INODE" "f_ip x = Some ip" by (simp_all add: x_def)
  have lu: "disk ?u = disk s" "events ?u = events s" "log_at ?u = log_at s" using e g(3) by (simp_all add: log_at_def fun_eq_iff)
  show ?thesis by (intro exI conjI) (rule run f(1,2) x q st s'(1) u lu s'(7) hs)+
qed

text \<open>
  C7: Creating a file is atomic.  On an idle file system, \<open>sys_open\<close> with \<open>O_CREATE\<close> of a name that the parent
  directory does not have returns a handle for a new empty file, with nothing left in the log, every write flushed and the
  name leading to the file's inode.  Stop it at any point of its disk traffic, losing any of the
  writes since the last flush, and start the process again on what is left: it mounts, and
  the blocks before the log are either all as before the call, and the directory does not have the name, or all
  as after it, and the name leads to an inode of type \<open>T_FILE\<close>.
  (No entry of the inode cache is within two references of the largest \<open>int\<close>.)
\<close>

theorem sys_create_atomic:
  assumes "quiescent s" "log_ready s sb" "begin_op s = Inr ((), b)" "\<exists>f < NFILE. f_ref (ftable s f) = 0" "flag O_CREATE omode"
    and "coherent {} b" "\<forall>ip < NINODE. ref_room (i_ref (inodes b ip))" "2 \<le> card (free_entries b)"
    and "path \<noteq> []" "hd path = SLASH" "0 \<notin> set path" "path_ok b ROOTINO (path_elems path)"
    and "resolve b ROOTINO True (path_elems path) = Some n" "dir_find b (disk_inode b n) (last (path_elems path)) = None"
    and "can_create b sb n m"
  shows "\<exists>f ip s'. sys_open path omode s = Inr (Some f, s') \<and> quiescent s' \<and> settled s s' \<and> f < NFILE \<and> f_ref (ftable s f) = 0 \<and>
    f_type (ftable s' f) = FD_INODE \<and> f_ip (ftable s' f) = Some ip \<and> i_inum (inodes s' ip) = of_nat m \<and> i_size (inodes s' ip) = 0 \<and>
    dir_find s' (disk_inode s' n) (last (path_elems path)) = Some (of_nat m) \<and>
    (\<forall>es fs d. events s' = events s @ es @ fs \<longrightarrow> crash_image es (disk s) d \<longrightarrow>
       (\<exists>t. mount (process_start d (nblk s)) = Inr ((), t) \<and> lsec t = [] \<and>
          ((\<forall>a. home_sector s a \<longrightarrow> disk t (unat a) = disk s (unat a)) \<and> dir_find t (disk_inode t n) (last (path_elems path)) = None \<or>
           (\<forall>a. home_sector s a \<longrightarrow> disk t (unat a) = disk s' (unat a)) \<and>
           dir_find t (disk_inode t n) (last (path_elems path)) = Some (of_nat m) \<and> i_type (disk_inode t (of_nat m)) = T_FILE)))"
proof -
  let ?name = "last (path_elems path)"
  have b: "b = s\<lparr>thelog := (thelog s)\<lparr>outstanding := 1\<rparr>\<rparr>" using begin_quiescent [OF assms(1)] assms(3) by simp
  have q: "linv b" "held b = {}" "outstanding (thelog b) = 1" "committing (thelog b) = 0" "ftable b = ftable s" "disk b = disk s"
    "events b = events s" "log_at b = log_at s" "home_sector b = home_sector s" "view b = view s" "nblk b = nblk s"
    using assms(1) by (simp_all add: b quiescent_def log_at_def fun_eq_iff)
  have ty: "T_FILE \<noteq> 0" "T_FILE \<noteq> T_DIR" by (simp_all add: layout)
  from create_ok [OF q(1,2) assms(6-15) ty] obtain ip c where c: "create path T_FILE 0 0 b = Inr (Some ip, c)"
    "created sb b n m T_FILE ?name ip c" by blast
  from c(2) have cr: "tstep b c" "fresh_inode c m T_FILE (inodes c ip)" by (auto simp: created_def)
  from open_new_ok [OF cr(1,2) q(2-4)] assms(4) q(5) obtain f x u v where o: "open_file ip omode c = Inr (Some f, v\<lparr>ftable := (ftable s)(f := x)\<rparr>)"
    "f < NFILE" "f_ref (ftable s f) = 0" "f_type x = FD_INODE" "f_ip x = Some ip" "quiescent v" "settled b v" "end_op u = Inr ((), v)"
    "linv u" "held u = {}" "outstanding (thelog u) = 1" "committing (thelog u) = 0" "disk u = disk s" "events u = events s" "log_at u = log_at s"
    "inodes v = (inodes c)(ip := (inodes c ip)\<lparr>i_flags := clear_flag I_BUSY (i_flags (inodes c ip))\<rparr>)"
    "home_sector v = home_sector s" "\<forall>a. home_sector s a \<longrightarrow> view v a = view c a" unfolding q(5-9) by metis
  let ?s = "v\<lparr>ftable := (ftable s)(f := x)\<rparr>"
  have run: "sys_open path omode s = Inr (Some f, ?s)" using assms(3,5) c(1) o(1) by (simp add: sys_open_def)
  have ib: "home_sector s (IBLOCK n)" "home_sector s (IBLOCK (of_nat m))"
    using assms(15) q(9) disk_inode_inum(1) by (auto simp: can_create_def inode_apart_def first_inode_def)
  have old: "file_wf b sb (disk_inode b n)" "dir_ok b (disk_inode b n) (dir_entries (disk_inode b n))"
    using assms(15) resolve_parent_ok [OF assms(12,13)] by (auto simp: can_create_def inode_ok_def)
  have qv: "quiescent ?s" "settled s ?s" using o(6,7) q(6,7) by (simp_all add: quiescent_def settled_def)
  have lr: "log_ready u sb" using assms(2) o(13,15) by (simp add: log_ready_def)
  have cs: "crash_safe sb s ?s {disk s, disk ?s}" using end_op_crash(2) [OF o(9-12) lr o(8)] o(13,14) by (simp add: crash_safe_def)
  have vw: "\<forall>a. home_sector s a \<longrightarrow> view ?s a = view c a" using o(18) by simp
  have new: "dir_find t (disk_inode t n) ?name = Some (of_nat m) \<and> i_type (disk_inode t (of_nat m)) = T_FILE"
    if "\<forall>a. home_sector s a \<longrightarrow> view t a = view ?s a" for t
    using created_seen [OF c(2), of t] that vw ib q(9) by simp
  have none: "dir_find t (disk_inode t n) ?name = None" if "\<forall>a. home_sector s a \<longrightarrow> view t a = view s a" for t
    using disk_inode_cong [of b t] dir_find_cong [OF home_blks [OF old(1)] old(2), of t] that q(9,10) ib assms(14) by simp
  note crash = one_of_two [OF assms(1) qv(1) assms(2) cs, where P = "\<lambda>t. dir_find t (disk_inode t n) ?name = None"
    and Q = "\<lambda>t. dir_find t (disk_inode t n) ?name = Some (of_nat m) \<and> i_type (disk_inode t (of_nat m)) = T_FILE", OF _ _ none new]
  have fin: "f_type (ftable ?s f) = FD_INODE" "f_ip (ftable ?s f) = Some ip" "i_inum (inodes ?s ip) = of_nat m" "i_size (inodes ?s ip) = 0"
    using o(4,5,16) cr(2) by (simp_all add: fresh_inode_def ikey_def)
  have "dir_find ?s (disk_inode ?s n) ?name = Some (of_nat m)" using new [of ?s] by blast
  then show ?thesis using crash by (intro exI conjI) (rule run qv o(2,3) fin | assumption | blast)+
qed

lemma sample_mount:
  assumes "sample_open (process_start d 100) = Inr ((), b)" "sb_of_block (d 1) = sample_sb" "head_n (d 70) = 0" "head_n (disk b 70) = 0"
    "sb_of_block (disk b 1) = sample_sb"
  shows "\<exists>s. mount (process_start d 100) = Inr ((), s) \<and> begin_op s = Inr ((), b) \<and> quiescent s \<and> log_ready s sample_sb \<and>
    ftable s = (\<lambda>_. zero_file) \<and> nblk s = 100 \<and> disk s = disk b"
proof -
  have hd: "head_ok sample_sb (d (sb_start sample_sb))" using empty_head_ok [OF _ sample_geom(3)] assms(3) by (simp add: sample_geom)
  from mount_ok [where d = d, OF assms(2) sample_geom(3) hd] obtain s where s: "mount (process_start d 100) = Inr ((), s)" "linv s" "held s = {}"
    "log_at s sample_sb" "lsec s = []" "outstanding (thelog s) = 0" "committing (thelog s) = 0" "nblk s = 100" "ftable s = (\<lambda>_. zero_file)" by blast
  then have q: "quiescent s" by (simp add: quiescent_def)
  have "begin_op s = Inr ((), b)" using assms(1) s(1) by (simp add: sample_open_def)
  moreover from this have "disk s = disk b" using begin_quiescent [OF q] by auto
  ultimately show ?thesis using s q assms(4,5) by (intro exI [of _ s]) (simp add: log_ready_def sample_geom)
qed

theorem sys_create_atomic_witness:
  "\<exists>s f s' es d t. mount (process_start sample_create_img 100) = Inr ((), s) \<and> sys_open sample_path O_CREATE s = Inr (Some f, s') \<and>
     events s' = events s @ es \<and> crash_image es (disk s) d \<and> mount (process_start d 100) = Inr ((), t) \<and>
     dir_find t (disk_inode t 1) (cstr ''b'') \<in> {None, Some 2}"
proof -
  from sample_create_ready obtain b where b: "sample_open (process_start sample_create_img 100) = Inr ((), b)" "coherent {} b"
    "\<forall>ip < NINODE. ref_room (i_ref (inodes b ip))" "2 \<le> card (free_entries b)" "path_ok b ROOTINO (path_elems sample_path)"
    "resolve b ROOTINO True (path_elems sample_path) = Some 1" "dir_find b (disk_inode b 1) (last (path_elems sample_path)) = None"
    "can_create b sample_sb 1 2" "head_n (disk b 70) = 0" "sb_of_block (disk b 1) = sample_sb" by blast
  have "sb_of_block (sample_create_img 1) = sample_sb" "head_n (sample_create_img 70) = 0"
    using sample_head by (simp_all add: sample_create_img_def sample_dir_img_def sample_image_def)
  from sample_mount [OF b(1) this b(9,10)] obtain s where s: "mount (process_start sample_create_img 100) = Inr ((), s)" "begin_op s = Inr ((), b)"
    "quiescent s" "log_ready s sample_sb" "ftable s = (\<lambda>_. zero_file)" "nblk s = 100" by blast
  have f: "\<exists>f < NFILE. f_ref (ftable s f) = 0" "flag O_CREATE O_CREATE" using s(5) by (auto simp: zero_file_def flag_def layout intro!: exI [of _ 0])
  have la: "last (path_elems sample_path) = cstr ''b''" by (simp add: sample_path)
  from sys_create_atomic [OF s(3,4,2) f b(2-4) sample_path(2-4) b(5-8), unfolded la] obtain f s' where
    s': "sys_open sample_path O_CREATE s = Inr (Some f, s')" "settled s s'" and
    cr: "\<And>es fs d. events s' = events s @ es @ fs \<Longrightarrow> crash_image es (disk s) d \<Longrightarrow>
       \<exists>t. mount (process_start d (nblk s)) = Inr ((), t) \<and> lsec t = [] \<and>
         ((\<forall>a. home_sector s a \<longrightarrow> disk t (unat a) = disk s (unat a)) \<and> dir_find t (disk_inode t 1) (cstr ''b'') = None \<or>
          (\<forall>a. home_sector s a \<longrightarrow> disk t (unat a) = disk s' (unat a)) \<and>
          dir_find t (disk_inode t 1) (cstr ''b'') = Some (of_nat 2) \<and> i_type (disk_inode t (of_nat 2)) = T_FILE)"
    by (elim exE conjE) (rule that, assumption+, blast)
  from settled_crash [OF s'(2)] obtain es where es: "events s' = events s @ es @ []" "crash_image es (disk s) (disk s')" by auto
  from cr [OF es] s(6) obtain t where "mount (process_start (disk s') 100) = Inr ((), t)" "dir_find t (disk_inode t 1) (cstr ''b'') \<in> {None, Some 2}" by auto
  then show ?thesis using s(1) s'(1) es
    by (intro exI [of _ s] exI [of _ f] exI [of _ s'] exI [of _ es] exI [of _ "disk s'"] exI [of _ t] conjI) simp_all
qed

end
