(* ===== verification/Write_Content.thy ===== *)
theory Write_Content
  imports Create_Crash
begin

text \<open>
  Writing to a file through \<open>sys_write\<close>.  A file is the sequence of its bytes; a write
  replaces and adds bytes, piece by piece, after zeros for the gap when it starts behind the end, and a crash leaves a prefix of what was to be written.
\<close>

section \<open>Files as byte sequences\<close>

definition full :: "kern \<Rightarrow> inode \<Rightarrow> bool" where
  "full s i \<longleftrightarrow> (\<forall>p < unat (i_size i). p div BSIZE < NB \<and> iaddr s i (p div BSIZE) \<noteq> 0)"

definition content :: "kern \<Rightarrow> inode \<Rightarrow> bytes" where
  "content s i = file_bytes s i 0 (unat (i_size i))"

lemma length_content [simp]: "length (content s i) = unat (i_size i)"
  by (simp add: content_def file_bytes_def)

lemma content_nth: "p < unat (i_size i) \<Longrightarrow> content s i ! p = fbyte s i p"
  by (simp add: content_def file_bytes_def)

lemma content_cong:
  assumes "\<forall>a. home_sector s a \<longrightarrow> view t a = view s a" "file_wf s sb i" "full s i"
  shows "content t i = content s i" "full t i"
  using file_cong [OF home_blks [OF assms(2,1)]] assms(3) by (auto simp: full_def content_nth intro: nth_equalityI)

lemma same_file_content: "same_file i j \<Longrightarrow> content s j = content s i \<and> full s j = full s i"
  using same_file_iaddr [of i j s] by (auto simp: same_file_def full_def content_def file_bytes_def fbyte_def)

text \<open>What a write of \<open>xs\<close> at \<open>off\<close> makes of a sequence of bytes.\<close>

definition overlay :: "nat \<Rightarrow> bytes \<Rightarrow> bytes \<Rightarrow> bytes" where
  "overlay off xs cs = take off cs @ xs @ drop (off + length xs) cs"

lemma overlay_simps [simp]: "overlay off [] cs = cs" "overlay (length cs) xs cs = cs @ xs"
  by (simp_all add: overlay_def)

lemma length_overlay: "off \<le> length cs \<Longrightarrow> length (overlay off xs cs) = max (length cs) (off + length xs)"
  by (auto simp: overlay_def)

lemma overlay_nth:
  "off \<le> length cs \<Longrightarrow> overlay off xs cs ! p = (if off \<le> p \<and> p < off + length xs then xs ! (p - off) else cs ! p)" if "p < max (length cs) (off + length xs)"
  using that by (auto simp: overlay_def nth_append)

lemma overlay_overlay: "off \<le> length cs \<Longrightarrow> overlay (off + length xs) ys (overlay off xs cs) = overlay off (xs @ ys) cs"
  by (simp add: overlay_def ac_simps)

text \<open>
  From \<open>s\<close> to \<open>t\<close> the file \<open>i\<close> has become \<open>j\<close>, with \<open>xs\<close> at \<open>off\<close>, and is stored on disk; blocks stay in use,
  new ones were free, and what other files have is as before.
\<close>

definition put_at :: "superblock \<Rightarrow> kern \<Rightarrow> inode \<Rightarrow> nat \<Rightarrow> bytes \<Rightarrow> kern \<Rightarrow> inode \<Rightarrow> bool" where
  "put_at sb s i off xs t j \<longleftrightarrow> file_wf t sb j \<and> full t j \<and> content t j = overlay off xs (content s i) \<and> same_file j (loaded t j) \<and> i_inum j = i_inum i \<and>
     (\<forall>b < unat (sb_size sb). blk_used s sb b \<longrightarrow> blk_used t sb b) \<and>
     (\<forall>a \<in> file_blks t j. a \<in> file_blks s i \<or> \<not> blk_used s sb (unat a)) \<and>
     (\<forall>x. home_sector s x \<longrightarrow> blk_used s sb (unat x) \<longrightarrow> x \<notin> bitmap sb \<longrightarrow> x \<noteq> IBLOCK (i_inum i) \<longrightarrow> x \<notin> file_blks s i \<longrightarrow> view t x = view s x)"

lemma put_at_refl: "file_wf s sb i \<Longrightarrow> full s i \<Longrightarrow> same_file i (loaded s i) \<Longrightarrow> put_at sb s i off [] s i"
  by (simp add: put_at_def)

lemma put_at_size: "put_at sb s i off xs t j \<Longrightarrow> off \<le> unat (i_size i) \<Longrightarrow> unat (i_size j) = max (unat (i_size i)) (off + length xs)"
  using length_overlay [of off "content s i" xs] length_content [of t j] by (simp add: put_at_def)

lemma put_at_trans:
  assumes "put_at sb s i off xs t j" "put_at sb t j (off + length xs) ys u k" "fs_geom s sb" "home_sector t = home_sector s" "off \<le> unat (i_size i)"
  shows "put_at sb s i off (xs @ ys) u k"
proof -
  note a = assms(1) [unfolded put_at_def] and b = assms(2) [unfolded put_at_def]
  have sz: "unat a < unat (sb_size sb)" if "home_sector s a" for a using geom_start [OF assms(3)] that by simp
  have fb: "x \<in> file_blks s i \<or> \<not> blk_used s sb (unat x)" if x: "x \<in> file_blks u k" for x
  proof -
    have "unat x < unat (sb_size sb)" using b x by (auto simp: file_wf_def)
    then have m: "blk_used s sb (unat x) \<longrightarrow> blk_used t sb (unat x)" using a by blast
    from b x have "x \<in> file_blks t j \<or> \<not> blk_used t sb (unat x)" by blast
    then show ?thesis using m a by blast
  qed
  have "view u x = view s x" if x: "home_sector s x" "blk_used s sb (unat x)" "x \<notin> bitmap sb" "x \<noteq> IBLOCK (i_inum i)" "x \<notin> file_blks s i" for x
  proof -
    have t: "blk_used t sb (unat x)" "x \<notin> file_blks t j" "view t x = view s x" using a x sz [OF x(1)] by blast+
    have "view u x = view t x" using b t(1,2) x(1,3,4) assms(4) a by simp
    with t(3) show ?thesis by simp
  qed
  with a b fb overlay_overlay [of off "content s i" xs ys] assms(5) show ?thesis unfolding put_at_def by simp
qed

lemma put_at_cong:
  assumes "put_at sb s i off xs t j" "\<forall>a. home_sector t a \<longrightarrow> view u a = view t a" "home_sector u = home_sector t" "home_sector s = home_sector t"
    "fs_geom t sb" "home_sector t (IBLOCK (i_inum j))"
  shows "put_at sb s i off xs u j"
proof -
  note a = assms(1) [unfolded put_at_def]
  have wf: "file_wf t sb j" "full t j" using a by simp_all
  note c = file_cong [OF home_blks [OF wf(1) assms(2)]] content_cong [OF assms(2) wf]
  have us: "blk_used u sb b = blk_used t sb b" if "b < unat (sb_size sb)" for b
    using assms(2,5) that by (simp add: blk_used_def fs_geom_def)
  have "file_wf u sb j" using wf(1) us assms(3) unfolding file_wf_def file_inj_def c(1,2) by auto
  moreover have "loaded u j = loaded t j" using assms(2,6) by (simp add: loaded_def)
  ultimately show ?thesis using a c(2,4,5) us assms(2,4) unfolding put_at_def by auto
qed

section \<open>One piece\<close>

text \<open>\<open>zeroi\<close> behind a file is a write of zeros.\<close>

lemma zeroi_loop_writei_loop: "zeroi_loop ip off k = writei_loop ip off (replicate k 0)"
proof (induction ip off k rule: zeroi_loop.induct)
  case (1 ip off k)
  have "chunk off k \<le> k" by (simp add: chunk_def)
  then have "blit d q (chunk off k) zero_block = blit_list d q (take (chunk off k) (replicate k 0))" for d q
    by (auto simp: blit_def blit_list_def zero_block_def fun_eq_iff)
  then show ?case using 1 by (subst zeroi_loop.simps, subst writei_loop.simps) simp
qed

lemma zeroi_writei:
  assumes "alloc_ready s sb" "held s = {}" "i_dev (inodes s ip) = ROOTDEV" "i_type (inodes s ip) \<noteq> T_DEV" "file_wf s sb (inodes s ip)"
    and "unat n = k" "unat off \<le> unat (i_size (inodes s ip))"
    and "unat (i_size (inodes s ip)) < unat off + k" "unat off + k \<le> NB * BSIZE"
    and "log_fits s sb (inodes s ip) (nchunks (unat off) k + 1)" "has_free s sb (inodes s ip) (nchunks (unat off) k)"
    and "writei ip (replicate k 0) off n s = Inr (r, t)"
  shows "zeroi ip off n s = Inr ((), t)"
proof -
  let ?z = "replicate k (0 :: u8)"
  have z: "length ?z = k" by simp
  have big: "NB * BSIZE < 2 ^ 31" by (simp add: NB_def layout)
  have lt: "unat off + unat n < 2 ^ 32" using assms(6,9) big by simp
  note w = word_add_bounds [OF lt]
  have small: "\<not> MAXFILE * BSIZE < unat (off + n)" using lt w(2) by (simp add: layout)
  have off: "\<not> i_size (inodes s ip) < off" using assms(7) by (simp add: word_less_nat_alt)
  have "0 < unat n" using assms(6-8) by linarith
  then have n: "of_nat k = n" "n > 0" using assms(6) by (metis of_nat_unat_eq, simp add: word_less_nat_alt)
  from writei_loop_extends [of s sb ip off ?z, unfolded z, OF assms(1-3,5,9-11)] n(1) obtain u j where u: "writei_loop ip off ?z s = Inr (off + n, u)"
    "inodes u = (inodes s)(ip := j)" "extended sb s (inodes s ip) (unat off) ?z u j" by auto
  have gt: "off + n > i_size (inodes u ip)" using assms(6,8) w(2) extended_fields(4) [OF u(3)] u(2) by (simp add: word_less_nat_alt)
  show ?thesis using assms(4,6,12) off w(1) small u(1) n gt
    by (auto simp: writei_def zeroi_def zeroi_loop_writei_loop ino_at_def upd_ino_def unix_time_def bnd_def split: sum.splits)
qed

lemma writei_behind:
  assumes ready: "alloc_ready s sb" "held s = {}" "i_dev (inodes s ip) = ROOTDEV" "i_type (inodes s ip) \<noteq> T_DEV"
    and fw: "file_wf s sb (inodes s ip)" "full s (inodes s ip)" "inode_apart s sb (inodes s ip)"
    and p: "unat off \<le> unat (i_size (inodes s ip))" "unat off + length p \<le> NB * BSIZE" "unat (i_size (inodes s ip)) < unat off + length p"
    and fit: "log_fits s sb (inodes s ip) (nchunks (unat off) (length p) + 1)" "has_free s sb (inodes s ip) (nchunks (unat off) (length p))"
  shows "\<exists>t k. writei ip p off (of_nat (length p)) s = Inr (int (length p), t) \<and> tstep s t \<and> inodes t = (inodes s)(ip := k) \<and>
    put_at sb s (inodes s ip) (unat off) p t k \<and> fs_geom t sb \<and>
    k = (inodes s ip)\<lparr>i_addrs := i_addrs k, i_size := i_size k, i_mtime := i_mtime k\<rparr> \<and>
    (\<forall>m. has_free s sb (inodes s ip) (nchunks (unat off) (length p) + m) \<longrightarrow> has_free t sb k m) \<and>
    (set p \<subseteq> {0} \<longrightarrow> zeroi ip off (of_nat (length p)) s = Inr ((), t))"
proof -
  let ?i = "inodes s ip" and ?B = "IBLOCK (i_inum (inodes s ip))" and ?n = "of_nat (length p) :: u32"
  have ap: "home_sector s ?B" "?B \<notin> bitmap sb" "blk_used s sb (unat ?B)" "?B \<notin> file_blks s ?i" using fw(3) by (simp_all add: inode_apart_def)
  have big: "NB * BSIZE < 2 ^ 31" by (simp add: NB_def layout)
  have n: "unat ?n = length p" using p(2) big by (intro unat_of_nat_small) simp
  have sz: "unat (off + ?n) = unat off + length p" using p(2) big n by (simp add: unat_word_ariths)
  from writei_extends_ok [OF ready fw(1) ap(1) n p(1,3,2) fit] obtain v j t where t: "writei ip p off ?n s = Inr (sint ?n, t)"
    "extended sb s ?i (unat off) p v j" "inodes t = (inodes s)(ip := j\<lparr>i_size := off + ?n, i_mtime := clock s\<rparr>)" "tstep s t"
    "view t = (view v)(?B := put_dinode (NDIRECT + 1) (view v ?B) (dinode_offset (i_inum ?i)) (dinode_of (j\<lparr>i_size := off + ?n, i_mtime := clock s\<rparr>)))"
    "\<forall>m. has_free s sb ?i (nchunks (unat off) (length p) + m) \<longrightarrow> has_free v sb j m" by blast
  define k where "k = j\<lparr>i_size := off + ?n, i_mtime := clock s\<rparr>"
  note e = extendedD [OF t(2)]
  have ij: "i_inum k = i_inum ?i" "i_addrs k = i_addrs j" "i_size k = off + ?n" using extended_fields(2) [OF t(2)] by (simp_all add: k_def)
  have nb: "?B \<notin> file_blks v j" using e(7) ap(3,4) by blast
  note st = extended_stored [OF t(2,4,5) ap(2) nb ij(2)]
  have old: "p div BSIZE < NB \<and> iaddr v j (p div BSIZE) \<noteq> 0 \<and> iaddr s ?i (p div BSIZE) \<noteq> 0" if "p < unat (i_size ?i)" for p
    using fw(2) that e(4) by (simp add: full_def)
  have all: "q div BSIZE < NB \<and> iaddr v j (q div BSIZE) \<noteq> 0" if "q < unat off + length p" for q
    using old [of q] e(9) [of q] that p(1) by (cases "q < unat off") auto
  have fl: "full t k" using all by (simp add: full_def st(3) ij(3) sz)
  have "content t k ! q = overlay (unat off) p (content s ?i) ! q" if "q < unat off + length p" for q
    using all [OF that] st(5) [of q] e(10) [of q] old [of q] that p(1,3) by (simp add: content_nth ij(3) sz overlay_nth)
  then have ct: "content t k = overlay (unat off) p (content s ?i)" using p(1,3) by (intro nth_equalityI) (simp_all add: ij(3) sz length_overlay)
  have sf: "same_file k (loaded t k)" by (rule loaded_after_put [where d = "view v ?B"]) (use t(5) ij(1) in \<open>simp add: k_def\<close>)
  have fr: "view t x = view s x" if "blk_used s sb (unat x)" "x \<notin> bitmap sb" "x \<noteq> ?B" "x \<notin> file_blks s ?i" for x
    using e(7,8) [of x] that t(5) by auto
  have gr: "put_at sb s ?i (unat off) p t k" unfolding put_at_def st(2) using st(1,4) fl ct sf ij(1) e(6,7) fr by auto
  have g: "fs_geom s sb" using ready(1) by (simp add: alloc_ready_def)
  have "fs_geom v sb" using extended_ready [OF ready(1) t(2)] by (simp add: alloc_ready_def)
  moreover have "?B \<noteq> 1" using ap(1) not_one_home by auto
  ultimately have gt: "fs_geom t sb" using tstep_geom [OF t(4)] tstep_geom [OF e(1)] t(5) by (simp add: fs_geom_def)
  have "free_blocks t sb = free_blocks v sb" using st(4) geom_start(2) [OF g] by (auto simp: free_blocks_def)
  then have hf: "\<forall>m. has_free s sb ?i (nchunks (unat off) (length p) + m) \<longrightarrow> has_free t sb k m" using t(6) ij(2) by (simp add: has_free_def)
  have kk: "k = ?i\<lparr>i_addrs := i_addrs k, i_size := i_size k, i_mtime := i_mtime k\<rparr>" unfolding k_def using e(3) by (cases ?i, cases j) simp
  have "sint ?n = int (length p)" using p(2) big by (intro sint_of_small) simp
  moreover have "zeroi ip off ?n s = Inr ((), t)" if "set p \<subseteq> {0}"
  proof -
    have "p = replicate (length p) 0" using that replicate_eqI [of p "length p" 0] by auto
    with t(1) have "writei ip (replicate (length p) 0) off ?n s = Inr (sint ?n, t)" by simp
    then show ?thesis by (rule zeroi_writei [OF ready fw(1) n p(1,3,2) fit])
  qed
  ultimately show ?thesis using t(1,3,4) gr gt kk hf unfolding k_def [symmetric] by (intro exI [of _ t] exI [of _ k]) simp
qed

lemma not_zero_home: "home_sector s a \<Longrightarrow> a \<noteq> 0"
  by (auto simp: home_sector_def)

lemma writei_inside:
  assumes ready: "alloc_ready s sb" "held s = {}" "i_dev (inodes s ip) = ROOTDEV" "i_type (inodes s ip) \<noteq> T_DEV"
    and fw: "file_wf s sb (inodes s ip)" "full s (inodes s ip)" "inode_apart s sb (inodes s ip)" "same_file (inodes s ip) (loaded s (inodes s ip))"
    and p: "unat off + length p \<le> unat (i_size (inodes s ip))" "unat off + length p \<le> NB * BSIZE"
    and fit: "log_fits s sb (inodes s ip) (nchunks (unat off) (length p) + 1)"
  shows "\<exists>t. writei ip p off (of_nat (length p)) s = Inr (int (length p), t) \<and> tstep s t \<and> inodes t = inodes s \<and>
    put_at sb s (inodes s ip) (unat off) p t (inodes s ip) \<and> fs_geom t sb \<and> (\<forall>m. has_free s sb (inodes s ip) m \<longrightarrow> has_free t sb (inodes s ip) m)"
proof -
  let ?i = "inodes s ip" and ?B = "IBLOCK (i_inum (inodes s ip))" and ?n = "of_nat (length p) :: u32"
  have r: "linv s" "outstanding (thelog s) \<ge> 1" "fs_geom s sb" using ready(1) by (simp_all add: alloc_ready_def)
  have w: "file_inj s ?i" "\<And>a. a \<in> file_blks s ?i \<Longrightarrow> home_sector s a \<and> a \<notin> bitmap sb \<and> blk_used s sb (unat a)" using fw(1) by (auto simp: file_wf_def)
  have fb: "iaddr s ?i bn \<in> file_blks s ?i" if "bn < NB" "iaddr s ?i bn \<noteq> 0" for bn using that by (auto simp: file_blks_def)
  have use: "usable_blk s a" if "a \<in> file_blks s ?i" "a \<noteq> 0" for a using that w(2) home_usable [OF r(1)] ready(2) by (simp add: usable_blk_def)
  have "mapped s ?i (q div BSIZE) \<and> home_sector s (iaddr s ?i (q div BSIZE))" if "q < unat (i_size ?i)" for q
  proof -
    have q: "q div BSIZE < NB" "iaddr s ?i (q div BSIZE) \<noteq> 0" using fw(2) that by (simp_all add: full_def)
    have "i_addrs ?i NDIRECT \<noteq> 0" if "NDIRECT \<le> q div BSIZE" using q(2) that by (auto simp: iaddr_def)
    then have "NDIRECT \<le> q div BSIZE \<longrightarrow> usable_blk s (i_addrs ?i NDIRECT)" using use by (simp add: file_blks_def)
    then show ?thesis using q fb [OF q] use w(2) by (simp add: mapped_def NB_def)
  qed
  then have wr: "writable s ?i (unat off) (length p)" using p(1) by (simp add: writable_def)
  have big: "NB * BSIZE < 2 ^ 31" by (simp add: NB_def layout)
  have n: "unat ?n = length p" using p(2) big by (intro unat_of_nat_small) simp
  have sn: "sint ?n = int (length p)" using p(2) big by (intro sint_of_small) simp
  have "int (length (lsec s)) + int (nchunks (unat off) (length p)) < log_size (thelog s)" using log_fits_length [OF r(1) fit] by simp
  from writei_ok [OF r(1) ready(2-4) r(2) w(1) wr this n] p(1) n sn obtain t where t: "writei ip p off ?n s = Inr (int (length p), t)" "tstep s t"
    "inodes t = inodes s" "wrote s ?i (unat off) p t" by auto
  have ia: "iaddr t ?i = iaddr s ?i" using t(4) by (simp add: wrote_def)
  have fbs: "file_blks t ?i = file_blks s ?i" using ia by (simp add: file_blks_def)
  have vw: "view t x = view s x" if "x \<noteq> 0" "x \<notin> file_blks s ?i" for x
  proof -
    have "x \<notin> iaddr s ?i ` {bn. unat off div BSIZE \<le> bn \<and> bn < NB}" using that fb by auto
    then show ?thesis using t(4) by (simp add: wrote_def)
  qed
  have us: "blk_used t sb b = blk_used s sb b" if "b < unat (sb_size sb)" for b
  proof -
    have "home_sector s (bmp sb b)" "bmp sb b \<in> bitmap sb" using r(3) that bmp_in_bitmap [OF that] by (simp_all add: fs_geom_def)
    then have "view t (bmp sb b) = view s (bmp sb b)" using vw w(2) by (metis not_zero_home)
    then show ?thesis by (simp add: blk_used_def)
  qed
  have "file_wf t sb ?i" using fw(1) us tstep_geom(1) [OF t(2)] by (simp add: file_wf_def file_inj_def fbs ia)
  moreover have fl: "full t ?i" using fw(2) by (simp add: full_def ia)
  moreover have "content t ?i = overlay (unat off) p (content s ?i)"
  proof (rule nth_equalityI)
    fix q
    assume "q < length (content t ?i)"
    then have q: "q < unat (i_size ?i)" by simp
    then have "q div BSIZE < NB" "iaddr s ?i (q div BSIZE) \<noteq> 0" using fw(2) by (simp_all add: full_def)
    with q p(1) t(4) show "content t ?i ! q = overlay (unat off) p (content s ?i) ! q" by (simp add: content_nth overlay_nth wrote_def)
  qed (use p(1) in \<open>simp add: length_overlay\<close>)
  moreover have "loaded t ?i = loaded s ?i" using vw [of ?B] fw(3) not_zero_home by (auto simp: loaded_def inode_apart_def)
  moreover have "view t x = view s x" if "home_sector s x" "x \<notin> file_blks s ?i" for x using vw that not_zero_home by blast
  ultimately have "put_at sb s ?i (unat off) p t ?i" using fw(4) us by (auto simp: put_at_def fbs)
  moreover have "1 \<notin> file_blks s ?i" using w(2) not_one_home by blast
  then have "fs_geom t sb" using fs_geom_step [OF r(3) t(2)] vw by simp
  moreover have "free_blocks t sb = free_blocks s sb" using us geom_start(2) [OF r(3)] by (auto simp: free_blocks_def)
  then have "\<forall>m. has_free s sb ?i m \<longrightarrow> has_free t sb ?i m" by (simp add: has_free_def)
  ultimately show ?thesis using t(1-3) by blast
qed

lemma writei_puts:
  assumes "alloc_ready s sb" "held s = {}" "i_dev (inodes s ip) = ROOTDEV" "i_type (inodes s ip) \<noteq> T_DEV"
    and "file_wf s sb (inodes s ip)" "full s (inodes s ip)" "inode_apart s sb (inodes s ip)" "same_file (inodes s ip) (loaded s (inodes s ip))"
    and "unat off \<le> unat (i_size (inodes s ip))" "unat off + length p \<le> NB * BSIZE"
    and "log_fits s sb (inodes s ip) (nchunks (unat off) (length p) + 1)" "has_free s sb (inodes s ip) (nchunks (unat off) (length p) + m)"
  shows "\<exists>t k. writei ip p off (of_nat (length p)) s = Inr (int (length p), t) \<and> tstep s t \<and> inodes t = (inodes s)(ip := k) \<and>
    put_at sb s (inodes s ip) (unat off) p t k \<and> fs_geom t sb \<and>
    k = (inodes s ip)\<lparr>i_addrs := i_addrs k, i_size := i_size k, i_mtime := i_mtime k\<rparr> \<and> has_free t sb k m \<and>
    (set p \<subseteq> {0} \<longrightarrow> unat (i_size (inodes s ip)) < unat off + length p \<longrightarrow> zeroi ip off (of_nat (length p)) s = Inr ((), t))"
proof (cases "unat (i_size (inodes s ip)) < unat off + length p")
  case True
  have "has_free s sb (inodes s ip) (nchunks (unat off) (length p))" using assms(12) by (auto simp: has_free_def split: if_splits)
  from writei_behind [OF assms(1-7,9,10) True assms(11) this] assms(12) show ?thesis by blast
next
  case False
  have "has_free s sb (inodes s ip) m" using assms(12) by (auto simp: has_free_def split: if_splits)
  moreover have "(inodes s)(ip := inodes s ip) = inodes s" by simp
  moreover have "inodes s ip = (inodes s ip)\<lparr>i_addrs := i_addrs (inodes s ip), i_size := i_size (inodes s ip), i_mtime := i_mtime (inodes s ip)\<rparr>" by simp
  ultimately show ?thesis using writei_inside [OF assms(1-8) _ assms(10,11)] False by (metis linorder_not_less)
qed

text \<open>
  An idle state with an open file that can take \<open>k\<close> transactions: it is whole, stored on disk, and there are
  free blocks and log space.
\<close>

definition growable :: "superblock \<Rightarrow> kern \<Rightarrow> nat \<Rightarrow> nat \<Rightarrow> bool" where
  "growable sb s ip k \<longleftrightarrow> quiescent s \<and> log_ready s sb \<and> fs_geom s sb \<and> (\<forall>b < 2. blk_used s sb b) \<and> (\<forall>a \<in> bitmap sb. blk_used s sb (unat a)) \<and>
     inode_ready (inodes s ip) \<and> file_wf s sb (inodes s ip) \<and> full s (inodes s ip) \<and> inode_apart s sb (inodes s ip) \<and>
     same_file (inodes s ip) (loaded s (inodes s ip)) \<and> int (card (bitmap sb)) + 5 < log_size (thelog s) \<and> has_free s sb (inodes s ip) (3 * k)"

definition snap :: "superblock \<Rightarrow> kern \<Rightarrow> nat \<Rightarrow> nat \<Rightarrow> bytes \<Rightarrow> kern \<Rightarrow> bool" where
  "snap sb s ip off xs u \<longleftrightarrow> quiescent u \<and> home_sector u = home_sector s \<and> put_at sb s (inodes s ip) off xs u (inodes u ip)"

lemma growable_snap: "growable sb s ip k \<Longrightarrow> snap sb s ip off [] s"
  by (simp add: growable_def snap_def put_at_refl)

text \<open>Opening a transaction and locking an inode changes nothing of a file.\<close>

lemma file_frame_cong:
  assumes "view u = view s" "home_sector u = home_sector s"
  shows "blk_used u = blk_used s" "iaddr u = iaddr s" "file_blks u = file_blks s" "file_wf u = file_wf s" "full u = full s"
    "inode_apart u = inode_apart s" "content u = content s" "has_free u = has_free s"
proof -
  show us: "blk_used u = blk_used s" by (intro ext) (simp add: blk_used_def assms)
  show ia: "iaddr u = iaddr s" by (intro ext) (simp add: iaddr_def assms)
  then show fb: "file_blks u = file_blks s" by (intro ext) (simp add: file_blks_def)
  show "file_wf u = file_wf s" by (intro ext) (simp add: file_wf_def file_inj_def fb ia us assms)
  show "full u = full s" by (intro ext) (simp add: full_def ia)
  show "inode_apart u = inode_apart s" by (intro ext) (simp add: inode_apart_def fb us assms)
  show "content u = content s" by (intro ext) (simp add: content_def file_bytes_def fbyte_def ia assms)
  show "has_free u = has_free s" by (intro ext) (simp add: has_free_def free_blocks_def us)
qed

lemmas opened [simp] =
  file_frame_cong [of "s\<lparr>thelog := (thelog s)\<lparr>outstanding := k\<rparr>\<rparr>" s, simplified] file_frame_cong(1,5-8) [of "s\<lparr>inodes := g\<rparr>" s, simplified] for s k g

lemma locked [simp]:
  "file_blks s (i\<lparr>i_flags := x\<rparr>) = file_blks s i" "file_wf s sb (i\<lparr>i_flags := x\<rparr>) = file_wf s sb i" "full s (i\<lparr>i_flags := x\<rparr>) = full s i"
  "inode_apart s sb (i\<lparr>i_flags := x\<rparr>) = inode_apart s sb i" "content s (i\<lparr>i_flags := x\<rparr>) = content s i"
  "has_free s sb (i\<lparr>i_flags := x\<rparr>) = has_free s sb i"
proof -
  show fb: "file_blks s (i\<lparr>i_flags := x\<rparr>) = file_blks s i" by (simp add: file_blks_def)
  show "file_wf s sb (i\<lparr>i_flags := x\<rparr>) = file_wf s sb i" "inode_apart s sb (i\<lparr>i_flags := x\<rparr>) = inode_apart s sb i"
    by (simp_all add: file_wf_def inode_apart_def fb)
  show "full s (i\<lparr>i_flags := x\<rparr>) = full s i" "content s (i\<lparr>i_flags := x\<rparr>) = content s i" by (simp_all add: full_def content_def)
  show "has_free s sb (i\<lparr>i_flags := x\<rparr>) = has_free s sb i" by (intro ext) (simp add: has_free_def)
qed

lemma put_at_flags: "put_at sb s (i\<lparr>i_flags := x\<rparr>) off xs t k \<Longrightarrow> put_at sb s i off xs t (k\<lparr>i_flags := y\<rparr>)"
  by (auto simp: put_at_def same_file_def loaded_def load_dinode_def)

lemma put_at_opened: "put_at sb (s\<lparr>thelog := (thelog s)\<lparr>outstanding := 1\<rparr>, inodes := g\<rparr>) i off xs t k \<Longrightarrow> put_at sb s i off xs t k"
  unfolding put_at_def by simp

lemma growable_next:
  assumes s: "growable sb s ip (Suc k)" and t: "snap sb s ip off p t" "log_ready t sb" "log_size (thelog t) = log_size (thelog s)"
    "inode_ready (inodes t ip)" "has_free t sb (inodes t ip) (3 * k)"
  shows "growable sb t ip k"
proof -
  note a = s [unfolded growable_def]
  have q: "quiescent t" "home_sector t = home_sector s" "put_at sb s (inodes s ip) off p t (inodes t ip)" using t(1) by (simp_all add: snap_def)
  note g = q(3) [unfolded put_at_def]
  have geo: "fs_geom s sb" "inode_apart s sb (inodes s ip)" using a by simp_all
  have "sb_of_block (view t 1) = sb" using t(2) quiescent_disk [OF q(1), of 1] by (simp add: log_ready_def)
  then have gt: "fs_geom t sb" using geo(1) q(2) t(2) by (simp add: fs_geom_def log_ready_def)
  have sz: "unat a < unat (sb_size sb)" if "home_sector s a" for a using geom_start [OF geo(1)] that by simp
  have "2 \<le> unat (sb_size sb)" using geo(1) by (auto simp: fs_geom_def log_at_def sb_geom_def)
  then have low: "\<forall>b < 2. blk_used t sb b" using a g by simp
  have bm: "\<forall>x \<in> bitmap sb. blk_used t sb (unat x)"
  proof
    fix x
    assume x: "x \<in> bitmap sb"
    then have "home_sector s x" using geo(1) by (auto simp: bitmap_def fs_geom_def)
    with sz a g x show "blk_used t sb (unat x)" by blast
  qed
  have "inode_apart t sb (inodes t ip)" using geo(2) g q(2) sz unfolding inode_apart_def by auto
  with a q(1) t gt low bm g show ?thesis by (simp add: growable_def)
qed

text \<open>The end of a transaction in which the file has become \<open>l\<close>, unlocked again.\<close>

lemma put_commit:
  assumes s: "growable sb s ip (Suc k)"
    and u: "linv u" "held u = {}" "outstanding (thelog u) = 1" "committing (thelog u) = 0" "disk u = disk s" "events u = events s"
      "home_sector u = home_sector s" "log_at u sb" "log_size (thelog u) = log_size (thelog s)" "fs_geom u sb"
    and l: "inodes u ip = l" "put_at sb s (inodes s ip) off p u l" "inode_ready l" "i_inum l = i_inum (inodes s ip)" "has_free u sb l (3 * k)"
  shows "\<exists>t. end_op u = Inr ((), t) \<and> growable sb t ip k \<and> snap sb s ip off p t \<and> inodes t = inodes u \<and> ftable t = ftable u \<and>
    settled s t \<and> crash_safe sb s t {disk s, disk t}"
proof -
  note a = s [unfolded growable_def]
  from end_op_last [OF u(1-4)] obtain t where t: "end_op u = Inr ((), t)" "linv t" "held t = {}" "lsec t = []"
    "outstanding (thelog t) = 0" "committing (thelog t) = 0" "inodes t = inodes u" "ftable t = ftable u"
    "log_size (thelog t) = log_size (thelog u)" "home_sector t = home_sector u" "settled u t"
    "\<forall>a. home_sector u a \<longrightarrow> view t a = view u a" by auto
  have "log_ready u sb" using a u(5,8) by (simp add: log_ready_def)
  note cr = end_op_crash [OF u(1-4) this t(1)]
  have "home_sector u (IBLOCK (i_inum l))" using a l(4) u(7) by (simp add: inode_apart_def)
  from put_at_cong [OF l(2) t(12,10) u(7) [symmetric] u(10) this] have "put_at sb s (inodes s ip) off p t l" .
  then have sn: "snap sb s ip off p t" using t(2-7,10) u(7) l(1) by (simp add: snap_def quiescent_def)
  have "blk_used t sb b = blk_used u sb b" if "b < unat (sb_size sb)" for b using t(12) u(10) that by (simp add: blk_used_def fs_geom_def)
  then have "free_blocks t sb = free_blocks u sb" using geom_start(2) [OF u(10)] by (auto simp: free_blocks_def)
  then have "has_free t sb l (3 * k)" using l(5) by (simp add: has_free_def)
  then have gr: "growable sb t ip k" using growable_next [OF s sn cr(1)] t(7,9) u(9) l(1,3) by simp
  have "settled s t" "crash_safe sb s t {disk s, disk t}" using t(11) cr(2) u(5,6) by (simp_all add: settled_def crash_safe_def)
  with t(1,7,8) sn gr show ?thesis by blast
qed

lemma put_piece:
  assumes s: "growable sb s ip (Suc k)" and p: "length p \<le> WRITE_MAX" "unat off + length p \<le> NB * BSIZE"
    and off: "unat off \<le> unat (i_size (inodes s ip))"
  shows "\<exists>s1 s2 s3 s4 t. begin_op s = Inr ((), s1) \<and> ilock (Some ip) s1 = Inr ((), s2) \<and> ftable s2 = ftable s \<and> i_size (inodes s2 ip) = i_size (inodes s ip) \<and>
    (set p \<subseteq> {0} \<longrightarrow> unat (i_size (inodes s ip)) < unat off + length p \<longrightarrow> zeroi ip off (of_nat (length p)) s2 = Inr ((), s3)) \<and>
    writei ip p off (of_nat (length p)) s2 = Inr (int (length p), s3) \<and> ftable s3 = ftable s \<and>
    iunlock (Some ip) (s3\<lparr>ftable := (ftable s3)(f := x)\<rparr>) = Inr ((), s4) \<and> end_op s4 = Inr ((), t) \<and>
    growable sb t ip k \<and> snap sb s ip (unat off) p t \<and> (\<forall>jp. jp \<noteq> ip \<longrightarrow> inodes t jp = inodes s jp) \<and>
    ftable t = (ftable s)(f := x) \<and> settled s t \<and> crash_safe sb s t {disk s, disk t}"
proof -
  let ?i = "inodes s ip"
  let ?j = "?i\<lparr>i_flags := set_flag I_BUSY (i_flags ?i)\<rparr>"
  let ?s1 = "s\<lparr>thelog := (thelog s)\<lparr>outstanding := 1\<rparr>\<rparr>"
  let ?s2 = "?s1\<lparr>inodes := (inodes s)(ip := ?j)\<rparr>"
  note a = s [unfolded growable_def]
  have q: "quiescent s" "linv s" "held s = {}" "lsec s = []" "committing (thelog s) = 0" using a by (simp_all add: quiescent_def)
  have r: "i_dev ?i = ROOTDEV" "i_type ?i \<noteq> T_DEV" "\<not> flag I_BUSY (i_flags ?i)" "i_ref ?i \<ge> 1" "flag I_VALID (i_flags ?i)"
    using a by (simp_all add: inode_ready_def)
  have run: "begin_op s = Inr ((), ?s1)" "ilock (Some ip) ?s1 = Inr ((), ?s2)"
    using begin_quiescent [OF q(1)] r by (simp_all add: ilock_unfold ino_at_def upd_ino_def)
  have "fs_geom ?s2 sb" using a by (simp add: fs_geom_def log_at_def)
  then have ar: "alloc_ready ?s2 sb" using a q(2) by (simp add: alloc_ready_def)
  note nc = nchunks_piece [OF p(1), of "unat off"]
  have "card (log_blks ?s2 sb ?j) \<le> Suc (card (bitmap sb))" using q(4) by (simp add: log_blks_def card_insert_if)
  then have lf: "log_fits ?s2 sb ?j (nchunks (unat off) (length p) + 1)" using nc a by (simp add: log_fits_def)
  have hf: "has_free ?s2 sb ?j (nchunks (unat off) (length p) + 3 * k)" using a nc by (auto simp: has_free_def split: if_splits)
  have sf: "same_file ?j (loaded ?s2 ?j)" using a by (simp add: same_file_def loaded_def load_dinode_def)
  have jj: "inodes ?s2 ip = ?j" by simp
  have pre: "held ?s2 = {}" "i_dev ?j = ROOTDEV" "i_type ?j \<noteq> T_DEV" "file_wf ?s2 sb ?j" "full ?s2 ?j"
    "inode_apart ?s2 sb ?j" "unat off \<le> unat (i_size ?j)" using r a off q(3) by simp_all
  from writei_puts [of ?s2 sb ip off p, unfolded jj, OF ar pre(1-6) sf pre(7) p(2) lf hf] obtain s3 l where
    s3: "writei ip p off (of_nat (length p)) ?s2 = Inr (int (length p), s3)" "tstep ?s2 s3" "inodes s3 = (inodes ?s2)(ip := l)"
    "put_at sb ?s2 ?j (unat off) p s3 l" "fs_geom s3 sb" "l = ?j\<lparr>i_addrs := i_addrs l, i_size := i_size l, i_mtime := i_mtime l\<rparr>"
    "has_free s3 sb l (3 * k)"
    "set p \<subseteq> {0} \<longrightarrow> unat (i_size ?j) < unat off + length p \<longrightarrow> zeroi ip off (of_nat (length p)) ?s2 = Inr ((), s3)" by blast
  note g = tstep_geom [OF s3(2)]
  have e: "disk s3 = disk s" "events s3 = events s" "committing (thelog s3) = 0" using s3(2) q(5) by (simp_all add: tstep_def tenv_eq)
  let ?l = "l\<lparr>i_flags := i_flags ?i\<rparr>"
  let ?s4 = "s3\<lparr>ftable := (ftable s3)(f := x), inodes := (inodes s)(ip := ?l)\<rparr>"
  have fl: "i_flags l = set_flag I_BUSY (i_flags ?i)" "i_ref l = i_ref ?i" "i_dev l = ROOTDEV" "i_type l \<noteq> T_DEV" "i_inum l = i_inum ?i"
    using r(1,2) by (subst s3(6), simp)+
  have un: "iunlock (Some ip) (s3\<lparr>ftable := (ftable s3)(f := x)\<rparr>) = Inr ((), ?s4)"
    using s3(3) fl r(4) unlock_flags [OF r(3)] by (simp add: iunlock_def ino_at_def upd_ino_def)
  have q4: "linv ?s4" "held ?s4 = {}" "outstanding (thelog ?s4) = 1" "committing (thelog ?s4) = 0" "disk ?s4 = disk s" "events ?s4 = events s"
    "home_sector ?s4 = home_sector s" "log_size (thelog ?s4) = log_size (thelog s)"
    using tstep_linv [OF s3(2)] tstep_held [OF s3(2)] q(3) g e by simp_all
  have "log_at s3 sb" using a g(3) by (simp add: log_ready_def log_at_def)
  then have la: "log_at ?s4 sb" "fs_geom ?s4 sb" using s3(5) by (simp_all add: log_at_def fs_geom_def)
  have gn3: "put_at sb s ?i (unat off) p s3 ?l" using put_at_flags [OF s3(4)] by (simp add: put_at_def)
  have fr: "view ?s4 = view s3" "home_sector ?s4 = home_sector s3" "loaded ?s4 = loaded s3" by (simp_all add: loaded_def fun_eq_iff)
  have gn: "put_at sb s ?i (unat off) p ?s4 ?l" using gn3 unfolding put_at_def file_frame_cong [OF fr(1,2)] fr .
  have hf4: "has_free ?s4 sb ?l (3 * k)" unfolding file_frame_cong [OF fr(1,2)] using s3(7) by simp
  have ir: "inode_ready ?l" "i_inum ?l = i_inum ?i" "inodes ?s4 ip = ?l" using fl r by (simp_all add: inode_ready_def)
  from put_commit [OF s q4(1-7) la(1) q4(8) la(2) ir(3) gn ir(1,2) hf4] obtain t where t: "end_op ?s4 = Inr ((), t)" "growable sb t ip k"
    "snap sb s ip (unat off) p t" "inodes t = inodes ?s4" "ftable t = ftable ?s4" "settled s t" "crash_safe sb s t {disk s, disk t}" by blast
  have tt: "\<forall>jp. jp \<noteq> ip \<longrightarrow> inodes t jp = inodes s jp" "ftable t = (ftable s)(f := x)"
    "ftable ?s2 = ftable s" "ftable s3 = ftable s" "i_size (inodes ?s2 ip) = i_size ?i"
    "set p \<subseteq> {0} \<longrightarrow> unat (i_size ?i) < unat off + length p \<longrightarrow> zeroi ip off (of_nat (length p)) ?s2 = Inr ((), s3)" using t(4,5) g(7) s3(8) by simp_all
  show ?thesis by (intro exI conjI) (rule run tt(3) tt(5,6) s3(1) tt(4) un t(1-3) tt(1,2) t(6,7))+
qed

text \<open>The zeros between the end of the file and an offset behind it.\<close>

lemma fill_gap:
  assumes s: "growable sb s ip (Suc k)" "i_size (inodes s ip) < off" "unat off \<le> unat (i_size (inodes s ip)) + WRITE_MAX" "unat off \<le> NB * BSIZE"
  shows "\<exists>t. bnd begin_op (\<lambda>_. bnd (ilock (Some ip)) (\<lambda>_. bnd (ino_at ip) (\<lambda>j. bnd (zeroi ip (i_size j) (off - i_size (inodes s ip))) (\<lambda>_.
      bnd (iunlock (Some ip)) (\<lambda>_. end_op))))) s = Inr ((), t) \<and> growable sb t ip k \<and>
    snap sb s ip (unat (i_size (inodes s ip))) (replicate (unat off - unat (i_size (inodes s ip))) 0) t \<and>
    (\<forall>jp. jp \<noteq> ip \<longrightarrow> inodes t jp = inodes s jp) \<and> ftable t = ftable s \<and> settled s t \<and> crash_safe sb s t {disk s, disk t}"
proof -
  let ?z = "unat (i_size (inodes s ip))" and ?p = "replicate (unat off - unat (i_size (inodes s ip))) (0 :: u8)"
  have lt: "?z < unat off" using s(2) by (simp add: word_less_nat_alt)
  have "unat (off - i_size (inodes s ip)) = unat off - ?z" using s(2) by (intro unat_sub) simp
  then have n: "of_nat (length ?p) = off - i_size (inodes s ip)" by (metis length_replicate of_nat_unat_eq)
  have p: "length ?p \<le> WRITE_MAX" "?z + length ?p \<le> NB * BSIZE" "?z \<le> ?z" "set ?p \<subseteq> {0}" "?z < ?z + length ?p" using s(3,4) lt by auto
  from put_piece [OF s(1) p(1-3), where x = "ftable s 0" and f = 0] p(4,5) obtain s1 s2 s3 s4 t where t: "begin_op s = Inr ((), s1)" "ilock (Some ip) s1 = Inr ((), s2)"
    "i_size (inodes s2 ip) = i_size (inodes s ip)" "zeroi ip (i_size (inodes s ip)) (of_nat (length ?p)) s2 = Inr ((), s3)" "ftable s3 = ftable s"
    "iunlock (Some ip) (s3\<lparr>ftable := (ftable s3)(0 := ftable s 0)\<rparr>) = Inr ((), s4)" "end_op s4 = Inr ((), t)"
    "growable sb t ip k" "snap sb s ip ?z ?p t" "\<forall>jp. jp \<noteq> ip \<longrightarrow> inodes t jp = inodes s jp" "ftable t = (ftable s)(0 := ftable s 0)"
    "settled s t" "crash_safe sb s t {disk s, disk t}" by blast
  have "s3\<lparr>ftable := (ftable s3)(0 := ftable s 0)\<rparr> = s3" using t(5) by (cases s3) simp
  then have "iunlock (Some ip) s3 = Inr ((), s4)" using t(6) by (simp only:)
  then show ?thesis using t(1-5,7-13) n by (intro exI [of _ t]) (simp add: ino_at_def)
qed

section \<open>The whole write\<close>

definition pieces :: "nat \<Rightarrow> nat" where
  "pieces n = (n + WRITE_MAX - 1) div WRITE_MAX"

lemma pieces_0 [simp]: "pieces 0 = 0"
  by (simp add: pieces_def WRITE_MAX_def layout)

lemma pieces_step: "0 < n \<Longrightarrow> pieces n = Suc (pieces (n - WRITE_MAX))"
proof -
  assume n: "0 < n"
  have w: "WRITE_MAX \<noteq> 0" by (simp add: WRITE_MAX_def layout)
  have "n + WRITE_MAX - 1 = n - 1 + WRITE_MAX" using n by linarith
  then have p: "pieces n = Suc ((n - 1) div WRITE_MAX)" unfolding pieces_def using div_add_self2 [OF w, of "n - 1"] by (simp only: Suc_eq_plus1)
  show ?thesis
  proof (cases "n \<le> WRITE_MAX")
    case True
    then have "(n - 1) div WRITE_MAX = 0" "n - WRITE_MAX = 0" using n by (auto intro: div_less)
    with p show ?thesis by simp
  next
    case False
    then have "n - WRITE_MAX + WRITE_MAX - 1 = n - 1" by linarith
    with p show ?thesis by (simp only: pieces_def)
  qed
qed

text \<open>The states a crash may lead back to: a whole number of pieces has been written.\<close>

definition prefixes_of :: "superblock \<Rightarrow> kern \<Rightarrow> nat \<Rightarrow> nat \<Rightarrow> bytes \<Rightarrow> kern set" where
  "prefixes_of sb s ip off src = {u. \<exists>k \<le> length src. (k = length src \<or> WRITE_MAX dvd k) \<and> snap sb s ip off (take k src) u}"

lemma snap_trans:
  assumes "snap sb s ip off xs t" "snap sb t ip (off + length xs) ys u" "fs_geom s sb" "off \<le> unat (i_size (inodes s ip))"
  shows "snap sb s ip off (xs @ ys) u"
  using assms put_at_trans [of sb s "inodes s ip" off xs t "inodes t ip" ys u "inodes u ip"] by (simp add: snap_def)

lemma prefixes_none: "snap sb s ip off [] s \<Longrightarrow> s \<in> prefixes_of sb s ip off src"
  by (auto simp: prefixes_of_def intro!: exI [of _ 0])

lemma prefixes_rest:
  assumes "snap sb s ip off (take WRITE_MAX src) t" "fs_geom s sb" "off \<le> unat (i_size (inodes s ip))"
  shows "prefixes_of sb t ip (off + length (take WRITE_MAX src)) (drop WRITE_MAX src) \<subseteq> prefixes_of sb s ip off src"
proof
  let ?m = "min WRITE_MAX (length src)"
  fix u
  assume "u \<in> prefixes_of sb t ip (off + length (take WRITE_MAX src)) (drop WRITE_MAX src)"
  then obtain k where k: "k \<le> length src - WRITE_MAX" "k = length src - WRITE_MAX \<or> WRITE_MAX dvd k"
    "snap sb t ip (off + length (take WRITE_MAX src)) (take k (drop WRITE_MAX src)) u" by (auto simp: prefixes_of_def)
  have "take WRITE_MAX src @ take k (drop WRITE_MAX src) = take (?m + k) src"
    using k(1) by (cases "WRITE_MAX \<le> length src") (simp_all add: take_add min_def)
  then have "snap sb s ip off (take (?m + k) src) u" using snap_trans [OF assms(1) k(3) assms(2,3)] by simp
  moreover have "?m + k \<le> length src" "?m + k = length src \<or> WRITE_MAX dvd ?m + k" using k(1,2) by (auto simp: min_def)
  ultimately show "u \<in> prefixes_of sb s ip off src" unfolding prefixes_of_def by blast
qed

lemma put_loop:
  assumes "growable sb s ip (pieces (length src))" "unat off + length src \<le> NB * BSIZE" "f_off (ftable s f) = off" "unat off \<le> unat (i_size (inodes s ip))"
  shows "\<exists>t. filewrite_loop f ip src s = Inr (True, t) \<and> snap sb s ip (unat off) src t \<and> (\<forall>jp. jp \<noteq> ip \<longrightarrow> inodes t jp = inodes s jp) \<and>
    ftable t = (ftable s)(f := (ftable s f)\<lparr>f_off := off + of_nat (length src)\<rparr>) \<and> settled s t \<and> crash_safe sb s t (disk ` prefixes_of sb s ip (unat off) src)"
  using assms
proof (induction "length src" arbitrary: s off src rule: less_induct)
  case less
  note pre = less.prems
  have g: "fs_geom s sb" "quiescent s" "log_ready s sb" using pre(1) by (simp_all add: growable_def)
  have s0: "snap sb s ip (unat off) [] s" by (rule growable_snap [OF pre(1)])
  show ?case
  proof (cases "src = []")
    case True
    then have "filewrite_loop f ip src s = Inr (True, s)" by (subst filewrite_loop.simps) simp
    moreover have "(ftable s f)\<lparr>f_off := off\<rparr> = ftable s f" using pre(3) by (cases "ftable s f") simp
    moreover have "crash_safe sb s s (disk ` prefixes_of sb s ip (unat off) src)"
      using crash_safe_mono [OF crash_safe_same [OF refl g(3)]] prefixes_none [OF s0] by blast
    ultimately show ?thesis using True s0 by (intro exI [of _ s]) (simp add: settled_same fun_upd_idem)
  next
    case False
    let ?m = "min WRITE_MAX (length src)" and ?p = "take WRITE_MAX src" and ?q = "drop WRITE_MAX src"
    have w: "0 < WRITE_MAX" by (simp add: WRITE_MAX_def layout)
    have m: "length ?p = ?m" "?m \<le> length src" "length ?q < length src" "?p \<noteq> []" "length ?p \<le> WRITE_MAX" using False w by simp_all
    have pc: "growable sb s ip (Suc (pieces (length ?q)))" using pre(1) pieces_step [of "length src"] False by simp
    have "unat off + length ?p \<le> NB * BSIZE" using pre(2) m(1,2) by simp
    from put_piece [OF pc m(5) this pre(4), where x = "(ftable s f)\<lparr>f_off := off + of_nat (length ?p)\<rparr>" and f = f] obtain s1 s2 s3 s4 t where t: "begin_op s = Inr ((), s1)"
      "ilock (Some ip) s1 = Inr ((), s2)" "ftable s2 = ftable s" "writei ip ?p off (of_nat (length ?p)) s2 = Inr (int (length ?p), s3)"
      "ftable s3 = ftable s" "iunlock (Some ip) (s3\<lparr>ftable := (ftable s3)(f := (ftable s f)\<lparr>f_off := off + of_nat (length ?p)\<rparr>)\<rparr>) = Inr ((), s4)"
      "end_op s4 = Inr ((), t)" and r: "growable sb t ip (pieces (length ?q))" "snap sb s ip (unat off) ?p t"
      "\<forall>jp. jp \<noteq> ip \<longrightarrow> inodes t jp = inodes s jp" "ftable t = (ftable s)(f := (ftable s f)\<lparr>f_off := off + of_nat (length ?p)\<rparr>)" "settled s t"
      "crash_safe sb s t {disk s, disk t}" by blast
    have run: "filewrite_loop f ip src s = filewrite_loop f ip ?q t"
      using False t m(1,4) pre(3) by (subst filewrite_loop.simps) (simp add: file_at_def upd_file_def)
    have big: "NB * BSIZE < 2 ^ 32" by (simp add: NB_def layout)
    have off': "unat (off + of_nat (length ?p)) = unat off + ?m"
      using pre(2) m(1,2) big by (simp add: unat_word_ariths unat_of_nat take_bit_nat_eq_self)
    have "unat (off + of_nat (length ?p)) + length ?q \<le> NB * BSIZE" using off' pre(2) by (simp add: min_def split: if_splits)
    moreover have "f_off (ftable t f) = off + of_nat (length ?p)" using r(4) by simp
    moreover have "unat (i_size (inodes t ip)) = max (unat (i_size (inodes s ip))) (unat off + ?m)"
      using put_at_size [of sb s "inodes s ip" "unat off" ?p t "inodes t ip"] r(2) pre(4) by (simp add: snap_def min.commute)
    then have "unat (off + of_nat (length ?p)) \<le> unat (i_size (inodes t ip))" using off' by simp
    ultimately obtain u where u: "filewrite_loop f ip ?q t = Inr (True, u)" "snap sb t ip (unat off + length ?p) ?q u" "\<forall>jp. jp \<noteq> ip \<longrightarrow> inodes u jp = inodes t jp"
      "ftable u = (ftable t)(f := (ftable t f)\<lparr>f_off := off + of_nat (length ?p) + of_nat (length ?q)\<rparr>)" "settled t u"
      "crash_safe sb t u (disk ` prefixes_of sb t ip (unat off + length ?p) ?q)" using less.hyps [OF m(3) r(1)] off' m(1) by metis
    have "snap sb s ip (unat off) src u" using snap_trans [OF r(2) u(2) g(1) pre(4)] by simp
    moreover have "length ?p + length ?q = length src" by simp
    then have "off + of_nat (length ?p) + of_nat (length ?q) = off + of_nat (length src)" by (metis add.assoc of_nat_add)
    moreover have "crash_safe sb s u (disk ` prefixes_of sb s ip (unat off) src)"
    proof (rule crash_safe_mono [OF crash_safe_trans [OF r(6) u(6) r(5) u(5)]])
      have "t \<in> prefixes_of sb t ip (unat off + length ?p) ?q" by (rule prefixes_none [OF growable_snap [OF r(1)]])
      then show "{disk s, disk t} \<union> disk ` prefixes_of sb t ip (unat off + length ?p) ?q \<subseteq> disk ` prefixes_of sb s ip (unat off) src"
        using prefixes_rest [OF r(2) g(1) pre(4)] prefixes_none [OF s0] by blast
    qed
    ultimately show ?thesis using run u(1,3,4) r(3,4) settled_trans [OF r(5) u(5)] by (intro exI [of _ u]) (simp add: add.assoc)
  qed
qed

text \<open>Setting the offset of the handle changes nothing of the file.\<close>

lemma ftable_irrelevant:
  "growable sb (s\<lparr>ftable := g\<rparr>) ip k = growable sb s ip k" "snap sb (s\<lparr>ftable := g\<rparr>) = snap sb s"
  "prefixes_of sb (s\<lparr>ftable := g\<rparr>) = prefixes_of sb s"
proof -
  note c = file_frame_cong [of "s\<lparr>ftable := g\<rparr>" s, simplified]
  have l: "log_ready (s\<lparr>ftable := g\<rparr>) sb = log_ready s sb" "fs_geom (s\<lparr>ftable := g\<rparr>) sb = fs_geom s sb" "quiescent (s\<lparr>ftable := g\<rparr>) = quiescent s"
    "loaded (s\<lparr>ftable := g\<rparr>) i = loaded s i" for sb i
    by (simp_all add: log_ready_def fs_geom_def log_at_def loaded_def quiescent_def)
  show "growable sb (s\<lparr>ftable := g\<rparr>) ip k = growable sb s ip k" by (simp add: growable_def c l)
  have "put_at sb (s\<lparr>ftable := g\<rparr>) = put_at sb s" by (intro ext) (simp add: put_at_def c)
  then show sn: "snap sb (s\<lparr>ftable := g\<rparr>) = snap sb s" by (intro ext) (simp add: snap_def)
  then show "prefixes_of sb (s\<lparr>ftable := g\<rparr>) = prefixes_of sb s" by (intro ext) (simp add: prefixes_of_def)
qed

text \<open>A machine that shows the blocks of such a state finds the bytes in the file on disk.\<close>

lemma snap_seen:
  assumes "snap sb s ip off xs u" "home_sector s (IBLOCK (i_inum (inodes s ip)))" "\<forall>a. home_sector s a \<longrightarrow> view t a = view u a"
  shows "content t (disk_inode t (i_inum (inodes s ip))) = overlay off xs (content s (inodes s ip))"
proof -
  let ?n = "i_inum (inodes s ip)"
  have u: "home_sector u = home_sector s" "file_wf u sb (inodes u ip)" "full u (inodes u ip)" "content u (inodes u ip) = overlay off xs (content s (inodes s ip))"
    "same_file (disk_inode u ?n) (inodes u ip)" using assms(1) by (auto simp: snap_def put_at_def stored_iff)
  have v: "\<forall>a. home_sector u a \<longrightarrow> view t a = view u a" using assms(3) u(1) by simp
  have w: "file_wf u sb (disk_inode u ?n)" "full u (disk_inode u ?n)" "content u (disk_inode u ?n) = overlay off xs (content s (inodes s ip))"
    using u same_file_wf(2) [OF u(5)] same_file_content [OF u(5), of u] by simp_all
  have "disk_inode t ?n = disk_inode u ?n" by (rule disk_inode_cong [OF v]) (use assms(2) u(1) in simp)
  then show ?thesis using content_cong(1) [OF v w(1,2)] w(3) by simp
qed

text \<open>The states a whole \<open>sys_write\<close> passes: the old one, the gap before the offset filled, and pieces written.\<close>

definition padded :: "nat \<Rightarrow> bytes \<Rightarrow> bytes" where
  "padded n cs = cs @ replicate (n - length cs) 0"

lemma overlay_padded: "overlay (min off (length cs)) (replicate (off - length cs) 0 @ xs) cs = overlay off xs (padded off cs)"
  by (cases "off \<le> length cs") (simp_all add: padded_def overlay_def)

definition gap :: "kern \<Rightarrow> nat \<Rightarrow> nat \<Rightarrow> bytes" where
  "gap s ip off = replicate (off - unat (i_size (inodes s ip))) 0"

definition stages :: "superblock \<Rightarrow> kern \<Rightarrow> nat \<Rightarrow> nat \<Rightarrow> bytes \<Rightarrow> kern set" where
  "stages sb s ip off src = {u. snap sb s ip (min off (unat (i_size (inodes s ip)))) [] u \<or>
     (\<exists>k \<le> length src. (k = length src \<or> WRITE_MAX dvd k) \<and>
        snap sb s ip (min off (unat (i_size (inodes s ip)))) (gap s ip off @ take k src) u)}"

lemma stages_ftable: "gap (s\<lparr>ftable := g\<rparr>) = gap s" "stages sb (s\<lparr>ftable := g\<rparr>) = stages sb s"
proof -
  show "gap (s\<lparr>ftable := g\<rparr>) = gap s" by (intro ext) (simp add: gap_def)
  then show "stages sb (s\<lparr>ftable := g\<rparr>) = stages sb s" by (intro ext) (simp add: stages_def ftable_irrelevant)
qed

lemma filewrite_stages:
  assumes "growable sb s ip (pieces (length buf) + (if i_size (inodes s ip) < off then 1 else 0))"
    and "unat off \<le> unat (i_size (inodes s ip)) + WRITE_MAX" "unat off + length buf \<le> NB * BSIZE"
    and "f_type (ftable s f) = FD_INODE" "f_ip (ftable s f) = Some ip" "f_writable (ftable s f)" "f_off (ftable s f) = off"
  shows "\<exists>t. filewrite f buf (of_nat (length buf)) s = Inr (int (length buf), t) \<and>
    snap sb s ip (min (unat off) (unat (i_size (inodes s ip)))) (gap s ip (unat off) @ buf) t \<and> (\<forall>jp. jp \<noteq> ip \<longrightarrow> inodes t jp = inodes s jp) \<and>
    settled s t \<and> crash_safe sb s t (disk ` stages sb s ip (unat off) buf)"
proof -
  let ?i = "inodes s ip"
  have big: "NB * BSIZE < 2 ^ 31" by (simp add: NB_def layout)
  then have n: "sint (of_nat (length buf) :: u32) = int (length buf)" using assms(3) by (intro sint_of_small) simp
  have go: "filewrite f buf (of_nat (length buf)) s = Inr (int (length buf), t)"
    if "(if i_size ?i < off then bnd begin_op (\<lambda>_. bnd (ilock (Some ip)) (\<lambda>_. bnd (ino_at ip) (\<lambda>j. bnd (zeroi ip (i_size j) (off - i_size ?i)) (\<lambda>_.
      bnd (iunlock (Some ip)) (\<lambda>_. end_op))))) else ret ()) s = Inr ((), u)" "filewrite_loop f ip buf u = Inr (True, t)" for u t
  proof (cases "buf = []")
    case True
    then have "t = u" using that(2) by (simp add: filewrite_loop.simps)
    with True that(1) assms(4-7) show ?thesis
      by (cases "i_size ?i < off") (simp_all add: filewrite_def file_at_def deref_def ino_at_def)
  next
    case False
    with that n assms(4-7) show ?thesis
      by (cases "i_size ?i < off") (simp_all add: filewrite_def file_at_def deref_def ino_at_def)
  qed
  show ?thesis
  proof (cases "i_size ?i < off")
    case False
    then have le: "unat off \<le> unat (i_size ?i)" by (simp add: word_less_nat_alt)
    then have m: "min (unat off) (unat (i_size ?i)) = unat off" "gap s ip (unat off) = []" by (simp_all add: gap_def)
    from put_loop [OF _ assms(3,7) le] assms(1) False obtain t where t: "filewrite_loop f ip buf s = Inr (True, t)" "snap sb s ip (unat off) buf t"
      "\<forall>jp. jp \<noteq> ip \<longrightarrow> inodes t jp = inodes s jp" "settled s t" "crash_safe sb s t (disk ` prefixes_of sb s ip (unat off) buf)" by auto
    have "prefixes_of sb s ip (unat off) buf \<subseteq> stages sb s ip (unat off) buf" unfolding stages_def prefixes_of_def m by auto
    then have "crash_safe sb s t (disk ` stages sb s ip (unat off) buf)" using crash_safe_mono [OF t(5)] by blast
    with go [of s t] False t(1-4) m show ?thesis by auto
  next
    case True
    let ?z = "unat (i_size ?i)"
    have lt: "?z < unat off" using True by (simp add: word_less_nat_alt)
    have gr: "growable sb s ip (Suc (pieces (length buf)))" and le: "unat off \<le> NB * BSIZE" using assms(1,3) True by simp_all
    from fill_gap [OF gr True assms(2) le] obtain u where u: "bnd begin_op (\<lambda>_. bnd (ilock (Some ip)) (\<lambda>_. bnd (ino_at ip) (\<lambda>j.
        bnd (zeroi ip (i_size j) (off - i_size ?i)) (\<lambda>_. bnd (iunlock (Some ip)) (\<lambda>_. end_op))))) s = Inr ((), u)"
      "growable sb u ip (pieces (length buf))" "snap sb s ip ?z (gap s ip (unat off)) u" "\<forall>jp. jp \<noteq> ip \<longrightarrow> inodes u jp = inodes s jp"
      "ftable u = ftable s" "settled s u" "crash_safe sb s u {disk s, disk u}" unfolding gap_def by blast
    have m: "min (unat off) ?z = ?z" "?z + length (gap s ip (unat off)) = unat off" "fs_geom s sb" using lt assms(1) by (simp_all add: gap_def growable_def)
    have "unat (i_size (inodes u ip)) = unat off" using put_at_size [of sb s ?i ?z "gap s ip (unat off)" u "inodes u ip"] u(3) m(2) lt by (simp add: snap_def)
    with put_loop [OF u(2) assms(3), of f] u(5) assms(7) obtain t where t: "filewrite_loop f ip buf u = Inr (True, t)" "snap sb u ip (unat off) buf t"
      "\<forall>jp. jp \<noteq> ip \<longrightarrow> inodes t jp = inodes u jp" "settled u t" "crash_safe sb u t (disk ` prefixes_of sb u ip (unat off) buf)" by auto
    have tr: "snap sb s ip ?z (gap s ip (unat off) @ xs) v" if "snap sb u ip (unat off) xs v" for xs v
      using snap_trans [OF u(3) _ m(3)] that m(2) by simp
    have "s \<in> stages sb s ip (unat off) buf" unfolding stages_def m(1) using growable_snap [OF gr] by blast
    moreover have "u \<in> prefixes_of sb u ip (unat off) buf" by (rule prefixes_none [OF growable_snap [OF u(2)]])
    moreover have "prefixes_of sb u ip (unat off) buf \<subseteq> stages sb s ip (unat off) buf" unfolding stages_def prefixes_of_def m(1) using tr by blast
    ultimately have "{disk s, disk u} \<union> disk ` prefixes_of sb u ip (unat off) buf \<subseteq> disk ` stages sb s ip (unat off) buf" by blast
    from crash_safe_mono [OF crash_safe_trans [OF u(7) t(5) u(6) t(4)] this]
    show ?thesis using go [of u t] True u(1,4) t(1,3) tr [OF t(2)] m(1) settled_trans [OF u(6) t(4)] by auto
  qed
qed

text \<open>
  C9: Writing through all layers.  On an idle file system, a \<open>sys_write\<close> to an open file, of any
  length that the direct and indirect blocks can hold, starting inside the file, at its end or at most \<open>WRITE_MAX\<close> bytes behind it, and with free blocks
  enough, returns its count; the sequence of the file's bytes is then the
  old one, filled with zeros up to the offset when it was shorter, with the new bytes at the offset, in place of old ones and behind
  them, everything is flushed, and no block in use outside the file
  has changed but the bitmap and the inode's.  Stop it at any point of its disk traffic, losing any of the writes since the
  last flush, and start the process again on what is left: it mounts, and the file on disk is the old sequence, or that filled up to the
  offset with a prefix of the new bytes there, all of them or a multiple of \<open>WRITE_MAX\<close>.
\<close>

theorem sys_write_refines:
  assumes "growable sb s ip (pieces (length buf) + (if i_size (inodes s ip) < off then 1 else 0))"
    and "f_type (ftable s f) = FD_INODE" "f_ip (ftable s f) = Some ip" "f_writable (ftable s f)"
    and "unat off \<le> unat (i_size (inodes s ip)) + WRITE_MAX" "unat off + length buf \<le> NB * BSIZE"
  shows "\<exists>s'. sys_write (Some f) buf off s = Inr (int (length buf), s') \<and> quiescent s' \<and> settled s s' \<and>
    content s' (inodes s' ip) = overlay (unat off) buf (padded (unat off) (content s (inodes s ip))) \<and>
    (\<forall>jp. jp \<noteq> ip \<longrightarrow> inodes s' jp = inodes s jp) \<and>
    (\<forall>x. home_sector s x \<longrightarrow> blk_used s sb (unat x) \<longrightarrow> x \<notin> bitmap sb \<longrightarrow> x \<noteq> IBLOCK (i_inum (inodes s ip)) \<longrightarrow>
       x \<notin> file_blks s (inodes s ip) \<longrightarrow> view s' x = view s x) \<and>
    (\<forall>es fs d. events s' = events s @ es @ fs \<longrightarrow> crash_image es (disk s) d \<longrightarrow>
       (\<exists>k t. k \<le> length buf \<and> (k = length buf \<or> WRITE_MAX dvd k) \<and> mount (process_start d (nblk s)) = Inr ((), t) \<and> lsec t = [] \<and>
          content t (disk_inode t (i_inum (inodes s ip))) \<in>
            {content s (inodes s ip), overlay (unat off) (take k buf) (padded (unat off) (content s (inodes s ip)))}))"
proof -
  let ?i = "inodes s ip" and ?m = "min (unat off) (unat (i_size (inodes s ip)))"
  let ?s1 = "s\<lparr>ftable := (ftable s)(f := (ftable s f)\<lparr>f_off := off\<rparr>)\<rparr>"
  have g: "log_ready s sb" "home_sector s (IBLOCK (i_inum ?i))" using assms(1) by (simp_all add: growable_def inode_apart_def)
  have gr: "growable sb ?s1 ip (pieces (length buf) + (if i_size (inodes ?s1 ip) < off then 1 else 0))" using assms(1) by (simp add: ftable_irrelevant)
  from filewrite_stages [OF gr, of f] assms(2-6) obtain t where t: "filewrite f buf (of_nat (length buf)) ?s1 = Inr (int (length buf), t)"
    "snap sb s ip ?m (gap s ip (unat off) @ buf) t" "\<forall>jp. jp \<noteq> ip \<longrightarrow> inodes t jp = inodes s jp" "settled ?s1 t"
    "crash_safe sb ?s1 t (disk ` stages sb s ip (unat off) buf)" by (auto simp: ftable_irrelevant stages_ftable)
  have st: "settled s t" "crash_safe sb s t (disk ` stages sb s ip (unat off) buf)" using t(4,5) by (simp_all add: settled_def crash_safe_def)
  have run: "sys_write (Some f) buf off s = Inr (int (length buf), t)" using t(1) by (simp add: sys_write_def upd_file_def)
  have ov: "overlay ?m (gap s ip (unat off) @ xs) (content s ?i) = overlay (unat off) xs (padded (unat off) (content s ?i))" for xs
    using overlay_padded [of "unat off" "content s ?i" xs] by (simp add: gap_def)
  have crash: "\<exists>k t. k \<le> length buf \<and> (k = length buf \<or> WRITE_MAX dvd k) \<and> mount (process_start d (nblk s)) = Inr ((), t) \<and> lsec t = [] \<and>
      content t (disk_inode t (i_inum ?i)) \<in> {content s ?i, overlay (unat off) (take k buf) (padded (unat off) (content s ?i))}"
    if "events t = events s @ es @ fs" "crash_image es (disk s) d" for es fs d
  proof -
    have "\<forall>u \<in> stages sb s ip (unat off) buf. quiescent u" by (auto simp: stages_def snap_def)
    from crash_seen [OF g(1) st(2) this that] obtain v u where v: "u \<in> stages sb s ip (unat off) buf" "mount (process_start d (nblk s)) = Inr ((), v)"
      "lsec v = []" "\<forall>a. home_sector s a \<longrightarrow> view v a = view u a" by blast
    from v(1) obtain k xs where k: "k \<le> length buf" "k = length buf \<or> WRITE_MAX dvd k" "snap sb s ip ?m xs u" "xs \<in> {[], gap s ip (unat off) @ take k buf}"
      unfolding stages_def by blast
    from snap_seen [OF k(3) g(2) v(4)] k(4) have "content v (disk_inode v (i_inum ?i)) \<in>
      {content s ?i, overlay (unat off) (take k buf) (padded (unat off) (content s ?i))}" using ov [of "take k buf"] by auto
    with k(1,2) v(2,3) show ?thesis by blast
  qed
  have "quiescent t" "content t (inodes t ip) = overlay (unat off) buf (padded (unat off) (content s ?i))"
    using t(2) ov [of buf] by (simp_all add: snap_def put_at_def)
  moreover have "\<forall>x. home_sector s x \<longrightarrow> blk_used s sb (unat x) \<longrightarrow> x \<notin> bitmap sb \<longrightarrow> x \<noteq> IBLOCK (i_inum ?i) \<longrightarrow>
       x \<notin> file_blks s ?i \<longrightarrow> view t x = view s x" using t(2) by (simp add: snap_def put_at_def)
  ultimately show ?thesis using crash by (intro exI conjI) (rule run st(1) t(3) | assumption | blast)+
qed

text \<open>The sample file of 5000 bytes, opened, and 8000 bytes written from byte 6000 on: a gap to fill and two transactions.\<close>

lemma sample_growable:
  "\<exists>s. sample_handle (process_start sample_append_img 100) = Inr (Some 0, s) \<and> growable sample_sb s 0 3 \<and>
     f_type (ftable s 0) = FD_INODE \<and> f_ip (ftable s 0) = Some 0 \<and> f_writable (ftable s 0) \<and> i_size (inodes s 0) = 5000 \<and> i_inum (inodes s 0) = 1"
proof -
  have d: "di_addrs sample_dinode k = (if k = 0 then 40 else if k = 1 then 41 else 0)" "di_size sample_dinode = 5000" for k
    by (simp_all add: sample_dinode_def)
  have "sb_of_block (sample_append_img 1) = sample_sb" "head_n (sample_append_img 70) = 0"
    "sample_append_img 2 = put_dinode (NDIRECT + 1) zero_block (dinode_offset 1) sample_dinode" "di_type sample_dinode = T_FILE"
    using sample_head by (simp_all add: sample_append_img_def sample_img_def sample_image_def sample_dinode_def)
  from handle_open [where d = sample_append_img, OF this] obtain s where s: "sample_handle (process_start sample_append_img 100) = Inr (Some 0, s)"
    "quiescent s" "log_size (thelog s) = 30"
    "ftable s 0 = zero_file\<lparr>f_ref := 1, f_type := FD_INODE, f_ip := Some 0, f_off := 0, f_readable := True, f_writable := True\<rparr>"
    "inode_ready (inodes s 0)" "i_size (inodes s 0) = 5000" "i_inum (inodes s 0) = 1"
    "\<forall>k \<le> NDIRECT. i_addrs (inodes s 0) k = (if k = 0 then 40 else if k = 1 then 41 else 0)"
    "\<forall>a. home_sector s a \<longleftrightarrow> 2 \<le> unat a \<and> unat a < 70" "log_ready s sample_sb" "\<forall>a. home_sector s a \<longrightarrow> view s a = sample_append_img (unat a)"
    "same_file (inodes s 0) (loaded s (inodes s 0))" unfolding d by blast
  let ?i = "inodes s 0"
  have q: "linv s" "held s = {}" "log_at s sample_sb" "lsec s = []" using s(2,10) by (simp_all add: quiescent_def log_ready_def)
  have v4: "view s 4 = zero_block(0 := 0xFF, 5 := 3)" using s(9,11) by (simp add: sample_append_img_def)
  have v1: "sb_of_block (view s 1) = sample_sb" using s(10) quiescent_disk [OF s(2), of 1] by (simp add: log_ready_def)
  note fl = sample_append_file [OF q(1-3) v1 v4 s(9,8)]
  have ib: "IBLOCK (i_inum ?i) = 2" using s(7) by (simp add: IBLOCK_def layout)
  have ap: "inode_apart s sample_sb ?i" using s(9) ib fl(1) [of 2] fl(3) by (auto simp: inode_apart_def sample_bitmap)
  have fu: "full s ?i" using fl(5) s(6) by (simp add: full_def)
  have "10 \<le> card (free_blocks s sample_sb)" using fl(6) [of "{8..<18}"] by simp
  then have "has_free s sample_sb ?i (3 * 3)" by (simp add: has_free_def)
  then have "growable sample_sb s 0 3" using s(2,3,5,10,12) fl(1,2,4) ap fu by (simp add: growable_def sample_bitmap)
  then show ?thesis using s(1,4,6,7) by (intro exI [of _ s]) simp
qed

theorem sys_write_refines_witness:
  "\<exists>s s' es d k t. sample_handle (process_start sample_append_img 100) = Inr (Some 0, s) \<and> sys_write (Some 0) (replicate 8000 9) 6000 s = Inr (8000, s') \<and>
     content s' (inodes s' 0) = content s (inodes s 0) @ replicate 1000 0 @ replicate 8000 9 \<and>
     events s' = events s @ es \<and> crash_image es (disk s) d \<and> mount (process_start d (nblk s)) = Inr ((), t) \<and> k \<in> {0, WRITE_MAX, 8000} \<and>
     content t (disk_inode t 1) \<in> {content s (inodes s 0), content s (inodes s 0) @ replicate 1000 0 @ replicate k 9}"
proof -
  let ?b = "replicate 8000 9 :: bytes"
  from sample_growable obtain s where s: "sample_handle (process_start sample_append_img 100) = Inr (Some 0, s)" "growable sample_sb s 0 3"
    "f_type (ftable s 0) = FD_INODE" "f_ip (ftable s 0) = Some 0" "f_writable (ftable s 0)" "i_size (inodes s 0) = 5000" "i_inum (inodes s 0) = 1" by blast
  have w: "WRITE_MAX = 6656" by (simp add: WRITE_MAX_def layout)
  have g: "growable sample_sb s 0 (pieces (length ?b) + (if i_size (inodes s 0) < 6000 then 1 else 0))" using s(2,6) by (simp add: pieces_def w)
  have o: "unat (6000 :: u32) \<le> unat (i_size (inodes s 0)) + WRITE_MAX" "unat (6000 :: u32) + length ?b \<le> NB * BSIZE"
    using s(6) by (simp_all add: w NB_def layout)
  have c: "overlay (unat (6000 :: u32)) xs (padded (unat (6000 :: u32)) (content s (inodes s 0))) = content s (inodes s 0) @ replicate 1000 0 @ xs" for xs
    using s(6) by (simp add: overlay_def padded_def)
  from sys_write_refines [OF g s(3-5) o, unfolded s(7) c] obtain s' where s': "sys_write (Some 0) ?b 6000 s = Inr (int (length ?b), s')" "settled s s'"
    "content s' (inodes s' 0) = content s (inodes s 0) @ replicate 1000 0 @ ?b" and
    cr: "\<And>es fs d. events s' = events s @ es @ fs \<Longrightarrow> crash_image es (disk s) d \<Longrightarrow>
       \<exists>k t. k \<le> length ?b \<and> (k = length ?b \<or> WRITE_MAX dvd k) \<and> mount (process_start d (nblk s)) = Inr ((), t) \<and> lsec t = [] \<and>
          content t (disk_inode t 1) \<in> {content s (inodes s 0), content s (inodes s 0) @ replicate 1000 0 @ take k ?b}"
    by (elim exE conjE) (rule that, assumption+, blast)
  from settled_crash [OF s'(2)] obtain es where es: "events s' = events s @ es @ []" "crash_image es (disk s) (disk s')" by auto
  from cr [OF es] obtain k t where k: "k \<le> length ?b" "k = length ?b \<or> WRITE_MAX dvd k" "mount (process_start (disk s') (nblk s)) = Inr ((), t)"
    "content t (disk_inode t 1) \<in> {content s (inodes s 0), content s (inodes s 0) @ replicate 1000 0 @ take k ?b}" by blast
  have "k \<in> {0, WRITE_MAX, 8000}" unfolding w using k(1,2) [unfolded w] by (auto elim!: dvdE)
  moreover have "take k ?b = replicate k 9" using k(1) by (simp add: min_absorb1)
  ultimately show ?thesis using s(1) s'(1,3) es k(3,4)
    by (intro exI [of _ s] exI [of _ s'] exI [of _ es] exI [of _ "disk s'"] exI [of _ k] exI [of _ t] conjI) simp_all
qed

end
