(* ===== verification/Unlink.thy ===== *)
theory Unlink
  imports Write_Content
begin

text \<open>
  Removing a file: \<open>sys_unlink\<close> clears the entry in the directory and, when it was the last link and
  nobody has the file open, frees the inode and its blocks, all in one transaction.
\<close>

section \<open>Freeing an inode\<close>

lemma file_blocks_iaddr:
  "file_blocks s i = filter (\<lambda>a. a \<noteq> 0) (map (iaddr s i) [0..<NB]) @ (if i_addrs i NDIRECT = 0 then [] else [i_addrs i NDIRECT])"
proof -
  have "[0..<NB] = [0..<NDIRECT] @ map (\<lambda>k. k + NDIRECT) [0..<NINDIRECT]" 
    using upt_add_eq_append [of 0 NDIRECT NINDIRECT] map_add_upt [of NDIRECT NINDIRECT] by (simp add: NB_def add.commute [of NDIRECT])
  moreover have "map (i_addrs i) [0..<NDIRECT] = map (iaddr s i) [0..<NDIRECT]" by (simp add: iaddr_def)
  moreover have "map (iaddr s i \<circ> (\<lambda>k. k + NDIRECT)) [0..<NINDIRECT] =
      (if i_addrs i NDIRECT = 0 then map (\<lambda>_. 0) [0..<NINDIRECT] else map (\<lambda>j. get32 (view s (i_addrs i NDIRECT)) (4 * j)) [0..<NINDIRECT])"
    by (simp add: iaddr_def)
  ultimately show ?thesis unfolding file_blocks_def slots_def entries_def by (simp add: filter_empty_conv del: map_eq_conv)
qed

lemma set_file_blocks: "set (file_blocks s i) = file_blks s i"
  by (auto simp: file_blocks_iaddr file_blks_def)

lemma distinct_nonzero:
  "distinct xs \<Longrightarrow> (\<And>x y. x \<in> set xs \<Longrightarrow> y \<in> set xs \<Longrightarrow> f x \<noteq> 0 \<Longrightarrow> f x = f y \<Longrightarrow> x = y) \<Longrightarrow> distinct (filter (\<lambda>a. a \<noteq> (0 :: u32)) (map f xs))"
proof (induction xs)
  case (Cons x xs)
  then have "f x \<notin> set (map f xs)" if "f x \<noteq> 0" using that by fastforce
  moreover have "distinct (filter (\<lambda>a. a \<noteq> 0) (map f xs))" using Cons by simp
  ultimately show ?case by auto
qed simp

lemma distinct_file_blocks: "file_inj s i \<Longrightarrow> distinct (file_blocks s i)"
  unfolding file_blocks_iaddr by (auto simp: file_inj_def intro!: distinct_nonzero)

lemma put_dinode_slot:
  "p < dinode_offset m \<or> dinode_offset m + SIZEOF_DINODE \<le> p \<Longrightarrow> put_dinode (NDIRECT + 1) d (dinode_offset m) di p = d p"
  by (rule put_dinode_other) (auto simp: layout)

text \<open>Dropping the last reference to an inode without links.\<close>

lemma iput_frees:
  assumes s: "linv s" "held s = {}" "fs_geom s sb" "outstanding (thelog s) \<ge> 1" "int (card (set (lsec s) \<union> bitmap sb)) + 2 < log_size (thelog s)"
    and i: "inodes s ip = i" "i_dev i = ROOTDEV" "i_ref i = 1" "flag I_VALID (i_flags i)" "\<not> flag I_BUSY (i_flags i)" "i_nlink i = 0"
    and f: "file_wf s sb i" "home_sector s (IBLOCK (i_inum i))" "IBLOCK (i_inum i) \<notin> bitmap sb" "IBLOCK (i_inum i) \<in> set (lsec s)"
  shows "\<exists>s' i'. iput ip s = Inr ((), s') \<and> tstep s s' \<and> inodes s' = (inodes s)(ip := i') \<and> i_ref i' = 0 \<and>
    (\<forall>b < unat (sb_size sb). blk_used s' sb b \<longleftrightarrow> blk_used s sb b \<and> of_nat b \<notin> file_blks s i) \<and>
    (\<forall>a. a \<notin> bitmap sb \<longrightarrow> a \<noteq> IBLOCK (i_inum i) \<longrightarrow> view s' a = view s a) \<and>
    (\<forall>p. p < dinode_offset (i_inum i) \<or> dinode_offset (i_inum i) + SIZEOF_DINODE \<le> p \<longrightarrow>
       view s' (IBLOCK (i_inum i)) p = view s (IBLOCK (i_inum i)) p) \<and> i_type (disk_inode s' (i_inum i)) = 0"
proof -
  let ?B = "IBLOCK (i_inum i)" and ?o = "dinode_offset (i_inum i)"
  define j where "j = i\<lparr>i_flags := set_flag I_BUSY (i_flags i)\<rparr>"
  let ?u = "s\<lparr>inodes := (inodes s)(ip := j)\<rparr>"
  have j: "i_dev j = ROOTDEV" "i_inum j = i_inum i" "i_addrs j = i_addrs i" "i_ref j = 1" using i by (simp_all add: j_def)
  have fb: "file_blocks ?u j = file_blocks s i" "file_blks ?u j = file_blks s i" by (simp_all add: file_blocks_def slots_def j_def)
  have w: "\<And>b. b \<in> file_blks s i \<Longrightarrow> home_sector s b \<and> unat b < unat (sb_size sb) \<and> b \<notin> bitmap sb \<and> blk_used s sb (unat b)" "file_inj s i"
    using f(1) by (auto simp: file_wf_def)
  have nd: "i_addrs j NDIRECT \<noteq> 0 \<longrightarrow> home_sector ?u (i_addrs j NDIRECT) \<and> i_addrs j NDIRECT \<notin> bitmap sb"
    using w(1) [of "i_addrs i NDIRECT"] j(3) by (auto simp: file_blks_def)
  have pre: "linv ?u" "held ?u = {}" "fs_geom ?u sb" "outstanding (thelog ?u) \<ge> 1" "i_dev j = ROOTDEV"
    "home_sector ?u (IBLOCK (i_inum j))" "IBLOCK (i_inum j) \<notin> bitmap sb" "distinct (file_blocks ?u j)"
    "\<forall>b \<in> set (file_blocks ?u j). unat b < unat (sb_size sb) \<and> blk_used ?u sb (unat b)"
    using s(1-4) f(2,3) w distinct_file_blocks [OF w(2)] fb j by (simp_all add: set_file_blocks fs_geom_def log_at_def)
  have lu: "int (card (set (lsec ?u) \<union> bitmap sb)) + 2 < log_size (thelog ?u)" using s(5) by (simp add: lsec_def)
  have jj: "inodes ?u ip = j" by simp
  from itrunc_ok [of ?u sb ip, unfolded jj, OF pre nd lu] obtain t v where v: "itrunc ip ?u = Inr ((), v)" "freed sb ?u (file_blocks s i) t"
    "tstep ?u v" "inodes v = (inodes ?u)(ip := emptied j)"
    "view v = (view t)(?B := put_dinode (NDIRECT + 1) (view s ?B) ?o (dinode_of (emptied j)))" "set (lsec v) \<subseteq> set (lsec s) \<union> bitmap sb \<union> {?B}"
    unfolding fb j(2) by (auto simp: lsec_def)
  note g = tstep_geom [OF v(3)]
  let ?k = "(emptied j)\<lparr>i_type := 0\<rparr>"
  let ?w = "v\<lparr>inodes := (inodes v)(ip := ?k)\<rparr>"
  have k: "i_dev ?k = ROOTDEV" "i_inum ?k = i_inum i" using j by (simp_all add: emptied_def)
  have lw: "linv ?w" "held ?w = {}" using tstep_linv [OF v(3)] tstep_held [OF v(3)] s(2) by simp_all
  have "length (lsec v) = card (set (lsec v))" using linv_facts(3) [OF tstep_linv [OF v(3)]] by (simp add: lsecs_ok_def distinct_card)
  also have "\<dots> \<le> card (set (lsec s) \<union> bitmap sb)" using v(6) f(4) by (intro card_mono) (auto simp: bitmap_def)
  finally have "int (length (lsec v)) + 1 < log_size (thelog v)" using s(5) g(4) by simp
  moreover have "lsec ?w = lsec v" by (simp add: lsec_def)
  ultimately have fit: "int (length (lsec ?w)) + 1 < log_size (thelog ?w)" by simp
  from iupdate_ok [OF lw(1) linv_room [OF lw], of ip] k f(2) lw(2) g fit s(4) obtain z where z: "iupdate ip ?w = Inr ((), z)" "tstep ?w z"
    "inodes z = inodes ?w" "view z = (view v)(?B := put_dinode (NDIRECT + 1) (view v ?B) ?o (dinode_of ?k))" by auto
  let ?i = "?k\<lparr>i_flags := 0, i_ref := 0\<rparr>"
  let ?s = "z\<lparr>inodes := (inodes s)(ip := ?i)\<rparr>"
  have rk: "i_ref ?k = 1" using j(4) by (simp add: emptied_def)
  have run: "iput ip s = Inr ((), ?s)"
    using i v(1,4) z(1,3) rk by (simp add: INT_MIN_def iput_def ino_at_def upd_ino_def j_def)
  have st: "tstep s v" "tstep s ?s"
  proof -
    show sv: "tstep s v" using v(3) by (simp add: tstep_def tenv_eq)
    have "tstep v z" using z(2) by (simp add: tstep_def tenv_eq)
    from tstep_trans [OF sv this] show "tstep s ?s" by (simp add: tstep_def tenv_eq)
  qed
  have us: "blk_used ?s sb b \<longleftrightarrow> blk_used s sb b \<and> of_nat b \<notin> file_blks s i" if b: "b < unat (sb_size sb)" for b
  proof -
    have "bmp sb b \<noteq> ?B" using bmp_in_bitmap [OF b] f(3) by metis
    then have "blk_used ?s sb b = blk_used t sb b" using z(4) v(5) by (simp add: blk_used_def)
    moreover have "unat (of_nat b :: u32) = b" using b fs_geom_small [OF s(3)] by (intro unat_of_nat_small) simp
    then have "b \<in> unat ` set (file_blocks s i) \<longleftrightarrow> of_nat b \<in> file_blks s i" using unat_image_iff [of "of_nat b"] by (simp add: set_file_blocks)
    ultimately show ?thesis using v(2) b by (simp add: freed_def)
  qed
  have vw: "view ?s a = view s a" if "a \<notin> bitmap sb" "a \<noteq> ?B" for a using that z(4) v(2,5) by (simp add: freed_def)
  have ot: "view ?s ?B p = view s ?B p" if "p < ?o \<or> ?o + SIZEOF_DINODE \<le> p" for p
    using z(4) v(5) put_dinode_slot [OF that] by simp
  have "i_type (disk_inode ?s (i_inum i)) = 0"
    using z(4) by (simp add: disk_inode_def loaded_def load_dinode_def get_put_dinode_fields dinode_of_def)
  then show ?thesis using run st(2) us vw ot by (intro exI [of _ ?s] exI [of _ ?i]) simp
qed

section \<open>The steps after the lookup\<close>

text \<open>
  What unlinking the file \<open>m\<close> in directory \<open>n\<close> needs: both are well formed and share no block, the file has
  one link and is not in the cache, and the log has space.
\<close>

definition can_unlink :: "kern \<Rightarrow> superblock \<Rightarrow> u32 \<Rightarrow> u32 \<Rightarrow> bool" where
  "can_unlink s sb n m \<longleftrightarrow> alloc_ready s sb \<and> lsec s = [] \<and> int (card (bitmap sb)) + 4 < log_size (thelog s) \<and>
     file_wf s sb (disk_inode s n) \<and> inode_apart s sb (disk_inode s n) \<and> file_wf s sb (disk_inode s m) \<and> inode_apart s sb (disk_inode s m) \<and>
     IBLOCK m \<notin> file_blks s (disk_inode s n) \<and> file_blks s (disk_inode s n) \<inter> file_blks s (disk_inode s m) = {} \<and>
     inode_ok s m \<and> i_type (disk_inode s m) \<noteq> T_DIR \<and> i_nlink (disk_inode s m) = 1 \<and>
     (\<forall>ip < NINODE. i_ref (inodes s ip) \<ge> 1 \<longrightarrow> i_inum (inodes s ip) \<noteq> m)"

definition no_entry :: dirent where
  "no_entry = \<lparr>de_inum = 0, de_name = replicate DIRSIZ 0\<rparr>"

lemma no_entry: "bytes_of_dirent no_entry = replicate SIZEOF_DIRENT 0" "length (de_name no_entry) = DIRSIZ" "\<not> is_entry nm no_entry"
proof -
  have e: "SIZEOF_DIRENT = Suc (Suc DIRSIZ)" by (simp add: layout)
  show "bytes_of_dirent no_entry = replicate SIZEOF_DIRENT 0" unfolding e by (simp add: bytes_of_dirent_def no_entry_def)
qed (simp_all add: no_entry_def is_entry_def)

text \<open>From \<open>s\<close> to \<open>t\<close> entry \<open>j\<close> of directory \<open>n\<close> has been cleared, and inode \<open>m\<close> and its blocks freed.\<close>

definition unlinked :: "superblock \<Rightarrow> kern \<Rightarrow> u32 \<Rightarrow> u32 \<Rightarrow> nat \<Rightarrow> kern \<Rightarrow> bool" where
  "unlinked sb s n m j t \<longleftrightarrow> tstep s t \<and> disk_inode t n = disk_inode s n \<and> i_type (disk_inode t m) = 0 \<and>
     (\<forall>k < dir_entries (disk_inode s n). entry t (disk_inode s n) k = (if k = j then no_entry else entry s (disk_inode s n) k)) \<and>
     (\<forall>b < unat (sb_size sb). blk_used t sb b \<longleftrightarrow> blk_used s sb b \<and> of_nat b \<notin> file_blks s (disk_inode s m)) \<and>
     (\<forall>x. x \<noteq> 0 \<longrightarrow> x \<notin> bitmap sb \<longrightarrow> x \<noteq> IBLOCK m \<longrightarrow> x \<notin> file_blks s (disk_inode s n) \<longrightarrow> view t x = view s x) \<and>
     (\<forall>jp. i_ref (inodes t jp) = i_ref (inodes s jp)) \<and>
     (\<forall>a \<in> file_blks t (disk_inode s n). home_sector s a) \<and> dir_ok t (disk_inode s n) (dir_entries (disk_inode s n))"

text \<open>Clearing the entry leaves the file as it is.\<close>

lemma file_after_clear:
  assumes "alloc_ready s sb" "file_wf s sb d" "\<forall>x. x \<noteq> 0 \<longrightarrow> x \<notin> file_blks s d \<longrightarrow> view t x = view s x" "tstep s t"
    "file_wf s sb i" "file_blks s d \<inter> file_blks s i = {}"
  shows "\<And>b. b < unat (sb_size sb) \<Longrightarrow> blk_used t sb b = blk_used s sb b" "file_blks t i = file_blks s i" "file_wf t sb i"
proof -
  have g: "fs_geom s sb" using assms(1) by (simp add: alloc_ready_def)
  have bz: "view t x = view s x" if x: "x \<in> bitmap sb" for x
  proof -
    have "home_sector s x" using x g by (auto simp: bitmap_def fs_geom_def)
    then have "x \<noteq> 0" using geom_start(1) [OF g, of x] by auto
    moreover have "x \<notin> file_blks s d" using x assms(2) by (auto simp: file_wf_def)
    ultimately show ?thesis using assms(3) by blast
  qed
  show us: "blk_used t sb b = blk_used s sb b" if "b < unat (sb_size sb)" for b
    using bz [OF bmp_in_bitmap [OF that]] by (simp add: blk_used_def)
  have "\<forall>a \<in> file_blks s i. view t a = view s a" using assms(3,6) by (auto simp: file_blks_def)
  note c = file_cong [OF this]
  show "file_blks t i = file_blks s i" by (rule c(2))
  show "file_wf t sb i" using assms(5) us tstep_geom(1) [OF assms(4)] unfolding file_wf_def file_inj_def c(1,2) by auto
qed

text \<open>After the entry is cleared: the link count drops to zero and the inode is freed.\<close>

lemma drop_last_link:
  assumes s: "linv s" "held s = {}" "fs_geom s sb" "outstanding (thelog s) \<ge> 1" "length (lsec s) \<le> 1" "int (card (bitmap sb)) + 4 < log_size (thelog s)"
    and i: "inodes s ip = i" "i_dev i = ROOTDEV" "i_ref i = 1" "flag I_VALID (i_flags i)" "flag I_BUSY (i_flags i)" "i_nlink i = 1" "i_inum i = m"
    and f: "file_wf s sb i" "home_sector s (IBLOCK m)" "IBLOCK m \<notin> bitmap sb" "IBLOCK m \<notin> file_blks s i"
  shows "\<exists>s' i'. bnd (upd_ino ip (\<lambda>i. i\<lparr>i_nlink := i_nlink i - 1\<rparr>)) (\<lambda>_. bnd (iupdate ip) (\<lambda>_. bnd (iunlockput ip) (\<lambda>_. ret (0 :: int)))) s = Inr (0, s') \<and>
    tstep s s' \<and> inodes s' = (inodes s)(ip := i') \<and> i_ref i' = 0 \<and>
    (\<forall>b < unat (sb_size sb). blk_used s' sb b \<longleftrightarrow> blk_used s sb b \<and> of_nat b \<notin> file_blks s i) \<and>
    (\<forall>a. a \<notin> bitmap sb \<longrightarrow> a \<noteq> IBLOCK m \<longrightarrow> view s' a = view s a) \<and>
    (\<forall>p. p < dinode_offset m \<or> dinode_offset m + SIZEOF_DINODE \<le> p \<longrightarrow> view s' (IBLOCK m) p = view s (IBLOCK m) p) \<and>
    i_type (disk_inode s' m) = 0"
proof -
  let ?B = "IBLOCK m"
  define j where "j = i\<lparr>i_nlink := 0\<rparr>"
  let ?a = "s\<lparr>inodes := (inodes s)(ip := j)\<rparr>"
  have ja: "inodes ?a ip = j" "i_dev j = ROOTDEV" "i_inum j = m" using i by (simp_all add: j_def)
  have la: "linv ?a" "held ?a = {}" "lsec ?a = lsec s" using s(1,2) by (simp_all add: lsec_def)
  have "int (length (lsec ?a)) + 1 < log_size (thelog ?a)" using s(5,6) la(3) by simp
  from iupdate_ok [OF la(1) linv_room [OF la(1,2)], of ip] ja f(2) la(2) s(4) this obtain u where u: "iupdate ip ?a = Inr ((), u)" "tstep ?a u"
    "inodes u = inodes ?a" "lsec u = log_add ?B (lsec s)" "view u = (view s)(?B := put_dinode (NDIRECT + 1) (view s ?B) (dinode_offset m) (dinode_of j))"
    using la(3) by auto
  define k where "k = j\<lparr>i_flags := clear_flag I_BUSY (i_flags j)\<rparr>"
  let ?v = "u\<lparr>inodes := (inodes s)(ip := k)\<rparr>"
  note g = tstep_geom [OF u(2)]
  have ub: "flag I_BUSY (i_flags j)" "i_ref j = 1" using i by (simp_all add: j_def)
  have un: "iunlock (Some ip) u = Inr ((), ?v)" using u(3) ub by (simp add: iunlock_def ino_at_def upd_ino_def k_def)
  have kv: "inodes ?v ip = k" "i_dev k = ROOTDEV" "i_ref k = 1" "flag I_VALID (i_flags k)" "\<not> flag I_BUSY (i_flags k)" "i_nlink k = 0" "i_inum k = m"
    "i_addrs k = i_addrs i" using i by (simp_all add: k_def j_def)
  have ia: "iaddr s k = iaddr s i" "file_blks s k = file_blks s i" using kv(8) by (simp_all add: iaddr_def file_blks_def fun_eq_iff)
  have "\<forall>x \<in> file_blks s k. view ?v x = view s x" using u(5) f(4) ia(2) by auto
  note fc = file_cong [OF this]
  have us: "blk_used ?v sb b = blk_used s sb b" if "b < unat (sb_size sb)" for b using used_outside_bitmap [of ?v s ?B _ sb b] u(5) f(3) that by simp
  have wf: "file_wf ?v sb k" using f(1) us g(1) unfolding file_wf_def file_inj_def fc(1,2) ia kv(8) by auto
  have "?B \<noteq> 1" using f(2) not_one_home by auto
  then have gv: "fs_geom ?v sb" using s(3) u(5) g(1,3) by (simp add: fs_geom_def log_at_def)
  have lv: "linv ?v" "held ?v = {}" "lsec ?v = lsec u" "outstanding (thelog ?v) \<ge> 1" "home_sector ?v (IBLOCK (i_inum k))"
    using tstep_linv [OF u(2)] tstep_held [OF u(2)] s(2,4) g f(2) kv(7) by (simp_all add: lsec_def)
  have "card (set (lsec u)) \<le> 2" using u(4) s(5) card_length [of "lsec u"] by (auto simp: log_add_def split: if_splits)
  then have "card (set (lsec u) \<union> bitmap sb) \<le> 2 + card (bitmap sb)" using card_Un_le [of "set (lsec u)" "bitmap sb"] by linarith
  then have sp: "int (card (set (lsec ?v) \<union> bitmap sb)) + 2 < log_size (thelog ?v)" using s(6) g(4) lv(3) by simp
  have B: "IBLOCK (i_inum k) \<notin> bitmap sb" "IBLOCK (i_inum k) \<in> set (lsec ?v)" using f(3) kv(7) lv(3) u(4) by (auto simp: log_add_def)
  from iput_frees [OF lv(1,2) gv lv(4) sp kv(1-6) wf lv(5) B] obtain s' i' where s': "iput ip ?v = Inr ((), s')" "tstep ?v s'"
    "inodes s' = (inodes ?v)(ip := i')" "i_ref i' = 0"
    "\<forall>b < unat (sb_size sb). blk_used s' sb b \<longleftrightarrow> blk_used ?v sb b \<and> of_nat b \<notin> file_blks ?v k"
    "\<forall>a. a \<notin> bitmap sb \<longrightarrow> a \<noteq> ?B \<longrightarrow> view s' a = view ?v a"
    "\<forall>p. p < dinode_offset m \<or> dinode_offset m + SIZEOF_DINODE \<le> p \<longrightarrow> view s' ?B p = view ?v ?B p" "i_type (disk_inode s' m) = 0"
    unfolding kv(7) by blast
  have "j = i\<lparr>i_nlink := i_nlink i - 1\<rparr>" using i(6) by (simp add: j_def)
  then have run: "bnd (upd_ino ip (\<lambda>i. i\<lparr>i_nlink := i_nlink i - 1\<rparr>)) (\<lambda>_. bnd (iupdate ip) (\<lambda>_. bnd (iunlockput ip) (\<lambda>_. ret (0 :: int)))) s = Inr (0, s')"
    using i(1) u(1) un s'(1) by (simp add: upd_ino_def iunlockput_def)
  have "tstep s ?v" using u(2) by (simp add: tstep_def tenv_eq)
  then have st: "tstep s s'" by (rule tstep_trans [OF _ s'(2)])
  have ot: "view s' ?B p = view s ?B p" if p: "p < dinode_offset m \<or> dinode_offset m + SIZEOF_DINODE \<le> p" for p
  proof -
    have "view s' ?B p = view ?v ?B p" using s'(7) p by blast
    then show ?thesis using u(5) put_dinode_slot [OF p] by simp
  qed
  have bl: "\<forall>b < unat (sb_size sb). blk_used s' sb b \<longleftrightarrow> blk_used s sb b \<and> of_nat b \<notin> file_blks s i" using s'(5) us fc(2) ia(2) by simp
  have vw: "\<forall>a. a \<notin> bitmap sb \<longrightarrow> a \<noteq> ?B \<longrightarrow> view s' a = view s a" using s'(6) u(5) by simp
  have "inodes s' = (inodes s)(ip := i')" using s'(3) by simp
  then show ?thesis using run st s'(4,8) bl vw ot by (intro exI [of _ s'] exI [of _ i']) blast
qed

text \<open>Storing the empty entry.\<close>

definition cleared :: "superblock \<Rightarrow> kern \<Rightarrow> u32 \<Rightarrow> u32 \<Rightarrow> nat \<Rightarrow> kern \<Rightarrow> bool" where
  "cleared sb s n m j t \<longleftrightarrow> tstep s t \<and> length (lsec t) \<le> 1 \<and> fs_geom t sb \<and> dir_ok t (disk_inode s n) (dir_entries (disk_inode s n)) \<and>
     (\<forall>k < dir_entries (disk_inode s n). entry t (disk_inode s n) k = (if k = j then no_entry else entry s (disk_inode s n) k)) \<and>
     file_wf t sb (disk_inode s n) \<and> (\<forall>a \<in> file_blks t (disk_inode s n). a \<in> file_blks s (disk_inode s n) \<or> \<not> blk_used s sb (unat a)) \<and>
     (\<forall>x. x \<noteq> 0 \<longrightarrow> x \<notin> file_blks s (disk_inode s n) \<longrightarrow> view t x = view s x) \<and> (\<forall>b < unat (sb_size sb). blk_used t sb b = blk_used s sb b) \<and>
     file_wf t sb (disk_inode s m) \<and> file_blks t (disk_inode s m) = file_blks s (disk_inode s m)"

lemma clear_entry:
  assumes w: "on_way s0 c R L" "dp \<in># R" "held s0 = {}" and can: "can_unlink s0 sb n m"
    and d: "i_inum (inodes c dp) = n" "same_file (disk_inode s0 n) (inodes c dp)" "inode_ok s0 n" "i_type (disk_inode s0 n) = T_DIR"
    and j: "j < dir_entries (disk_inode s0 n)"
  shows "\<exists>t. writei dp (replicate SIZEOF_DIRENT 0) (of_nat (j * SIZEOF_DIRENT)) (of_nat SIZEOF_DIRENT) c = Inr (int SIZEOF_DIRENT, t) \<and>
    inodes t = inodes c \<and> cleared sb s0 n m j t"
proof -
  let ?d = "inodes c dp" and ?D = "disk_inode s0 n" and ?F = "disk_inode s0 m"
  note cu = can [unfolded can_unlink_def]
  have st: "tstep s0 c" "view c = view s0" "lsec c = lsec s0" using w(1) by (auto simp: on_way_def)
  note gr = same_growth [OF st] and gs = tstep_geom [OF st(1)] and f = on_way_frame [OF w(1)]
  have dv: "i_dev ?d = i_dev ?D" using on_way_held [OF w(1,2)] disk_inode_inum(2) by (simp add: entry_ok_def)
  note sd = same_file_dir [OF d(2) dv] and sw = same_file_wf [OF d(2)]
  have ar: "alloc_ready c sb" "file_wf c sb ?d" "held c = {}" "file_wf c sb ?F" using cu gr sw(2) f(2) w(3) by simp_all
  have ap: "inode_apart c sb ?d" using cu gr(1,2) gs(1) sw(1) d(1) disk_inode_inum by (simp add: inode_apart_def)
  have dk: "dir_ok c ?d (dir_entries ?D)" using d(3,4) sd f by (simp add: inode_ok_def)
  have "card (log_blks c sb ?d) \<le> Suc (card (bitmap sb))" using st(3) cu by (simp add: log_blks_def card_insert_if)
  then have "log_fits c sb ?d 2" using cu gs(4) by (simp add: log_fits_def)
  from link_in_place [OF ar(1,3) dk ar(2) ap j this no_entry(2)] obtain t where
    t: "writei dp (replicate SIZEOF_DIRENT 0) (of_nat (j * SIZEOF_DIRENT)) (of_nat SIZEOF_DIRENT) c = Inr (int SIZEOF_DIRENT, t)" "inodes t = inodes c"
    "linked sb c ?d (dir_entries ?D) j no_entry t ?d" "length (lsec t) \<le> Suc (length (lsec c))" "\<forall>x. x \<noteq> 0 \<longrightarrow> x \<notin> file_blks c ?d \<longrightarrow> view t x = view c x"
    unfolding no_entry(1) by blast
  have tt: "tstep c t" "dir_ok t ?d (dir_entries ?D)" "\<And>k. k < dir_entries ?D \<Longrightarrow> entry t ?d k = (if k = j then no_entry else entry c ?d k)"
    "file_wf t sb ?d" "\<forall>a \<in> file_blks t ?d. a \<in> file_blks c ?d \<or> \<not> blk_used c sb (unat a)"
    using t(3) unfolding linked_def max_absorb1 [OF Suc_leI [OF j]] by simp_all
  have fd: "file_blks c ?d = file_blks s0 ?D" "file_blks c ?F = file_blks s0 ?F" using gr(2) sw(1) by simp_all
  have "file_blks c ?d \<inter> file_blks c ?F = {}" using cu fd by simp
  note fa = file_after_clear [OF ar(1,2) t(5) tt(1) ar(4) this]
  have "1 \<notin> file_blks c ?d" using ar(2) not_one_home by (auto simp: file_wf_def)
  then have "view t 1 = view c 1" using t(5) by simp
  then have geo: "fs_geom t sb" using fs_geom_step [OF _ tt(1)] ar(1) by (simp add: alloc_ready_def)
  have en: "entry t ?D k = (if k = j then no_entry else entry s0 ?D k)" if "k < dir_entries ?D" for k using tt(3) [OF that] sd(1) f(6) by simp
  have "cleared sb s0 n m j t" unfolding cleared_def
    using tstep_trans [OF st(1) tt(1)] t(4,5) cu st(2,3) geo tt(2,4,5) sd(2) sw(1,2) en fd fa gr(1) by simp
  with t(1,2) show ?thesis by blast
qed

text \<open>The whole of it, from both inodes locked.\<close>

lemma unlink_entry_ok:
  assumes w: "on_way s0 c {#ip, dp#} {ip, dp}" "held s0 = {}" and can: "can_unlink s0 sb n m"
    and d: "i_inum (inodes c dp) = n" "flag I_BUSY (i_flags (inodes c dp))" "same_file (disk_inode s0 n) (inodes c dp)" "inode_ok s0 n"
      "i_type (disk_inode s0 n) = T_DIR"
    and i: "i_inum (inodes c ip) = m" "flag I_BUSY (i_flags (inodes c ip))" "flag I_VALID (i_flags (inodes c ip))" "same_file (disk_inode s0 m) (inodes c ip)"
    and j: "j < dir_entries (disk_inode s0 n)"
  shows "\<exists>t s'. unlink_entry dp ip (of_nat (j * SIZEOF_DIRENT)) c = Inr (0, s') \<and> cleared sb s0 n m j t \<and> tstep t s' \<and>
    (\<forall>jp. i_ref (inodes s' jp) = i_ref (inodes s0 jp)) \<and>
    (\<forall>b < unat (sb_size sb). blk_used s' sb b \<longleftrightarrow> blk_used t sb b \<and> of_nat b \<notin> file_blks s0 (disk_inode s0 m)) \<and>
    (\<forall>a. a \<notin> bitmap sb \<longrightarrow> a \<noteq> IBLOCK m \<longrightarrow> view s' a = view t a) \<and>
    (\<forall>p. p < dinode_offset m \<or> dinode_offset m + SIZEOF_DINODE \<le> p \<longrightarrow> view s' (IBLOCK m) p = view t (IBLOCK m) p) \<and>
    i_type (disk_inode s' m) = 0"
proof -
  let ?d = "inodes c dp" and ?i = "inodes c ip" and ?D = "disk_inode s0 n" and ?F = "disk_inode s0 m"
  note cu = can [unfolded can_unlink_def]
  have ne: "ip \<noteq> dp" using cu d(1,5) i(1) by auto
  have hd: "i_ref ?d \<ge> 1" "i_dev ?i = ROOTDEV" "ip < NINODE"
    using on_way_held [OF w(1), of dp] on_way_held [OF w(1), of ip] by (simp_all add: entry_ok_def)
  have rf: "i_ref (inodes c jp) = i_ref (inodes s0 jp) + int (count {#ip, dp#} jp)" "i_ref (inodes s0 jp) \<ge> 1 \<Longrightarrow> ikey (inodes c jp) = ikey (inodes s0 jp)" for jp
    using w(1) by (auto simp: on_way_def)
  have r0: "i_ref (inodes s0 ip) = 0"
  proof (rule ccontr)
    assume "i_ref (inodes s0 ip) \<noteq> 0"
    then have "i_ref (inodes s0 ip) \<ge> 1" using w(1) hd(3) by (auto simp: on_way_def ref_room_def order.order_iff_strict)
    with rf(2) [of ip] i(1) cu hd(3) show False by (auto simp: ikey_def)
  qed
  then have ri: "i_ref ?i = 1" using rf(1) [of ip] ne by simp
  from clear_entry [OF w(1) _ w(2) can d(1,3-5) j] obtain t where
    t: "writei dp (replicate SIZEOF_DIRENT 0) (of_nat (j * SIZEOF_DIRENT)) (of_nat SIZEOF_DIRENT) c = Inr (int SIZEOF_DIRENT, t)"
    "inodes t = inodes c" "cleared sb s0 n m j t" by auto
  note cl = t(3) [unfolded cleared_def]
  have tt: "tstep s0 t" using cl by simp
  note g = tstep_geom [OF tt]
  let ?d' = "?d\<lparr>i_flags := clear_flag I_BUSY (i_flags ?d), i_ref := i_ref ?d - 1\<rparr>"
  let ?u = "t\<lparr>inodes := (inodes c)(dp := ?d')\<rparr>"
  have "i_nlink ?d \<noteq> 0" using d(3,4) by (simp add: inode_ok_def same_file_def)
  then have put: "iunlockput dp t = Inr ((), ?u)" using t(2) d(2) hd(1) by (simp add: iunlockput_def iunlock_def iput_def ino_at_def upd_ino_def INT_MIN_def)
  have u: "linv ?u" "held ?u = {}" "fs_geom ?u sb" "outstanding (thelog ?u) \<ge> 1" "length (lsec ?u) \<le> 1" "int (card (bitmap sb)) + 4 < log_size (thelog ?u)"
    using tstep_linv [OF tt] tstep_held [OF tt] w(2) cl cu g(4,5) by (simp_all add: alloc_ready_def lsec_def fs_geom_def log_at_def)
  note si = same_file_wf [OF i(4)]
  have ii: "inodes ?u ip = ?i" "i_nlink ?i = 1" "i_type ?i \<noteq> T_DIR" using ne cu i(4) by (simp_all add: same_file_def)
  have B: "file_wf ?u sb ?i" "home_sector ?u (IBLOCK m)" "IBLOCK m \<notin> bitmap sb" "IBLOCK m \<notin> file_blks ?u ?i"
    using cl cu si(1,2) g(1) disk_inode_inum by (simp_all add: inode_apart_def)
  from drop_last_link [OF u ii(1) hd(2) ri i(3,2) ii(2) i(1) B] obtain s' i' where
    s': "bnd (upd_ino ip (\<lambda>i. i\<lparr>i_nlink := i_nlink i - 1\<rparr>)) (\<lambda>_. bnd (iupdate ip) (\<lambda>_. bnd (iunlockput ip) (\<lambda>_. ret (0 :: int)))) ?u = Inr (0, s')"
    "tstep ?u s'" "inodes s' = (inodes ?u)(ip := i')" "i_ref i' = 0"
    "\<forall>b < unat (sb_size sb). blk_used s' sb b \<longleftrightarrow> blk_used ?u sb b \<and> of_nat b \<notin> file_blks ?u ?i"
    "\<forall>a. a \<notin> bitmap sb \<longrightarrow> a \<noteq> IBLOCK m \<longrightarrow> view s' a = view ?u a"
    "\<forall>p. p < dinode_offset m \<or> dinode_offset m + SIZEOF_DINODE \<le> p \<longrightarrow> view s' (IBLOCK m) p = view ?u (IBLOCK m) p" "i_type (disk_inode s' m) = 0" by blast
  have run: "unlink_entry dp ip (of_nat (j * SIZEOF_DIRENT)) c = Inr (0, s')"
    using t(1,2) ii(3) put s'(1) by (simp add: unlink_entry_def ino_at_def)
  have ref: "i_ref (inodes s' jp) = i_ref (inodes s0 jp)" for jp using s'(3,4) rf(1) [of jp] r0 ne by auto
  have bl: "\<forall>b < unat (sb_size sb). blk_used s' sb b \<longleftrightarrow> blk_used t sb b \<and> of_nat b \<notin> file_blks s0 ?F" using s'(5) si(1) cl by simp
  have "tstep t s'" using s'(2) by (simp add: tstep_def tenv_eq)
  then show ?thesis using run t(3) ref bl s'(6-8) by (intro exI [of _ t] exI [of _ s']) simp
qed

lemma unlinkedI:
  assumes can: "can_unlink s sb n m" "n \<noteq> m" and cl: "cleared sb s n m j t" and t: "tstep t u"
    "\<forall>jp. i_ref (inodes u jp) = i_ref (inodes s jp)"
    "\<forall>b < unat (sb_size sb). blk_used u sb b \<longleftrightarrow> blk_used t sb b \<and> of_nat b \<notin> file_blks s (disk_inode s m)"
    "\<forall>a. a \<notin> bitmap sb \<longrightarrow> a \<noteq> IBLOCK m \<longrightarrow> view u a = view t a"
    "\<forall>p. p < dinode_offset m \<or> dinode_offset m + SIZEOF_DINODE \<le> p \<longrightarrow> view u (IBLOCK m) p = view t (IBLOCK m) p" "i_type (disk_inode u m) = 0"
  shows "unlinked sb s n m j u"
proof -
  let ?D = "disk_inode s n"
  note c = can(1) [unfolded can_unlink_def] and l = cl [unfolded cleared_def]
  have g: "fs_geom s sb" using c by (simp add: alloc_ready_def)
  have ap: "home_sector s (IBLOCK n)" "IBLOCK n \<notin> bitmap sb" "IBLOCK n \<notin> file_blks s ?D" "home_sector s (IBLOCK m)" "blk_used s sb (unat (IBLOCK m))"
    using c disk_inode_inum by (simp_all add: inode_apart_def)
  then have nz: "IBLOCK n \<noteq> 0" "IBLOCK m \<noteq> 0" using geom_start(1) [OF g, of 0] by auto
  have vn: "view t (IBLOCK n) = view s (IBLOCK n)" "view t (IBLOCK m) = view s (IBLOCK m)" using l c ap(3) nz by simp_all
  have dn: "disk_inode u n = ?D" unfolding disk_inode_def
  proof (rule loaded_cong, simp)
    fix p
    assume p: "dinode_offset n \<le> p" "p < dinode_offset n + SIZEOF_DINODE"
    show "view u (IBLOCK n) p = view s (IBLOCK n) p"
    proof (cases "IBLOCK n = IBLOCK m")
      case True
      from slots_apart [OF True can(2)] p have "p < dinode_offset m \<or> dinode_offset m + SIZEOF_DINODE \<le> p" by auto
      with t(5) vn(2) True show ?thesis by auto
    qed (use t(4) ap(2) vn(1) in simp)
  qed
  have fb: "\<forall>a \<in> file_blks t ?D. view u a = view t a"
  proof
    fix a
    assume a: "a \<in> file_blks t ?D"
    then have "a \<notin> bitmap sb" "a \<in> file_blks s ?D \<or> \<not> blk_used s sb (unat a)" using l by (auto simp: file_wf_def)
    moreover from this(2) have "a \<noteq> IBLOCK m" using ap(5) c by auto
    ultimately show "view u a = view t a" using t(4) by blast
  qed
  have dk: "dir_ok t ?D (dir_entries ?D)" using l by simp
  have en: "entry u ?D k = (if k = j then no_entry else entry s ?D k)" if "k < dir_entries ?D" for k
    using entry_cong [OF fb dk that] l that by simp
  have du: "dir_ok u ?D (dir_entries ?D)" using dk mapped_step(1) [OF t(1) file_cong(1) [OF fb]] by (simp add: dir_ok_def)
  have hm: "\<forall>a \<in> file_blks u ?D. home_sector s a" using l tstep_geom(1) [of s t] file_cong(2) [OF fb] by (auto simp: file_wf_def)
  have vw: "view u x = view s x" if "x \<noteq> 0" "x \<notin> bitmap sb" "x \<noteq> IBLOCK m" "x \<notin> file_blks s ?D" for x using that t(4) l by simp
  have "tstep s u" using tstep_trans [OF _ t(1)] l by blast
  then show ?thesis unfolding unlinked_def using dn t(2,3,6) en l vw hm du by simp
qed

text \<open>Looking up names in the directory afterwards.\<close>

lemma unlinked_find:
  assumes "unlinked sb s n m j t" "is_entry name (entry s (disk_inode s n) j)" "j < dir_entries (disk_inode s n)"
    "\<forall>k < dir_entries (disk_inode s n). k \<noteq> j \<longrightarrow> \<not> is_entry name (entry s (disk_inode s n) k)"
  shows "dir_find t (disk_inode t n) name = None"
    "take DIRSIZ nm \<noteq> take DIRSIZ name \<Longrightarrow> dir_find t (disk_inode t n) nm = dir_find s (disk_inode s n) nm"
proof -
  let ?D = "disk_inode s n"
  have dn: "disk_inode t n = ?D" using assms(1) by (simp add: unlinked_def)
  have en: "entry t ?D k = (if k = j then no_entry else entry s ?D k)" if "k < dir_entries ?D" for k using assms(1) that by (simp add: unlinked_def)
  have "lookup_from t ?D name 0 (dir_entries ?D) = None" using en no_entry(3) assms(4) by (auto simp: lookup_from_def find_None_iff)
  then show "dir_find t (disk_inode t n) name = None" by (simp add: dn dir_find_def)
  assume nm: "take DIRSIZ nm \<noteq> take DIRSIZ name"
  then have no: "\<not> is_entry nm (entry s ?D j)" using assms(2) by (auto simp: is_entry_def)
  have eq: "is_entry nm (entry t ?D k) = is_entry nm (entry s ?D k)" if "k < dir_entries ?D" for k using en [OF that] no no_entry(3) by auto
  then have lk: "lookup_from t ?D nm 0 (dir_entries ?D) = lookup_from s ?D nm 0 (dir_entries ?D)" unfolding lookup_from_def by (intro find_cong) auto
  have "entry t ?D k = entry s ?D k" if "lookup_from s ?D nm 0 (dir_entries ?D) = Some k" for k
  proof -
    have "k < dir_entries ?D" "is_entry nm (entry s ?D k)" using that find_SomeD by (fastforce simp: lookup_from_def)+
    with en no show ?thesis by auto
  qed
  then show "dir_find t (disk_inode t n) nm = dir_find s ?D nm"
    using lk by (cases "lookup_from s ?D nm 0 (dir_entries ?D)") (simp_all add: dir_find_def dn)
qed

section \<open>The system call\<close>

lemma sys_dounlink_ok:
  assumes "linv s" "held s = {}" "coherent {} s" "\<forall>ip < NINODE. ref_room (i_ref (inodes s ip))" "2 \<le> card (free_entries s)"
    and "path \<noteq> []" "hd path = SLASH" "0 \<notin> set path" "path_ok s ROOTINO (path_elems path)"
    and "resolve s ROOTINO True (path_elems path) = Some n" "dir_find s (disk_inode s n) (last (path_elems path)) = Some m"
    and "namecmp (last (path_elems path)) DOT \<noteq> 0" "namecmp (last (path_elems path)) DOTDOT \<noteq> 0" and can: "can_unlink s sb n m"
  shows "\<exists>j s'. sys_dounlink path s = Inr (0, s') \<and> unlinked sb s n m j s' \<and>
    lookup_from s (disk_inode s n) (last (path_elems path)) 0 (dir_entries (disk_inode s n)) = Some j"
proof -
  let ?name = "last (path_elems path)"
  note rm = linv_room [OF assms(1,2)] and cu = can [unfolded can_unlink_def]
  have ne: "path_elems path \<noteq> []" using assms(10) by (cases "path_elems path") auto
  have z: "0 \<notin> set ?name" using path_elems_sub [of ?name path] ne assms(8) by auto
  note ok = resolve_parent_ok [OF assms(9,10)]
  from namex_arrives [OF assms(1,2) rm assms(3-9), of True] assms(10) ne obtain dp a where a: "namex path True s = Inr ((Some dp, ?name), a)"
    "i_inum (inodes a dp) = n" "on_way s a {#dp#} {}" by (auto simp: arrived_def)
  from lock_on_way [OF a(3) _ _ assms(2) rm] ok a(2) obtain b where b: "ilock (Some dp) a = Inr ((), b)" "on_way s b {#dp#} {dp}"
    "i_inum (inodes b dp) = n" "flag I_BUSY (i_flags (inodes b dp))" "same_file (disk_inode s n) (inodes b dp)" by auto
  have "i_type (inodes b dp) = T_DIR" using b(5) ok by (simp add: same_file_def)
  from dirlookup_on_way [OF b(2) _ b(5) _ this z rm] ok assms(5,11) obtain ip j t r where
    t: "dirlookup dp ?name b = Inr (Some (ip, of_nat (j * SIZEOF_DIRENT)), t)" "on_way s t {#ip, dp#} {dp}"
    "lookup_from s (disk_inode s n) ?name 0 (dir_entries (disk_inode s n)) = Some j" "i_inum (inodes t ip) = m"
    "inodes t dp = (inodes b dp)\<lparr>i_ref := r\<rparr>" by auto
  have nm: "n \<noteq> m" using cu ok by auto
  then have ni: "ip \<noteq> dp" using t(4,5) b(3) by auto
  have im: "inode_ok s (i_inum (inodes t ip))" using cu t(4) by simp
  from lock_on_way [OF t(2) _ _ assms(2) rm im] ni obtain c where c: "ilock (Some ip) t = Inr ((), c)" "on_way s c {#ip, dp#} {ip, dp}"
    "i_inum (inodes c ip) = m" "flag I_BUSY (i_flags (inodes c ip))" "flag I_VALID (i_flags (inodes c ip))" "same_file (disk_inode s m) (inodes c ip)"
    "inodes c dp = inodes t dp" using t(4) by auto
  have d: "i_inum (inodes c dp) = n" "flag I_BUSY (i_flags (inodes c dp))" "same_file (disk_inode s n) (inodes c dp)"
    using b(3-5) t(5) c(7) by (simp_all add: same_file_def)
  have j: "j < dir_entries (disk_inode s n)" using t(3) find_SomeD by (fastforce simp: lookup_from_def)
  from unlink_entry_ok [OF c(2) assms(2) can d _ _ c(3-6) j] ok obtain v s' where s': "unlink_entry dp ip (of_nat (j * SIZEOF_DIRENT)) c = Inr (0, s')"
    "cleared sb s n m j v" "tstep v s'" "\<forall>jp. i_ref (inodes s' jp) = i_ref (inodes s jp)"
    "\<forall>b < unat (sb_size sb). blk_used s' sb b \<longleftrightarrow> blk_used v sb b \<and> of_nat b \<notin> file_blks s (disk_inode s m)"
    "\<forall>a. a \<notin> bitmap sb \<longrightarrow> a \<noteq> IBLOCK m \<longrightarrow> view s' a = view v a"
    "\<forall>p. p < dinode_offset m \<or> dinode_offset m + SIZEOF_DINODE \<le> p \<longrightarrow> view s' (IBLOCK m) p = view v (IBLOCK m) p" "i_type (disk_inode s' m) = 0" by blast
  have "i_nlink (inodes c ip) = 1" "i_type (inodes c ip) \<noteq> T_DIR" using c(6) cu by (simp_all add: same_file_def)
  then have "sys_dounlink path s = Inr (0, s')"
    using a(1) b(1) t(1) c(1) s'(1) assms(12,13) by (simp add: sys_dounlink_def nameiparent_def ino_at_def)
  with unlinkedI [OF can nm s'(2-8)] t(3) show ?thesis by blast
qed

lemma unlinked_seen:
  assumes "unlinked sb s n m j u" "home_sector s (IBLOCK n)" "home_sector s (IBLOCK m)" "fs_geom s sb" "\<forall>a. home_sector s a \<longrightarrow> view t a = view u a"
  shows "dir_find t (disk_inode t n) = dir_find u (disk_inode u n)" "i_type (disk_inode t m) = 0"
    "\<And>b. b < unat (sb_size sb) \<Longrightarrow> blk_used t sb b \<longleftrightarrow> blk_used s sb b \<and> of_nat b \<notin> file_blks s (disk_inode s m)"
proof -
  note l = assms(1) [unfolded unlinked_def]
  have h: "home_sector u = home_sector s" using tstep_geom(1) l by blast
  have v: "\<forall>a. home_sector u a \<longrightarrow> view t a = view u a" using assms(5) h by simp
  have d: "disk_inode t n = disk_inode u n" "disk_inode t m = disk_inode u m" using disk_inode_cong [OF v] assms(2,3) h by simp_all
  have "\<forall>a \<in> file_blks u (disk_inode u n). view t a = view u a" "dir_ok u (disk_inode u n) (dir_entries (disk_inode u n))" using l assms(5) by auto
  then show "dir_find t (disk_inode t n) = dir_find u (disk_inode u n)" unfolding d by (rule dir_find_cong)
  show "i_type (disk_inode t m) = 0" using d l by simp
  show "blk_used t sb b \<longleftrightarrow> blk_used s sb b \<and> of_nat b \<notin> file_blks s (disk_inode s m)" if "b < unat (sb_size sb)" for b
    using l that assms(4,5) by (simp add: blk_used_def fs_geom_def)
qed

text \<open>
  C8: Removing a file is atomic and gives back everything.  On an idle file system, \<open>sys_unlink\<close> of the only name
  of a file that nobody has open returns 0, with everything flushed: the directory does not have the name any more and
  every other name leads where it did, the inode is free, exactly the blocks of the file are free besides those
  that were, and no reference is left behind.  Stop it at any point of its disk traffic, losing
  any of the writes since the last flush, and start the process again on what is left: it mounts, and the blocks before the log
  are either all as before the call, and the name still leads to the file, or all as after it, and the name is gone
  and the inode free.
  (No entry of the inode cache is within two references of the largest \<open>int\<close>.)
\<close>

theorem sys_unlink_atomic:
  assumes "quiescent s" "log_ready s sb" "begin_op s = Inr ((), b)"
    and "coherent {} b" "\<forall>ip < NINODE. ref_room (i_ref (inodes b ip))" "2 \<le> card (free_entries b)"
    and "path \<noteq> []" "hd path = SLASH" "0 \<notin> set path" "path_ok b ROOTINO (path_elems path)"
    and "resolve b ROOTINO True (path_elems path) = Some n" "dir_find b (disk_inode b n) (last (path_elems path)) = Some m"
    and "namecmp (last (path_elems path)) DOT \<noteq> 0" "namecmp (last (path_elems path)) DOTDOT \<noteq> 0" "can_unlink b sb n m"
    and "\<forall>j < dir_entries (disk_inode b n). \<forall>k < dir_entries (disk_inode b n). is_entry (last (path_elems path)) (entry b (disk_inode b n) j) \<longrightarrow>
      is_entry (last (path_elems path)) (entry b (disk_inode b n) k) \<longrightarrow> k = j"
  shows "\<exists>s'. sys_unlink path s = Inr (0, s') \<and> quiescent s' \<and> settled s s' \<and> dir_find s' (disk_inode s' n) (last (path_elems path)) = None \<and>
    (\<forall>nm. take DIRSIZ nm \<noteq> take DIRSIZ (last (path_elems path)) \<longrightarrow> dir_find s' (disk_inode s' n) nm = dir_find b (disk_inode b n) nm) \<and>
    i_type (disk_inode s' m) = 0 \<and> (\<forall>jp. i_ref (inodes s' jp) = i_ref (inodes s jp)) \<and>
    (\<forall>k < unat (sb_size sb). blk_used s' sb k \<longleftrightarrow> blk_used s sb k \<and> of_nat k \<notin> file_blks b (disk_inode b m)) \<and>
    (\<forall>es fs d. events s' = events s @ es @ fs \<longrightarrow> crash_image es (disk s) d \<longrightarrow>
       (\<exists>t. mount (process_start d (nblk s)) = Inr ((), t) \<and> lsec t = [] \<and>
          ((\<forall>a. home_sector s a \<longrightarrow> disk t (unat a) = disk s (unat a)) \<and> dir_find t (disk_inode t n) (last (path_elems path)) = Some m \<or>
           (\<forall>a. home_sector s a \<longrightarrow> disk t (unat a) = disk s' (unat a)) \<and>
           dir_find t (disk_inode t n) (last (path_elems path)) = None \<and> i_type (disk_inode t m) = 0)))"
proof -
  let ?name = "last (path_elems path)" and ?D = "disk_inode b n"
  have b: "b = s\<lparr>thelog := (thelog s)\<lparr>outstanding := 1\<rparr>\<rparr>" using begin_quiescent [OF assms(1)] assms(3) by simp
  have q: "linv b" "held b = {}" "outstanding (thelog b) = 1" "committing (thelog b) = 0" "disk b = disk s" "events b = events s" "log_at b = log_at s"
    "home_sector b = home_sector s" "view b = view s" "inodes b = inodes s" "blk_used b = blk_used s"
    using assms(1) by (simp_all add: b quiescent_def log_at_def fun_eq_iff)
  note cu = assms(15) [unfolded can_unlink_def]
  from sys_dounlink_ok [OF q(1,2) assms(4-15)] obtain j u where u: "sys_dounlink path b = Inr (0, u)" "unlinked sb b n m j u"
    "lookup_from b ?D ?name 0 (dir_entries ?D) = Some j" by blast
  have tu: "tstep b u" using u(2) by (simp add: unlinked_def)
  note g = tstep_geom [OF tu]
  have e: "disk u = disk s" "events u = events s" "committing (thelog u) = 0" "log_at u = log_at s" using tu q g(3) by (simp_all add: tstep_def tenv_eq)
  have qu: "linv u" "held u = {}" "outstanding (thelog u) = 1" using tstep_linv [OF tu] tstep_held [OF tu] q(2,3) g(5) by simp_all
  from end_op_last [OF qu e(3)] obtain v where v: "end_op u = Inr ((), v)" "quiescent v" "inodes v = inodes u" "settled u v"
    "\<forall>a. home_sector s a \<longrightarrow> view v a = view u a" using g(1) q(8) by (auto simp: quiescent_def)
  have run: "sys_unlink path s = Inr (0, v)" using assms(3) u(1) v(1) by (simp add: sys_unlink_def)
  have lr: "log_ready u sb" using assms(2) e(1,4) by (simp add: log_ready_def)
  have cs: "crash_safe sb s v {disk s, disk v}" using end_op_crash(2) [OF qu e(3) lr v(1)] e by (simp add: crash_safe_def)
  have j: "j < dir_entries ?D" "is_entry ?name (entry b ?D j)" using u(3) find_SomeD by (fastforce simp: lookup_from_def)+
  note find = unlinked_find [OF u(2) j(2,1)]
  have un: "\<forall>k < dir_entries ?D. k \<noteq> j \<longrightarrow> \<not> is_entry ?name (entry b ?D k)" using assms(16) j by blast
  have ib: "home_sector s (IBLOCK n)" "home_sector s (IBLOCK m)" "fs_geom b sb" "file_wf b sb ?D" using cu q(8) disk_inode_inum by (auto simp: inode_apart_def alloc_ready_def)
  have dk: "dir_ok b ?D (dir_entries ?D)" using resolve_parent_ok [OF assms(10,11)] by (auto simp: inode_ok_def)
  have seen: "dir_find t (disk_inode t n) = dir_find u (disk_inode u n)" "i_type (disk_inode t m) = 0"
    "\<And>k. k < unat (sb_size sb) \<Longrightarrow> blk_used t sb k \<longleftrightarrow> blk_used s sb k \<and> of_nat k \<notin> file_blks b (disk_inode b m)"
    if "\<forall>a. home_sector s a \<longrightarrow> view t a = view v a" for t using unlinked_seen [OF u(2) _ _ ib(3), of t] ib(1,2) that v(5) q(8,11) by simp_all
  have new: "dir_find t (disk_inode t n) ?name = None \<and> i_type (disk_inode t m) = 0" if "\<forall>a. home_sector s a \<longrightarrow> view t a = view v a" for t
    using seen [OF that] find(1) [OF un] by simp
  have old: "dir_find t (disk_inode t n) ?name = Some m" if "\<forall>a. home_sector s a \<longrightarrow> view t a = view s a" for t
    using disk_inode_cong [of b t] dir_find_cong [OF home_blks [OF ib(4)] dk, of t] that q(8,9) ib(1) assms(12) by simp
  note crash = one_of_two [OF assms(1) v(2) assms(2) cs, where P = "\<lambda>t. dir_find t (disk_inode t n) ?name = Some m"
    and Q = "\<lambda>t. dir_find t (disk_inode t n) ?name = None \<and> i_type (disk_inode t m) = 0", OF _ _ old new]
  have self: "\<forall>a. home_sector s a \<longrightarrow> view v a = view v a" by simp
  have fin: "dir_find v (disk_inode v n) ?name = None" "i_type (disk_inode v m) = 0" "settled s v" using new [OF self] v(4) e by (simp_all add: settled_def)
  have others: "\<forall>nm. take DIRSIZ nm \<noteq> take DIRSIZ ?name \<longrightarrow> dir_find v (disk_inode v n) nm = dir_find b ?D nm" using seen(1) [OF self] find(2) [OF un] by simp
  have blks: "\<forall>k < unat (sb_size sb). blk_used v sb k \<longleftrightarrow> blk_used s sb k \<and> of_nat k \<notin> file_blks b (disk_inode b m)" using seen(3) [OF self] by blast
  have refs: "\<forall>jp. i_ref (inodes v jp) = i_ref (inodes s jp)" using u(2) v(3) q(10) by (simp add: unlinked_def)
  show ?thesis using crash by (intro exI conjI) (rule run v(2) fin(3,1) others fin(2) refs blks | blast)+
qed

text \<open>A root directory in block 40 with the file \<open>a\<close>, inode 5, of one byte in block 41.\<close>

definition sample_one_byte :: dinode where
  "sample_one_byte = \<lparr>di_type = T_FILE, di_major = 0, di_minor = 0, di_nlink = 1, di_size = 1, di_ctime = 0, di_atime = 0,
     di_mtime = 0, di_addrs = (\<lambda>_. 0)(0 := 41)\<rparr>"

definition sample_unlink_img :: "nat \<Rightarrow> block" where
  "sample_unlink_img = sample_disk(
     2 := put_dinode (NDIRECT + 1) (put_dinode (NDIRECT + 1) zero_block (dinode_offset 5) sample_one_byte) (dinode_offset 1) sample_dir,
     4 := zero_block(0 := 0xFF, 5 := 3), 40 := blit_list zero_block SIZEOF_DIRENT (bytes_of_dirent sample_entry))"

lemma one_block_file:
  assumes "\<And>k. k \<le> NDIRECT \<Longrightarrow> i_addrs i k = (if k = 0 then a else 0)" "a \<noteq> 0"
  shows "file_blks s i = {a}" "file_inj s i"
proof -
  have nd: "i_addrs i NDIRECT = 0" using assms(1) [of NDIRECT] by (simp add: layout)
  have ia: "iaddr s i bn = (if bn = 0 then a else 0)" for bn using assms(1) [of bn] nd by (auto simp: iaddr_def layout)
  show "file_blks s i = {a}" using nd ia assms(2) by (auto simp: file_blks_def NB_def layout)
  show "file_inj s i" using ia nd by (auto simp: file_inj_def split: if_splits)
qed

lemma sample_can_unlink:
  assumes "linv s" "held s = {}" "lsec s = []" "log_at s sample_sb" "outstanding (thelog s) = 1" "inodes s = (\<lambda>_. zero_inode)"
    "\<forall>a. unat a \<noteq> 70 \<longrightarrow> view s a = sample_unlink_img (unat a)"
  shows "can_unlink s sample_sb 1 5" "inode_ok s 1" "i_type (disk_inode s 1) = T_DIR" "dir_find s (disk_inode s 1) (cstr ''a'') = Some 5"
    "dir_entries (disk_inode s 1) = 2" "de_inum (entry s (disk_inode s 1) 0) = 0" "file_blks s (disk_inode s 5) = {41}" "inode_ok s 5"
    "blk_used s sample_sb 41"
proof -
  let ?D = "disk_inode s 1" and ?F = "disk_inode s 5"
  have hm: "home_sector s a \<longleftrightarrow> 2 \<le> unat a \<and> unat a < 70" for a using log_at_geom(4) [OF assms(4)] sample_geom by simp
  have sok: "sector_ok s 2" "sector_ok s 40" by (rule home_usable [OF assms(1)], simp add: hm)+
  have v: "view s 2 = put_dinode (NDIRECT + 1) (put_dinode (NDIRECT + 1) zero_block (dinode_offset 5) sample_one_byte) (dinode_offset 1) sample_dir"
    "view s 40 = blit_list zero_block SIZEOF_DIRENT (bytes_of_dirent sample_entry)" "view s 4 = zero_block(0 := 0xFF, 5 := 3)"
    "view s 1 = put_sb zero_block sample_sb"
    using assms(7) by (simp_all add: sample_unlink_img_def sample_disk_def)
  note d = sample_dir_disk [OF assms(1,2) sok v(1,2)]
  show "inode_ok s 1" "i_type ?D = T_DIR" "dir_entries ?D = 2" "de_inum (entry s ?D 0) = 0" by (rule d)+
  show "dir_find s ?D (cstr ''a'') = Some 5"
    using sample_dir_find [OF d(4,5)] d(2,4) by (simp add: dir_find_def lookup_from_def sample_entry_def)
  have ib: "IBLOCK 1 = 2" "IBLOCK 5 = 2" "dinode_offset 1 + 24 + 4 * (NDIRECT + 1) \<le> dinode_offset 5"
    by (simp_all add: IBLOCK_def dinode_offset_def layout)
  have f: "i_type ?F = T_FILE" "i_nlink ?F = 1" "k \<le> NDIRECT \<Longrightarrow> i_addrs ?F k = (if k = 0 then 41 else 0)" for k
    using get_put_dinode_later [OF ib(3)]
    by (simp_all add: disk_inode_def loaded_def load_dinode_def ib v(1) get_put_dinode_fields get_put_dinode_addrs sample_one_byte_def)
  have sz: "unat (sb_size sample_sb) = 100" "sb_start sample_sb = 70" using sample_geom by (simp_all add: sample_sb_def)
  have g: "fs_geom s sample_sb" using hm assms(4) v(4) sz by (auto simp: fs_geom_def sample_bmp)
  have us: "blk_used s sample_sb b \<longleftrightarrow> b < 8 \<or> b = 40 \<or> b = 41" if "b < 100" for b
    using that v(3) by (simp add: blk_used_def sample_bmp sample_append_bits layout)
  then show "blk_used s sample_sb 41" by simp
  note bd = one_block_file [OF d(6)] and bf = one_block_file [OF f(3)]
  show fb: "file_blks s ?F = {41}" by (rule bf) simp_all
  have db: "file_blks s ?D = {40}" by (rule bd) simp_all
  have "file_inj s ?D" "file_inj s ?F" by (rule bd bf; simp)+
  then have wf: "file_wf s sample_sb ?D" "file_wf s sample_sb ?F" using fb db us hm sz by (auto simp: file_wf_def sample_bitmap)
  have ap: "inode_apart s sample_sb ?D" "inode_apart s sample_sb ?F"
    using hm us fb db ib disk_inode_inum by (auto simp: inode_apart_def sample_bitmap)
  show ok: "inode_ok s 5" using f(1,2) sok ib by (simp add: inode_ok_def layout)
  have "log_size (thelog s) = 30" using assms(4) sample_geom by (simp add: log_at_def)
  moreover have "alloc_ready s sample_sb" using assms(1,5) g us by (simp add: alloc_ready_def sample_bitmap)
  moreover have "T_FILE \<noteq> T_DIR" by (simp add: layout)
  ultimately show "can_unlink s sample_sb 1 5" using wf ap ok f(1,2) ib fb db assms(3,6)
    by (simp add: can_unlink_def sample_bitmap zero_inode_def)
qed

definition sample_unlink_path :: bytes where
  "sample_unlink_path = SLASH # cstr ''a''"

lemma sample_unlink_path: "path_elems sample_unlink_path = [cstr ''a'']" "sample_unlink_path \<noteq> []" "hd sample_unlink_path = SLASH"
    "0 \<notin> set sample_unlink_path" "namecmp (cstr ''a'') DOT \<noteq> 0" "namecmp (cstr ''a'') DOTDOT \<noteq> 0"
  by (simp_all add: sample_unlink_path_def path_elems_def cstr_def layout SLASH_def namecmp_eq c_string_def DOT_def DOTDOT_def)

theorem sys_unlink_atomic_witness:
  "\<exists>s s' es d t. mount (process_start sample_unlink_img 100) = Inr ((), s) \<and> sys_unlink sample_unlink_path s = Inr (0, s') \<and>
     blk_used s sample_sb 41 \<and> \<not> blk_used s' sample_sb 41 \<and> i_type (disk_inode s' 5) = 0 \<and>
     events s' = events s @ es \<and> crash_image es (disk s) d \<and> mount (process_start d 100) = Inr ((), t) \<and>
     dir_find t (disk_inode t 1) (cstr ''a'') \<in> {None, Some 5}"
proof -
  let ?p = sample_unlink_path
  have hd: "sb_of_block (sample_unlink_img 1) = sample_sb" "head_n (sample_unlink_img 70) = 0"
    using sample_head by (simp_all add: sample_unlink_img_def)
  from sample_ready [where d = sample_unlink_img, OF this] obtain b where b:
    "sample_open (process_start sample_unlink_img 100) = Inr ((), b)" "linv b" "held b = {}" "lsec b = []" "log_at b sample_sb"
    "outstanding (thelog b) = 1" "inodes b = (\<lambda>_. zero_inode)" "\<forall>a. unat a \<noteq> 70 \<longrightarrow> view b a = sample_unlink_img (unat a)"
    "head_n (disk b 70) = 0" "sb_of_block (disk b 1) = sample_sb" by blast
  note c = sample_can_unlink [OF b(2-8)]
  from sample_mount [OF b(1) hd b(9,10)] obtain s where s: "mount (process_start sample_unlink_img 100) = Inr ((), s)" "begin_op s = Inr ((), b)"
    "quiescent s" "log_ready s sample_sb" "nblk s = 100" by blast
  have bs: "blk_used s = blk_used b" using begin_quiescent [OF s(3)] s(2) by (auto simp: fun_eq_iff)
  have la: "last (path_elems ?p) = cstr ''a''" by (simp add: sample_unlink_path)
  have pa: "path_ok b ROOTINO (path_elems ?p)" "resolve b ROOTINO True (path_elems ?p) = Some 1"
    unfolding sample_unlink_path using c(2-4,8) by (simp_all add: ROOTINO_def)
  have co: "coherent {} b" "\<forall>ip < NINODE. ref_room (i_ref (inodes b ip))" using b(7) by (simp_all add: coherent_def zero_inode_def ref_room_def INT_MAX_def)
  have "free_entries b = {..<NINODE}" using b(7) by (auto simp: free_entries_def zero_inode_def)
  then have fe: "2 \<le> card (free_entries b)" by (simp add: layout)
  have un: "\<forall>j < dir_entries (disk_inode b 1). \<forall>k < dir_entries (disk_inode b 1). is_entry (cstr ''a'') (entry b (disk_inode b 1) j) \<longrightarrow>
      is_entry (cstr ''a'') (entry b (disk_inode b 1) k) \<longrightarrow> k = j" unfolding c(5) using c(6) by (auto simp: is_entry_def less_2_cases_iff)
  from sys_unlink_atomic [of s sample_sb b ?p 1 5, unfolded la c(7), OF s(3,4,2) co fe sample_unlink_path(2-4) pa c(4) sample_unlink_path(5,6) c(1) un]
  obtain s' where s': "sys_unlink ?p s = Inr (0, s')" "settled s s'" "i_type (disk_inode s' 5) = 0"
    "\<forall>k < unat (sb_size sample_sb). blk_used s' sample_sb k \<longleftrightarrow> blk_used s sample_sb k \<and> of_nat k \<notin> {41 :: u32}" and
    cr: "\<And>es fs d. events s' = events s @ es @ fs \<Longrightarrow> crash_image es (disk s) d \<Longrightarrow>
       \<exists>t. mount (process_start d (nblk s)) = Inr ((), t) \<and> lsec t = [] \<and>
         ((\<forall>a. home_sector s a \<longrightarrow> disk t (unat a) = disk s (unat a)) \<and> dir_find t (disk_inode t 1) (cstr ''a'') = Some 5 \<or>
          (\<forall>a. home_sector s a \<longrightarrow> disk t (unat a) = disk s' (unat a)) \<and>
          dir_find t (disk_inode t 1) (cstr ''a'') = None \<and> i_type (disk_inode t 5) = 0)"
    by (elim exE conjE) (rule that, assumption+, blast)
  from settled_crash [OF s'(2)] obtain es where es: "events s' = events s @ es @ []" "crash_image es (disk s) (disk s')" by auto
  from cr [OF es] s(5) obtain t where "mount (process_start (disk s') 100) = Inr ((), t)" "dir_find t (disk_inode t 1) (cstr ''a'') \<in> {None, Some 5}" by auto
  moreover have "\<not> blk_used s' sample_sb 41" using s'(4) [rule_format, of 41] by (simp add: sample_sb_def)
  ultimately show ?thesis using s(1) s'(1,3) es c(9) bs
    by (intro exI [of _ s] exI [of _ s'] exI [of _ es] exI [of _ "disk s'"] exI [of _ t] conjI) simp_all
qed

end
