(* ===== verification/Readdir.thy ===== *)
theory Readdir
  imports Fuse
begin

text \<open>
  The loop of \<open>fuse_readdir\<close> ends: the entry at the last offset below \<open>2 ^ 32\<close> cannot be read,
  because \<open>readi\<close> rejects a range that wraps.  To know that the fuel of the model never runs
  out, the ways the calls below the loop fail are bounded first.
\<close>

section \<open>Which errors an operation can raise\<close>

named_theorems nev

text \<open>\<open>never h m\<close>: \<open>m\<close> does not fail by waiting for ever under the label \<open>h\<close>.\<close>

definition never :: "string \<Rightarrow> ('s, 'a) fm \<Rightarrow> bool" where
  "never h m \<longleftrightarrow> (\<forall>s. m s \<noteq> Inl (Hang h))"

definition READDIR :: string where
  "READDIR = ''fuse_readdir''"

lemma READDIR_other:
  "READDIR \<noteq> ''bcache list''" "READDIR \<noteq> ''bget: sleep''" "READDIR \<noteq> ''ilock: sleep''"
  by (simp_all add: READDIR_def)

lemma never_basic [nev]: "never h (ret x)" "never h (gets f)" "never h (modify g)" "never h (fail (Panic p))" "never h (fail (Undef u))"
  "never h (guard b (Panic p))" "never h (guard b (Undef u))" "never h (fail (Exit e))" "never h (guard b (Exit e))"
  by (auto simp: never_def split: if_splits)

lemma never_hang [nev]: "h \<noteq> h' \<Longrightarrow> never h (fail (Hang h'))" "h \<noteq> h' \<Longrightarrow> never h (guard b (Hang h'))"
  by (auto simp: never_def split: if_splits)

lemma never_bnd [nev]: "never h m \<Longrightarrow> (\<And>x. never h (f x)) \<Longrightarrow> never h (bnd m f)"
  by (auto simp: never_def bnd_def split: sum.splits)

lemma never_if [nev]: "(b \<Longrightarrow> never h m) \<Longrightarrow> (\<not> b \<Longrightarrow> never h n) \<Longrightarrow> never h (if b then m else n)"
  by simp

lemma never_let [nev]: "(\<And>x. never h (f x)) \<Longrightarrow> never h (let x = v in f x)"
  by simp

lemma never_option [nev]:
  "(r = None \<Longrightarrow> never h m) \<Longrightarrow> (\<And>x. r = Some x \<Longrightarrow> never h (f x)) \<Longrightarrow> never h (case r of None \<Rightarrow> m | Some x \<Rightarrow> f x)"
  by (cases r) auto

lemma never_prod [nev]: "(\<And>x y. r = (x, y) \<Longrightarrow> never h (f x y)) \<Longrightarrow> never h (case r of (x, y) \<Rightarrow> f x y)"
  by (cases r) auto

lemma never_fd [nev]:
  "never h m \<Longrightarrow> never h n \<Longrightarrow> never h o' \<Longrightarrow> never h (case t of FD_NONE \<Rightarrow> m | FD_PIPE \<Rightarrow> n | FD_INODE \<Rightarrow> o')"
  by (cases t) auto

lemma never_access [nev]:
  "never h (buf_at b)" "never h (buf_data b)" "never h (ino_at ip)" "never h (file_at f)" "never h (deref ipo)"
  "never h (upd_buf b g)" "never h (upd_ino ip k)" "never h (upd_file f l)" "never h (upd_lh u)" "never h (set_data b d)"
  unfolding buf_at_def buf_data_def ino_at_def file_at_def deref_def upd_buf_def upd_ino_def upd_file_def upd_lh_def
    upd_log_def set_data_def by (intro nev)+

lemma scan_never:
  "never READDIR (lift (scan_next k bs P b))" "never READDIR (lift (scan_prev k bs P b))"
proof -
  have "scan_next k bs P b \<noteq> Inl (Hang READDIR)" by (induction k bs P b rule: scan_next.induct) (simp_all add: READDIR_def)
  moreover have "scan_prev k bs P b \<noteq> Inl (Hang READDIR)" by (induction k bs P b rule: scan_prev.induct) (simp_all add: READDIR_def)
  ultimately show "never READDIR (lift (scan_next k bs P b))" "never READDIR (lift (scan_prev k bs P b))"
    by (auto simp: never_def lift_def split: sum.splits)
qed

lemma block_never [nev]:
  "never READDIR (bread dev a)" "never READDIR (brelse b)" "never READDIR (log_write b)" "never READDIR (readsb dev)"
  "never READDIR (xv6_bzero dev a)"
proof -
  show r: "never READDIR (bread dev a)" for dev a
    unfolding bread_def bget_unfold iderw_def unix_read_def unix_write_def by (intro nev READDIR_other scan_never)
  show b: "never READDIR (brelse b)" for b unfolding brelse_def by (intro nev READDIR_other scan_never)
  show l: "never READDIR (log_write b)" for b unfolding log_write_def by (intro nev READDIR_other scan_never)
  show "never READDIR (readsb dev)" "never READDIR (xv6_bzero dev a)"
    unfolding readsb_def xv6_bzero_def by (intro nev r b l)+
qed

lemma balloc_never [nev]: "never READDIR (balloc dev)"
proof -
  have "never READDIR (balloc_from dev sb b)" for sb b
    by (induction dev sb b rule: balloc_from.induct, subst balloc_from.simps) (intro nev; assumption?)
  then show ?thesis unfolding balloc_def by (intro nev)
qed

lemma bmap_never [nev]: "never READDIR (bmap ip bn)"
  unfolding bmap_def bmap_slot_def bmap_indirect_def by (intro nev)

lemma readi_never [nev]: "never READDIR (readi ip off n)"
proof -
  have "never READDIR (readi_loop ip off k dst)" for off k dst
    by (induction ip off k dst rule: readi_loop.induct, subst readi_loop.simps) (intro nev; assumption?)
  then show ?thesis unfolding readi_def by (intro nev) (auto simp: devsw_def)
qed

lemma sys_readdirent_never: "never READDIR (sys_readdirent fh off)"
  unfolding sys_readdirent_def fileread_def piperead_def ilock_unfold iunlock_def by (intro nev READDIR_other scan_never)

section \<open>The last offset\<close>

definition LAST :: nat where
  "LAST = READDIR_FUEL - 1"

lemma last_offset: "LAST * SIZEOF_DIRENT = 4294967232"
  by (simp add: LAST_def READDIR_FUEL_def layout)

lemma readi_wraps: "off + n < off \<Longrightarrow> readi ip off n s = Inr ((r, xs), t) \<Longrightarrow> r = -1"
  by (auto simp: readi_def ino_at_def bnd_eq_Inr devsw_def split: if_splits)

lemma readdirent_stops:
  assumes "sys_readdirent fh off s = Inr ((r, xs), t)" "off + of_nat SIZEOF_DIRENT < off"
  shows "r \<le> 0"
proof -
  have fd: "x = FD_INODE" if "x \<noteq> FD_NONE" "x \<noteq> FD_PIPE" for x using that by (cases x) auto
  from assms(1) show ?thesis
    by (auto simp: sys_readdirent_def fileread_def piperead_def bnd_eq_Inr file_at_def upd_file_def
        dest: fd dest!: readi_wraps [OF assms(2)] split: option.splits if_splits fd_type.splits)
qed

section \<open>The loop\<close>

lemma readdir_fail:
  "sys_readdirent fh (of_nat off) s = Inl e \<Longrightarrow> readdir_loop (Suc k) fh off xe names s = Inl e \<and> e \<noteq> Hang READDIR"
  using sys_readdirent_never [of fh "of_nat off"] by (auto simp: bnd_def never_def)

lemma readdir_stop:
  "sys_readdirent fh (of_nat off) s = Inr ((r, xs), t) \<Longrightarrow> r \<le> 0 \<Longrightarrow> readdir_loop (Suc k) fh off xe names s = Inr ((r, names), t)"
  by (simp add: bnd_def)

lemma readdir_enough:
  assumes "j + Suc d = READDIR_FUEL"
  shows "readdir_loop (Suc d + k) fh (j * SIZEOF_DIRENT) xe names s = readdir_loop (Suc d) fh (j * SIZEOF_DIRENT) xe names s \<and>
    readdir_loop (Suc d) fh (j * SIZEOF_DIRENT) xe names s \<noteq> Inl (Hang READDIR)"
  using assms
proof (induction d arbitrary: j xe names s)
  case 0
  define o' where "o' = j * SIZEOF_DIRENT"
  have "j = LAST" using 0 by (simp add: LAST_def)
  then have w: "(of_nat o' :: u32) + of_nat SIZEOF_DIRENT < of_nat o'" unfolding o'_def by (simp only: last_offset) (simp add: layout)
  show ?case unfolding o'_def [symmetric]
  proof (cases "sys_readdirent fh (of_nat o') s")
    case (Inl e)
    then show "readdir_loop (Suc 0 + k) fh o' xe names s = readdir_loop (Suc 0) fh o' xe names s \<and>
      readdir_loop (Suc 0) fh o' xe names s \<noteq> Inl (Hang READDIR)" using readdir_fail [OF Inl] by simp
  next
    case (Inr p)
    then obtain r xs t where p: "sys_readdirent fh (of_nat o') s = Inr ((r, xs), t)" by (cases p) auto
    from readdir_stop [OF p readdirent_stops [OF p w]]
    show "readdir_loop (Suc 0 + k) fh o' xe names s = readdir_loop (Suc 0) fh o' xe names s \<and>
      readdir_loop (Suc 0) fh o' xe names s \<noteq> Inl (Hang READDIR)" by simp
  qed
next
  case (Suc d)
  have IH: "readdir_loop (Suc d + k) fh (j * SIZEOF_DIRENT + SIZEOF_DIRENT) xe ns t = readdir_loop (Suc d) fh (j * SIZEOF_DIRENT + SIZEOF_DIRENT) xe ns t"
    "readdir_loop (Suc d) fh (j * SIZEOF_DIRENT + SIZEOF_DIRENT) xe ns t \<noteq> Inl (Hang READDIR)" for xe ns t
    using Suc.IH [of "Suc j" xe ns t] Suc.prems by (simp_all del: readdir_loop.simps add: add.commute)
  have IH': "readdir_loop (Suc d + k) fh (j * SIZEOF_DIRENT + SIZEOF_DIRENT) xe ns = readdir_loop (Suc d) fh (j * SIZEOF_DIRENT + SIZEOF_DIRENT) xe ns" for xe ns
    by (rule ext) (rule IH(1))
  show ?case
  proof (cases "sys_readdirent fh (of_nat (j * SIZEOF_DIRENT)) s")
    case (Inl e)
    show ?thesis using readdir_fail [OF Inl] by (simp del: readdir_loop.simps)
  next
    case (Inr p)
    then obtain r xs t where p: "sys_readdirent fh (of_nat (j * SIZEOF_DIRENT)) s = Inr ((r, xs), t)" by (cases p) auto
    have "readdir_loop (Suc (Suc d) + k) fh (j * SIZEOF_DIRENT) xe names s = readdir_loop (Suc (Suc d)) fh (j * SIZEOF_DIRENT) xe names s"
      unfolding add_Suc [of "Suc d"] by (subst (1 2) readdir_loop.simps(2)) (simp only: IH' bnd_def p sum.case prod.case)
    moreover have "readdir_loop (Suc (Suc d)) fh (j * SIZEOF_DIRENT) xe names s \<noteq> Inl (Hang READDIR)"
      by (subst readdir_loop.simps(2)) (use IH(2) p in \<open>simp del: readdir_loop.simps of_nat_mult add: Let_def bnd_def\<close>)
    ultimately show ?thesis ..
  qed
qed

text \<open>
  C33: Reading a directory ends.  Whatever the directory and the file handle, the loop of
  \<open>fuse_readdir\<close> does not reach the end of the fuel the model gives it, and more fuel does not
  change its result: after at most \<open>2 ^ 26\<close> entries a read returns no more, since \<open>readi\<close>
  rejects the entry whose end wraps around to 0.
\<close>

theorem readdir_ends:
  "readdir_loop READDIR_FUEL fh 0 xe names s \<noteq> Inl (Hang ''fuse_readdir'') \<and>
   readdir_loop (READDIR_FUEL + k) fh 0 xe names s = readdir_loop READDIR_FUEL fh 0 xe names s"
proof -
  have e: "0 + Suc LAST = READDIR_FUEL" by (simp add: LAST_def READDIR_FUEL_def)
  then show ?thesis using readdir_enough [OF e, of k fh xe names s] by (simp del: readdir_loop.simps add: READDIR_def)
qed

end
