(* ===== verification/Mkfs.thy ===== *)
theory Mkfs
  imports Fuse
begin

text \<open>
  The image builder \<open>mkfs.c\<close> (its functions carry the prefix \<open>mk_\<close>, since several share their
  names with \<open>fs.c\<close>).  The state is the image file and the two allocation cursors.
  \<open>xshort\<close>/\<open>xint\<close> produce little-endian values, which on the x86 host of the development are the
  host's own.
\<close>

section \<open>State\<close>

definition SIZE :: nat where [layout]: "SIZE = 10000"
definition NINODES :: nat where [layout]: "NINODES = 4000"
definition nbitmap :: nat where [layout]: "nbitmap = SIZE div (BSIZE * 8) + 1"
definition ninodeblocks :: nat where [layout]: "ninodeblocks = NINODES div IPB + 1"
definition nlog :: nat where [layout]: "nlog = LOGSIZE"
definition nmeta :: nat where [layout]: "nmeta = 2 + ninodeblocks + nbitmap"
definition nblocks :: nat where [layout]: "nblocks = SIZE - nlog - nmeta"

record mkstate =
  mk_disk :: "nat \<Rightarrow> block"
  mk_nblk :: nat
  mk_io :: bool
  freeinode :: u32
  freeblock :: u32

type_synonym 'a mk = "(mkstate, 'a) fm"

text \<open>\<open>xshort\<close> and \<open>xint\<close>: store little-endian, read back as the host does.\<close>

definition xshort :: "u16 \<Rightarrow> u16" where
  "xshort x = get16 (zero_block(0 := ucast x, 1 := ucast (drop_bit 8 x))) 0"

definition xint :: "u32 \<Rightarrow> u32" where
  "xint x = get32 (zero_block(0 := ucast x, 1 := ucast (drop_bit 8 x), 2 := ucast (drop_bit 16 x),
     3 := ucast (drop_bit 24 x))) 0"

section \<open>Sectors and inodes\<close>

text \<open>\<open>sec * BSIZE\<close> is computed in 32 bits.\<close>

definition mk_pos :: "u32 \<Rightarrow> nat" where
  "mk_pos sec = unat (sec * of_nat BSIZE) div BSIZE"

definition mk_wsect :: "u32 \<Rightarrow> block \<Rightarrow> unit mk" where
  "mk_wsect sec buf =
     bnd (gets mk_io) (\<lambda>ok.
     bnd (guard ok (Exit ''write'')) (\<lambda>_.
     modify (\<lambda>s. s\<lparr>mk_disk := (\<lambda>i. if i = mk_pos sec then buf else if i < mk_nblk s then mk_disk s i
                     else if i < mk_pos sec then zero_block else mk_disk s i),
                   mk_nblk := max (mk_nblk s) (Suc (mk_pos sec))\<rparr>)))"

definition mk_rsect :: "u32 \<Rightarrow> block mk" where
  "mk_rsect sec =
     bnd (gets (\<lambda>s. mk_io s \<and> mk_pos sec < mk_nblk s)) (\<lambda>ok.
     bnd (guard ok (Exit ''read'')) (\<lambda>_.
     gets (\<lambda>s. mk_disk s (mk_pos sec))))"

definition mk_winode :: "u32 \<Rightarrow> dinode \<Rightarrow> unit mk" where
  "mk_winode inum di =
     bnd (mk_rsect (IBLOCK inum)) (\<lambda>buf.
     mk_wsect (IBLOCK inum) (put_dinode (NDIRECT + 2) buf (dinode_offset inum) di))"

definition mk_rinode :: "u32 \<Rightarrow> dinode mk" where
  "mk_rinode inum =
     bnd (mk_rsect (IBLOCK inum)) (\<lambda>buf.
     ret (get_dinode buf (dinode_offset inum)))"

definition zero_dinode :: dinode where
  "zero_dinode = \<lparr>di_type = 0, di_major = 0, di_minor = 0, di_nlink = 0, di_size = 0, di_ctime = 0,
     di_atime = 0, di_mtime = 0, di_addrs = (\<lambda>_. 0)\<rparr>"

definition mk_ialloc :: "u16 \<Rightarrow> u32 mk" where
  "mk_ialloc type =
     bnd (gets freeinode) (\<lambda>inum.
     bnd (modify (\<lambda>s. s\<lparr>freeinode := freeinode s + 1\<rparr>)) (\<lambda>_.
     bnd (mk_winode inum (zero_dinode\<lparr>di_type := xshort type, di_nlink := xshort 1, di_size := xint 0\<rparr>)) (\<lambda>_.
     ret inum)))"

text \<open>\<open>balloc\<close> of \<open>mkfs\<close>: the bitmap block with the first \<open>used\<close> bits set.\<close>

fun mk_bits :: "nat list \<Rightarrow> block \<Rightarrow> block" where
  "mk_bits [] buf = buf"
| "mk_bits (i # is) buf = mk_bits is (buf(i div 8 := buf (i div 8) OR push_bit (i mod 8) 1))"

definition mk_balloc :: "int \<Rightarrow> unit mk" where
  "mk_balloc used =
     bnd (guard (used < int (BSIZE * 8)) (Panic ''assert'')) (\<lambda>_.
     mk_wsect (of_nat (ninodeblocks + 2)) (mk_bits [0..<nat used] zero_block))"

definition mk_newblock :: "u32 mk" where
  "mk_newblock =
     bnd (gets freeblock) (\<lambda>b.
     bnd (modify (\<lambda>s. s\<lparr>freeblock := freeblock s + 1\<rparr>)) (\<lambda>_.
     ret (xint b)))"

text \<open>The block of \<open>iappend\<close>'s file block \<open>fbn\<close>, allocating it; the result is the changed inode too.\<close>

definition mk_block :: "dinode \<Rightarrow> nat \<Rightarrow> (dinode \<times> u32) mk" where
  "mk_block din fbn =
     (if fbn < NDIRECT
      then bnd (if xint (di_addrs din fbn) = 0
                then bnd mk_newblock (\<lambda>b. ret (din\<lparr>di_addrs := (di_addrs din)(fbn := b)\<rparr>))
                else ret din) (\<lambda>din.
           ret (din, xint (di_addrs din fbn)))
      else bnd (if xint (di_addrs din NDIRECT) = 0
                then bnd mk_newblock (\<lambda>b. ret (din\<lparr>di_addrs := (di_addrs din)(NDIRECT := b)\<rparr>))
                else ret din) (\<lambda>din.
           bnd (mk_rsect (xint (di_addrs din NDIRECT))) (\<lambda>ind.
           bnd (guard (fbn - NDIRECT < NINDIRECT) (Undef ''indirect[fbn - NDIRECT]'')) (\<lambda>_.
           if get32 ind (4 * (fbn - NDIRECT)) = 0
           then bnd mk_newblock (\<lambda>b.
                bnd (mk_wsect (xint (di_addrs din NDIRECT)) (put32 ind (4 * (fbn - NDIRECT)) b)) (\<lambda>_.
                ret (din, xint b)))
           else ret (din, xint (get32 ind (4 * (fbn - NDIRECT))))))))"

function mk_iappend_loop :: "dinode \<Rightarrow> u32 \<Rightarrow> bytes \<Rightarrow> (dinode \<times> u32) mk" where
  "mk_iappend_loop din off p =
     (if p = [] then ret (din, off)
      else bnd (guard (unat off div BSIZE < MAXFILE) (Panic ''assert'')) (\<lambda>_.
           bnd (mk_block din (unat off div BSIZE)) (\<lambda>(din, x).
           bnd (mk_rsect x) (\<lambda>buf.
           bnd (mk_wsect x (blit_list buf (unat off mod BSIZE) (take (chunk off (length p)) p))) (\<lambda>_.
           mk_iappend_loop din (off + of_nat (chunk off (length p))) (drop (chunk off (length p)) p))))))"
  by pat_completeness auto
termination by (relation "measure (\<lambda>(din, off, p). length p)") (auto simp: chunk_pos)

declare mk_iappend_loop.simps [simp del]

definition mk_iappend :: "u32 \<Rightarrow> bytes \<Rightarrow> unit mk" where
  "mk_iappend inum p =
     bnd (mk_rinode inum) (\<lambda>din.
     bnd (mk_iappend_loop din (xint (di_size din)) p) (\<lambda>(din, off).
     mk_winode inum (din\<lparr>di_size := xint off\<rparr>)))"

section \<open>main\<close>

fun mk_zero :: "nat list \<Rightarrow> unit mk" where
  "mk_zero [] = ret ()"
| "mk_zero (i # is) = bnd (mk_wsect (of_nat i) zero_block) (\<lambda>_. mk_zero is)"

text \<open>\<open>read(fd, buf, sizeof(buf))\<close> until the end of the file, \<open>BSIZE\<close> bytes at a time.\<close>

function mk_copy :: "u32 \<Rightarrow> bytes \<Rightarrow> unit mk" where
  "mk_copy inum content =
     (if content = [] then ret ()
      else bnd (mk_iappend inum (take BSIZE content)) (\<lambda>_. mk_copy inum (drop BSIZE content)))"
  by pat_completeness auto
termination by (relation "measure (\<lambda>(inum, content). length content)") (auto simp: layout)

declare mk_copy.simps [simp del]

definition mk_entry :: "u32 \<Rightarrow> u32 \<Rightarrow> bytes \<Rightarrow> unit mk" where
  "mk_entry dir inum name =
     mk_iappend dir (bytes_of_dirent \<lparr>de_inum = xshort (ucast inum), de_name = strncpy name DIRSIZ\<rparr>)"

text \<open>The files named on the command line: a path and, if it can be opened, its contents.\<close>

fun mk_files :: "u32 \<Rightarrow> (bytes \<times> bytes option) list \<Rightarrow> unit mk" where
  "mk_files rootino [] = ret ()"
| "mk_files rootino ((arg, content) # fs) =
     bnd (guard (SLASH \<notin> set arg) (Panic ''assert'')) (\<lambda>_.
     case content of None \<Rightarrow> fail (Exit ''open'') | Some data \<Rightarrow>
     bnd (mk_ialloc T_FILE) (\<lambda>inum.
     bnd (mk_entry rootino inum (if arg \<noteq> [] \<and> hd arg = 0x5F then tl arg else arg)) (\<lambda>_.
     bnd (mk_copy inum data) (\<lambda>_.
     mk_files rootino fs))))"

definition mk_sb :: superblock where
  "mk_sb = \<lparr>sb_size = xint (of_nat SIZE), sb_nblocks = xint (of_nat nblocks),
     sb_ninodes = xint (of_nat NINODES), sb_nlog = xint (of_nat nlog)\<rparr>"

text \<open>
  \<open>main\<close> on \<open>argv[1..]\<close>, each argument with the contents of the file of that name, if it can be
  opened.  The first names the image, which is created and truncated, so its contents do not matter.
\<close>

definition mk_main :: "(bytes \<times> bytes option) list \<Rightarrow> unit mk" where
  "mk_main argv =
     (case argv of
        [] \<Rightarrow> fail (Exit ''Usage: mkfs fs.img files...'')
      | _ # fs \<Rightarrow>
     bnd (guard (BSIZE mod SIZEOF_DINODE = 0) (Panic ''assert'')) (\<lambda>_.
     bnd (guard (BSIZE mod SIZEOF_DIRENT = 0) (Panic ''assert'')) (\<lambda>_.
     bnd (gets mk_io) (\<lambda>ok.
     bnd (guard ok (Exit ''open'')) (\<lambda>_.
     bnd (modify (\<lambda>s. s\<lparr>freeblock := of_nat nmeta\<rparr>)) (\<lambda>_.
     bnd (mk_zero [0..<SIZE]) (\<lambda>_.
     bnd (mk_wsect 1 (put_sb zero_block mk_sb)) (\<lambda>_.
     bnd (mk_ialloc T_DIR) (\<lambda>rootino.
     bnd (guard (rootino = ROOTINO) (Panic ''assert'')) (\<lambda>_.
     bnd (mk_entry rootino rootino (cstr ''.'')) (\<lambda>_.
     bnd (mk_entry rootino rootino (cstr ''..'')) (\<lambda>_.
     bnd (mk_files rootino fs) (\<lambda>_.
     bnd (mk_rinode rootino) (\<lambda>din.
     bnd (mk_winode rootino (din\<lparr>di_size :=
            xint ((xint (di_size din) div of_nat BSIZE + 1) * of_nat BSIZE)\<rparr>)) (\<lambda>_.
     bnd (gets freeblock) (\<lambda>b.
     mk_balloc (sint b)))))))))))))))))"

text \<open>The state \<open>main\<close> starts from: the image file just created and empty.\<close>

definition mk_start :: "bool \<Rightarrow> mkstate" where
  "mk_start io = \<lparr>mk_disk = (\<lambda>_. zero_block), mk_nblk = 0, mk_io = io, freeinode = 1, freeblock = 0\<rparr>"

end
