(* ===== verification/Mkfs_Props.thy ===== *)
theory Mkfs_Props
  imports Mkfs Dir_Props
begin

text \<open>
  The image \<open>mkfs\<close> writes when it is given no files: the log is empty, the root directory holds its
  two entries, and the bitmap marks the blocks in use.  Each step of \<open>main\<close> is described by what it
  changes of the image, for whatever files it is given.
\<close>

section \<open>Steps\<close>

lemma xshort_id [simp]: "xshort x = x"
  using get16_put16_same [of zero_block 0 x] by (simp add: xshort_def put16_def)

lemma xint_id [simp]: "xint x = x"
  using get32_put32_same [of zero_block 0 x] by (simp add: xint_def put32_def numeral_2_eq_2)

definition formatted :: "mkstate \<Rightarrow> bool" where
  "formatted s \<longleftrightarrow> mk_io s \<and> mk_nblk s = SIZE"

text \<open>Writing one block of the image.\<close>

definition store :: "nat \<Rightarrow> block \<Rightarrow> mkstate \<Rightarrow> mkstate" where
  "store a b s = s\<lparr>mk_disk := (mk_disk s)(a := b)\<rparr>"

lemma store_sel [simp]:
  "mk_disk (store a b s) = (mk_disk s)(a := b)" "freeblock (store a b s) = freeblock s" "freeinode (store a b s) = freeinode s"
  "formatted (store a b s) = formatted s" "mk_nblk (store a b s) = mk_nblk s"
  "formatted (s\<lparr>freeblock := x\<rparr>) = formatted s" "formatted (s\<lparr>freeinode := x\<rparr>) = formatted s"
  by (simp_all add: store_def formatted_def)

lemma mk_pos_small: "unat sec \<le> SIZE \<Longrightarrow> mk_pos sec = unat sec"
proof -
  assume a: "unat sec \<le> SIZE"
  have "unat (sec * of_nat BSIZE) = unat sec * BSIZE"
    by (subst unat_mult_lem [THEN iffD1]) (use a in \<open>simp_all add: layout\<close>)
  then show ?thesis by (simp add: mk_pos_def layout)
qed

lemma sector_io:
  assumes "formatted s" "unat sec < SIZE"
  shows "mk_wsect sec b s = Inr ((), store (unat sec) b s)" "mk_rsect sec s = Inr (mk_disk s (unat sec), s)"
proof -
  have p: "mk_pos sec = unat sec" using assms(2) by (simp add: mk_pos_small)
  have "(\<lambda>i. if i = unat sec then b else if i < SIZE then mk_disk s i else if i < unat sec then zero_block else mk_disk s i) =
    (mk_disk s)(unat sec := b)" using assms(2) by (auto simp: fun_eq_iff)
  then show "mk_wsect sec b s = Inr ((), store (unat sec) b s)"
    using assms p by (simp add: mk_wsect_def store_def formatted_def max_def cong: if_cong)
  show "mk_rsect sec s = Inr (mk_disk s (unat sec), s)" using assms p by (simp add: mk_rsect_def formatted_def)
qed

lemma mk_zero_from:
  assumes "k \<le> n" "n \<le> SIZE" "mk_io s" "mk_disk s = (\<lambda>_. zero_block)" "mk_nblk s = k"
  shows "mk_zero [k..<n] s = Inr ((), s\<lparr>mk_nblk := n\<rparr>)"
  using assms
proof (induction "n - k" arbitrary: k s)
  case 0
  then show ?case by simp
next
  case (Suc d)
  then have k: "k < n" by simp
  have u: "unat (of_nat k :: u32) = k" by (rule unat_of_nat_small) (use k Suc.prems in \<open>simp add: layout\<close>)
  have "mk_pos (of_nat k) = k" using mk_pos_small [of "of_nat k"] k Suc.prems(2) u by simp
  moreover have "(\<lambda>i. if i = k then zero_block else if i < k then mk_disk s i else if i < k then zero_block else mk_disk s i) = mk_disk s"
    using Suc.prems(4) by (auto simp: fun_eq_iff)
  moreover have "s\<lparr>mk_disk := mk_disk s, mk_nblk := Suc k\<rparr> = s\<lparr>mk_nblk := Suc k\<rparr>" by (cases s) simp
  ultimately have "mk_wsect (of_nat k) zero_block s = Inr ((), s\<lparr>mk_nblk := Suc k\<rparr>)"
    using Suc.prems(3,5) by (simp add: mk_wsect_def max_def cong: if_cong)
  moreover have "mk_zero [Suc k..<n] (s\<lparr>mk_nblk := Suc k\<rparr>) = Inr ((), s\<lparr>mk_nblk := Suc k\<rparr>\<lparr>mk_nblk := n\<rparr>)"
    by (rule Suc.hyps(1)) (use Suc.hyps(2) Suc.prems k in simp_all)
  ultimately show ?case using upt_conv_Cons [OF k] by simp
qed

section \<open>Inodes and their first block\<close>

text \<open>The inodes that \<open>main\<close> makes first are all in block 2.\<close>

definition mk_ino :: "u32 \<Rightarrow> mkstate \<Rightarrow> dinode" where
  "mk_ino n s = get_dinode (mk_disk s 2) (dinode_offset n)"

definition put_ino :: "u32 \<Rightarrow> dinode \<Rightarrow> mkstate \<Rightarrow> mkstate" where
  "put_ino n di s = store 2 (put_dinode (NDIRECT + 2) (mk_disk s 2) (dinode_offset n) di) s"

lemma inode_io:
  assumes "formatted s" "unat n < IPB"
  shows "mk_winode n di s = Inr ((), put_ino n di s)" "mk_rinode n s = Inr (mk_ino n s, s)"
proof -
  have "IBLOCK n = 2" "unat (2 :: u32) < SIZE" using assms(2) by (simp_all add: IBLOCK_def layout)
  then show "mk_winode n di s = Inr ((), put_ino n di s)" "mk_rinode n s = Inr (mk_ino n s, s)"
    using sector_io [OF assms(1), of 2] by (simp_all add: mk_winode_def mk_rinode_def put_ino_def mk_ino_def)
qed

lemma put_ino_sel [simp]:
  "freeblock (put_ino n di s) = freeblock s" "formatted (put_ino n di s) = formatted s" "mk_nblk (put_ino n di s) = mk_nblk s"
  "a \<noteq> 2 \<Longrightarrow> mk_disk (put_ino n di s) a = mk_disk s a"
  "di_type (mk_ino n (put_ino n di s)) = di_type di" "di_nlink (mk_ino n (put_ino n di s)) = di_nlink di"
  "di_size (mk_ino n (put_ino n di s)) = di_size di"
  "k < NDIRECT + 2 \<Longrightarrow> di_addrs (mk_ino n (put_ino n di s)) k = di_addrs di k"
  by (simp_all add: put_ino_def mk_ino_def get_put_dinode_fields get_put_dinode_addrs)

text \<open>Appending inside the first block, which is \<open>a\<close> once the inode has been given it.\<close>

definition append_ino :: "u32 \<Rightarrow> u32 \<Rightarrow> bytes \<Rightarrow> mkstate \<Rightarrow> mkstate" where
  "append_ino n a p s =
     put_ino n ((mk_ino n s)\<lparr>di_addrs := (di_addrs (mk_ino n s))(0 := a), di_size := di_size (mk_ino n s) + of_nat (length p)\<rparr>)
       (store (unat a) (blit_list (mk_disk s (unat a)) (unat (di_size (mk_ino n s))) p) s)"

lemma mk_iappend_ino:
  assumes "formatted s" "p \<noteq> []" "unat (di_size (mk_ino n s)) + length p \<le> BSIZE" "unat (di_size (mk_ino n s)) < BSIZE" "unat n < IPB"
  shows "di_addrs (mk_ino n s) 0 = a \<Longrightarrow> a \<noteq> 0 \<Longrightarrow> unat a < SIZE \<Longrightarrow> unat a \<noteq> 2 \<Longrightarrow>
      mk_iappend n p s = Inr ((), append_ino n a p s)"
    and "di_addrs (mk_ino n s) 0 = 0 \<Longrightarrow> freeblock s = a \<Longrightarrow> unat a < SIZE \<Longrightarrow> unat a \<noteq> 2 \<Longrightarrow>
      mk_iappend n p s = Inr ((), append_ino n a p (s\<lparr>freeblock := a + 1\<rparr>))"
proof -
  let ?off = "di_size (mk_ino n s)"
  have c: "chunk ?off (length p) = length p" using assms(3,4) by (simp add: chunk_def)
  have d: "unat ?off div BSIZE = 0" "unat ?off mod BSIZE = unat ?off" "0 < MAXFILE" "0 < NDIRECT" using assms(4) by (simp_all add: layout)
  have loop: "mk_iappend_loop din ?off p s' = Inr ((din', ?off + of_nat (length p)), store (unat a) (blit_list (mk_disk t (unat a)) (unat ?off) p) t)"
    if "mk_block din 0 s' = Inr ((din', a), t)" "formatted t" "unat a < SIZE" for din din' s' t
    using that assms(2) c d sector_io [OF that(2,3)] by (subst mk_iappend_loop.simps) (simp add: mk_iappend_loop.simps)
  show "mk_iappend n p s = Inr ((), append_ino n a p s)"
    if "di_addrs (mk_ino n s) 0 = a" "a \<noteq> 0" "unat a < SIZE" "unat a \<noteq> 2"
  proof -
    have "mk_block (mk_ino n s) 0 s = Inr ((mk_ino n s, a), s)" using that d by (simp add: mk_block_def)
    moreover have "(mk_ino n s)\<lparr>di_addrs := (di_addrs (mk_ino n s))(0 := a)\<rparr> = mk_ino n s" using that(1) by (simp add: fun_upd_idem)
    ultimately show ?thesis
      using loop [of "mk_ino n s" s "mk_ino n s" s] assms(1) that(3) inode_io [OF assms(1,5)]
      by (simp add: mk_iappend_def append_ino_def inode_io assms(5))
  qed
  show "mk_iappend n p s = Inr ((), append_ino n a p (s\<lparr>freeblock := a + 1\<rparr>))"
    if "di_addrs (mk_ino n s) 0 = 0" "freeblock s = a" "unat a < SIZE" "unat a \<noteq> 2"
  proof -
    let ?t = "s\<lparr>freeblock := a + 1\<rparr>"
    have "mk_block (mk_ino n s) 0 s = Inr (((mk_ino n s)\<lparr>di_addrs := (di_addrs (mk_ino n s))(0 := a)\<rparr>, a), ?t)"
      using that d by (simp add: mk_block_def mk_newblock_def)
    moreover have "mk_ino n ?t = mk_ino n s" by (simp add: mk_ino_def)
    ultimately show ?thesis
      using loop [of "mk_ino n s" s "(mk_ino n s)\<lparr>di_addrs := (di_addrs (mk_ino n s))(0 := a)\<rparr>" ?t] assms(1) that(3) inode_io [OF assms(1,5)]
      by (simp add: mk_iappend_def append_ino_def inode_io assms(5))
  qed
qed

section \<open>The whole image\<close>

definition root_dirent :: "bytes \<Rightarrow> dirent" where
  "root_dirent name = \<lparr>de_inum = 1, de_name = strncpy name DIRSIZ\<rparr>"

lemma root_dirent_length: "length (bytes_of_dirent (root_dirent name)) = SIZEOF_DIRENT"
  by (rule length_bytes_of_dirent) (simp add: root_dirent_def)

text \<open>The states after the super block, the root inode, its two entries and its rounded size.\<close>

definition mk1 :: mkstate where
  "mk1 = store 1 (put_sb zero_block mk_sb) ((mk_start True)\<lparr>freeblock := of_nat nmeta, mk_nblk := SIZE\<rparr>)"

definition mk2 :: mkstate where
  "mk2 = put_ino 1 (zero_dinode\<lparr>di_type := T_DIR, di_nlink := 1, di_size := 0\<rparr>) (mk1\<lparr>freeinode := 2\<rparr>)"

definition mk3 :: mkstate where
  "mk3 = append_ino 1 (of_nat nmeta) (bytes_of_dirent (root_dirent DOT)) (mk2\<lparr>freeblock := of_nat nmeta + 1\<rparr>)"

definition mk4 :: mkstate where
  "mk4 = append_ino 1 (of_nat nmeta) (bytes_of_dirent (root_dirent DOTDOT)) mk3"

text \<open>What \<open>main\<close> does last: round the size of the root directory up and write the bitmap.\<close>

definition mk_end :: "nat \<Rightarrow> mkstate \<Rightarrow> mkstate" where
  "mk_end b s = store (nmeta - 1) (mk_bits [0..<b] zero_block) (put_ino 1 ((mk_ino 1 s)\<lparr>di_size := of_nat BSIZE\<rparr>) s)"

definition mk6 :: mkstate where
  "mk6 = mk_end (Suc nmeta) mk4"

lemma root_upd [simp]: "mk_ino n (s\<lparr>freeblock := x\<rparr>) = mk_ino n s" "mk_ino n (s\<lparr>freeinode := x\<rparr>) = mk_ino n s"
  by (simp_all add: mk_ino_def)

lemma append_ino_sel:
  assumes "unat a \<noteq> 2"
  shows "formatted (append_ino n a p s) = formatted s" "freeblock (append_ino n a p s) = freeblock s"
    "mk_nblk (append_ino n a p s) = mk_nblk s"
    "di_type (mk_ino n (append_ino n a p s)) = di_type (mk_ino n s)" "di_nlink (mk_ino n (append_ino n a p s)) = di_nlink (mk_ino n s)"
    "di_size (mk_ino n (append_ino n a p s)) = di_size (mk_ino n s) + of_nat (length p)"
    "k < NDIRECT + 2 \<Longrightarrow> di_addrs (mk_ino n (append_ino n a p s)) k = (if k = 0 then a else di_addrs (mk_ino n s) k)"
    "b \<noteq> 2 \<Longrightarrow> mk_disk (append_ino n a p s) b =
      (if b = unat a then blit_list (mk_disk s b) (unat (di_size (mk_ino n s))) p else mk_disk s b)"
  using assms by (simp_all add: append_ino_def)

lemma nmeta_word: "unat (of_nat nmeta :: u32) = nmeta" "nmeta \<noteq> 2" "nmeta < SIZE" "(of_nat nmeta :: u32) \<noteq> 0"
  by (simp_all add: layout)

lemma mk2_facts: "formatted mk2" "di_size (mk_ino 1 mk2) = 0" "di_type (mk_ino 1 mk2) = T_DIR" "di_nlink (mk_ino 1 mk2) = 1"
  "freeblock mk2 = of_nat nmeta" "k < NDIRECT + 2 \<Longrightarrow> di_addrs (mk_ino 1 mk2) k = 0"
  "a \<noteq> 2 \<Longrightarrow> mk_disk mk2 a = (if a = 1 then put_sb zero_block mk_sb else zero_block)"
  by (simp_all add: mk2_def mk1_def zero_dinode_def mk_start_def) (simp add: formatted_def)

lemmas mk_facts = append_ino_sel nmeta_word mk2_facts root_dirent_length

lemma mk4_facts: "formatted mk4" "freeblock mk4 = of_nat (Suc nmeta)" "di_size (mk_ino 1 mk4) = of_nat (2 * SIZEOF_DIRENT)"
  "di_type (mk_ino 1 mk4) = T_DIR" "di_nlink (mk_ino 1 mk4) = 1"
  "k < NDIRECT + 2 \<Longrightarrow> di_addrs (mk_ino 1 mk4) k = (if k = 0 then of_nat nmeta else 0)"
  "a \<noteq> 2 \<Longrightarrow> mk_disk mk4 a =
     (if a = 1 then put_sb zero_block mk_sb
      else if a = nmeta then blit_list (blit_list zero_block 0 (bytes_of_dirent (root_dirent DOT)))
        SIZEOF_DIRENT (bytes_of_dirent (root_dirent DOTDOT))
      else zero_block)"
  unfolding mk4_def mk3_def by (simp_all add: mk_facts) (simp_all add: layout)

lemma mk_end_run:
  assumes "formatted s" "unat (di_size (mk_ino 1 s)) < BSIZE" "freeblock s = of_nat b" "b < SIZE"
  shows "bnd (mk_rinode 1) (\<lambda>din. bnd (mk_winode 1 (din\<lparr>di_size := xint ((xint (di_size din) div of_nat BSIZE + 1) * of_nat BSIZE)\<rparr>))
    (\<lambda>_. bnd (gets freeblock) (\<lambda>b. mk_balloc (sint b)))) s = Inr ((), mk_end b s)"
proof -
  let ?t = "put_ino 1 ((mk_ino 1 s)\<lparr>di_size := of_nat BSIZE\<rparr>) s"
  have i: "unat (1 :: u32) < IPB" by (simp add: layout)
  have "unat (di_size (mk_ino 1 s) div of_nat BSIZE) = 0" using assms(2) by (simp add: unat_div layout)
  then have "di_size (mk_ino 1 s) div of_nat BSIZE = 0" by (simp add: unat_eq_zero)
  then have sz: "(di_size (mk_ino 1 s) div of_nat BSIZE + 1) * of_nat BSIZE = of_nat BSIZE" by simp
  have "sint (of_nat b :: u32) = int b" by (rule sint_of_small) (use assms(4) in \<open>simp add: layout\<close>)
  moreover have "unat (of_nat (ninodeblocks + 2) :: u32) = nmeta - 1" "nmeta - 1 < SIZE" by (simp_all add: layout)
  then have "mk_wsect (of_nat (ninodeblocks + 2)) (mk_bits [0..<b] zero_block) ?t = Inr ((), mk_end b s)"
    using sector_io(1) [of ?t "of_nat (ninodeblocks + 2)"] assms(1) by (simp add: mk_end_def)
  moreover have "int b < int (BSIZE * 8)" using assms(4) by (simp add: layout)
  ultimately have "mk_balloc (sint (freeblock ?t)) ?t = Inr ((), mk_end b s)"
    using assms(3) by (simp only: mk_balloc_def nat_int bnd_guard if_True put_ino_sel(1))
  with sz inode_io [OF assms(1) i] show ?thesis by simp
qed

lemma mk_main_dots:
  "mk_main (img # fs) (mk_start True) = bnd (mk_files 1 fs) (\<lambda>_. bnd (mk_rinode 1)
     (\<lambda>din. bnd (mk_winode 1 (din\<lparr>di_size := xint ((xint (di_size din) div of_nat BSIZE + 1) * of_nat BSIZE)\<rparr>))
     (\<lambda>_. bnd (gets freeblock) (\<lambda>b. mk_balloc (sint b))))) mk4"
proof -
  let ?s = "(mk_start True)\<lparr>freeblock := of_nat nmeta\<rparr>"
  have z: "mk_zero [0..<SIZE] ?s = Inr ((), ?s\<lparr>mk_nblk := SIZE\<rparr>)" by (rule mk_zero_from) (simp_all add: mk_start_def)
  have f1: "formatted (?s\<lparr>mk_nblk := SIZE\<rparr>)" "formatted mk1" by (simp_all add: mk1_def) (simp_all add: formatted_def mk_start_def)
  have w1: "mk_wsect 1 (put_sb zero_block mk_sb) (?s\<lparr>mk_nblk := SIZE\<rparr>) = Inr ((), mk1)"
    using sector_io(1) [OF f1(1), of 1] by (simp add: mk1_def layout)
  have ib: "unat (1 :: u32) < IPB" by (simp add: layout)
  have i: "mk_ialloc T_DIR mk1 = Inr (1, mk2)"
    using inode_io(1) [of "mk1\<lparr>freeinode := 2\<rparr>" 1] f1(2) ib by (simp add: mk_ialloc_def mk2_def) (simp add: mk1_def mk_start_def)
  have ne: "bytes_of_dirent d \<noteq> []" for d by (simp add: bytes_of_dirent_def)
  have e1: "mk_entry 1 1 (cstr ''.'') mk2 = Inr ((), mk3)"
    using mk_iappend_ino(2) [of mk2 "bytes_of_dirent (root_dirent DOT)" 1 "of_nat nmeta"] ne
    by (simp add: mk_entry_def root_dirent_def [symmetric] mk_facts mk3_def DOT_def cstr_def) (simp add: layout)
  have e2: "mk_entry 1 1 (cstr ''..'') mk3 = Inr ((), mk4)"
    using mk_iappend_ino(1) [of mk3 "bytes_of_dirent (root_dirent DOTDOT)" 1 "of_nat nmeta"] ne
    by (simp add: mk_entry_def root_dirent_def [symmetric] mk_facts mk3_def mk4_def DOTDOT_def cstr_def) (simp add: layout)
  have lay: "BSIZE mod SIZEOF_DINODE = 0" "BSIZE mod SIZEOF_DIRENT = 0" "ROOTINO = 1" by (simp_all add: layout)
  show ?thesis using z w1 i e1 e2 lay by (simp add: mk_main_def) (simp add: mk_start_def)
qed

lemma mk_main_run: "mk_main [img] (mk_start True) = Inr ((), mk6)"
proof -
  have "unat (di_size (mk_ino 1 mk4)) < BSIZE" "Suc nmeta < SIZE" by (simp_all add: mk4_facts) (simp_all add: layout)
  from mk_end_run [OF mk4_facts(1) this(1) mk4_facts(2) this(2)] show ?thesis by (simp add: mk_main_dots mk6_def)
qed

lemma mk_bits_used: "bit_used (mk_bits xs b) i \<longleftrightarrow> i \<in> set xs \<or> bit_used b i"
proof (induction xs arbitrary: b)
  case (Cons x xs)
  have "mk_bits (x # xs) b = mk_bits xs (mark_bit b x)" by (simp add: mark_bit_def bit_mask_def)
  with Cons show ?case by (auto simp: bit_used_mark simp del: mk_bits.simps)
qed simp

lemma mk_end_facts:
  "mk_nblk (mk_end b s) = mk_nblk s" "di_size (mk_ino 1 (mk_end b s)) = of_nat BSIZE"
  "di_type (mk_ino 1 (mk_end b s)) = di_type (mk_ino 1 s)" "di_nlink (mk_ino 1 (mk_end b s)) = di_nlink (mk_ino 1 s)"
  "k < NDIRECT + 2 \<Longrightarrow> di_addrs (mk_ino 1 (mk_end b s)) k = di_addrs (mk_ino 1 s) k"
  "a \<noteq> 2 \<Longrightarrow> mk_disk (mk_end b s) a = (if a = nmeta - 1 then mk_bits [0..<b] zero_block else mk_disk s a)"
proof -
  have "nmeta - 1 \<noteq> 2" by (simp add: layout)
  then have r: "mk_ino 1 (mk_end b s) = mk_ino 1 (put_ino 1 ((mk_ino 1 s)\<lparr>di_size := of_nat BSIZE\<rparr>) s)"
    by (simp add: mk_end_def mk_ino_def)
  show "mk_nblk (mk_end b s) = mk_nblk s" by (simp add: mk_end_def)
  show "di_size (mk_ino 1 (mk_end b s)) = of_nat BSIZE"
    "di_type (mk_ino 1 (mk_end b s)) = di_type (mk_ino 1 s)" "di_nlink (mk_ino 1 (mk_end b s)) = di_nlink (mk_ino 1 s)"
    "k < NDIRECT + 2 \<Longrightarrow> di_addrs (mk_ino 1 (mk_end b s)) k = di_addrs (mk_ino 1 s) k" unfolding r by simp_all
  show "a \<noteq> 2 \<Longrightarrow> mk_disk (mk_end b s) a = (if a = nmeta - 1 then mk_bits [0..<b] zero_block else mk_disk s a)"
    by (simp add: mk_end_def)
qed

lemma mk6_facts: "mk_nblk mk6 = SIZE" "di_size (mk_ino 1 mk6) = of_nat BSIZE" "di_type (mk_ino 1 mk6) = T_DIR" "di_nlink (mk_ino 1 mk6) = 1"
  "k < NDIRECT + 2 \<Longrightarrow> di_addrs (mk_ino 1 mk6) k = (if k = 0 then of_nat nmeta else 0)"
  "a \<noteq> 2 \<Longrightarrow> mk_disk mk6 a =
     (if a = 1 then put_sb zero_block mk_sb
      else if a = nmeta - 1 then mk_bits [0..<Suc nmeta] zero_block
      else if a = nmeta then blit_list (blit_list zero_block 0 (bytes_of_dirent (root_dirent DOT)))
        SIZEOF_DIRENT (bytes_of_dirent (root_dirent DOTDOT))
      else zero_block)"
proof -
  have n: "nmeta - 1 \<noteq> nmeta" "nmeta - 1 \<noteq> 1" by (simp_all add: layout)
  have "mk_nblk mk4 = SIZE" using mk4_facts(1) by (simp add: formatted_def)
  with n show "mk_nblk mk6 = SIZE" "di_size (mk_ino 1 mk6) = of_nat BSIZE" "di_type (mk_ino 1 mk6) = T_DIR" "di_nlink (mk_ino 1 mk6) = 1"
    "k < NDIRECT + 2 \<Longrightarrow> di_addrs (mk_ino 1 mk6) k = (if k = 0 then of_nat nmeta else 0)"
    "a \<noteq> 2 \<Longrightarrow> mk_disk mk6 a =
     (if a = 1 then put_sb zero_block mk_sb
      else if a = nmeta - 1 then mk_bits [0..<Suc nmeta] zero_block
      else if a = nmeta then blit_list (blit_list zero_block 0 (bytes_of_dirent (root_dirent DOT)))
        SIZEOF_DIRENT (bytes_of_dirent (root_dirent DOTDOT))
      else zero_block)"
    by (simp_all add: mk6_def mk_end_facts mk4_facts del: upt_Suc)
qed

text \<open>
  C31: What \<open>mkfs\<close> writes when given no files.  It succeeds; block 1 holds the super block; the
  root inode is a directory of one block with link count 1; the bitmap, which is where
  \<open>BBLOCK\<close> looks for it, marks exactly the blocks up to the root directory's as used, so the
  blocks of the log at the end of the disk stay free in it; every block other than these
  four is zero, the log's among them.
\<close>

theorem mkfs_image:
  "\<exists>s. mk_main [img] (mk_start True) = Inr ((), s) \<and> mk_nblk s = SIZE \<and> sb_of_block (mk_disk s 1) = mk_sb \<and>
     (let root = get_dinode (mk_disk s (unat (IBLOCK ROOTINO))) (dinode_offset ROOTINO) in
        di_type root = T_DIR \<and> di_nlink root = 1 \<and> di_size root = of_nat BSIZE \<and>
        (\<forall>k < NDIRECT + 2. di_addrs root k = (if k = 0 then of_nat nmeta else 0))) \<and>
     (\<forall>b. bit_used (mk_disk s (unat (BBLOCK 0 (of_nat NINODES)))) b = (b \<le> nmeta)) \<and>
     (\<forall>a. a \<notin> {1, unat (IBLOCK ROOTINO), unat (BBLOCK 0 (of_nat NINODES)), nmeta} \<longrightarrow> mk_disk s a = zero_block)"
proof -
  have i: "unat (IBLOCK ROOTINO) = 2" "unat (BBLOCK 0 (of_nat NINODES)) = nmeta - 1" "ROOTINO = 1"
    by (simp_all add: IBLOCK_def BBLOCK_def layout)
  have n: "nmeta - 1 \<noteq> 2" "nmeta - 1 \<noteq> nmeta" "nmeta - 1 \<noteq> 1" by (simp_all add: layout)
  have "\<not> bit_used zero_block b" for b by (simp add: bit_used_iff zero_block_def)
  then have "bit_used (mk_disk mk6 (nmeta - 1)) b \<longleftrightarrow> b \<le> nmeta" for b
    using n by (auto simp: mk6_facts mk_bits_used simp del: upt_Suc)
  moreover have "get_dinode (mk_disk mk6 2) (dinode_offset 1) = mk_ino 1 mk6" by (simp add: mk_ino_def)
  ultimately show ?thesis unfolding i(1,2) unfolding i(3) using n
    by (intro exI [of _ mk6]) (auto simp: Let_def mk_main_run mk6_facts)
qed

text \<open>The first block of the log is free in the bitmap.\<close>

theorem mkfs_image_witness:
  "\<exists>s. mk_main [(cstr ''fs.img'', None)] (mk_start True) = Inr ((), s) \<and> mk_disk s (SIZE - nlog) = zero_block \<and>
     \<not> bit_used (mk_disk s (nmeta - 1)) (SIZE - nlog)"
proof -
  have "unat (IBLOCK ROOTINO) = 2" "unat (BBLOCK 0 (of_nat NINODES)) = nmeta - 1" by (simp_all add: IBLOCK_def BBLOCK_def layout)
  moreover have "SIZE - nlog \<notin> {1, 2, nmeta - 1, nmeta}" "\<not> SIZE - nlog \<le> nmeta" by (simp_all add: layout)
  ultimately show ?thesis using mkfs_image [of "(cstr ''fs.img'', None)"] by (elim exE conjE) (intro exI conjI, assumption, simp, metis)
qed

end
