(* ===== verification/Mkfs_File.thy ===== *)
theory Mkfs_File
  imports Mkfs_Props Resolve File_Content
begin

text \<open>
  The image \<open>mkfs\<close> writes when it is given one file, as the build gives it \<open>hello.txt\<close>: the file
  system mounts it, finds the file by its name and reads back its contents.
\<close>

section \<open>Two inodes in one block\<close>

lemma slot_apart:
  assumes "unat n < IPB" "unat m < IPB" "m \<noteq> n" "dinode_offset m \<le> i" "i < dinode_offset m + SIZEOF_DINODE"
  shows "put_dinode (NDIRECT + 2) d (dinode_offset n) di i = d i"
proof (rule put_dinode_other)
  have "unat m \<noteq> unat n" using assms(3) by (simp add: word_unat_eq_iff)
  then have "unat m + 1 \<le> unat n \<or> unat n + 1 \<le> unat m" by linarith
  then have "(unat m + 1) * SIZEOF_DINODE \<le> unat n * SIZEOF_DINODE \<or> (unat n + 1) * SIZEOF_DINODE \<le> unat m * SIZEOF_DINODE"
    using mult_le_mono1 by blast
  with assms show "i < dinode_offset n \<or> dinode_offset n + 24 + 4 * (NDIRECT + 2) \<le> i"
    by (auto simp: dinode_offset_def layout)
qed

lemma put_ino_apart:
  assumes "unat n < IPB" "unat m < IPB" "m \<noteq> n"
  shows "di_type (mk_ino m (put_ino n di s)) = di_type (mk_ino m s)" "di_nlink (mk_ino m (put_ino n di s)) = di_nlink (mk_ino m s)"
    "di_size (mk_ino m (put_ino n di s)) = di_size (mk_ino m s)"
    "k < NDIRECT + 2 \<Longrightarrow> di_addrs (mk_ino m (put_ino n di s)) k = di_addrs (mk_ino m s) k"
proof -
  let ?b = "put_dinode (NDIRECT + 2) (mk_disk s 2) (dinode_offset n) di"
  have g: "get16 ?b (dinode_offset m + i) = get16 (mk_disk s 2) (dinode_offset m + i)" if "i + 2 \<le> SIZEOF_DINODE" for i
    by (rule get16_cong, rule slot_apart [OF assms]) (use that in simp_all)
  have h: "get32 ?b (dinode_offset m + i) = get32 (mk_disk s 2) (dinode_offset m + i)" if "i + 4 \<le> SIZEOF_DINODE" for i
    by (rule get32_cong, rule slot_apart [OF assms]) (use that in simp_all)
  note u = mk_ino_def put_ino_def get_dinode_def
  show "di_type (mk_ino m (put_ino n di s)) = di_type (mk_ino m s)" "di_nlink (mk_ino m (put_ino n di s)) = di_nlink (mk_ino m s)"
    using g [of 0] g [of 6] by (simp_all add: u layout)
  show "di_size (mk_ino m (put_ino n di s)) = di_size (mk_ino m s)" using h [of 8] by (simp add: u layout)
  show "k < NDIRECT + 2 \<Longrightarrow> di_addrs (mk_ino m (put_ino n di s)) k = di_addrs (mk_ino m s) k"
    using h [of "24 + 4 * k"] by (simp add: u layout add.assoc)
qed

lemma append_ino_apart:
  assumes "unat n < IPB" "unat m < IPB" "m \<noteq> n" "unat a \<noteq> 2"
  shows "di_type (mk_ino m (append_ino n a p s)) = di_type (mk_ino m s)" "di_nlink (mk_ino m (append_ino n a p s)) = di_nlink (mk_ino m s)"
    "di_size (mk_ino m (append_ino n a p s)) = di_size (mk_ino m s)"
    "k < NDIRECT + 2 \<Longrightarrow> di_addrs (mk_ino m (append_ino n a p s)) k = di_addrs (mk_ino m s) k"
proof -
  have "mk_ino m (store (unat a) b s) = mk_ino m s" for b using assms(4) by (simp add: mk_ino_def)
  then show "di_type (mk_ino m (append_ino n a p s)) = di_type (mk_ino m s)" "di_nlink (mk_ino m (append_ino n a p s)) = di_nlink (mk_ino m s)"
    "di_size (mk_ino m (append_ino n a p s)) = di_size (mk_ino m s)"
    "k < NDIRECT + 2 \<Longrightarrow> di_addrs (mk_ino m (append_ino n a p s)) k = di_addrs (mk_ino m s) k"
    by (simp_all add: append_ino_def put_ino_apart [OF assms(1-3)])
qed

section \<open>The image with one file\<close>

definition file_dirent :: "bytes \<Rightarrow> dirent" where
  "file_dirent name = \<lparr>de_inum = 2, de_name = strncpy name DIRSIZ\<rparr>"

lemma file_dirent_length: "length (bytes_of_dirent (file_dirent name)) = SIZEOF_DIRENT"
  by (rule length_bytes_of_dirent) (simp add: file_dirent_def)

text \<open>The states after the file's inode, its directory entry and its contents.\<close>

definition mf1 :: mkstate where
  "mf1 = put_ino 2 (zero_dinode\<lparr>di_type := T_FILE, di_nlink := 1, di_size := 0\<rparr>) (mk4\<lparr>freeinode := 3\<rparr>)"

definition mf2 :: "bytes \<Rightarrow> mkstate" where
  "mf2 name = append_ino 1 (of_nat nmeta) (bytes_of_dirent (file_dirent name)) mf1"

definition mf3 :: "bytes \<Rightarrow> bytes \<Rightarrow> mkstate" where
  "mf3 name data = append_ino 2 (of_nat (Suc nmeta)) data ((mf2 name)\<lparr>freeblock := of_nat (nmeta + 2)\<rparr>)"

definition mf_root :: "bytes \<Rightarrow> block" where
  "mf_root name = blit_list (blit_list (blit_list zero_block 0 (bytes_of_dirent (root_dirent DOT)))
     SIZEOF_DIRENT (bytes_of_dirent (root_dirent DOTDOT))) (2 * SIZEOF_DIRENT) (bytes_of_dirent (file_dirent name))"

lemma inums: "unat (1 :: u32) < IPB" "unat (2 :: u32) < IPB" "(2 :: u32) \<noteq> 1" "(1 :: u32) \<noteq> 2"
  "unat (of_nat (Suc nmeta) :: u32) = Suc nmeta" "Suc nmeta \<noteq> 2" "(of_nat (Suc nmeta) :: u32) \<noteq> 0"
  by (simp_all add: layout)

lemma mf1_facts: "formatted mf1" "freeblock mf1 = of_nat (Suc nmeta)" "di_size (mk_ino 1 mf1) = of_nat (2 * SIZEOF_DIRENT)"
  "di_type (mk_ino 1 mf1) = T_DIR" "di_nlink (mk_ino 1 mf1) = 1"
  "k < NDIRECT + 2 \<Longrightarrow> di_addrs (mk_ino 1 mf1) k = (if k = 0 then of_nat nmeta else 0)"
  "di_size (mk_ino 2 mf1) = 0" "di_type (mk_ino 2 mf1) = T_FILE" "di_nlink (mk_ino 2 mf1) = 1"
  "k < NDIRECT + 2 \<Longrightarrow> di_addrs (mk_ino 2 mf1) k = 0" "a \<noteq> 2 \<Longrightarrow> mk_disk mf1 a = mk_disk mk4 a" "mk_nblk mf1 = SIZE"
proof -
  have "mk_nblk mk4 = SIZE" using mk4_facts(1) by (simp add: formatted_def)
  then show "formatted mf1" "freeblock mf1 = of_nat (Suc nmeta)" "di_size (mk_ino 1 mf1) = of_nat (2 * SIZEOF_DIRENT)"
    "di_type (mk_ino 1 mf1) = T_DIR" "di_nlink (mk_ino 1 mf1) = 1"
    "k < NDIRECT + 2 \<Longrightarrow> di_addrs (mk_ino 1 mf1) k = (if k = 0 then of_nat nmeta else 0)"
    "di_size (mk_ino 2 mf1) = 0" "di_type (mk_ino 2 mf1) = T_FILE" "di_nlink (mk_ino 2 mf1) = 1"
    "k < NDIRECT + 2 \<Longrightarrow> di_addrs (mk_ino 2 mf1) k = 0" "a \<noteq> 2 \<Longrightarrow> mk_disk mf1 a = mk_disk mk4 a" "mk_nblk mf1 = SIZE"
    unfolding mf1_def by (simp_all add: put_ino_apart [OF inums(2,1,4)] mk4_facts zero_dinode_def)
qed

lemma mf2_facts: "formatted (mf2 name)" "freeblock (mf2 name) = of_nat (Suc nmeta)" "di_size (mk_ino 1 (mf2 name)) = of_nat (3 * SIZEOF_DIRENT)"
  "di_type (mk_ino 1 (mf2 name)) = T_DIR" "di_nlink (mk_ino 1 (mf2 name)) = 1"
  "k < NDIRECT + 2 \<Longrightarrow> di_addrs (mk_ino 1 (mf2 name)) k = (if k = 0 then of_nat nmeta else 0)"
  "di_size (mk_ino 2 (mf2 name)) = 0" "di_type (mk_ino 2 (mf2 name)) = T_FILE" "di_nlink (mk_ino 2 (mf2 name)) = 1"
  "k < NDIRECT + 2 \<Longrightarrow> di_addrs (mk_ino 2 (mf2 name)) k = 0"
  "a \<noteq> 2 \<Longrightarrow> mk_disk (mf2 name) a = (if a = 1 then put_sb zero_block mk_sb else if a = nmeta then mf_root name else zero_block)"
  "mk_nblk (mf2 name) = SIZE"
proof -
  have w: "unat (of_nat (2 * SIZEOF_DIRENT) :: u32) = 2 * SIZEOF_DIRENT" "nmeta \<noteq> 1"
    "of_nat (2 * SIZEOF_DIRENT) + of_nat SIZEOF_DIRENT = (of_nat (3 * SIZEOF_DIRENT) :: u32)" by (simp_all add: layout)
  have a: "unat (of_nat nmeta :: u32) \<noteq> 2" by (simp add: nmeta_word)
  note s = append_ino_sel [OF a] append_ino_apart [OF inums(1,2,3) a] mf1_facts file_dirent_length nmeta_word
  show "formatted (mf2 name)" "freeblock (mf2 name) = of_nat (Suc nmeta)" "di_size (mk_ino 1 (mf2 name)) = of_nat (3 * SIZEOF_DIRENT)"
    "di_type (mk_ino 1 (mf2 name)) = T_DIR" "di_nlink (mk_ino 1 (mf2 name)) = 1" "mk_nblk (mf2 name) = SIZE"
    "di_size (mk_ino 2 (mf2 name)) = 0" "di_type (mk_ino 2 (mf2 name)) = T_FILE" "di_nlink (mk_ino 2 (mf2 name)) = 1"
    unfolding mf2_def using w(3) by (simp_all add: s del: of_nat_mult)
  show "k < NDIRECT + 2 \<Longrightarrow> di_addrs (mk_ino 1 (mf2 name)) k = (if k = 0 then of_nat nmeta else 0)"
    "k < NDIRECT + 2 \<Longrightarrow> di_addrs (mk_ino 2 (mf2 name)) k = 0" unfolding mf2_def by (simp_all add: s)
  show "a \<noteq> 2 \<Longrightarrow> mk_disk (mf2 name) a = (if a = 1 then put_sb zero_block mk_sb else if a = nmeta then mf_root name else zero_block)"
    unfolding mf2_def using w(1,2) by (simp add: s mk4_facts mf_root_def del: of_nat_mult)
qed

definition mk_image :: "bytes \<Rightarrow> bytes \<Rightarrow> mkstate" where
  "mk_image name data = mk_end (nmeta + 2) (mf3 name data)"

lemma mf3_facts: "formatted (mf3 name data)" "freeblock (mf3 name data) = of_nat (nmeta + 2)" "di_size (mk_ino 1 (mf3 name data)) = of_nat (3 * SIZEOF_DIRENT)"
  "di_type (mk_ino 1 (mf3 name data)) = T_DIR" "di_nlink (mk_ino 1 (mf3 name data)) = 1" "mk_nblk (mf3 name data) = SIZE"
  "k < NDIRECT + 2 \<Longrightarrow> di_addrs (mk_ino 1 (mf3 name data)) k = (if k = 0 then of_nat nmeta else 0)"
  "di_size (mk_ino 2 (mf3 name data)) = of_nat (length data)" "di_type (mk_ino 2 (mf3 name data)) = T_FILE" "di_nlink (mk_ino 2 (mf3 name data)) = 1"
  "k < NDIRECT + 2 \<Longrightarrow> di_addrs (mk_ino 2 (mf3 name data)) k = (if k = 0 then of_nat (Suc nmeta) else 0)"
  "a \<noteq> 2 \<Longrightarrow> mk_disk (mf3 name data) a = (if a = 1 then put_sb zero_block mk_sb else if a = nmeta then mf_root name
     else if a = Suc nmeta then blit_list zero_block 0 data else zero_block)"
proof -
  have a: "unat (of_nat (Suc nmeta) :: u32) \<noteq> 2" by (simp only: inums) simp
  note s = append_ino_sel [OF a] append_ino_apart [OF inums(2,1,4) a] mf2_facts inums(5)
  show "formatted (mf3 name data)" "freeblock (mf3 name data) = of_nat (nmeta + 2)" "di_size (mk_ino 1 (mf3 name data)) = of_nat (3 * SIZEOF_DIRENT)"
    "di_type (mk_ino 1 (mf3 name data)) = T_DIR" "di_nlink (mk_ino 1 (mf3 name data)) = 1" "mk_nblk (mf3 name data) = SIZE"
    "di_size (mk_ino 2 (mf3 name data)) = of_nat (length data)" "di_type (mk_ino 2 (mf3 name data)) = T_FILE" "di_nlink (mk_ino 2 (mf3 name data)) = 1"
    unfolding mf3_def by (simp_all add: s del: of_nat_mult of_nat_Suc of_nat_add)
  show "k < NDIRECT + 2 \<Longrightarrow> di_addrs (mk_ino 1 (mf3 name data)) k = (if k = 0 then of_nat nmeta else 0)"
    "k < NDIRECT + 2 \<Longrightarrow> di_addrs (mk_ino 2 (mf3 name data)) k = (if k = 0 then of_nat (Suc nmeta) else 0)"
    unfolding mf3_def by (simp_all add: s del: of_nat_Suc of_nat_add)
  have "nmeta \<noteq> 0" by (simp add: layout)
  then show "a \<noteq> 2 \<Longrightarrow> mk_disk (mf3 name data) a = (if a = 1 then put_sb zero_block mk_sb else if a = nmeta then mf_root name
     else if a = Suc nmeta then blit_list zero_block 0 data else zero_block)"
    unfolding mf3_def by (simp add: s del: of_nat_Suc of_nat_add)
qed

lemma mk_image_facts: "mk_nblk (mk_image name data) = SIZE" "di_size (mk_ino 1 (mk_image name data)) = of_nat BSIZE"
  "di_type (mk_ino 1 (mk_image name data)) = T_DIR" "di_nlink (mk_ino 1 (mk_image name data)) = 1"
  "k < NDIRECT + 2 \<Longrightarrow> di_addrs (mk_ino 1 (mk_image name data)) k = (if k = 0 then of_nat nmeta else 0)"
  "di_size (mk_ino 2 (mk_image name data)) = of_nat (length data)" "di_type (mk_ino 2 (mk_image name data)) = T_FILE"
  "di_nlink (mk_ino 2 (mk_image name data)) = 1"
  "k < NDIRECT + 2 \<Longrightarrow> di_addrs (mk_ino 2 (mk_image name data)) k = (if k = 0 then of_nat (Suc nmeta) else 0)"
  "mk_disk (mk_image name data) 1 = put_sb zero_block mk_sb" "mk_disk (mk_image name data) nmeta = mf_root name"
  "mk_disk (mk_image name data) (Suc nmeta) = blit_list zero_block 0 data" "mk_disk (mk_image name data) (SIZE - nlog) = zero_block"
proof -
  let ?s = "mf3 name data"
  have n: "nmeta \<noteq> 0" "nmeta \<noteq> 1" "nmeta \<noteq> 2" "nmeta - 1 \<noteq> 1" "nmeta - 1 \<noteq> 2" "SIZE - nlog \<noteq> 2" "SIZE - nlog \<noteq> 1"
    "SIZE - nlog \<noteq> nmeta" "SIZE - nlog \<noteq> Suc nmeta" "SIZE - nlog \<noteq> nmeta - 1"
    "nmeta \<noteq> nmeta - 1" "Suc nmeta \<noteq> nmeta - 1" by (simp_all add: layout)
  have "mk_ino 2 (mk_image name data) = mk_ino 2 (put_ino 1 ((mk_ino 1 ?s)\<lparr>di_size := of_nat BSIZE\<rparr>) ?s)"
    using n(5) by (simp add: mk_image_def mk_end_def mk_ino_def)
  then show "di_size (mk_ino 2 (mk_image name data)) = of_nat (length data)" "di_type (mk_ino 2 (mk_image name data)) = T_FILE"
    "di_nlink (mk_ino 2 (mk_image name data)) = 1"
    "k < NDIRECT + 2 \<Longrightarrow> di_addrs (mk_ino 2 (mk_image name data)) k = (if k = 0 then of_nat (Suc nmeta) else 0)"
    by (simp_all add: put_ino_apart [OF inums(1,2,3)] mf3_facts del: of_nat_Suc)
  show "mk_nblk (mk_image name data) = SIZE" "di_size (mk_ino 1 (mk_image name data)) = of_nat BSIZE"
    "di_type (mk_ino 1 (mk_image name data)) = T_DIR" "di_nlink (mk_ino 1 (mk_image name data)) = 1"
    "k < NDIRECT + 2 \<Longrightarrow> di_addrs (mk_ino 1 (mk_image name data)) k = (if k = 0 then of_nat nmeta else 0)"
    by (simp_all add: mk_image_def mk_end_facts mf3_facts del: upt_Suc)
  show "mk_disk (mk_image name data) 1 = put_sb zero_block mk_sb" "mk_disk (mk_image name data) nmeta = mf_root name"
    "mk_disk (mk_image name data) (Suc nmeta) = blit_list zero_block 0 data" "mk_disk (mk_image name data) (SIZE - nlog) = zero_block"
    using n by (simp_all add: mk_image_def mk_end_facts mf3_facts del: upt_Suc)
qed

lemma mk_main_file:
  assumes "SLASH \<notin> set name" "name \<noteq> []" "hd name \<noteq> 0x5F" "data \<noteq> []" "length data \<le> BSIZE"
  shows "mk_main [img, (name, Some data)] (mk_start True) = Inr ((), mk_image name data)"
proof -
  have fi: "freeinode mk4 = 2" by (simp add: mk4_def mk3_def mk2_def append_ino_def put_ino_def)
  have i: "mk_ialloc T_FILE mk4 = Inr (2, mf1)"
    using inode_io(1) [of "mk4\<lparr>freeinode := 3\<rparr>" 2] mk4_facts(1) inums(2) by (simp add: mk_ialloc_def mf1_def fi)
  have ne: "bytes_of_dirent d \<noteq> []" for d by (simp add: bytes_of_dirent_def)
  have e: "mk_entry 1 2 name mf1 = Inr ((), mf2 name)"
    using mk_iappend_ino(1) [of mf1 "bytes_of_dirent (file_dirent name)" 1 "of_nat nmeta"] ne inums(1)
    by (simp add: mk_entry_def file_dirent_def [symmetric] mf1_facts file_dirent_length nmeta_word mf2_def) (simp add: layout)
  have "mk_iappend 2 data (mf2 name) = Inr ((), mf3 name data)"
    using mk_iappend_ino(2) [of "mf2 name" data 2 "of_nat (Suc nmeta)"] assms(4,5) inums(2,5)
    by (simp add: mf2_facts mf3_def add.commute) (simp add: layout)
  then have c: "mk_copy 2 data (mf2 name) = Inr ((), mf3 name data)"
    using assms(4,5) by (subst mk_copy.simps) (simp add: mk_copy.simps)
  have "unat (di_size (mk_ino 1 (mf3 name data))) < BSIZE" "nmeta + 2 < SIZE" by (simp_all add: mf3_facts) (simp_all add: layout)
  from mk_end_run [OF mf3_facts(1) this(1) mf3_facts(2) this(2)] i e c assms(1-3) show ?thesis
    by (simp add: mk_main_dots mk_image_def)
qed

section \<open>Mounting it\<close>

lemma entry_first_block:
  assumes "iaddr s i 0 = a" "k < BSIZE div SIZEOF_DIRENT"
  shows "entry s i k = dirent_of_bytes (block_slice (view s a) (k * SIZEOF_DIRENT) SIZEOF_DIRENT)"
proof -
  have "file_bytes s i (k * SIZEOF_DIRENT) SIZEOF_DIRENT = block_slice (view s a) (k * SIZEOF_DIRENT) SIZEOF_DIRENT"
    by (rule nth_equalityI) (use assms in \<open>simp_all add: file_bytes_def fbyte_def block_slice_def layout\<close>)
  then show ?thesis by (simp add: entry_def)
qed

lemma slice_blit:
  assumes "length xs = SIZEOF_DIRENT"
  shows "block_slice (blit_list b (k * SIZEOF_DIRENT) xs) (j * SIZEOF_DIRENT) SIZEOF_DIRENT =
    (if j = k then xs else block_slice b (j * SIZEOF_DIRENT) SIZEOF_DIRENT)"
proof (cases "j = k")
  case True
  then show ?thesis by (simp, intro nth_equalityI) (simp_all add: block_slice_def blit_list_def assms)
next
  case False
  then have "Suc j \<le> k \<or> Suc k \<le> j" by linarith
  then have "Suc j * SIZEOF_DIRENT \<le> k * SIZEOF_DIRENT \<or> Suc k * SIZEOF_DIRENT \<le> j * SIZEOF_DIRENT"
    using mult_le_mono1 by blast
  with False show ?thesis by (simp, intro nth_equalityI) (auto simp: block_slice_def blit_list_def assms)
qed

lemma root_entries:
  "dirent_of_bytes (block_slice (mf_root name) (k * SIZEOF_DIRENT) SIZEOF_DIRENT) =
     (if k = 0 then root_dirent DOT else if k = 1 then root_dirent DOTDOT else if k = 2 then file_dirent name
      else dirent_of_bytes (block_slice zero_block (k * SIZEOF_DIRENT) SIZEOF_DIRENT))"
proof -
  have r: "dirent_of_bytes (bytes_of_dirent (root_dirent nm)) = root_dirent nm" "dirent_of_bytes (bytes_of_dirent (file_dirent nm)) = file_dirent nm" for nm
    by (rule dirent_roundtrip, simp add: root_dirent_def file_dirent_def)+
  have b: "mf_root name = blit_list (blit_list (blit_list zero_block (0 * SIZEOF_DIRENT) (bytes_of_dirent (root_dirent DOT)))
     (1 * SIZEOF_DIRENT) (bytes_of_dirent (root_dirent DOTDOT))) (2 * SIZEOF_DIRENT) (bytes_of_dirent (file_dirent name))"
    by (simp add: mf_root_def)
  show ?thesis unfolding b slice_blit [OF root_dirent_length] slice_blit [OF file_dirent_length] by (auto simp: r)
qed

lemma zero_entry: "de_inum (dirent_of_bytes (block_slice zero_block p SIZEOF_DIRENT)) = 0"
proof -
  have "get16 (\<lambda>i. block_slice zero_block p SIZEOF_DIRENT ! i) 0 = get16 zero_block 0"
    by (rule get16_cong) (simp add: block_slice_def zero_block_def layout)
  then show ?thesis by (simp add: dirent_of_bytes_def)
qed

lemma one_name: "SLASH \<notin> set name \<Longrightarrow> name \<noteq> [] \<Longrightarrow> length name \<le> DIRSIZ \<Longrightarrow> path_elems (SLASH # name) = [name]"
proof -
  assume a: "SLASH \<notin> set name" "name \<noteq> []" "length name \<le> DIRSIZ"
  have "split_at SLASH name = [name]" using a(1) by (induction name) auto
  with a show ?thesis by (simp add: path_elems_def)
qed

text \<open>A mounted state whose blocks are those of the image.\<close>

definition image_in :: "bytes \<Rightarrow> bytes \<Rightarrow> kern \<Rightarrow> bool" where
  "image_in name data s \<longleftrightarrow> linv s \<and> held s = {} \<and> lsec s = [] \<and> inodes s = (\<lambda>_. zero_inode) \<and>
     (\<forall>a. home_sector s a \<longleftrightarrow> 2 \<le> unat a \<and> unat a < SIZE - nlog) \<and>
     (\<forall>a. unat a < SIZE - nlog \<longrightarrow> view s a = mk_disk (mk_image name data) (unat a))"

lemma image_mounts:
  "\<exists>s. sample_open (process_start (mk_disk (mk_image name data)) SIZE) = Inr ((), s) \<and> image_in name data s"
proof -
  let ?d = "mk_disk (mk_image name data)"
  have g: "sb_start mk_sb = SIZE - nlog" "sb_geom mk_sb SIZE"
    by (simp_all add: sb_start_def sb_len_def sb_geom_def mk_sb_def layout)
  have "sb_of_block (?d 1) = mk_sb" "head_n (?d (sb_start mk_sb)) = 0" by (simp_all only: g(1) mk_image_facts) (simp_all add: head_n_def)
  from mount_begin [where d = ?d, OF this(1) g(2) this(2)] obtain s where s:
    "sample_open (process_start ?d SIZE) = Inr ((), s)" "linv s" "held s = {}" "lsec s = []"
    "log_at s mk_sb" "inodes s = (\<lambda>_. zero_inode)" "\<forall>a. unat a \<noteq> SIZE - nlog \<longrightarrow> view s a = ?d (unat a)"
    unfolding g(1) by blast
  moreover have "home_sector s a \<longleftrightarrow> 2 \<le> unat a \<and> unat a < SIZE - nlog" for a
    using log_at_geom(4) [OF s(5)] g(1) by simp
  ultimately show ?thesis by (intro exI [of _ s]) (simp add: image_in_def)
qed

lemma image_inodes:
  assumes "image_in name data s" "length data \<le> BSIZE"
  shows "i_type (disk_inode s 1) = T_DIR" "i_nlink (disk_inode s 1) = 1" "i_size (disk_inode s 1) = of_nat BSIZE"
    "k \<le> NDIRECT \<Longrightarrow> i_addrs (disk_inode s 1) k = (if k = 0 then of_nat nmeta else 0)"
    "i_type (disk_inode s 2) = T_FILE" "i_nlink (disk_inode s 2) = 1" "i_size (disk_inode s 2) = of_nat (length data)"
    "k \<le> NDIRECT \<Longrightarrow> i_addrs (disk_inode s 2) k = (if k = 0 then of_nat (Suc nmeta) else 0)"
    "sector_ok s 2" "sector_ok s (of_nat nmeta)" "sector_ok s (of_nat (Suc nmeta))"
    "view s (of_nat nmeta) = mf_root name" "view s (of_nat (Suc nmeta)) = blit_list zero_block 0 data"
proof -
  have i: "linv s" "\<And>a. home_sector s a \<longleftrightarrow> 2 \<le> unat a \<and> unat a < SIZE - nlog"
    "\<And>a. unat a < SIZE - nlog \<Longrightarrow> view s a = mk_disk (mk_image name data) (unat a)" using assms(1) by (simp_all add: image_in_def)
  have lt: "unat (2 :: u32) = 2" "2 < SIZE - nlog" "2 \<le> nmeta" "nmeta < SIZE - nlog" "Suc nmeta < SIZE - nlog" by (simp_all add: layout)
  have v: "view s 2 = mk_disk (mk_image name data) 2" using i(3) [of 2] lt by simp
  show "view s (of_nat nmeta) = mf_root name" "view s (of_nat (Suc nmeta)) = blit_list zero_block 0 data"
    using i(3) [of "of_nat nmeta"] i(3) [of "of_nat (Suc nmeta)"] lt nmeta_word(1) inums(5) mk_image_facts by simp_all
  show "sector_ok s 2" "sector_ok s (of_nat nmeta)" "sector_ok s (of_nat (Suc nmeta))"
    by (rule home_usable [OF i(1)], use i(2) lt nmeta_word(1) inums(5) in simp)+
  have ib: "IBLOCK 1 = 2" "IBLOCK 2 = 2" by (simp_all add: IBLOCK_def layout)
  have d: "get_dinode (view s (IBLOCK n)) (dinode_offset n) = mk_ino n (mk_image name data)" if "n = 1 \<or> n = 2" for n
    using that v ib by (auto simp: mk_ino_def)
  show "i_type (disk_inode s 1) = T_DIR" "i_nlink (disk_inode s 1) = 1" "i_size (disk_inode s 1) = of_nat BSIZE"
    "k \<le> NDIRECT \<Longrightarrow> i_addrs (disk_inode s 1) k = (if k = 0 then of_nat nmeta else 0)"
    "i_type (disk_inode s 2) = T_FILE" "i_nlink (disk_inode s 2) = 1" "i_size (disk_inode s 2) = of_nat (length data)"
    "k \<le> NDIRECT \<Longrightarrow> i_addrs (disk_inode s 2) k = (if k = 0 then of_nat (Suc nmeta) else 0)"
    by (simp_all add: disk_inode_def loaded_def d load_dinode_def mk_image_facts del: of_nat_Suc)
qed

lemma image_root:
  assumes "image_in name data s" "length data \<le> BSIZE"
  shows "dir_ok s (disk_inode s 1) (BSIZE div SIZEOF_DIRENT)" "dir_entries (disk_inode s 1) = BSIZE div SIZEOF_DIRENT"
    "k < BSIZE div SIZEOF_DIRENT \<Longrightarrow> entry s (disk_inode s 1) k =
      (if k = 0 then root_dirent DOT else if k = 1 then root_dirent DOTDOT else if k = 2 then file_dirent name
       else dirent_of_bytes (block_slice zero_block (k * SIZEOF_DIRENT) SIZEOF_DIRENT))"
proof -
  note d = image_inodes [OF assms]
  have h: "held s = {}" using assms(1) by (simp add: image_in_def)
  have sz: "unat (of_nat BSIZE :: u32) = BSIZE" "BSIZE div SIZEOF_DIRENT * SIZEOF_DIRENT = BSIZE" "0 < NDIRECT" by (simp_all add: layout)
  have ia: "iaddr s (disk_inode s 1) 0 = of_nat nmeta" using d(4) [of 0] sz(3) by (simp add: iaddr_def)
  have dev: "i_dev (disk_inode s 1) = ROOTDEV" by (simp add: disk_inode_def loaded_def load_dinode_def)
  have "mapped s (disk_inode s 1) (p div BSIZE)" if "p < BSIZE" for p
    using that ia d(10) h nmeta_word(4) sz(3) by (simp add: mapped_def usable_blk_def)
  then show "dir_ok s (disk_inode s 1) (BSIZE div SIZEOF_DIRENT)" using d(1,3) dev sz(1,2) by (simp add: dir_ok_def) (simp add: layout)
  show "dir_entries (disk_inode s 1) = BSIZE div SIZEOF_DIRENT" by (simp add: dir_entries_def d(3) sz(1))
  show "k < BSIZE div SIZEOF_DIRENT \<Longrightarrow> entry s (disk_inode s 1) k =
      (if k = 0 then root_dirent DOT else if k = 1 then root_dirent DOTDOT else if k = 2 then file_dirent name
       else dirent_of_bytes (block_slice zero_block (k * SIZEOF_DIRENT) SIZEOF_DIRENT))"
    by (simp only: entry_first_block [OF ia] d(12) root_entries)
qed

text \<open>A name that \<open>mkfs\<close> stores as it is and that a path can name.\<close>

definition plain_name :: "bytes \<Rightarrow> bool" where
  "plain_name name \<longleftrightarrow> name \<noteq> [] \<and> length name \<le> DIRSIZ \<and> SLASH \<notin> set name \<and> 0 \<notin> set name \<and>
     hd name \<noteq> 0x5F \<and> name \<noteq> DOT \<and> name \<noteq> DOTDOT"

lemma image_find:
  assumes "image_in name data s" "length data \<le> BSIZE" "plain_name name"
  shows "dir_find s (disk_inode s 1) name = Some 2"
proof -
  note r = image_root [OF assms(1,2)] and n = assms(3) [unfolded plain_name_def]
  have lt: "0 < BSIZE div SIZEOF_DIRENT" "1 < BSIZE div SIZEOF_DIRENT" "2 < BSIZE div SIZEOF_DIRENT" by (simp_all add: layout)
  have dot: "0 \<notin> set DOT" "0 \<notin> set DOTDOT" "length DOT \<le> DIRSIZ" "length DOTDOT \<le> DIRSIZ" by (simp_all add: DOT_def DOTDOT_def layout)
  have e: "\<not> is_entry name (entry s (disk_inode s 1) 0)" "\<not> is_entry name (entry s (disk_inode s 1) 1)" "is_entry name (entry s (disk_inode s 1) 2)"
    using n dot r(3) [OF lt(1)] r(3) [OF lt(2)] r(3) [OF lt(3)]
    by (simp_all add: is_entry_def root_dirent_def file_dirent_def c_string_strncpy) (use n dot in auto)
  have "[0..<BSIZE div SIZEOF_DIRENT] = 0 # 1 # 2 # [3..<BSIZE div SIZEOF_DIRENT]"
    using lt by (simp add: upt_conv_Cons numeral_2_eq_2 numeral_3_eq_3)
  with e have "lookup_from s (disk_inode s 1) name 0 (BSIZE div SIZEOF_DIRENT) = Some 2" by (simp add: lookup_from_def)
  then show ?thesis using r(2) r(3) [OF lt(3)] by (simp add: dir_find_def file_dirent_def)
qed

lemma image_path:
  assumes "image_in name data s" "length data \<le> BSIZE" "plain_name name"
  shows "inode_ok s 2" "path_ok s ROOTINO (path_elems (SLASH # name))" "resolve s ROOTINO False (path_elems (SLASH # name)) = Some 2"
proof -
  note d = image_inodes [OF assms(1,2)]
  have ib: "IBLOCK 1 = 2" "IBLOCK 2 = 2" "T_FILE \<noteq> T_DIR" "T_FILE \<noteq> 0" "T_DIR \<noteq> 0" "ROOTINO = 1" by (simp_all add: IBLOCK_def layout)
  show i2: "inode_ok s 2" using d ib by (simp add: inode_ok_def)
  have i1: "inode_ok s 1" using d ib image_root(1,2) [OF assms(1,2)] by (simp add: inode_ok_def)
  have el: "path_elems (SLASH # name) = [name]" using assms(3) by (intro one_name) (simp_all add: plain_name_def)
  show "path_ok s ROOTINO (path_elems (SLASH # name))" "resolve s ROOTINO False (path_elems (SLASH # name)) = Some 2"
    unfolding el ib(6) using i1 i2 image_find [OF assms] d(1) by simp_all
qed

lemma image_namei:
  assumes "image_in name data s" "length data \<le> BSIZE" "plain_name name"
  shows "\<exists>ip t. namei (SLASH # name) s = Inr (Some ip, t) \<and> i_inum (inodes t ip) = 2 \<and> on_way s t {#ip#} {}"
proof -
  have s: "linv s" "held s = {}" "lsec s = []" "inodes s = (\<lambda>_. zero_inode)" using assms(1) by (simp_all add: image_in_def)
  have "room s 1" using s(2,3) by (simp add: room_def layout)
  moreover have "coherent {} s" "\<forall>ip < NINODE. ref_room (i_ref (inodes s ip))"
    using s(4) by (simp_all add: coherent_def zero_inode_def ref_room_def INT_MAX_def)
  moreover have "free_entries s = {..<NINODE}" using s(4) by (auto simp: free_entries_def zero_inode_def)
  then have "2 \<le> card (free_entries s)" by (simp add: layout)
  moreover have "0 \<notin> set (SLASH # name)" using assms(3) by (simp add: plain_name_def SLASH_def)
  ultimately obtain r nm t where t: "namex (SLASH # name) False s = Inr ((r, nm), t)" "arrived s (Some 2) (last ([] # path_elems (SLASH # name))) (r, nm) t"
    using namex_arrives [of s "SLASH # name" False] s(1,2) image_path(2,3) [OF assms] by auto
  then show ?thesis by (auto simp: namei_def arrived_def)
qed

lemma image_read:
  assumes "image_in name data s" "length data \<le> BSIZE" "plain_name name"
  shows "\<exists>ip t u v. namei (SLASH # name) s = Inr (Some ip, t) \<and> ilock (Some ip) t = Inr ((), u) \<and>
    i_type (inodes u ip) = T_FILE \<and> readi ip 0 (of_nat BSIZE) u = Inr ((int (length data), data), v)"
proof -
  note d = image_inodes [OF assms(1,2)]
  have s: "held s = {}" "lsec s = []" using assms(1) by (simp_all add: image_in_def)
  then have rm: "room s 1" by (simp add: room_def layout)
  from image_namei [OF assms] obtain ip t where t: "namei (SLASH # name) s = Inr (Some ip, t)" "i_inum (inodes t ip) = 2" "on_way s t {#ip#} {}"
    by blast
  from lock_on_way [OF t(3) _ _ s(1) rm] t(2) image_path(1) [OF assms] obtain u where u: "ilock (Some ip) t = Inr ((), u)"
    "on_way s u {#ip#} {ip}" "same_file (disk_inode s 2) (inodes u ip)" by auto
  note f = on_way_frame [OF u(2)]
  have v: "view u = view s" and h: "held u = {}" using u(2) f(2) s(1) by (simp_all add: on_way_def)
  have i: "i_dev (inodes u ip) = ROOTDEV" "i_type (inodes u ip) = T_FILE" "i_size (inodes u ip) = of_nat (length data)"
    "i_addrs (inodes u ip) 0 = of_nat (Suc nmeta)"
    using on_way_held [OF u(2), of ip] u(3) d(5,7) d(8) [of 0] by (simp_all add: entry_ok_def same_file_def del: of_nat_Suc)
  have n0: "0 < NDIRECT" "T_FILE \<noteq> T_DEV" "unat (of_nat BSIZE :: u32) = BSIZE" by (simp_all add: layout)
  have sz: "unat (of_nat (length data) :: u32) = length data" by (rule unat_of_nat_small) (use assms(2) in \<open>simp add: layout\<close>)
  have ia: "iaddr u (inodes u ip) 0 = of_nat (Suc nmeta)" using i(4) n0(1) by (simp add: iaddr_def del: of_nat_Suc)
  then have mp: "mapped u (inodes u ip) (p div BSIZE)" if "p < length data" for p
    using that assms(2) d(11) f(3) h inums(7) n0(1) by (simp add: mapped_def usable_blk_def del: of_nat_Suc)
  have fb: "file_bytes u (inodes u ip) 0 (length data) = data"
    by (rule nth_equalityI) (use assms(2) ia v d(13) in \<open>simp_all add: file_bytes_def fbyte_def blit_list_def del: of_nat_Suc\<close>)
  have lt: "length data < 2 ^ 31" using assms(2) by (simp add: layout)
  have "\<exists>v. readi ip 0 (of_nat BSIZE) u = Inr ((sint (of_nat (length data) :: u32), file_bytes u (inodes u ip) (unat (0 :: u32)) (length data)), v) \<and> calm u v"
  proof (rule readi_ok [OF f(1) _ i(1)])
    show "room u 1" using rm f(4) by simp
    show "i_type (inodes u ip) \<noteq> T_DEV" using i(2) n0(2) by simp
    show "unat 0 \<le> unat (i_size (inodes u ip))" by simp
    show "unat (0 :: u32) + unat (of_nat BSIZE :: u32) < 2 ^ 32" by (simp add: layout)
    show "length data = min (unat (of_nat BSIZE :: u32)) (unat (i_size (inodes u ip)) - unat (0 :: u32))"
      unfolding i(3) n0(3) sz using assms(2) by simp
    show "\<forall>p. unat (0 :: u32) \<le> p \<longrightarrow> p < unat (0 :: u32) + length data \<longrightarrow> mapped u (inodes u ip) (p div BSIZE)" using mp by simp
  qed
  then obtain v where "readi ip 0 (of_nat BSIZE) u = Inr ((int (length data), data), v)"
    using sint_of_small [OF lt] fb by auto
  with t(1) u(1) i(2) show ?thesis by blast
qed

text \<open>
  C30: The file system accepts the image and finds the file in it.  Given one file with a plain
  name and at most a block of contents, as the build gives it \<open>hello.txt\<close>, \<open>mkfs\<close> writes an image that
  mounts; its root directory holds \<open>.\<close> and \<open>..\<close>, both naming the root itself, and the file, and is free
  otherwise; and looking the name up from the root, locking the inode found and reading it returns
  the contents \<open>mkfs\<close> was given.
\<close>

theorem mkfs_mounts:
  assumes "plain_name name" "data \<noteq> []" "length data \<le> BSIZE"
  shows "\<exists>m s. mk_main [img, (name, Some data)] (mk_start True) = Inr ((), m) \<and>
     sample_open (process_start (mk_disk m) (mk_nblk m)) = Inr ((), s) \<and>
     dir_ok s (disk_inode s ROOTINO) (BSIZE div SIZEOF_DIRENT) \<and>
     (\<forall>k < BSIZE div SIZEOF_DIRENT.
        if k = 0 then entry s (disk_inode s ROOTINO) k = \<lparr>de_inum = 1, de_name = strncpy DOT DIRSIZ\<rparr>
        else if k = 1 then entry s (disk_inode s ROOTINO) k = \<lparr>de_inum = 1, de_name = strncpy DOTDOT DIRSIZ\<rparr>
        else if k = 2 then entry s (disk_inode s ROOTINO) k = \<lparr>de_inum = 2, de_name = strncpy name DIRSIZ\<rparr>
        else de_inum (entry s (disk_inode s ROOTINO) k) = 0) \<and>
     (\<exists>ip t u v. namei (SLASH # name) s = Inr (Some ip, t) \<and> ilock (Some ip) t = Inr ((), u) \<and>
        i_type (inodes u ip) = T_FILE \<and> readi ip 0 (of_nat BSIZE) u = Inr ((int (length data), data), v))"
proof -
  let ?m = "mk_image name data"
  have run: "mk_main [img, (name, Some data)] (mk_start True) = Inr ((), ?m)"
    by (rule mk_main_file) (use assms in \<open>simp_all add: plain_name_def\<close>)
  from image_mounts obtain s where s: "sample_open (process_start (mk_disk ?m) SIZE) = Inr ((), s)" "image_in name data s" by blast
  have r1: "ROOTINO = 1" by (simp add: layout)
  note r = image_root [OF s(2) assms(3)]
  show ?thesis unfolding r1
  proof (intro exI [of _ ?m] exI [of _ s] conjI run r(1) image_read [OF s(2) assms(3,1)] allI impI)
    show "sample_open (process_start (mk_disk ?m) (mk_nblk ?m)) = Inr ((), s)" using s(1) by (simp add: mk_image_facts)
    fix k assume "k < BSIZE div SIZEOF_DIRENT"
    note e = r(3) [OF this]
    show "if k = 0 then entry s (disk_inode s 1) k = \<lparr>de_inum = 1, de_name = strncpy DOT DIRSIZ\<rparr>
        else if k = 1 then entry s (disk_inode s 1) k = \<lparr>de_inum = 1, de_name = strncpy DOTDOT DIRSIZ\<rparr>
        else if k = 2 then entry s (disk_inode s 1) k = \<lparr>de_inum = 2, de_name = strncpy name DIRSIZ\<rparr>
        else de_inum (entry s (disk_inode s 1) k) = 0"
      unfolding e by (auto simp: root_dirent_def file_dirent_def zero_entry)
  qed
qed

text \<open>The image of the build.\<close>

theorem mkfs_mounts_witness:
  "\<exists>m s. mk_main [(cstr ''fs.img'', None), (cstr ''hello.txt'', Some (cstr ''Hello, xv6fs'' @ [10]))] (mk_start True) = Inr ((), m) \<and>
     sample_open (process_start (mk_disk m) (mk_nblk m)) = Inr ((), s) \<and>
     (\<exists>ip t u v. namei (cstr ''/hello.txt'') s = Inr (Some ip, t) \<and> ilock (Some ip) t = Inr ((), u) \<and>
        readi ip 0 (of_nat BSIZE) u = Inr ((13, cstr ''Hello, xv6fs'' @ [10]), v))"
proof -
  let ?d = "cstr ''Hello, xv6fs'' @ [10 :: u8]"
  have "plain_name (cstr ''hello.txt'')" by (simp add: plain_name_def cstr_def DOT_def DOTDOT_def SLASH_def layout)
  moreover have "?d \<noteq> []" "length ?d \<le> BSIZE" "length ?d = 13" by (simp_all add: cstr_def layout)
  moreover have "SLASH # cstr ''hello.txt'' = cstr ''/hello.txt''" by (simp add: cstr_def SLASH_def)
  ultimately show ?thesis using mkfs_mounts [of "cstr ''hello.txt''" ?d "(cstr ''fs.img'', None)"] by fastforce
qed

end
