(* ===== verification/Opqueue.thy ===== *)
theory Opqueue
  imports Prelude
begin

text \<open>
  The queue between libfuse's threads and the verified file system (\<open>opqueue.h\<close>,
  \<open>opqueue.c\<close>): client threads \<open>execute\<close> an operation that lives on their stack and wait for
  its \<open>done\<close> flag, server threads take operations with \<open>get_op\<close> and answer them with
  \<open>send_result\<close>.  A step is one shared-memory access of one thread, so all interleavings are
  covered; only the tests and accesses a thread makes while it holds the spin lock, which
  nobody else can disturb, are one step each.  Memory is taken to be sequentially consistent,
  as the \<open>__sync_synchronize\<close> barriers make the program assume.
\<close>

section \<open>Operations (opqueue.h)\<close>

datatype op_t =
    OP_GETATTR | OP_MKNOD | OP_MKDIR | OP_UNLINK | OP_OPEN | OP_RELEASE | OP_RMDIR
  | OP_FSYNC | OP_FSYNCDIR | OP_WRITE | OP_READ | OP_TRUNCATE | OP_OPENDIR | OP_READDIR
  | OP_RELEASEDIR | OP_STATFS | OP_DESTROY | OP_UTIME | OP_RENAME | OP_CHMOD | OP_CREATE

text \<open>
  The arguments (\<open>union u\<close>).  Strings are their bytes; pointers to the caller's structures and
  buffers are addresses.
\<close>

type_synonym ptr = nat

datatype op_u =
    op_getattr bytes ptr
  | op_mknod bytes u32 nat
  | op_mkdir bytes u32
  | op_unlink bytes
  | op_open bytes ptr
  | op_release bytes ptr
  | op_rmdir bytes
  | op_fsync bytes int ptr
  | op_fsyncdir bytes int ptr
  | op_write bytes ptr nat int ptr
  | op_read bytes ptr nat int ptr
  | op_truncate bytes int
  | op_opendir bytes ptr
  | op_readdir bytes ptr ptr int ptr
  | op_releasedir bytes ptr
  | op_statfs bytes ptr
  | op_destroy
  | op_utime bytes ptr
  | op_rename bytes bytes
  | op_chmod bytes u32
  | op_create bytes u32 ptr

record operation =
  op_type :: op_t
  op_err :: int
  op_done :: int
  op_args :: op_u

section \<open>The queue (opqueue.c)\<close>

definition QUEUE_MAX_SIZE :: int where "QUEUE_MAX_SIZE = 256"

text \<open>\<open>spin\<close> is the holder of the spin lock; a thread is its number, and its operation's address.\<close>

record opq =
  q_ops :: "nat \<Rightarrow> nat"
  q_puts :: int
  q_gets :: int
  q_spin :: "nat option"

definition q_index :: "int \<Rightarrow> nat" where
  "q_index k = nat (k mod QUEUE_MAX_SIZE)"

definition q_full :: "opq \<Rightarrow> bool" where
  "q_full q \<longleftrightarrow> q_puts q - q_gets q \<ge> QUEUE_MAX_SIZE"

definition q_empty :: "opq \<Rightarrow> bool" where
  "q_empty q \<longleftrightarrow> q_puts q \<le> q_gets q"

text \<open>Where a thread is: in \<open>execute\<close> (\<open>E_\<close>), \<open>get_op\<close> (\<open>G_\<close>) or \<open>send_result\<close> (\<open>S_\<close>).\<close>

datatype pc =
    Idle
  | E_clear | E_check | E_check2 int | E_lock | E_recheck | E_backoff | E_store | E_inc | E_unlock
  | E_wait | E_ret
  | G_check | G_check2 int | G_lock | G_recheck | G_backoff | G_load | G_inc nat | G_unlock nat | G_got nat
  | S_err nat int bool | S_done nat int bool

record opsys =
  q :: opq
  mem :: "nat \<Rightarrow> operation"
  pcs :: "nat \<Rightarrow> pc"

datatype qevent = Tau | Put nat | Get nat | Answer nat int | Return nat int

definition goto :: "nat \<Rightarrow> pc \<Rightarrow> opsys \<Rightarrow> opsys" where
  "goto t p s = s\<lparr>pcs := (pcs s)(t := p)\<rparr>"

definition upd_q :: "(opq \<Rightarrow> opq) \<Rightarrow> opsys \<Rightarrow> opsys" where
  "upd_q f s = s\<lparr>q := f (q s)\<rparr>"

definition upd_mem :: "nat \<Rightarrow> (operation \<Rightarrow> operation) \<Rightarrow> opsys \<Rightarrow> opsys" where
  "upd_mem a f s = s\<lparr>mem := (mem s)(a := f (mem s a))\<rparr>"

text \<open>
  One access of each function.  The unlocked test reads \<open>puts\<close> first and \<open>gets\<close> one step later;
  \<open>E_inc\<close> on \<open>puts = INT_MAX\<close> is a signed overflow.
\<close>

definition execute_step :: "nat \<Rightarrow> opsys \<Rightarrow> error + (qevent \<times> opsys)" where
  "execute_step t s =
     (case pcs s t of
        E_clear \<Rightarrow> Inr (Tau, goto t E_check (upd_mem t (\<lambda>op. op\<lparr>op_done := 0\<rparr>) s))
      | E_check \<Rightarrow> Inr (Tau, goto t (E_check2 (q_puts (q s))) s)
      | E_check2 p \<Rightarrow> Inr (Tau, goto t (if p - q_gets (q s) \<ge> QUEUE_MAX_SIZE then E_check else E_lock) s)
      | E_lock \<Rightarrow> Inr (Tau, if q_spin (q s) = None
                     then goto t E_recheck (upd_q (\<lambda>q. q\<lparr>q_spin := Some t\<rparr>) s) else s)
      | E_recheck \<Rightarrow> Inr (Tau, if q_full (q s) then goto t E_backoff s else goto t E_store s)
      | E_backoff \<Rightarrow> Inr (Tau, goto t E_check (upd_q (\<lambda>q. q\<lparr>q_spin := None\<rparr>) s))
      | E_store \<Rightarrow> Inr (Tau, goto t E_inc
                     (upd_q (\<lambda>q. q\<lparr>q_ops := (q_ops q)(q_index (q_puts q) := t)\<rparr>) s))
      | E_inc \<Rightarrow> (if q_puts (q s) < 2 ^ 31 - 1
                  then Inr (Put t, goto t E_unlock (upd_q (\<lambda>q. q\<lparr>q_puts := q_puts q + 1\<rparr>) s))
                  else Inl (Undef ''q.puts++''))
      | E_unlock \<Rightarrow> Inr (Tau, goto t E_wait (upd_q (\<lambda>q. q\<lparr>q_spin := None\<rparr>) s))
      | E_wait \<Rightarrow> Inr (Tau, if op_done (mem s t) = 0 then s else goto t E_ret s)
      | E_ret \<Rightarrow> Inr (Return t (op_err (mem s t)), goto t Idle s)
      | _ \<Rightarrow> Inr (Tau, s))"

definition get_op_step :: "nat \<Rightarrow> opsys \<Rightarrow> error + (qevent \<times> opsys)" where
  "get_op_step t s =
     (case pcs s t of
        G_check \<Rightarrow> Inr (Tau, goto t (G_check2 (q_puts (q s))) s)
      | G_check2 p \<Rightarrow> Inr (Tau, goto t (if p \<le> q_gets (q s) then G_check else G_lock) s)
      | G_lock \<Rightarrow> Inr (Tau, if q_spin (q s) = None
                     then goto t G_recheck (upd_q (\<lambda>q. q\<lparr>q_spin := Some t\<rparr>) s) else s)
      | G_recheck \<Rightarrow> Inr (Tau, if q_empty (q s) then goto t G_backoff s else goto t G_load s)
      | G_backoff \<Rightarrow> Inr (Tau, goto t G_check (upd_q (\<lambda>q. q\<lparr>q_spin := None\<rparr>) s))
      | G_load \<Rightarrow> Inr (Tau, goto t (G_inc (q_ops (q s) (q_index (q_gets (q s))))) s)
      | G_inc a \<Rightarrow> (if q_gets (q s) < 2 ^ 31 - 1
                    then Inr (Get a, goto t (G_unlock a) (upd_q (\<lambda>q. q\<lparr>q_gets := q_gets q + 1\<rparr>) s))
                    else Inl (Undef ''q.gets++''))
      | G_unlock a \<Rightarrow> Inr (Tau, goto t (G_got a) (upd_q (\<lambda>q. q\<lparr>q_spin := None\<rparr>) s))
      | _ \<Rightarrow> Inr (Tau, s))"

text \<open>\<open>send_result\<close>; with the flag set, of \<open>send_result_and_get_op\<close>.\<close>

definition send_result_step :: "nat \<Rightarrow> opsys \<Rightarrow> error + (qevent \<times> opsys)" where
  "send_result_step t s =
     (case pcs s t of
        S_err a v again \<Rightarrow> Inr (Tau, goto t (S_done a v again) (upd_mem a (\<lambda>op. op\<lparr>op_err := v\<rparr>) s))
      | S_done a v again \<Rightarrow>
          Inr (Answer a v, goto t (if again then G_check else Idle) (upd_mem a (\<lambda>op. op\<lparr>op_done := 1\<rparr>) s))
      | _ \<Rightarrow> Inr (Tau, s))"

text \<open>A thread enters \<open>execute\<close> with the operation it has filled in at its own address.\<close>

definition execute_call :: "nat \<Rightarrow> operation \<Rightarrow> opsys \<Rightarrow> opsys" where
  "execute_call t op s = goto t E_clear (upd_mem t (\<lambda>_. op) s)"

text \<open>
  The system: any thread may move; an idle thread may call \<open>execute\<close> on an operation it has
  filled in, or \<open>get_op\<close>; a server that got an operation may answer it with any value.
\<close>

inductive qstep :: "opsys \<Rightarrow> qevent \<Rightarrow> opsys \<Rightarrow> bool" where
  execute: "execute_step t s = Inr (e, s') \<Longrightarrow> qstep s e s'"
| get_op: "get_op_step t s = Inr (e, s') \<Longrightarrow> qstep s e s'"
| send_result: "send_result_step t s = Inr (e, s') \<Longrightarrow> qstep s e s'"
| call_execute: "pcs s t = Idle \<Longrightarrow> qstep s Tau (execute_call t op s)"
| call_get_op: "pcs s t = Idle \<Longrightarrow> qstep s Tau (goto t G_check s)"
| call_send_result: "pcs s t = G_got a \<Longrightarrow> qstep s Tau (goto t (S_err a v again) s)"

text \<open>\<open>initialize\<close> and the zeroed statics.\<close>

definition initialize :: "opq \<Rightarrow> opq" where
  "initialize qq = qq\<lparr>q_spin := None\<rparr>"

definition opq_zero :: opq where
  "opq_zero = \<lparr>q_ops = (\<lambda>_. 0), q_puts = 0, q_gets = 0, q_spin = None\<rparr>"

definition op_zero :: operation where
  "op_zero = \<lparr>op_type = OP_GETATTR, op_err = 0, op_done = 0, op_args = op_destroy\<rparr>"

definition opsys_start :: opsys where
  "opsys_start = \<lparr>q = initialize opq_zero, mem = (\<lambda>_. op_zero), pcs = (\<lambda>_. Idle)\<rparr>"

inductive reach :: "qevent list \<Rightarrow> opsys \<Rightarrow> bool" where
  start: "reach [] opsys_start"
| step: "reach tr s \<Longrightarrow> qstep s e s' \<Longrightarrow> reach (tr @ [e]) s'"

end
