(* ===== verification/Opfuse.thy ===== *)
theory Opfuse
  imports Opqueue
begin

text \<open>
  The FUSE handlers \<open>opfuse.c\<close> registers: each fills in an operation on its stack, executes it
  through the queue and returns its \<open>err\<close>.  A handler of thread \<open>t\<close> fills in what is at \<open>t\<close>'s
  address, uninitialised so far, and enters \<open>execute\<close>; the \<open>Return t\<close> event that ends \<open>execute\<close>
  carries the handler's result.
\<close>

definition opfuse_getattr :: "nat \<Rightarrow> bytes \<Rightarrow> ptr \<Rightarrow> opsys \<Rightarrow> opsys" where
  "opfuse_getattr t path stbuf s =
     execute_call t ((mem s t)\<lparr>op_type := OP_GETATTR, op_args := op_getattr path stbuf\<rparr>) s"

definition opfuse_mknod :: "nat \<Rightarrow> bytes \<Rightarrow> u32 \<Rightarrow> nat \<Rightarrow> opsys \<Rightarrow> opsys" where
  "opfuse_mknod t path mode rdev s =
     execute_call t ((mem s t)\<lparr>op_type := OP_MKNOD, op_args := op_mknod path mode rdev\<rparr>) s"

definition opfuse_mkdir :: "nat \<Rightarrow> bytes \<Rightarrow> u32 \<Rightarrow> opsys \<Rightarrow> opsys" where
  "opfuse_mkdir t path mode s =
     execute_call t ((mem s t)\<lparr>op_type := OP_MKDIR, op_args := op_mkdir path mode\<rparr>) s"

definition opfuse_unlink :: "nat \<Rightarrow> bytes \<Rightarrow> opsys \<Rightarrow> opsys" where
  "opfuse_unlink t path s =
     execute_call t ((mem s t)\<lparr>op_type := OP_UNLINK, op_args := op_unlink path\<rparr>) s"

definition opfuse_rmdir :: "nat \<Rightarrow> bytes \<Rightarrow> opsys \<Rightarrow> opsys" where
  "opfuse_rmdir t path s =
     execute_call t ((mem s t)\<lparr>op_type := OP_RMDIR, op_args := op_rmdir path\<rparr>) s"

definition opfuse_open :: "nat \<Rightarrow> bytes \<Rightarrow> ptr \<Rightarrow> opsys \<Rightarrow> opsys" where
  "opfuse_open t path fi s =
     execute_call t ((mem s t)\<lparr>op_type := OP_OPEN, op_args := op_open path fi\<rparr>) s"

definition opfuse_release :: "nat \<Rightarrow> bytes \<Rightarrow> ptr \<Rightarrow> opsys \<Rightarrow> opsys" where
  "opfuse_release t path fi s =
     execute_call t ((mem s t)\<lparr>op_type := OP_RELEASE, op_args := op_release path fi\<rparr>) s"

definition opfuse_read :: "nat \<Rightarrow> bytes \<Rightarrow> ptr \<Rightarrow> nat \<Rightarrow> int \<Rightarrow> ptr \<Rightarrow> opsys \<Rightarrow> opsys" where
  "opfuse_read t path buf sz off fi s =
     execute_call t ((mem s t)\<lparr>op_type := OP_READ, op_args := op_read path buf sz off fi\<rparr>) s"

definition opfuse_write :: "nat \<Rightarrow> bytes \<Rightarrow> ptr \<Rightarrow> nat \<Rightarrow> int \<Rightarrow> ptr \<Rightarrow> opsys \<Rightarrow> opsys" where
  "opfuse_write t path buf sz off fi s =
     execute_call t ((mem s t)\<lparr>op_type := OP_WRITE, op_args := op_write path buf sz off fi\<rparr>) s"

definition opfuse_fsync :: "nat \<Rightarrow> bytes \<Rightarrow> int \<Rightarrow> ptr \<Rightarrow> opsys \<Rightarrow> opsys" where
  "opfuse_fsync t path isdatasync fi s =
     execute_call t ((mem s t)\<lparr>op_type := OP_FSYNC, op_args := op_fsync path isdatasync fi\<rparr>) s"

definition opfuse_fsyncdir :: "nat \<Rightarrow> bytes \<Rightarrow> int \<Rightarrow> ptr \<Rightarrow> opsys \<Rightarrow> opsys" where
  "opfuse_fsyncdir t path isdatasync fi s =
     execute_call t ((mem s t)\<lparr>op_type := OP_FSYNCDIR, op_args := op_fsyncdir path isdatasync fi\<rparr>) s"

definition opfuse_truncate :: "nat \<Rightarrow> bytes \<Rightarrow> int \<Rightarrow> opsys \<Rightarrow> opsys" where
  "opfuse_truncate t path sz s =
     execute_call t ((mem s t)\<lparr>op_type := OP_TRUNCATE, op_args := op_truncate path sz\<rparr>) s"

definition opfuse_rename :: "nat \<Rightarrow> bytes \<Rightarrow> bytes \<Rightarrow> opsys \<Rightarrow> opsys" where
  "opfuse_rename t from to s =
     execute_call t ((mem s t)\<lparr>op_type := OP_RENAME, op_args := op_rename from to\<rparr>) s"

definition opfuse_chmod :: "nat \<Rightarrow> bytes \<Rightarrow> u32 \<Rightarrow> opsys \<Rightarrow> opsys" where
  "opfuse_chmod t path mode s =
     execute_call t ((mem s t)\<lparr>op_type := OP_CHMOD, op_args := op_chmod path mode\<rparr>) s"

definition opfuse_statfs :: "nat \<Rightarrow> bytes \<Rightarrow> ptr \<Rightarrow> opsys \<Rightarrow> opsys" where
  "opfuse_statfs t path stbuf s =
     execute_call t ((mem s t)\<lparr>op_type := OP_STATFS, op_args := op_statfs path stbuf\<rparr>) s"

definition opfuse_opendir :: "nat \<Rightarrow> bytes \<Rightarrow> ptr \<Rightarrow> opsys \<Rightarrow> opsys" where
  "opfuse_opendir t path fi s =
     execute_call t ((mem s t)\<lparr>op_type := OP_OPENDIR, op_args := op_opendir path fi\<rparr>) s"

definition opfuse_readdir :: "nat \<Rightarrow> bytes \<Rightarrow> ptr \<Rightarrow> ptr \<Rightarrow> int \<Rightarrow> ptr \<Rightarrow> opsys \<Rightarrow> opsys" where
  "opfuse_readdir t path buf filler off fi s =
     execute_call t ((mem s t)\<lparr>op_type := OP_READDIR, op_args := op_readdir path buf filler off fi\<rparr>) s"

definition opfuse_releasedir :: "nat \<Rightarrow> bytes \<Rightarrow> ptr \<Rightarrow> opsys \<Rightarrow> opsys" where
  "opfuse_releasedir t path fi s =
     execute_call t ((mem s t)\<lparr>op_type := OP_RELEASEDIR, op_args := op_releasedir path fi\<rparr>) s"

definition opfuse_utime :: "nat \<Rightarrow> bytes \<Rightarrow> ptr \<Rightarrow> opsys \<Rightarrow> opsys" where
  "opfuse_utime t path buf s =
     execute_call t ((mem s t)\<lparr>op_type := OP_UTIME, op_args := op_utime path buf\<rparr>) s"

text \<open>\<open>opfuse_destroy\<close> leaves the union unset.\<close>

definition opfuse_destroy :: "nat \<Rightarrow> opsys \<Rightarrow> opsys" where
  "opfuse_destroy t s =
     execute_call t ((mem s t)\<lparr>op_type := OP_DESTROY\<rparr>) s"

definition opfuse_create :: "nat \<Rightarrow> bytes \<Rightarrow> u32 \<Rightarrow> ptr \<Rightarrow> opsys \<Rightarrow> opsys" where
  "opfuse_create t path mode info s =
     execute_call t ((mem s t)\<lparr>op_type := OP_CREATE, op_args := op_create path mode info\<rparr>) s"

text \<open>
  The table \<open>opfuse_oper\<close> that libfuse dispatches through: the handler registered for the
  operation a request asks for.
\<close>

fun opfuse_oper :: "op_u \<Rightarrow> nat \<Rightarrow> opsys \<Rightarrow> opsys" where
  "opfuse_oper (op_getattr path st) = (\<lambda>t. opfuse_getattr t path st)"
| "opfuse_oper (op_mknod path mode rdev) = (\<lambda>t. opfuse_mknod t path mode rdev)"
| "opfuse_oper (op_mkdir path mode) = (\<lambda>t. opfuse_mkdir t path mode)"
| "opfuse_oper (op_unlink path) = (\<lambda>t. opfuse_unlink t path)"
| "opfuse_oper (op_rmdir path) = (\<lambda>t. opfuse_rmdir t path)"
| "opfuse_oper (op_open path fi) = (\<lambda>t. opfuse_open t path fi)"
| "opfuse_oper (op_release path fi) = (\<lambda>t. opfuse_release t path fi)"
| "opfuse_oper (op_read path buf sz off fi) = (\<lambda>t. opfuse_read t path buf sz off fi)"
| "opfuse_oper (op_write path buf sz off fi) = (\<lambda>t. opfuse_write t path buf sz off fi)"
| "opfuse_oper (op_fsync path ds fi) = (\<lambda>t. opfuse_fsync t path ds fi)"
| "opfuse_oper (op_rename src dst) = (\<lambda>t. opfuse_rename t src dst)"
| "opfuse_oper (op_chmod path mode) = (\<lambda>t. opfuse_chmod t path mode)"
| "opfuse_oper (op_truncate path sz) = (\<lambda>t. opfuse_truncate t path sz)"
| "opfuse_oper (op_statfs path st) = (\<lambda>t. opfuse_statfs t path st)"
| "opfuse_oper (op_opendir path fi) = (\<lambda>t. opfuse_opendir t path fi)"
| "opfuse_oper (op_readdir path buf filler off fi) = (\<lambda>t. opfuse_readdir t path buf filler off fi)"
| "opfuse_oper (op_releasedir path fi) = (\<lambda>t. opfuse_releasedir t path fi)"
| "opfuse_oper (op_fsyncdir path ds fi) = (\<lambda>t. opfuse_fsyncdir t path ds fi)"
| "opfuse_oper (op_utime path buf) = (\<lambda>t. opfuse_utime t path buf)"
| "opfuse_oper op_destroy = (\<lambda>t. opfuse_destroy t)"
| "opfuse_oper (op_create path mode info) = (\<lambda>t. opfuse_create t path mode info)"

text \<open>
  \<open>opfuse_run\<close>: what libfuse and the host answer are arguments; the session it enters is
  \<open>fuse_loop_mt\<close>'s, on the handle made with the table above.
\<close>

definition opfuse_run ::
  "(bytes \<Rightarrow> 'args \<Rightarrow> 'chan option) \<Rightarrow> (bytes \<Rightarrow> int) \<Rightarrow>
   ('chan \<Rightarrow> 'args \<Rightarrow> (op_u \<Rightarrow> nat \<Rightarrow> opsys \<Rightarrow> opsys) \<Rightarrow> 'fuse option) \<Rightarrow> ('fuse \<Rightarrow> 'r) \<Rightarrow>
   bytes \<Rightarrow> 'args \<Rightarrow> error + 'r" where
  "opfuse_run fuse_mount chdir fuse_new fuse_loop_mt mountpoint args =
     (case fuse_mount mountpoint args of
        None \<Rightarrow> Inl (Exit ''fuse_mount'')
      | Some chan \<Rightarrow>
          if chdir (cstr ''/'') < 0 then Inl (Exit ''chdir /'')
          else (case fuse_new chan args opfuse_oper of
                  None \<Rightarrow> Inl (Exit ''fuse_new'')
                | Some f \<Rightarrow> Inr (fuse_loop_mt f)))"

end
