(* ===== verification/Opqueue_Props.thy ===== *)
theory Opqueue_Props
  imports Opqueue
begin

text \<open>
  The operation queue as an atomic bounded FIFO.  A locale states what a bounded queue promises
  and is interpreted on the ring buffer of \<open>opqueue.c\<close>; on top of it, a simulation shows that
  every interleaving of clients and servers is a run of an abstract system in which an operation
  is put, taken in order, answered once, and returned with that answer.
\<close>

section \<open>The ring buffer\<close>

text \<open>The operations between the two counters, oldest first.\<close>

definition contents :: "opq \<Rightarrow> nat list" where
  "contents r = map (\<lambda>k. q_ops r (q_index k)) [q_gets r..q_puts r - 1]"

definition ring_ok :: "opq \<Rightarrow> bool" where
  "ring_ok r \<longleftrightarrow> 0 \<le> q_gets r \<and> q_gets r \<le> q_puts r \<and> q_puts r - q_gets r \<le> QUEUE_MAX_SIZE"

text \<open>The accesses of one put and of one get, as the threads make them in a row under the lock.\<close>

definition ring_put :: "nat \<Rightarrow> opq \<Rightarrow> opq" where
  "ring_put x r = r\<lparr>q_ops := (q_ops r)(q_index (q_puts r) := x), q_puts := q_puts r + 1\<rparr>"

definition ring_get :: "opq \<Rightarrow> nat \<times> opq" where
  "ring_get r = (q_ops r (q_index (q_gets r)), r\<lparr>q_gets := q_gets r + 1\<rparr>)"

lemma q_index_neq:
  assumes "a < b" "b - a < QUEUE_MAX_SIZE"
  shows "q_index a \<noteq> q_index b"
proof
  assume "q_index a = q_index b"
  then have "a mod QUEUE_MAX_SIZE = b mod QUEUE_MAX_SIZE"
    by (simp add: q_index_def QUEUE_MAX_SIZE_def nat_eq_iff)
  then have "(b - a) mod QUEUE_MAX_SIZE = 0" by (simp add: mod_eq_dvd_iff mod_eq_0_iff_dvd dvd_diff_commute)
  with assms show False by simp
qed

lemma length_contents: "ring_ok r \<Longrightarrow> length (contents r) = nat (q_puts r - q_gets r)"
  by (simp add: contents_def ring_ok_def)

lemma contents_store:
  assumes "ring_ok r" "\<not> q_full r"
  shows "contents (r\<lparr>q_ops := (q_ops r)(q_index (q_puts r) := x)\<rparr>) = contents r"
proof -
  have "q_index k \<noteq> q_index (q_puts r)" if "q_gets r \<le> k" "k < q_puts r" for k
    using assms that by (intro q_index_neq) (auto simp: q_full_def)
  then show ?thesis by (simp add: contents_def)
qed

lemma contents_inc_puts:
  assumes "ring_ok r"
  shows "contents (r\<lparr>q_puts := q_puts r + 1\<rparr>) = contents r @ [q_ops r (q_index (q_puts r))]"
  using assms upto_rec2 [of "q_gets r" "q_puts r"] by (simp add: contents_def ring_ok_def)

lemma contents_inc_gets:
  assumes "\<not> q_empty r"
  shows "contents r = q_ops r (q_index (q_gets r)) # contents (r\<lparr>q_gets := q_gets r + 1\<rparr>)"
  using assms upto_rec1 [of "q_gets r" "q_puts r - 1"] by (simp add: contents_def q_empty_def)

lemma contents_spin [simp]: "contents (r\<lparr>q_spin := h\<rparr>) = contents r"
  by (simp add: contents_def)

text \<open>What a bounded FIFO promises its clients.\<close>

locale bounded_fifo =
  fixes inv :: "'r \<Rightarrow> bool" and elems :: "'r \<Rightarrow> 'x list" and bound :: nat
    and is_full :: "'r \<Rightarrow> bool" and is_empty :: "'r \<Rightarrow> bool"
    and put :: "'x \<Rightarrow> 'r \<Rightarrow> 'r" and get :: "'r \<Rightarrow> 'x \<times> 'r"
  assumes full: "inv r \<Longrightarrow> is_full r \<longleftrightarrow> length (elems r) = bound"
    and empty: "inv r \<Longrightarrow> is_empty r \<longleftrightarrow> elems r = []"
    and bound: "inv r \<Longrightarrow> length (elems r) \<le> bound"
    and put: "inv r \<Longrightarrow> \<not> is_full r \<Longrightarrow> inv (put x r) \<and> elems (put x r) = elems r @ [x]"
    and get: "inv r \<Longrightarrow> \<not> is_empty r \<Longrightarrow> inv (snd (get r)) \<and> elems r = fst (get r) # elems (snd (get r))"
begin

primrec put_all :: "'x list \<Rightarrow> 'r \<Rightarrow> 'r" where
  "put_all [] r = r"
| "put_all (x # xs) r = put_all xs (put x r)"

primrec get_all :: "nat \<Rightarrow> 'r \<Rightarrow> 'x list \<times> 'r" where
  "get_all 0 r = ([], r)"
| "get_all (Suc n) r = (let (x, r') = get r; (xs, r'') = get_all n r' in (x # xs, r''))"

lemma put_all_elems:
  "inv r \<Longrightarrow> length (elems r) + length xs \<le> bound \<Longrightarrow>
   inv (put_all xs r) \<and> elems (put_all xs r) = elems r @ xs"
proof (induction xs arbitrary: r)
  case (Cons x xs)
  then have "\<not> is_full r" by (simp add: full)
  with put [OF Cons.prems(1)] Cons show ?case by simp
qed simp

lemma get_all_elems:
  "inv r \<Longrightarrow> n \<le> length (elems r) \<Longrightarrow>
   inv (snd (get_all n r)) \<and> fst (get_all n r) = take n (elems r) \<and> elems (snd (get_all n r)) = drop n (elems r)"
proof (induction n arbitrary: r)
  case (Suc n)
  then have "\<not> is_empty r" by (auto simp: empty)
  with get [OF Suc.prems(1)] have "inv (snd (get r))" "elems r = fst (get r) # elems (snd (get r))" by auto
  with Suc.IH [of "snd (get r)"] Suc.prems(2) show ?case by (simp add: Let_def split_beta)
qed simp

text \<open>A batch of at most \<open>bound\<close> elements comes out as it went in.\<close>

lemma fifo_batch:
  assumes "inv r" "elems r = []" "length xs \<le> bound"
  shows "fst (get_all (length xs) (put_all xs r)) = xs \<and>
    is_empty (snd (get_all (length xs) (put_all xs r)))"
  using put_all_elems [OF assms(1), of xs] get_all_elems [of "put_all xs r" "length xs"] assms(2,3)
  by (simp add: empty)

end

interpretation rq: bounded_fifo ring_ok contents "nat QUEUE_MAX_SIZE" q_full q_empty ring_put ring_get
proof
  fix r assume r: "ring_ok r"
  show "q_full r \<longleftrightarrow> length (contents r) = nat QUEUE_MAX_SIZE"
    using r length_contents [OF r] by (auto simp: q_full_def ring_ok_def QUEUE_MAX_SIZE_def)
  show "q_empty r \<longleftrightarrow> contents r = []"
    using r by (auto simp: q_empty_def contents_def ring_ok_def)
  show "length (contents r) \<le> nat QUEUE_MAX_SIZE"
    using r length_contents [OF r] by (simp add: ring_ok_def QUEUE_MAX_SIZE_def nat_le_iff)
next
  fix x r assume r: "ring_ok r" "\<not> q_full r"
  let ?r = "r\<lparr>q_ops := (q_ops r)(q_index (q_puts r) := x)\<rparr>"
  have "ring_ok ?r" using r by (simp add: ring_ok_def)
  with contents_inc_puts [of ?r] contents_store [OF r, of x] r show
    "ring_ok (ring_put x r) \<and> contents (ring_put x r) = contents r @ [x]"
    by (simp add: ring_put_def ring_ok_def q_full_def)
next
  fix r assume r: "ring_ok r" "\<not> q_empty r"
  then show "ring_ok (snd (ring_get r)) \<and> contents r = fst (ring_get r) # contents (snd (ring_get r))"
    using contents_inc_gets [OF r(2)] by (auto simp: ring_get_def ring_ok_def q_empty_def)
qed

section \<open>The abstract system\<close>

text \<open>Where an operation is in its life, by the address of the client that owns it.\<close>

datatype phase = Out | Queued | Taken | Answered int

record aq =
  a_queue :: "nat list"
  a_phase :: "nat \<Rightarrow> phase"

definition aq_start :: aq where
  "aq_start = \<lparr>a_queue = [], a_phase = (\<lambda>_. Out)\<rparr>"

definition move :: "nat \<Rightarrow> phase \<Rightarrow> aq \<Rightarrow> aq" where
  "move a p x = x\<lparr>a_phase := (a_phase x)(a := p)\<rparr>"

fun aq_step :: "qevent \<Rightarrow> aq \<Rightarrow> aq option" where
  "aq_step Tau x = Some x"
| "aq_step (Put a) x =
     (if a_phase x a = Out \<and> length (a_queue x) < nat QUEUE_MAX_SIZE
      then Some (move a Queued (x\<lparr>a_queue := a_queue x @ [a]\<rparr>)) else None)"
| "aq_step (Get a) x =
     (if a_phase x a = Queued \<and> a_queue x \<noteq> [] \<and> hd (a_queue x) = a
      then Some (move a Taken (x\<lparr>a_queue := tl (a_queue x)\<rparr>)) else None)"
| "aq_step (Answer a v) x = (if a_phase x a = Taken then Some (move a (Answered v) x) else None)"
| "aq_step (Return a v) x = (if a_phase x a = Answered v then Some (move a Out x) else None)"

fun aq_run :: "qevent list \<Rightarrow> aq \<Rightarrow> aq option" where
  "aq_run [] x = Some x"
| "aq_run (e # es) x = Option.bind (aq_step e x) (aq_run es)"

lemma aq_run_append: "aq_run (es @ fs) x = Option.bind (aq_run es x) (aq_run fs)"
  by (induction es arbitrary: x) (auto split: Option.bind_splits)

lemma aq_run_snoc: "aq_run (es @ [e]) x = Option.bind (aq_run es x) (aq_step e)"
  by (induction es arbitrary: x) (auto simp: bind_eq_None_conv split: Option.bind_splits)

section \<open>Positions\<close>

text \<open>
  What a position means: whether the thread holds the lock, which operation it serves, how far
  its own operation is, and what it has established about the ring.
\<close>

definition crit :: "pc \<Rightarrow> bool" where
  "crit p = (case p of E_recheck \<Rightarrow> True | E_backoff \<Rightarrow> True | E_store \<Rightarrow> True | E_inc \<Rightarrow> True | E_unlock \<Rightarrow> True
     | G_recheck \<Rightarrow> True | G_backoff \<Rightarrow> True | G_load \<Rightarrow> True | G_inc _ \<Rightarrow> True | G_unlock _ \<Rightarrow> True | _ \<Rightarrow> False)"

definition serves :: "pc \<Rightarrow> nat option" where
  "serves p = (case p of G_unlock a \<Rightarrow> Some a | G_got a \<Rightarrow> Some a | S_err a _ _ \<Rightarrow> Some a
     | S_done a _ _ \<Rightarrow> Some a | _ \<Rightarrow> None)"

datatype stage = Away | Cleared | Submitted | Returning

definition stage_of :: "pc \<Rightarrow> stage" where
  "stage_of p = (case p of E_check \<Rightarrow> Cleared | E_check2 _ \<Rightarrow> Cleared | E_lock \<Rightarrow> Cleared | E_recheck \<Rightarrow> Cleared
     | E_backoff \<Rightarrow> Cleared | E_store \<Rightarrow> Cleared | E_inc \<Rightarrow> Cleared | E_unlock \<Rightarrow> Submitted | E_wait \<Rightarrow> Submitted
     | E_ret \<Rightarrow> Returning | _ \<Rightarrow> Away)"

definition knows :: "nat \<Rightarrow> pc \<Rightarrow> opq \<Rightarrow> bool" where
  "knows t p r = (case p of E_store \<Rightarrow> \<not> q_full r | E_inc \<Rightarrow> \<not> q_full r \<and> q_ops r (q_index (q_puts r)) = t
     | G_load \<Rightarrow> \<not> q_empty r | G_inc a \<Rightarrow> \<not> q_empty r \<and> a = q_ops r (q_index (q_gets r)) | _ \<Rightarrow> True)"

definition writes_err :: "pc \<Rightarrow> (nat \<times> int) option" where
  "writes_err p = (case p of S_done a v _ \<Rightarrow> Some (a, v) | _ \<Rightarrow> None)"

lemmas pos_defs = crit_def serves_def stage_of_def knows_def writes_err_def

lemma knows_free: "\<not> crit p \<Longrightarrow> knows t p r"
  by (auto simp: pos_defs split: pc.splits)

lemma knows_spin [simp]: "knows t p (r\<lparr>q_spin := h\<rparr>) = knows t p r"
  by (auto simp: knows_def q_full_def q_empty_def split: pc.splits)

section \<open>Moves\<close>

text \<open>The steps that change something, grouped by what they change.\<close>

inductive qmove :: "nat \<Rightarrow> opsys \<Rightarrow> qevent \<Rightarrow> opsys \<Rightarrow> bool" where
  call: "pcs s t = Idle \<Longrightarrow> qmove t s Tau (execute_call t op s)"
| clear: "pcs s t = E_clear \<Longrightarrow> qmove t s Tau (goto t E_check (upd_mem t (\<lambda>op. op\<lparr>op_done := 0\<rparr>) s))"
| walk: "crit p = crit (pcs s t) \<Longrightarrow> serves p = serves (pcs s t) \<Longrightarrow> stage_of p = stage_of (pcs s t) \<Longrightarrow>
    (knows t (pcs s t) (q s) \<Longrightarrow> knows t p (q s)) \<Longrightarrow> writes_err p = None \<Longrightarrow> qmove t s Tau (goto t p s)"
| lock: "\<not> crit (pcs s t) \<Longrightarrow> q_spin (q s) = None \<Longrightarrow> crit p \<Longrightarrow> serves p = serves (pcs s t) \<Longrightarrow>
    stage_of p = stage_of (pcs s t) \<Longrightarrow> knows t p (q s) \<Longrightarrow> writes_err p = None \<Longrightarrow>
    qmove t s Tau (goto t p (upd_q (\<lambda>q. q\<lparr>q_spin := Some t\<rparr>) s))"
| unlock: "crit (pcs s t) \<Longrightarrow> \<not> crit p \<Longrightarrow> serves p = serves (pcs s t) \<Longrightarrow> stage_of p = stage_of (pcs s t) \<Longrightarrow>
    writes_err p = None \<Longrightarrow> qmove t s Tau (goto t p (upd_q (\<lambda>q. q\<lparr>q_spin := None\<rparr>) s))"
| store: "pcs s t = E_store \<Longrightarrow>
    qmove t s Tau (goto t E_inc (upd_q (\<lambda>q. q\<lparr>q_ops := (q_ops q)(q_index (q_puts q) := t)\<rparr>) s))"
| put: "pcs s t = E_inc \<Longrightarrow> q_puts (q s) < 2 ^ 31 - 1 \<Longrightarrow> qmove t s (Put t) (goto t E_unlock (upd_q (\<lambda>q. q\<lparr>q_puts := q_puts q + 1\<rparr>) s))"
| get: "pcs s t = G_inc a \<Longrightarrow> qmove t s (Get a) (goto t (G_unlock a) (upd_q (\<lambda>q. q\<lparr>q_gets := q_gets q + 1\<rparr>) s))"
| err: "pcs s t = S_err a v again \<Longrightarrow>
    qmove t s Tau (goto t (S_done a v again) (upd_mem a (\<lambda>op. op\<lparr>op_err := v\<rparr>) s))"
| answer: "pcs s t = S_done a v again \<Longrightarrow> qmove t s (Answer a v)
    (goto t (if again then G_check else Idle) (upd_mem a (\<lambda>op. op\<lparr>op_done := 1\<rparr>) s))"
| woken: "pcs s t = E_wait \<Longrightarrow> op_done (mem s t) \<noteq> 0 \<Longrightarrow> qmove t s Tau (goto t E_ret s)"
| return: "pcs s t = E_ret \<Longrightarrow> qmove t s (Return t (op_err (mem s t))) (goto t Idle s)"

lemma execute_moves:
  assumes "execute_step t s = Inr (e, s')"
  shows "(e = Tau \<and> s' = s) \<or> qmove t s e s'"
proof (cases "pcs s t")
  case (E_check2 p)
  with assms show ?thesis
    using qmove.walk [of E_check s t] qmove.walk [of E_lock s t] by (auto simp: execute_step_def pos_defs split: if_splits)
next
  case E_lock
  with assms show ?thesis using qmove.lock [of s t E_recheck] by (auto simp: execute_step_def pos_defs split: if_splits)
next
  case E_recheck
  with assms show ?thesis
    using qmove.walk [of E_store s t] qmove.walk [of E_backoff s t] by (auto simp: execute_step_def pos_defs split: if_splits)
next
  case E_backoff
  with assms show ?thesis using qmove.unlock [of s t E_check] by (auto simp: execute_step_def pos_defs)
next
  case E_unlock
  with assms show ?thesis using qmove.unlock [of s t E_wait] by (auto simp: execute_step_def pos_defs)
next
  case E_check
  with assms show ?thesis using qmove.walk [of "E_check2 (q_puts (q s))" s t] by (auto simp: execute_step_def pos_defs)
qed (use assms in \<open>auto simp: execute_step_def split: if_splits intro: qmove.intros\<close>)

lemma get_op_moves:
  assumes "get_op_step t s = Inr (e, s')"
  shows "(e = Tau \<and> s' = s) \<or> qmove t s e s'"
proof (cases "pcs s t")
  case (G_check2 p)
  with assms show ?thesis
    using qmove.walk [of G_check s t] qmove.walk [of G_lock s t] by (auto simp: get_op_step_def pos_defs split: if_splits)
next
  case G_lock
  with assms show ?thesis using qmove.lock [of s t G_recheck] by (auto simp: get_op_step_def pos_defs split: if_splits)
next
  case G_recheck
  with assms show ?thesis
    using qmove.walk [of G_load s t] qmove.walk [of G_backoff s t] by (auto simp: get_op_step_def pos_defs split: if_splits)
next
  case G_backoff
  with assms show ?thesis using qmove.unlock [of s t G_check] by (auto simp: get_op_step_def pos_defs)
next
  case (G_unlock a)
  with assms show ?thesis using qmove.unlock [of s t "G_got a"] by (auto simp: get_op_step_def pos_defs)
next
  case G_load
  with assms show ?thesis using qmove.walk [of "G_inc (q_ops (q s) (q_index (q_gets (q s))))" s t]
    by (auto simp: get_op_step_def pos_defs)
next
  case G_check
  with assms show ?thesis using qmove.walk [of "G_check2 (q_puts (q s))" s t] by (auto simp: get_op_step_def pos_defs)
qed (use assms in \<open>auto simp: get_op_step_def split: if_splits intro: qmove.intros\<close>)

lemma qstep_moves:
  assumes "qstep s e s'"
  shows "(e = Tau \<and> s' = s) \<or> (\<exists>t. qmove t s e s')"
  using assms
proof cases
  case (send_result t)
  then show ?thesis by (cases "pcs s t") (auto simp: send_result_step_def intro: qmove.intros)
next
  case (call_get_op t)
  then show ?thesis using qmove.walk [of G_check s t] by (auto simp: pos_defs)
next
  case (call_send_result t a v again)
  then show ?thesis using qmove.walk [of "S_err a v again" s t] by (auto simp: pos_defs)
qed (use execute_moves get_op_moves qmove.call in blast)+

section \<open>Invariants\<close>

lemmas upd_defs = goto_def upd_q_def upd_mem_def execute_call_def

definition lock_inv :: "opsys \<Rightarrow> bool" where
  "lock_inv s \<longleftrightarrow> (\<forall>t. crit (pcs s t) \<longleftrightarrow> q_spin (q s) = Some t)"

definition ring_inv :: "opsys \<Rightarrow> bool" where
  "ring_inv s \<longleftrightarrow> ring_ok (q s) \<and> (\<forall>t. knows t (pcs s t) (q s))"

lemma pos_simps [simp]:
  "crit E_store" "crit E_inc" "crit E_unlock" "crit (G_inc a)" "crit (G_unlock a)"
  "\<not> crit E_clear" "\<not> crit E_check" "\<not> crit Idle" "\<not> crit E_wait" "\<not> crit E_ret" "\<not> crit G_check"
  "\<not> crit (S_err a v again)" "\<not> crit (S_done a v again)"
  by (simp_all add: crit_def)

lemma lock_frame:
  assumes "lock_inv s" "q_spin (q s') = q_spin (q s)" "pcs s' = (pcs s)(t := p)" "crit p = crit (pcs s t)"
  shows "lock_inv s'"
  using assms by (simp add: lock_inv_def)

lemma lock_inv_step:
  assumes "lock_inv s" "qmove t s e s'"
  shows "lock_inv s'"
  using assms(2)
proof cases
  case (lock p)
  with assms(1) show ?thesis by (auto simp: lock_inv_def upd_defs)
next
  case (unlock p)
  then have "q_spin (q s) = Some t" using assms(1) by (simp add: lock_inv_def)
  with unlock assms(1) show ?thesis by (simp add: lock_inv_def upd_defs)
qed (use lock_frame [OF assms(1), of s' t "pcs s' t"] in \<open>simp add: upd_defs\<close>)+

text \<open>Only the thread in the critical section knows anything about the ring.\<close>

lemma knows_others:
  assumes "lock_inv s" "crit (pcs s t)" "knows t p r"
  shows "knows u (((pcs s)(t := p)) u) r"
proof (cases "u = t")
  case False
  then have "\<not> crit (pcs s u)" using assms(1,2) by (auto simp: lock_inv_def)
  with False show ?thesis by (simp add: knows_free)
qed (use assms(3) in simp)

lemma ring_inv_step:
  assumes "lock_inv s" "ring_inv s" "qmove t s e s'"
  shows "ring_inv s'"
  using assms(3)
proof cases
  case store
  let ?r = "q_ops_update (\<lambda>_. (q_ops (q s))(q_index (q_puts (q s)) := t)) (q s)"
  from store assms(2) have "\<not> q_full (q s)" "ring_ok (q s)" by (auto simp: ring_inv_def knows_def split: pc.splits dest: spec [of _ t])
  then have "knows t E_inc ?r" "ring_ok ?r" by (auto simp: knows_def q_full_def ring_ok_def)
  with knows_others [OF assms(1), of t E_inc ?r] store show ?thesis by (simp add: ring_inv_def upd_defs)
next
  case put
  let ?r = "q_puts_update (\<lambda>_. q_puts (q s) + 1) (q s)"
  from put assms(2) have "\<not> q_full (q s)" "ring_ok (q s)" by (auto simp: ring_inv_def knows_def split: pc.splits dest: spec [of _ t])
  then have "knows t E_unlock ?r" "ring_ok ?r" by (auto simp: knows_def q_full_def ring_ok_def)
  with knows_others [OF assms(1), of t E_unlock ?r] put show ?thesis by (simp add: ring_inv_def upd_defs)
next
  case (get a)
  let ?r = "q_gets_update (\<lambda>_. q_gets (q s) + 1) (q s)"
  from get assms(2) have "\<not> q_empty (q s)" "ring_ok (q s)" by (auto simp: ring_inv_def knows_def split: pc.splits dest: spec [of _ t])
  then have "knows t (G_unlock a) ?r" "ring_ok ?r" by (auto simp: knows_def q_empty_def ring_ok_def)
  with knows_others [OF assms(1), of t "G_unlock a" ?r] get show ?thesis by (simp add: ring_inv_def upd_defs)
qed (use assms(2) in \<open>auto simp: ring_inv_def upd_defs ring_ok_def knows_free\<close>)

text \<open>
  Ownership: the abstract state says of every operation where it is, and the memory holds what
  its owner and its server need there.
\<close>

definition serving :: "opsys \<Rightarrow> nat \<rightharpoonup> nat" where
  "serving s t = serves (pcs s t)"

definition own_inv :: "aq \<Rightarrow> opsys \<Rightarrow> bool" where
  "own_inv x s \<longleftrightarrow> distinct (a_queue x) \<and> inj_on (serving s) (dom (serving s)) \<and>
     (\<forall>a. (a_phase x a = Queued \<longleftrightarrow> a \<in> set (a_queue x)) \<and> (a_phase x a = Taken \<longleftrightarrow> a \<in> ran (serving s)))"

fun phase_ok :: "phase \<Rightarrow> stage \<Rightarrow> operation \<Rightarrow> bool" where
  "phase_ok Out st op \<longleftrightarrow> st = Away \<or> st = Cleared \<and> op_done op = 0"
| "phase_ok Queued st op \<longleftrightarrow> st = Submitted \<and> op_done op = 0"
| "phase_ok Taken st op \<longleftrightarrow> st = Submitted \<and> op_done op = 0"
| "phase_ok (Answered v) st op \<longleftrightarrow> (st = Submitted \<or> st = Returning) \<and> op_done op \<noteq> 0 \<and> op_err op = v"

definition mem_inv :: "aq \<Rightarrow> opsys \<Rightarrow> bool" where
  "mem_inv x s \<longleftrightarrow> (\<forall>a. phase_ok (a_phase x a) (stage_of (pcs s a)) (mem s a)) \<and>
     (\<forall>t a v. writes_err (pcs s t) = Some (a, v) \<longrightarrow> op_err (mem s a) = v)"

definition qinv :: "aq \<Rightarrow> opsys \<Rightarrow> bool" where
  "qinv x s \<longleftrightarrow> lock_inv s \<and> ring_inv s \<and> a_queue x = contents (q s) \<and> own_inv x s \<and> mem_inv x s"

lemma more_pos [simp]:
  "stage_of Idle = Away" "stage_of E_clear = Away" "stage_of E_check = Cleared" "stage_of E_store = Cleared"
  "stage_of E_inc = Cleared" "stage_of E_unlock = Submitted" "stage_of E_wait = Submitted" "stage_of E_ret = Returning"
  "stage_of (G_inc a) = Away" "stage_of (G_unlock a) = Away" "stage_of (S_err a v again) = Away"
  "stage_of (S_done a v again) = Away" "stage_of G_check = Away"
  "serves Idle = None" "serves E_clear = None" "serves E_check = None" "serves E_store = None" "serves E_inc = None"
  "serves E_unlock = None" "serves E_wait = None" "serves E_ret = None" "serves (G_inc a) = None"
  "serves (G_unlock a) = Some a" "serves (S_err a v again) = Some a" "serves (S_done a v again) = Some a"
  "serves G_check = None"
  "writes_err (S_done a v again) = Some (a, v)"
  "writes_err Idle = None" "writes_err E_clear = None" "writes_err E_check = None" "writes_err E_inc = None"
  "writes_err E_unlock = None" "writes_err E_ret = None" "writes_err (G_unlock a) = None" "writes_err G_check = None"
  by (simp_all add: pos_defs)

lemma writes_serves: "writes_err p = Some (a, v) \<Longrightarrow> serves p = Some a"
  by (auto simp: pos_defs split: pc.splits)

lemma move_simps [simp]: "a_queue (move a p x) = a_queue x" "a_phase (move a p x) = (a_phase x)(a := p)"
  by (simp_all add: move_def)

lemma serving_simps [simp]:
  "serving (goto t p s) = (serving s)(t := serves p)" "serving (upd_q f s) = serving s" "serving (upd_mem a g s) = serving s"
  "serving (execute_call t op s) = (serving s)(t := None)"
  by (rule ext, simp add: serving_def upd_defs)+

lemma ran_drop:
  assumes "inj_on f (dom f)" "f t = Some a"
  shows "ran (f(t := None)) = ran f - {a}"
proof (intro set_eqI iffI)
  fix b assume "b \<in> ran (f(t := None))"
  then obtain u where "(f(t := None)) u = Some b" unfolding ran_def by blast
  then have u: "u \<noteq> t" "f u = Some b" by (simp_all split: if_split_asm)
  with inj_onD [OF assms(1), of u t] assms(2) have "b \<noteq> a" by (auto simp: domI)
  with u(2) show "b \<in> ran f - {a}" by (simp add: ranI)
next
  fix b assume "b \<in> ran f - {a}"
  then obtain u where u: "f u = Some b" "b \<noteq> a" unfolding ran_def by blast
  with assms(2) have "(f(t := None)) u = Some b" by auto
  then show "b \<in> ran (f(t := None))" by (rule ranI)
qed

lemma inj_drop: "inj_on f (dom f) \<Longrightarrow> inj_on (f(t := None)) (dom (f(t := None)))"
  by (auto simp: inj_on_def)

lemma inj_take: "inj_on f (dom f) \<Longrightarrow> a \<notin> ran f \<Longrightarrow> inj_on (f(t := Some a)) (dom (f(t := Some a)))"
  by (auto simp: inj_on_def ran_def)

text \<open>A step that leaves every position's meaning alone.\<close>

lemma own_frame: "own_inv x s \<Longrightarrow> serving s' = serving s \<Longrightarrow> own_inv x s'"
  by (simp add: own_inv_def)

lemma mem_frame:
  assumes "mem_inv x s" "\<And>t. stage_of (pcs s' t) = stage_of (pcs s t)" "mem s' = mem s"
    "\<And>t. writes_err (pcs s' t) = writes_err (pcs s t) \<or> writes_err (pcs s' t) = None"
  shows "mem_inv x s'"
proof -
  have old: "op_err (mem s a) = v" if "writes_err (pcs s t) = Some (a, v)" for t a v
    using assms(1) that by (simp add: mem_inv_def)
  have "op_err (mem s a) = v" if "writes_err (pcs s' t) = Some (a, v)" for t a v
    using old assms(4) [of t] that by fastforce
  with assms(1) show ?thesis unfolding mem_inv_def assms(2,3) by blast
qed

lemma phase_stage:
  assumes "phase_ok p st op"
  shows "st = Away \<Longrightarrow> p = Out" "st = Cleared \<Longrightarrow> p = Out" "st = Returning \<Longrightarrow> \<exists>v. p = Answered v"
  using assms by (cases p; simp)+

lemma mem_invD:
  assumes "mem_inv x s"
  shows "phase_ok (a_phase x a) (stage_of (pcs s a)) (mem s a)"
    "writes_err (pcs s t) = Some (a, v) \<Longrightarrow> op_err (mem s a) = v"
  using assms by (auto simp: mem_inv_def)

text \<open>A step that touches one operation, whose phase fits again afterwards.\<close>

lemma mem_inv_upd:
  assumes "mem_inv x s" "\<And>b. b \<noteq> a \<Longrightarrow> mem s' b = mem s b"
    "\<And>b. b \<noteq> a \<Longrightarrow> stage_of (pcs s' b) = stage_of (pcs s b) \<and> a_phase x' b = a_phase x b"
    "phase_ok (a_phase x' a) (stage_of (pcs s' a)) (mem s' a)"
    "\<And>t b v. writes_err (pcs s' t) = Some (b, v) \<Longrightarrow>
       b \<noteq> a \<and> writes_err (pcs s t) = Some (b, v) \<or> b = a \<and> op_err (mem s' a) = v"
  shows "mem_inv x' s'"
proof -
  have "phase_ok (a_phase x' b) (stage_of (pcs s' b)) (mem s' b)" for b
    using assms(4) mem_invD(1) [OF assms(1), of b] assms(2,3) [of b] by (cases "b = a") auto
  moreover have "op_err (mem s' b) = v" if "writes_err (pcs s' t) = Some (b, v)" for t b v
    using assms(5) [OF that] assms(2) [of b] mem_invD(2) [OF assms(1), of t b v] by auto
  ultimately show ?thesis by (simp add: mem_inv_def)
qed

lemma writes_taken: "own_inv x s \<Longrightarrow> writes_err (pcs s t) = Some (a, v) \<Longrightarrow> a_phase x a = Taken \<and> serving s t = Some a"
  using writes_serves [of "pcs s t" a v] by (auto simp: own_inv_def serving_def ran_def)

lemma serving_taken: "own_inv x s \<Longrightarrow> serving s t = Some a \<Longrightarrow> a_phase x a = Taken"
  by (auto simp: own_inv_def ran_def)

lemma own_excl: "own_inv x s \<Longrightarrow> serving s t = Some a \<Longrightarrow> serving s u = Some a \<Longrightarrow> u = t"
  using inj_onD [of "serving s" "dom (serving s)" u t] by (simp add: own_inv_def domI)

lemma own_queued: "own_inv x s \<Longrightarrow> a \<in> set (a_queue x) \<longleftrightarrow> a_phase x a = Queued"
  "own_inv x s \<Longrightarrow> a \<in> ran (serving s) \<longleftrightarrow> a_phase x a = Taken"
  by (auto simp: own_inv_def)

lemma qinvD:
  assumes "qinv x s"
  shows "lock_inv s" "ring_ok (q s)" "knows t (pcs s t) (q s)" "a_queue x = contents (q s)" "own_inv x s" "mem_inv x s"
  using assms by (auto simp: qinv_def ring_inv_def)

lemma sim_put:
  assumes "qinv x s" "pcs s t = E_inc" "s' = goto t E_unlock (upd_q (\<lambda>q. q\<lparr>q_puts := q_puts q + 1\<rparr>) s)"
  shows "\<exists>x'. aq_step (Put t) x = Some x' \<and> a_queue x' = contents (q s') \<and> own_inv x' s' \<and> mem_inv x' s'"
proof -
  note inv = qinvD [OF assms(1)]
  from inv(3) [of t] assms(2) have r: "\<not> q_full (q s)" "q_ops (q s) (q_index (q_puts (q s))) = t"
    by (simp_all add: knows_def)
  have ph: "phase_ok (a_phase x t) Cleared (mem s t)" using mem_invD(1) [OF inv(6), of t] assms(2) by simp
  then have out: "a_phase x t = Out" by (cases "a_phase x t") auto
  have len: "length (a_queue x) < nat QUEUE_MAX_SIZE"
    using inv(4) r rq.full [OF inv(2)] rq.bound [OF inv(2)] by simp
  let ?x = "move t Queued (x\<lparr>a_queue := a_queue x @ [t]\<rparr>)"
  have sv: "serving s' = serving s" using assms(2,3) by (auto simp: serving_def)
  then have "own_inv ?x s'" using inv(5) out own_queued [OF inv(5), of t] by (auto simp: own_inv_def)
  moreover have "mem_inv ?x s'"
    by (rule mem_inv_upd [OF inv(6), of t])
      (use assms(2,3) ph out writes_taken [OF inv(5)] in \<open>auto simp: upd_defs split: if_splits\<close>)
  ultimately show ?thesis using out len inv(4) contents_inc_puts [OF inv(2)] r(2) by (simp add: assms(3) upd_defs)
qed

lemma sim_get:
  assumes "qinv x s" "pcs s t = G_inc a" "s' = goto t (G_unlock a) (upd_q (\<lambda>q. q\<lparr>q_gets := q_gets q + 1\<rparr>) s)"
  shows "\<exists>x'. aq_step (Get a) x = Some x' \<and> a_queue x' = contents (q s') \<and> own_inv x' s' \<and> mem_inv x' s'"
proof -
  note inv = qinvD [OF assms(1)]
  from inv(3) [of t] assms(2) have r: "\<not> q_empty (q s)" "a = q_ops (q s) (q_index (q_gets (q s)))"
    by (simp_all add: knows_def)
  from contents_inc_gets [OF r(1)] inv(4) r(2) have qx: "a_queue x = a # contents (q s')"
    by (simp add: upd_defs assms(3))
  then have qd: "a_phase x a = Queued" using own_queued(1) [OF inv(5), of a] by simp
  let ?x = "move a Taken (x\<lparr>a_queue := tl (a_queue x)\<rparr>)"
  have st: "serving s t = None" using assms(2) by (simp add: serving_def)
  have sv: "serving s' = (serving s)(t := Some a)" by (simp add: assms(3))
  have ns: "a \<notin> ran (serving s)" using own_queued(2) [OF inv(5), of a] qd by simp
  have "own_inv ?x s'" using inv(5) qx ns inj_take [of "serving s" a t] st
    unfolding own_inv_def sv ran_map_upd [of "serving s" t a, OF st] by auto
  moreover have ph: "phase_ok Queued (stage_of (pcs s a)) (mem s a)" using mem_invD(1) [OF inv(6), of a] qd by simp
  then have "a \<noteq> t" using assms(2) by auto
  then have "mem_inv ?x s'"
    by (intro mem_inv_upd [OF inv(6), of a])
      (use assms(2,3) ph qd writes_taken [OF inv(5)] in \<open>auto simp: upd_defs split: if_splits\<close>)
  ultimately show ?thesis using qd qx by simp
qed

lemma sim_answer:
  assumes "qinv x s" "pcs s t = S_done a v again"
    "s' = goto t (if again then G_check else Idle) (upd_mem a (\<lambda>op. op\<lparr>op_done := 1\<rparr>) s)"
  shows "\<exists>x'. aq_step (Answer a v) x = Some x' \<and> a_queue x' = contents (q s') \<and> own_inv x' s' \<and> mem_inv x' s'"
proof -
  note inv = qinvD [OF assms(1)]
  have st: "serving s t = Some a" using assms(2) by (simp add: serving_def)
  have tk: "a_phase x a = Taken" by (rule serving_taken [OF inv(5) st])
  then have nq: "a \<notin> set (a_queue x)" using own_queued(1) [OF inv(5), of a] by simp
  have ev: "op_err (mem s a) = v" using mem_invD(2) [OF inv(6), of t a v] assms(2) by simp
  have sv: "serving s' = (serving s)(t := None)" by (simp add: assms(3))
  have only: "u = t" if "writes_err (pcs s u) = Some (a, w)" for u w
    using own_excl [OF inv(5) st] writes_taken [OF inv(5) that] by simp
  have "own_inv (move a (Answered v) x) s'"
    using inv(5) nq inj_drop [of "serving s" t] ran_drop [of "serving s" t a, OF _ st] unfolding own_inv_def sv by auto
  moreover have ph: "phase_ok Taken (stage_of (pcs s a)) (mem s a)" using mem_invD(1) [OF inv(6), of a] tk by simp
  then have "a \<noteq> t" using assms(2) by auto
  then have "mem_inv (move a (Answered v) x) s'"
    by (intro mem_inv_upd [OF inv(6), of a])
      (use assms(2,3) ph ev tk only in \<open>auto simp: upd_defs split: if_splits\<close>)
  ultimately show ?thesis using tk inv(4) by (simp add: assms(3) upd_defs)
qed

lemma sim_return:
  assumes "qinv x s" "pcs s t = E_ret" "s' = goto t Idle s"
  shows "\<exists>x'. aq_step (Return t (op_err (mem s t))) x = Some x' \<and> a_queue x' = contents (q s') \<and> own_inv x' s' \<and> mem_inv x' s'"
proof -
  note inv = qinvD [OF assms(1)]
  have "phase_ok (a_phase x t) Returning (mem s t)" using mem_invD(1) [OF inv(6), of t] assms(2) by simp
  then have ph: "a_phase x t = Answered (op_err (mem s t))" by (cases "a_phase x t") auto
  have sv: "serving s' = serving s" using assms(2,3) by (auto simp: serving_def)
  then have "own_inv (move t Out x) s'"
    using inv(5) ph own_queued [OF inv(5), of t] by (auto simp: own_inv_def)
  moreover have "mem_inv (move t Out x) s'"
    by (intro mem_inv_upd [OF inv(6), of t])
      (use assms(2,3) ph writes_taken [OF inv(5)] in \<open>auto simp: upd_defs split: if_splits\<close>)
  ultimately show ?thesis using ph inv(4) by (simp add: assms(3) upd_defs)
qed

text \<open>The steps that are invisible outside.\<close>

lemma sim_tau:
  assumes "qinv x s" "qmove t s Tau s'"
  shows "a_queue x = contents (q s') \<and> own_inv x s' \<and> mem_inv x s'"
  using assms(2)
proof cases
  case (call op)
  note inv = qinvD [OF assms(1)]
  have o: "serving s t = None" "a_phase x t = Out"
    using call phase_stage(1) [OF mem_invD(1) [OF inv(6), of t]] by (simp_all add: serving_def)
  have "mem_inv x s'" by (intro mem_inv_upd [OF inv(6), of t])
    (use o call writes_taken [OF inv(5)] in \<open>auto simp: upd_defs split: if_splits\<close>)
  moreover have "own_inv x s'" by (rule own_frame [OF inv(5)]) (use call o(1) in \<open>simp_all add: fun_upd_idem\<close>)
  ultimately show ?thesis using call inv(4) by (simp add: upd_defs)
next
  case clear
  note inv = qinvD [OF assms(1)]
  have o: "serving s t = None" "a_phase x t = Out"
    using clear phase_stage(1) [OF mem_invD(1) [OF inv(6), of t]] by (simp_all add: serving_def)
  have "mem_inv x s'" by (intro mem_inv_upd [OF inv(6), of t])
    (use o clear writes_taken [OF inv(5)] in \<open>auto simp: upd_defs split: if_splits\<close>)
  moreover have "own_inv x s'" by (rule own_frame [OF inv(5)]) (use clear o(1) in \<open>simp_all add: fun_upd_idem\<close>)
  ultimately show ?thesis using clear inv(4) by (simp add: upd_defs)
next
  case store
  note inv = qinvD [OF assms(1)]
  have r: "\<not> q_full (q s)" "serving s t = None" using inv(3) [of t] store by (simp_all add: knows_def serving_def)
  have "mem_inv x s'" by (rule mem_frame [OF inv(6)]) (use store in \<open>auto simp: upd_defs\<close>)
  moreover have "own_inv x s'" by (rule own_frame [OF inv(5)]) (use r(2) store in \<open>auto\<close>)
  ultimately show ?thesis using contents_store [OF inv(2) r(1), of t] store inv(4) by (simp add: upd_defs)
next
  case (err a v again)
  note inv = qinvD [OF assms(1)]
  have sv: "serving s t = Some a" using err by (simp add: serving_def)
  have tk: "phase_ok Taken (stage_of (pcs s a)) (mem s a)" "a_phase x a = Taken"
    using mem_invD(1) [OF inv(6), of a] serving_taken [OF inv(5) sv] by simp_all
  have ex: "u = t" if "writes_err (pcs s u) = Some (a, w)" for u w
    using own_excl [OF inv(5) sv] writes_taken [OF inv(5) that] by simp
  have "mem_inv x s'" by (rule mem_inv_upd [OF inv(6), of a])
    (use err tk ex in \<open>auto simp: upd_defs split: if_splits\<close>)
  moreover have "own_inv x s'" by (rule own_frame [OF inv(5)]) (use sv err in \<open>auto\<close>)
  ultimately show ?thesis using inv(4) err by (simp add: upd_defs)
next
  case woken
  note inv = qinvD [OF assms(1)]
  have "phase_ok (a_phase x t) Submitted (mem s t)" using mem_invD(1) [OF inv(6), of t] woken by simp
  with woken have ph: "\<exists>v. a_phase x t = Answered v \<and> op_err (mem s t) = v" by (cases "a_phase x t") auto
  have "mem_inv x s'" by (rule mem_inv_upd [OF inv(6), of t])
    (use woken ph writes_taken [OF inv(5)] in \<open>auto simp: upd_defs split: if_splits\<close>)
  moreover have "own_inv x s'" by (rule own_frame [OF inv(5)]) (use woken in \<open>auto simp: serving_def\<close>)
  ultimately show ?thesis using inv(4) woken by (simp add: upd_defs)
next
  case (walk p)
  have "serving s' = serving s" using walk by (auto simp: serving_def)
  then show ?thesis using assms(1) own_frame [of x s s'] mem_frame [of x s s'] walk by (simp add: qinv_def upd_defs)
next
  case (lock p)
  have "serving s' = serving s" using lock by (auto simp: serving_def)
  then show ?thesis using assms(1) own_frame [of x s s'] mem_frame [of x s s'] lock by (simp add: qinv_def upd_defs)
next
  case (unlock p)
  have "serving s' = serving s" using unlock by (auto simp: serving_def)
  then show ?thesis using assms(1) own_frame [of x s s'] mem_frame [of x s s'] unlock by (simp add: qinv_def upd_defs)
qed

lemma qinv_move:
  assumes "qinv x s" "qmove t s e s'"
  shows "\<exists>x'. aq_step e x = Some x' \<and> qinv x' s'"
proof -
  have base: "lock_inv s'" "ring_inv s'"
    using lock_inv_step [OF _ assms(2)] ring_inv_step [OF _ _ assms(2)] assms(1) by (auto simp: qinv_def)
  have "\<exists>x'. aq_step e x = Some x' \<and> a_queue x' = contents (q s') \<and> own_inv x' s' \<and> mem_inv x' s'"
  proof (cases "e = Tau")
    case True
    with sim_tau [OF assms(1), of t s'] assms(2) show ?thesis by simp
  next
    case False
    with assms(2) sim_put [OF assms(1)] sim_get [OF assms(1)] sim_answer [OF assms(1)] sim_return [OF assms(1)]
    show ?thesis by (cases rule: qmove.cases) blast+
  qed
  with base show ?thesis by (auto simp: qinv_def)
qed

lemma qinv_start: "qinv aq_start opsys_start"
  by (simp add: qinv_def lock_inv_def ring_inv_def ring_ok_def knows_def own_inv_def mem_inv_def contents_def
      aq_start_def opsys_start_def initialize_def opq_zero_def QUEUE_MAX_SIZE_def serving_def [abs_def])

lemma reach_qinv: "reach tr s \<Longrightarrow> \<exists>x. aq_run tr aq_start = Some x \<and> qinv x s"
proof (induction rule: reach.induct)
  case start
  then show ?case using qinv_start by simp
next
  case (step tr s e s')
  then obtain x where x: "aq_run tr aq_start = Some x" "qinv x s" by blast
  from qstep_moves [OF step.hyps(2)] show ?case
  proof (elim disjE conjE exE)
    assume "e = Tau" "s' = s"
    with x show ?thesis by (simp add: aq_run_snoc)
  next
    fix t assume "qmove t s e s'"
    from qinv_move [OF x(2) this] x(1) show ?thesis by (auto simp: aq_run_snoc)
  qed
qed

section \<open>Histories\<close>

definition puts_of :: "qevent list \<Rightarrow> nat list" where
  "puts_of tr = List.map_filter (\<lambda>e. case e of Put a \<Rightarrow> Some a | _ \<Rightarrow> None) tr"

definition gets_of :: "qevent list \<Rightarrow> nat list" where
  "gets_of tr = List.map_filter (\<lambda>e. case e of Get a \<Rightarrow> Some a | _ \<Rightarrow> None) tr"

fun about :: "nat \<Rightarrow> qevent \<Rightarrow> bool" where
  "about t Tau = False"
| "about t (Put a) = (t = a)"
| "about t (Get a) = (t = a)"
| "about t (Answer a v) = (t = a)"
| "about t (Return a v) = (t = a)"

lemma history_simps [simp]:
  "puts_of [] = []" "gets_of [] = []"
  "puts_of (xs @ ys) = puts_of xs @ puts_of ys" "gets_of (xs @ ys) = gets_of xs @ gets_of ys"
  "puts_of [e] = (case e of Put a \<Rightarrow> [a] | _ \<Rightarrow> [])" "gets_of [e] = (case e of Get a \<Rightarrow> [a] | _ \<Rightarrow> [])"
  by (simp_all add: puts_of_def gets_of_def List.map_filter_def split: qevent.splits)

lemma aq_fifo: "aq_run tr aq_start = Some x \<Longrightarrow> puts_of tr = gets_of tr @ a_queue x"
proof (induction tr arbitrary: x rule: rev_induct)
  case (snoc e tr)
  then obtain y where y: "aq_run tr aq_start = Some y" "aq_step e y = Some x"
    by (auto simp: aq_run_snoc bind_eq_Some_conv)
  from snoc.IH [OF y(1)] y(2) show ?case
    by (cases e; cases "a_queue y") (auto simp: move_def split: if_splits)
qed (simp add: aq_start_def)

text \<open>What the history since an operation was last put says, by its phase.\<close>

fun since_put :: "phase \<Rightarrow> nat \<Rightarrow> qevent list" where
  "since_put Out t = []"
| "since_put Queued t = []"
| "since_put Taken t = [Get t]"
| "since_put (Answered v) t = [Get t, Answer t v]"

lemma aq_history:
  "aq_run tr aq_start = Some x \<Longrightarrow> a_phase x t \<noteq> Out \<Longrightarrow>
   \<exists>pre post. tr = pre @ Put t # post \<and> filter (about t) post = since_put (a_phase x t) t"
proof (induction tr arbitrary: x rule: rev_induct)
  case (snoc e tr)
  then obtain y where y: "aq_run tr aq_start = Some y" "aq_step e y = Some x"
    by (auto simp: aq_run_snoc bind_eq_Some_conv)
  show ?case
  proof (cases "e = Put t")
    case True
    then show ?thesis using y(2) by (intro exI [of _ tr] exI [of _ "[]"]) (auto split: if_splits)
  next
    case False
    have "a_phase y t \<noteq> Out \<and> filter (about t) [e] @ [] = drop (length (since_put (a_phase y t) t)) (since_put (a_phase x t) t) \<and>
        take (length (since_put (a_phase y t) t)) (since_put (a_phase x t) t) = since_put (a_phase y t) t"
      using False y(2) snoc.prems(2) by (cases e) (auto split: if_splits)
    then have ph: "a_phase y t \<noteq> Out" "since_put (a_phase x t) t = since_put (a_phase y t) t @ filter (about t) [e]"
      by (auto, metis append_take_drop_id)
    from snoc.IH [OF y(1) ph(1)] obtain pre post where
      "tr = pre @ Put t # post" "filter (about t) post = since_put (a_phase y t) t" by blast
    with ph(2) show ?thesis by (intro exI [of _ pre] exI [of _ "post @ [e]"]) simp
  qed
qed (simp add: aq_start_def)

lemma reach_counts: "reach tr s \<Longrightarrow> q_puts (q s) = int (length (puts_of tr)) \<and> q_gets (q s) = int (length (gets_of tr))"
proof (induction rule: reach.induct)
  case start
  then show ?case by (simp add: opsys_start_def initialize_def opq_zero_def)
next
  case (step tr s e s')
  from qstep_moves [OF step.hyps(2)] show ?case
  proof (elim disjE conjE exE)
    fix t assume "qmove t s e s'"
    then show ?thesis using step.IH by (cases rule: qmove.cases) (simp_all add: upd_defs)
  qed (use step.IH in simp)
qed

lemma reach_puts_max: "reach tr s \<Longrightarrow> q_puts (q s) \<le> 2 ^ 31 - 1"
proof (induction rule: reach.induct)
  case start
  then show ?case by (simp add: opsys_start_def initialize_def opq_zero_def)
next
  case (step tr s e s')
  from qstep_moves [OF step.hyps(2)] show ?case
  proof (elim disjE conjE exE)
    fix t assume "qmove t s e s'"
    then show ?thesis using step.IH by (cases rule: qmove.cases) (simp_all add: upd_defs)
  qed (use step.IH in simp)
qed

lemma reach_ring: "reach tr s \<Longrightarrow> lock_inv s \<and> ring_inv s"
  using reach_qinv by (auto simp: qinv_def)

section \<open>Schedules\<close>

text \<open>An executable scheduler, used to exhibit runs.\<close>

datatype choice = Exec nat | Take nat | Send nat | Call_execute nat operation | Call_get_op nat | Call_send_result nat int bool

definition pick :: "choice \<Rightarrow> opsys \<Rightarrow> (qevent \<times> opsys) option" where
  "pick c s =
     (case c of
        Exec t \<Rightarrow> (case execute_step t s of Inr r \<Rightarrow> Some r | Inl _ \<Rightarrow> None)
      | Take t \<Rightarrow> (case get_op_step t s of Inr r \<Rightarrow> Some r | Inl _ \<Rightarrow> None)
      | Send t \<Rightarrow> (case send_result_step t s of Inr r \<Rightarrow> Some r | Inl _ \<Rightarrow> None)
      | Call_execute t op \<Rightarrow> (if pcs s t = Idle then Some (Tau, execute_call t op s) else None)
      | Call_get_op t \<Rightarrow> (if pcs s t = Idle then Some (Tau, goto t G_check s) else None)
      | Call_send_result t v again \<Rightarrow>
          (case pcs s t of G_got a \<Rightarrow> Some (Tau, goto t (S_err a v again) s) | _ \<Rightarrow> None))"

fun sched :: "choice list \<Rightarrow> opsys \<Rightarrow> (qevent list \<times> opsys) option" where
  "sched [] s = Some ([], s)"
| "sched (c # cs) s =
     (case pick c s of None \<Rightarrow> None | Some (e, s') \<Rightarrow>
       (case sched cs s' of None \<Rightarrow> None | Some (es, s'') \<Rightarrow> Some (e # es, s'')))"

lemma pick_qstep: "pick c s = Some (e, s') \<Longrightarrow> qstep s e s'"
  by (cases c) (auto simp: pick_def split: sum.splits if_splits pc.splits intro: qstep.intros)

lemma sched_reach: "reach tr s \<Longrightarrow> sched cs s = Some (es, s') \<Longrightarrow> reach (tr @ es) s'"
proof (induction cs arbitrary: tr s es)
  case (Cons c cs)
  then obtain e t fs where "pick c s = Some (e, t)" "sched cs t = Some (fs, s')" "es = e # fs"
    by (auto split: option.splits)
  with Cons.IH [OF reach.step [OF Cons.prems(1)], of e t fs] pick_qstep show ?case by simp
qed simp

text \<open>Client 1 runs an operation that server 2 answers with 7.\<close>

definition sample_submit :: "choice list" where
  "sample_submit = Call_execute 1 op_zero # replicate 8 (Exec 1)"

definition sample_serve :: "choice list" where
  "sample_serve = Call_get_op 2 # replicate 7 (Take 2) @ Call_send_result 2 7 False # replicate 2 (Send 2)"

definition sample_return :: "choice list" where
  "sample_return = replicate 2 (Exec 1)"

definition sample_trace :: "qevent list" where
  "sample_trace = replicate 7 Tau @ [Put 1] @ replicate 7 Tau @ [Get 1] @ replicate 3 Tau @ [Answer 1 7, Tau, Return 1 7]"

lemma sample_history: "map_option fst (sched (sample_submit @ sample_serve @ sample_return) opsys_start) = Some sample_trace"
  by code_simp

lemma sched_history: "map_option fst (sched cs opsys_start) = Some tr \<Longrightarrow> \<exists>s. sched cs opsys_start = Some (tr, s) \<and> reach tr s"
  using sched_reach [OF reach.start, of cs tr] by (cases "sched cs opsys_start") auto

lemma sample_reach: "\<exists>s. reach sample_trace s"
  using sched_history [OF sample_history] by blast

text \<open>Client 1 about to count its operation in.\<close>

definition sample_at_inc :: "choice list" where
  "sample_at_inc = Call_execute 1 op_zero # replicate 6 (Exec 1)"

lemma sample_inc:
  "map_option (\<lambda>(tr, s). (tr, pcs s 1, q_spin (q s), q_puts (q s))) (sched sample_at_inc opsys_start) = Some (replicate 7 Tau, E_inc, Some 1, 0)"
  by code_simp

lemma sample_inc_reach: "\<exists>s. reach (replicate 7 Tau) s \<and> pcs s 1 = E_inc \<and> q_spin (q s) = Some 1 \<and> q_puts (q s) = 0"
  using sample_inc sched_reach [OF reach.start, of sample_at_inc] by (cases "sched sample_at_inc opsys_start") auto

lemma sample_puts: "puts_of sample_trace = [1]" "gets_of sample_trace = [1]" "puts_of (replicate 7 Tau) = []"
  by code_simp+

lemma sample_last: "sample_trace = butlast sample_trace @ [Return 1 7]"
  by code_simp

section \<open>Properties\<close>

text \<open>The same for a part of a history that starts with the client out and in which it does not return.\<close>

lemma aq_since:
  "aq_run es x0 = Some x \<Longrightarrow> a_phase x0 t = Out \<Longrightarrow> \<forall>v. Return t v \<notin> set es \<Longrightarrow>
   filter (about t) es = (if a_phase x t = Out then [] else Put t # since_put (a_phase x t) t)"
proof (induction es arbitrary: x rule: rev_induct)
  case (snoc e es)
  then obtain y where y: "aq_run es x0 = Some y" "aq_step e y = Some x"
    by (auto simp: aq_run_snoc bind_eq_Some_conv)
  have "filter (about t) es = (if a_phase y t = Out then [] else Put t # since_put (a_phase y t) t)"
    using snoc.IH [OF y(1) snoc.prems(2)] snoc.prems(3) by simp
  then show ?case using y(2) snoc.prems(3) by (cases e) (auto split: if_splits)
qed simp

text \<open>
  C13: Every interleaving of \<open>execute\<close>, \<open>get_op\<close> and \<open>send_result\<close> is a run of the atomic bounded
  FIFO: its history is accepted by the abstract system, whose queue is at every moment what lies
  between the two counters of the ring.  Nothing is lost, duplicated or overtaken: the operations taken so far,
  followed by those still in the ring, are exactly the operations put, in the order they were put.
\<close>

theorem queue_refines_fifo:
  assumes "reach tr s"
  shows "\<exists>x. aq_run tr aq_start = Some x \<and> a_queue x = contents (q s) \<and> puts_of tr = gets_of tr @ contents (q s)"
  using reach_qinv [OF assms] aq_fifo by (auto simp: qinv_def)

theorem queue_refines_fifo_witness:
  "\<exists>s x. reach sample_trace s \<and> aq_run sample_trace aq_start = Some x \<and> a_queue x = [] \<and> contents (q s) = []"
proof -
  obtain s where s: "reach sample_trace s" using sample_reach by blast
  have "contents (q s) = []" using reach_counts [OF s] by (simp add: contents_def sample_puts)
  with queue_refines_fifo [OF s] s show ?thesis by auto
qed

text \<open>
  C15: Mutual exclusion: two threads are never both between taking and releasing the spin lock.
\<close>

theorem queue_mutual_exclusion:
  assumes "reach tr s" "crit (pcs s t)" "crit (pcs s u)"
  shows "t = u"
  using reach_ring [OF assms(1)] assms(2,3) by (auto simp: lock_inv_def)

theorem queue_mutual_exclusion_witness:
  "\<exists>s. reach (replicate 7 Tau) s \<and> crit (pcs s 1) \<and> (\<forall>u. crit (pcs s u) \<longrightarrow> 1 = u)"
proof -
  obtain s where "reach (replicate 7 Tau) s" "pcs s 1 = E_inc" using sample_inc_reach by blast
  then show ?thesis using queue_mutual_exclusion [of "replicate 7 Tau" s 1] by (intro exI [of _ s]) simp
qed

text \<open>
  C16: Bounds: the counters are the numbers of operations put and taken, at most
  \<open>QUEUE_MAX_SIZE\<close> operations are in the ring, and a thread about to store into a slot stores
  into one no operation in the ring uses.
\<close>

theorem queue_bounds:
  assumes "reach tr s"
  shows "q_puts (q s) = int (length (puts_of tr)) \<and> q_gets (q s) = int (length (gets_of tr)) \<and>
    0 \<le> q_puts (q s) - q_gets (q s) \<and> q_puts (q s) - q_gets (q s) \<le> QUEUE_MAX_SIZE \<and>
    (\<forall>t k. pcs s t = E_store \<longrightarrow> q_gets (q s) \<le> k \<longrightarrow> k < q_puts (q s) \<longrightarrow> q_index k \<noteq> q_index (q_puts (q s)))"
proof -
  have "q_index k \<noteq> q_index (q_puts (q s))"
    if "pcs s t = E_store" "q_gets (q s) \<le> k" "k < q_puts (q s)" for t k
  proof -
    have "knows t E_store (q s)" using reach_ring [OF assms] that(1) by (metis ring_inv_def)
    then show ?thesis using that by (intro q_index_neq) (auto simp: knows_def q_full_def)
  qed
  then show ?thesis using reach_counts [OF assms] reach_ring [OF assms] by (simp add: ring_inv_def ring_ok_def)
qed

theorem queue_bounds_witness: "\<exists>s. reach sample_trace s \<and> q_puts (q s) = 1 \<and> q_gets (q s) = 1"
proof -
  obtain s where s: "reach sample_trace s" using sample_reach by blast
  from queue_bounds [OF s] s show ?thesis by (intro exI [of _ s]) (simp add: sample_puts)
qed

text \<open>
  C14: A client gets the answer to its own request: when \<open>execute\<close> returns a value, then since the
  client last put its operation, the operation was taken exactly once, answered exactly once, and
  the answer is the value returned.
\<close>

theorem execute_returns_answer:
  assumes "reach tr s" "qstep s (Return t v) s'"
  shows "\<exists>pre post. tr = pre @ Put t # post \<and> filter (about t) post = [Get t, Answer t v]"
proof -
  obtain x where x: "aq_run tr aq_start = Some x" "qinv x s" using reach_qinv [OF assms(1)] by blast
  obtain u where "qmove u s (Return t v) s'" using qstep_moves [OF assms(2)] by auto
  from qinv_move [OF x(2) this] have "a_phase x t = Answered v" by (auto split: if_splits)
  with aq_history [OF x(1), of t] show ?thesis by simp
qed

theorem execute_returns_answer_witness:
  "\<exists>s s' pre post. reach (butlast sample_trace) s \<and> qstep s (Return 1 7) s' \<and> butlast sample_trace = pre @ Put 1 # post \<and> filter (about 1) post = [Get 1, Answer 1 7]"
proof -
  obtain s' where "reach (butlast sample_trace @ [Return 1 7]) s'" using sample_reach sample_last by auto
  then obtain s where s: "reach (butlast sample_trace) s" "qstep s (Return 1 7) s'"
    by (cases rule: reach.cases) auto
  from execute_returns_answer [OF s] s show ?thesis by blast
qed

lemmas lock_steps = pick_def execute_step_def get_op_step_def upd_defs numeral_eq_Suc

lemma execute_unlocks:
  assumes "q_puts (q s) < 2 ^ 31 - 1" "pcs s t \<in> {E_recheck, E_store, E_inc, E_unlock, E_backoff}"
  shows "\<exists>n \<le> 4. \<exists>es s'. sched (replicate n (Exec t)) s = Some (es, s') \<and> q_spin (q s') = None"
proof -
  have "pcs s t = E_recheck \<and> \<not> q_full (q s) \<or> pcs s t = E_recheck \<and> q_full (q s) \<or> pcs s t = E_store \<or> pcs s t = E_inc \<or> pcs s t = E_unlock \<or> pcs s t = E_backoff"
    using assms(2) by auto
  then show ?thesis
  proof (elim disjE)
    assume "pcs s t = E_recheck \<and> \<not> q_full (q s)"
    with assms(1) show ?thesis by (intro exI [of _ 4]) (simp add: lock_steps)
  next
    assume "pcs s t = E_store"
    with assms(1) show ?thesis by (intro exI [of _ 3]) (simp add: lock_steps)
  next
    assume "pcs s t = E_inc"
    with assms(1) show ?thesis by (intro exI [of _ 2]) (simp add: lock_steps)
  next
    assume "pcs s t = E_recheck \<and> q_full (q s)"
    then show ?thesis by (intro exI [of _ 2]) (simp add: lock_steps)
  qed (intro exI [of _ 1], simp add: lock_steps)+
qed

lemma get_op_unlocks:
  assumes "q_gets (q s) < 2 ^ 31 - 1" "pcs s t \<in> {G_recheck, G_load, G_backoff} \<union> range G_inc \<union> range G_unlock"
  shows "\<exists>n \<le> 4. \<exists>es s'. sched (replicate n (Take t)) s = Some (es, s') \<and> q_spin (q s') = None"
proof -
  have "pcs s t = G_recheck \<and> \<not> q_empty (q s) \<or> pcs s t = G_recheck \<and> q_empty (q s) \<or> pcs s t = G_load \<or> (\<exists>a. pcs s t = G_inc a) \<or>
      (\<exists>a. pcs s t = G_unlock a) \<or> pcs s t = G_backoff" using assms(2) by auto
  then show ?thesis
  proof (elim disjE exE)
    assume "pcs s t = G_recheck \<and> \<not> q_empty (q s)"
    with assms(1) show ?thesis by (intro exI [of _ 4]) (simp add: lock_steps)
  next
    assume "pcs s t = G_load"
    with assms(1) show ?thesis by (intro exI [of _ 3]) (simp add: lock_steps)
  next
    fix a
    assume "pcs s t = G_inc a"
    with assms(1) show ?thesis by (intro exI [of _ 2]) (simp add: lock_steps)
  next
    assume "pcs s t = G_recheck \<and> q_empty (q s)"
    then show ?thesis by (intro exI [of _ 2]) (simp add: lock_steps)
  qed (intro exI [of _ 1], simp add: lock_steps)+
qed

text \<open>
  C17: The spin lock is always given back: its holder, running alone, releases it within four
  steps, as long as fewer than \<open>2 ^ 31 - 1\<close> operations have been executed.
\<close>

theorem lock_released:
  assumes "reach tr s" "q_spin (q s) = Some t" "length (puts_of tr) < 2 ^ 31 - 1"
  shows "\<exists>n c es s'. n \<le> 4 \<and> (c = Exec t \<or> c = Take t) \<and> sched (replicate n c) s = Some (es, s') \<and> q_spin (q s') = None"
proof -
  have inv: "crit (pcs s t)" "ring_ok (q s)" using reach_ring [OF assms(1)] assms(2) by (auto simp: lock_inv_def ring_inv_def)
  have lim: "q_puts (q s) < 2 ^ 31 - 1" "q_gets (q s) < 2 ^ 31 - 1"
    using reach_counts [OF assms(1)] assms(3) inv(2) by (auto simp: ring_ok_def)
  have "pcs s t \<in> {E_recheck, E_store, E_inc, E_unlock, E_backoff} \<or>
      pcs s t \<in> {G_recheck, G_load, G_backoff} \<union> range G_inc \<union> range G_unlock"
    using inv(1) by (cases "pcs s t") (simp_all add: crit_def)
  then show ?thesis
  proof
    assume "pcs s t \<in> {E_recheck, E_store, E_inc, E_unlock, E_backoff}"
    from execute_unlocks [OF lim(1) this] show ?thesis by blast
  next
    assume "pcs s t \<in> {G_recheck, G_load, G_backoff} \<union> range G_inc \<union> range G_unlock"
    from get_op_unlocks [OF lim(2) this] show ?thesis by blast
  qed
qed

theorem lock_released_witness:
  "\<exists>s n c es s'. reach (replicate 7 Tau) s \<and> q_spin (q s) = Some 1 \<and> n \<le> 4 \<and> (c = Exec 1 \<or> c = Take 1) \<and>
     sched (replicate n c) s = Some (es, s') \<and> q_spin (q s') = None"
proof -
  obtain s where s: "reach (replicate 7 Tau) s" "q_spin (q s) = Some 1" using sample_inc_reach by blast
  have "length (puts_of (replicate 7 Tau)) < 2 ^ 31 - 1" by (simp add: sample_puts)
  from lock_released [OF s this] s show ?thesis by blast
qed

text \<open>
  The counters are never reset, so the queue serves \<open>2 ^ 31 - 1\<close> operations in its life: a
  client about to count its operation in overflows the signed \<open>puts\<close> exactly when that many have
  been put.
\<close>

lemma execute_overflow:
  assumes "reach tr s" "pcs s t = E_inc"
  shows "execute_step t s = Inl (Undef ''q.puts++'') \<longleftrightarrow> length (puts_of tr) = 2 ^ 31 - 1"
proof -
  have "q_puts (q s) \<le> 2 ^ 31 - 1" "q_puts (q s) = int (length (puts_of tr))"
    using reach_puts_max [OF assms(1)] reach_counts [OF assms(1)] by auto
  then show ?thesis using assms(2) by (auto simp: execute_step_def)
qed

end
