(* ===== verification/Opfuse_Props.thy ===== *)
theory Opfuse_Props
  imports Opfuse Opqueue_Props
begin

text \<open>
  What a FUSE request looks like on the other side of the queue: whichever server takes it finds
  the operation code of the request's kind and the arguments libfuse passed, however the threads
  interleave.
\<close>

text \<open>The operation code \<open>opqueue.h\<close> has for each kind of arguments.\<close>

fun op_code :: "op_u \<Rightarrow> op_t" where
  "op_code (op_getattr _ _) = OP_GETATTR"
| "op_code (op_mknod _ _ _) = OP_MKNOD"
| "op_code (op_mkdir _ _) = OP_MKDIR"
| "op_code (op_unlink _) = OP_UNLINK"
| "op_code (op_open _ _) = OP_OPEN"
| "op_code (op_release _ _) = OP_RELEASE"
| "op_code (op_rmdir _) = OP_RMDIR"
| "op_code (op_fsync _ _ _) = OP_FSYNC"
| "op_code (op_fsyncdir _ _ _) = OP_FSYNCDIR"
| "op_code (op_write _ _ _ _ _) = OP_WRITE"
| "op_code (op_read _ _ _ _ _) = OP_READ"
| "op_code (op_truncate _ _) = OP_TRUNCATE"
| "op_code (op_opendir _ _) = OP_OPENDIR"
| "op_code (op_readdir _ _ _ _ _) = OP_READDIR"
| "op_code (op_releasedir _ _) = OP_RELEASEDIR"
| "op_code (op_statfs _ _) = OP_STATFS"
| "op_code op_destroy = OP_DESTROY"
| "op_code (op_utime _ _) = OP_UTIME"
| "op_code (op_rename _ _) = OP_RENAME"
| "op_code (op_chmod _ _) = OP_CHMOD"
| "op_code (op_create _ _ _) = OP_CREATE"

definition in_execute :: "pc \<Rightarrow> bool" where
  "in_execute p \<longleftrightarrow> p = E_clear \<or> stage_of p \<noteq> Away"

lemma opfuse_oper_call:
  "\<exists>op. opfuse_oper r t s = execute_call t op s \<and> op_type op = op_code r \<and> (r \<noteq> op_destroy \<longrightarrow> op_args op = r)"
  by (cases r) (auto simp: opfuse_getattr_def opfuse_mknod_def opfuse_mkdir_def opfuse_unlink_def opfuse_open_def
      opfuse_release_def opfuse_rmdir_def opfuse_fsync_def opfuse_fsyncdir_def opfuse_write_def opfuse_read_def
      opfuse_truncate_def opfuse_opendir_def opfuse_readdir_def opfuse_releasedir_def opfuse_statfs_def
      opfuse_destroy_def opfuse_utime_def opfuse_rename_def opfuse_chmod_def opfuse_create_def)

text \<open>While a client is inside \<open>execute\<close>, nobody changes what it asked for.\<close>

lemma request_kept:
  assumes "qstep s e s'" "in_execute (pcs s t)" "\<forall>v. e \<noteq> Return t v"
  shows "in_execute (pcs s' t) \<and> op_type (mem s' t) = op_type (mem s t) \<and> op_args (mem s' t) = op_args (mem s t)"
  using assms(1)
proof cases
  case (execute u)
  then show ?thesis using assms(2,3)
    by (cases "pcs s u") (auto simp: execute_step_def upd_defs in_execute_def stage_of_def split: if_splits)
next
  case (get_op u)
  then show ?thesis using assms(2)
    by (cases "pcs s u") (auto simp: get_op_step_def upd_defs in_execute_def stage_of_def split: if_splits)
next
  case (send_result u)
  then show ?thesis using assms(2)
    by (cases "pcs s u") (auto simp: send_result_step_def upd_defs in_execute_def stage_of_def split: if_splits)
qed (use assms(2) in \<open>auto simp: upd_defs in_execute_def stage_of_def\<close>)

inductive qrun :: "opsys \<Rightarrow> qevent list \<Rightarrow> opsys \<Rightarrow> bool" where
  none: "qrun s [] s"
| more: "qrun s es t \<Longrightarrow> qstep t e u \<Longrightarrow> qrun s (es @ [e]) u"

lemma request_kept_run:
  assumes "qrun s es s'" "in_execute (pcs s t)" "\<forall>v. Return t v \<notin> set es"
  shows "in_execute (pcs s' t) \<and> op_type (mem s' t) = op_type (mem s t) \<and> op_args (mem s' t) = op_args (mem s t)"
  using assms
proof (induction rule: qrun.induct)
  case (more s es u e v)
  with request_kept [OF more.hyps(2), of t] show ?case by auto
qed simp

lemma sched_qrun: "qrun s0 tr s \<Longrightarrow> sched cs s = Some (es, s') \<Longrightarrow> qrun s0 (tr @ es) s'"
proof (induction cs arbitrary: tr s es)
  case (Cons c cs)
  then obtain e t fs where "pick c s = Some (e, t)" "sched cs t = Some (fs, s')" "es = e # fs"
    by (auto split: option.splits)
  with Cons.IH [OF qrun.more [OF Cons.prems(1)], of e t fs] pick_qstep show ?case by simp
qed simp

lemma reach_qrun: "qrun s es s' \<Longrightarrow> reach tr s \<Longrightarrow> reach (tr @ es) s'"
proof (induction rule: qrun.induct)
  case (more s es t e u)
  from reach.step [OF more.IH [OF more.prems] more.hyps(2)] show ?case by simp
qed simp

text \<open>A client that a server is working for has its request in the queue's abstract state as taken.\<close>

lemma served_history:
  assumes "reach tr s" "pcs s t = Idle" "qrun (execute_call t op s) es s'" "\<forall>v. Return t v \<notin> set es" "pcs s' u = G_got t"
  shows "filter (about t) es = [Put t, Get t]"
proof -
  have call: "reach (tr @ [Tau]) (execute_call t op s)" by (rule reach.step [OF assms(1) qstep.call_execute [OF assms(2)]])
  from reach_qinv [OF call] obtain x0 where x0: "aq_run (tr @ [Tau]) aq_start = Some x0" "qinv x0 (execute_call t op s)" by blast
  from reach_qinv [OF reach_qrun [OF assms(3) call]] obtain x where x: "aq_run ((tr @ [Tau]) @ es) aq_start = Some x" "qinv x s'" by blast
  have "mem_inv x0 (execute_call t op s)" using x0(2) by (simp add: qinv_def)
  then have "phase_ok (a_phase x0 t) (stage_of (pcs (execute_call t op s) t)) (mem (execute_call t op s) t)" unfolding mem_inv_def by blast
  then have "phase_ok (a_phase x0 t) Away op" by (simp add: upd_defs)
  then have out: "a_phase x0 t = Out" by (cases "a_phase x0 t") simp_all
  have "serving s' u = Some t" by (simp add: assms(5) serves_def serving_def)
  then have "t \<in> ran (serving s')" by (rule ranI)
  moreover have "own_inv x s'" using x(2) by (simp add: qinv_def)
  ultimately have "a_phase x t = Taken" unfolding own_inv_def by blast
  moreover have "aq_run es x0 = Some x" using x(1) unfolding aq_run_append [of "tr @ [Tau]"] x0(1) by simp
  ultimately show ?thesis using aq_since [OF _ out assms(4)] by simp
qed

text \<open>
  C18: A request reaches its server unchanged.  After libfuse's thread \<open>t\<close> has called the handler
  of a request, and while that call has not returned, a server that \<open>get_op\<close> has handed the
  operation of \<open>t\<close> has this request: since the call it was put into the queue once and taken once, and
  what the server finds is the request's operation code and, unless the request is \<open>destroy\<close>, its arguments.
\<close>

theorem request_delivered:
  assumes "reach tr s" "pcs s t = Idle" "qrun (opfuse_oper r t s) es s'" "\<forall>v. Return t v \<notin> set es" "pcs s' u = G_got t"
  shows "filter (about t) es = [Put t, Get t] \<and> op_type (mem s' t) = op_code r \<and> (r \<noteq> op_destroy \<longrightarrow> op_args (mem s' t) = r)"
proof -
  obtain op where op: "opfuse_oper r t s = execute_call t op s" "op_type op = op_code r"
    "r \<noteq> op_destroy \<longrightarrow> op_args op = r" using opfuse_oper_call by blast
  have "in_execute (pcs (execute_call t op s) t)" "mem (execute_call t op s) t = op"
    by (simp_all add: upd_defs in_execute_def)
  with request_kept_run [OF assms(3) _ assms(4)] op served_history [OF assms(1,2) _ assms(4,5), of op] assms(3) show ?thesis by simp
qed

definition sample_request :: op_u where
  "sample_request = op_mkdir (cstr ''/d'') 493"

definition sample_delivery :: "choice list" where
  "sample_delivery = replicate 8 (Exec 1) @ Call_get_op 2 # replicate 7 (Take 2)"

lemma sample_delivered:
  "map_option (\<lambda>(es, s). (es, pcs s 2)) (sched sample_delivery (opfuse_oper sample_request 1 opsys_start)) =
   Some (replicate 6 Tau @ [Put 1] @ replicate 7 Tau @ [Get 1, Tau], G_got 1)"
  by code_simp

theorem request_delivered_witness:
  "\<exists>es s'. reach [] opsys_start \<and> qrun (opfuse_oper sample_request 1 opsys_start) es s' \<and> pcs s' 2 = G_got 1 \<and>
     filter (about 1) es = [Put 1, Get 1] \<and> op_type (mem s' 1) = OP_MKDIR \<and> op_args (mem s' 1) = sample_request"
proof -
  obtain es s' where s: "sched sample_delivery (opfuse_oper sample_request 1 opsys_start) = Some (es, s')"
    "es = replicate 6 Tau @ [Put 1] @ replicate 7 Tau @ [Get 1, Tau]" "pcs s' 2 = G_got 1"
    using sample_delivered by (cases "sched sample_delivery (opfuse_oper sample_request 1 opsys_start)") auto
  from sched_qrun [OF qrun.none s(1)] have run: "qrun (opfuse_oper sample_request 1 opsys_start) es s'" by simp
  have "pcs opsys_start 1 = Idle" "\<forall>v. Return 1 v \<notin> set es" by (simp_all add: opsys_start_def s(2))
  from request_delivered [OF reach.start this(1) run this(2) s(3)] run s(3) reach.start show ?thesis by (auto simp: sample_request_def)
qed

end
