(* ===== verification/Waits.thy ===== *)
theory Waits
  imports Bio_Props Inode
begin

text \<open>
  The loops that wait for somebody else: \<open>bget\<close> for a busy buffer, \<open>begin_op\<close> for the log and \<open>ilock\<close>
  for a locked inode.  The model reports such a wait as an error; here the loops themselves are run, and
  each is shown to go round for ever exactly where the model reports its wait, and to return what
  the model returns everywhere else.
\<close>

section \<open>Loops whose sleeping pass changes nothing\<close>

locale wait_loop =
  fixes I :: "'s \<Rightarrow> bool" and pass :: "('s, 'a option) fm" and waits :: "'s \<Rightarrow> bool" and w :: string
  assumes sleeps: "I s \<Longrightarrow> waits s \<Longrightarrow> pass s = Inr (None, s)"
    and goes: "I s \<Longrightarrow> \<not> waits s \<Longrightarrow> pass s \<noteq> Inr (None, t)"
begin

lemma stays: "I s \<Longrightarrow> pass s = Inr (None, t) \<Longrightarrow> t = s"
  using sleeps [of s] goes [of s t] by (cases "waits s") auto

lemma run: "I s \<Longrightarrow> loop_run pass s = (if waits s then None else Some (until w pass s))"
  using loop_run_until [of pass s w] stays sleeps [of s] goes [of s] by (cases "waits s") auto

lemma until_waits: "I s \<Longrightarrow> waits s \<Longrightarrow> until w pass s = Inl (Hang w)"
  using sleeps [of s] by (simp add: until_def)

end

section \<open>The three loops\<close>

lemma bget_pass_ring:
  assumes "ring (bufs s) xs"
  shows "bget_pass dev a s =
    (case List.find (\<lambda>i. b_dev (bufs s i) = dev \<and> b_sector (bufs s i) = a) xs of
       Some b \<Rightarrow>
         if flag B_BUSY (b_flags (bufs s b)) then Inr (None, s)
         else Inr (Some b, s\<lparr>bufs := (bufs s)(b := (bufs s b)\<lparr>b_flags := set_flag B_BUSY (b_flags (bufs s b))\<rparr>)\<rparr>)
     | None \<Rightarrow>
         (case List.find (\<lambda>i. \<not> flag B_BUSY (b_flags (bufs s i)) \<and> \<not> flag B_DIRTY (b_flags (bufs s i))) (rev xs) of
            Some b \<Rightarrow> Inr (Some b, s\<lparr>bufs := (bufs s)(b := (bufs s b)\<lparr>b_dev := dev, b_sector := a, b_flags := B_BUSY\<rparr>)\<rparr>)
          | None \<Rightarrow> Inl (Panic ''bget: no buffers'')))"
  unfolding bget_pass_def
  by (simp add: scan_next_ring [OF assms] scan_prev_ring [OF assms] upd_buf_def
      del: scan_next.simps scan_prev.simps split: option.splits)

lemma bget_pass_waits:
  assumes "binv s"
  shows "a \<in> held s \<Longrightarrow> bget_pass ROOTDEV a s = Inr (None, s)" "a \<notin> held s \<Longrightarrow> bget_pass ROOTDEV a s \<noteq> Inr (None, t)"
proof -
  from assms obtain xs where r: "ring (bufs s) xs" and u: "uniq s" by (auto simp: binv_def)
  note p = bget_pass_ring [OF r, of ROOTDEV a, unfolded find_ring_slot [OF u r]]
  show "a \<in> held s \<Longrightarrow> bget_pass ROOTDEV a s = Inr (None, s)" unfolding p by (auto simp: held_def)
  show "a \<notin> held s \<Longrightarrow> bget_pass ROOTDEV a s \<noteq> Inr (None, t)" unfolding p by (auto simp: held_def split: option.splits)
qed

interpretation bg: wait_loop binv "bget_pass ROOTDEV a" "\<lambda>s. a \<in> held s" "''bget: sleep''" for a
  by unfold_locales (rule bget_pass_waits, assumption+)+

text \<open>\<open>begin_op\<close> waits for a commit to end, and for room in the log.\<close>

definition log_busy :: "kern \<Rightarrow> bool" where
  "log_busy s \<longleftrightarrow> committing (thelog s) \<noteq> 0 \<or>
     int_range ((outstanding (thelog s) + 1) * int MAXOPBLOCKS) \<and>
     int_range (lh_n (lh (thelog s)) + (outstanding (thelog s) + 1) * int MAXOPBLOCKS) \<and>
     lh_n (lh (thelog s)) + (outstanding (thelog s) + 1) * int MAXOPBLOCKS > int LOGSIZE"

interpretation bo: wait_loop "\<lambda>_. True" begin_op_pass log_busy "''begin_op: sleep''"
  by unfold_locales (auto simp: begin_op_pass_def log_busy_def upd_log_def split: if_splits)

interpretation il: wait_loop "\<lambda>_. True" "ilock_pass ip" "\<lambda>s. flag I_BUSY (i_flags (inodes s ip))" "''ilock: sleep''" for ip
  by unfold_locales (auto simp: ilock_pass_def ino_at_def)

text \<open>
  C40: When the waiting loops end.  \<open>bget\<close>'s loop for a sector never ends exactly when somebody
  holds the sector, \<open>begin_op\<close>'s exactly when the log is committing or has no room for one more
  operation, and \<open>ilock\<close>'s exactly when the inode is locked; in every other state each ends with the
  result the model's \<open>bget\<close>, \<open>begin_op\<close> and \<open>ilock\<close> go on with.
\<close>

theorem waiting_loops:
  assumes "binv s"
  shows "loop_run (bget_pass ROOTDEV a) s = (if a \<in> held s then None else Some (bget ROOTDEV a s)) \<and>
    loop_run begin_op_pass s = (if log_busy s then None else Some (begin_op s)) \<and>
    loop_run (ilock_pass ip) s = (if flag I_BUSY (i_flags (inodes s ip)) then None else Some (Inr ((), s)))"
proof -
  have "until ''ilock: sleep'' (ilock_pass ip) s = Inr ((), s)" if "\<not> flag I_BUSY (i_flags (inodes s ip))"
    using that by (simp add: ilock_wait ino_at_def)
  with bg.run [where s = s and a = a] bo.run [where s = s] il.run [where s = s and ip = ip] assms show ?thesis by (simp add: bget_def begin_op_def)
qed

text \<open>A process that holds sector 41 and asks for it again never gets it, while it is given sector 40.\<close>

theorem waiting_loops_witness:
  "\<exists>s b s'. sample_txn (process_start sample_disk 100) = Inr ((), s) \<and> bread ROOTDEV 41 s = Inr (b, s') \<and>
     loop_run (bget_pass ROOTDEV 41) s' = None \<and> loop_run (bget_pass ROOTDEV 40) s' = Some (bget ROOTDEV 40 s')"
proof -
  from sample_ok obtain s where s: "sample_txn (process_start sample_disk 100) = Inr ((), s)" "linv s"
    "held s = {}" "log_at s sample_sb" by blast
  have hm: "home_sector s 41" using log_at_geom(4) [OF s(4)] sample_geom by simp
  have nh: "41 \<notin> held s" using s(3) by simp
  from bread_step [OF s(2) home_usable [OF s(2) hm] nh linv_room [OF s(2,3)]] obtain b s' where
    t: "bread ROOTDEV 41 s = Inr (b, s')" "linv s'" "held s' = insert 41 (held s)" by blast
  have "(41 :: u32) \<in> held s'" "(40 :: u32) \<notin> held s'" using t(3) s(3) by simp_all
  with waiting_loops [OF linv_facts(1) [OF t(2)]] s(1) t(1) show ?thesis by (intro exI [of _ s] exI [of _ b] exI [of _ s']) simp
qed

end
