(* ===== verification/Spec2Isabelle.thy ===== *)
theory Spec2Isabelle
  imports Write_Crash Buf_Locks Unlink Readdir Mkfs_File Opfuse_Props Waits
begin

text \<open>
  \<^bold>\<open>The C code of FSCQ: the xv6 file system and the FUSE operation queue.\<close>

  The repository holds the FSCQ verified file system (Coq, extracted to Haskell and OCaml) and two
  bodies of C: \<open>src/xv6/\<close>, a port of the xv6 file system to FUSE that FSCQ is measured against,
  and \<open>src/src/hslib/\<close>, the queue through which libfuse's threads hand requests to the
  extracted FSCQ.  This library models the C.

  \<^bold>\<open>How the parts fit together.\<close>  \<open>fuse.c\<close> receives requests and calls the system calls of
  \<open>sysfile.c\<close>; these open a transaction (\<open>log.c\<close>), look paths up and change inodes and
  directories (\<open>fs.c\<close>) and open files (\<open>file.c\<close>); blocks are read and changed in the buffer
  cache (\<open>bio.c\<close>), pinned there by the log until the transaction commits, and reach the image
  through \<open>ide.c\<close> and the host calls at the end of \<open>fuse.c\<close>.  \<open>mkfs.c\<close> builds the image.
  Independently of that, \<open>opfuse.c\<close> turns each libfuse callback into an operation that
  \<open>opqueue.c\<close> passes to a server thread and back.

  \<^bold>\<open>The model.\<close>  Every C function is an Isabelle function of the same name in a state-and-error
  monad (\<open>Prelude\<close>): \<open>Inr (result, state)\<close> when it returns, \<open>Inl e\<close> when it does not, with \<open>e\<close>
  a panic, an exit, a wait that never ends or undefined behaviour.  The state is the record
  \<open>kern\<close> of the program's globals (\<open>Kernel\<close>); pointers into the fixed tables are indices;
  machine integers are words, or integers with the overflow of \<open>int\<close> as an explicit error (the
  reference counts \<open>ip->ref\<close> and \<open>f->ref\<close>, \<open>outstanding\<close>, the queue's counters, byte offsets); only the statistics
  counters of \<open>fuse.c\<close>, which are \<open>long\<close>, are integers without a bound.
  A loop that waits by sleeping (\<open>bget\<close>, \<open>begin_op\<close>, \<open>ilock\<close>) is given by one pass through its body, and
  \<open>until\<close> turns a pass that sleeps into the error; \<open>loop_run\<close> is the loop itself, and \<open>Waits\<close> shows
  that it never ends exactly where the error is reported.
  The queue is a step relation over the threads' program counters, one shared-memory access per
  step.

  \<^bold>\<open>Definitions, in the order of the code.\<close>
  \<^item> \<open>Layout\<close>: the headers (\<open>param.h fs.h buf.h file.h stat.h fcntl.h spinlock.h\<close>), structures as
    records, the byte layout of super block, inode and directory entry.
  \<^item> \<open>Kernel\<close>: the globals, the host calls (\<open>unix_read\<close> to \<open>unix_time\<close>), \<open>ide.c\<close>, the empty
    stubs of \<open>spinlock.c\<close>.  Every \<open>pwrite\<close> and \<open>fsync\<close> is recorded for the crash model.
  \<^item> \<open>Bio\<close>: \<open>bio.c\<close>, written on the \<open>prev\<close>/\<open>next\<close> pointers.
  \<^item> \<open>Log\<close>: \<open>log.c\<close> and \<open>readsb\<close>; \<open>mount\<close> in \<open>Crash\<close> is the start-up sequence of \<open>fuse.c\<close>'s \<open>main\<close>.
  \<^item> \<open>Alloc\<close>, \<open>Inode\<close>, \<open>Dir\<close>: \<open>fs.c\<close> (block allocator; inode cache and contents; directories, paths).
  \<^item> \<open>File\<close>, \<open>Sysfile\<close>, \<open>Fuse\<close>: \<open>file.c\<close> and \<open>pipe.c\<close>, \<open>sysfile.c\<close>, the handlers and \<open>main\<close> of \<open>fuse.c\<close>.
  \<^item> \<open>Mkfs\<close>: \<open>mkfs.c\<close>, with the prefix \<open>mk_\<close>.
  \<^item> \<open>Opqueue\<close>, \<open>Opfuse\<close>: \<open>opqueue.h\<close>, \<open>opqueue.c\<close>, \<open>opfuse.c\<close>.

  \<^bold>\<open>Interfaces.\<close>  The log and everything above it know the buffer cache only through the locale
  \<open>block_cache\<close> (\<open>Cache_Spec\<close>), interpreted on \<open>bread\<close>, \<open>bwrite\<close>, \<open>brelse\<close> in \<open>Cache\<close>: a
  transparent view of the disk with held and pinned sectors.  \<open>block_frame\<close> and its extensions
  \<open>log_frame\<close>, \<open>file_frame\<close> (\<open>Frame\<close>), \<open>content_frame\<close> and \<open>inode_frame\<close> (\<open>Icache\<close>) say what operations
  leave alone; they are interpreted for the reference counts of the inode cache (\<open>Icache\<close>), the
  number of open transactions (\<open>Sys_Props\<close>), the file table (\<open>Handles\<close>) and the inode locks
  (\<open>Ilocks\<close>).  \<open>counted_refs\<close> (\<open>Icache\<close>) is the contract of a table of counted references,
  implemented by \<open>iget\<close>, \<open>idup\<close>, \<open>iput\<close>; \<open>bounded_fifo\<close> (\<open>Opqueue_Props\<close>) that of a bounded
  queue, implemented by the ring of \<open>opqueue.c\<close>; \<open>wait_loop\<close> (\<open>Waits\<close>) that of a loop whose sleeping pass
  changes nothing, implemented by the three waiting loops.

  \<^bold>\<open>Results.\<close>
  \<^item> Buffer cache (\<open>Cache\<close>, \<open>Bio_Props\<close>): the pointer code implements a recency list and keeps its
    ring; clients see a transparent copy of the disk.  \<open>Waits\<close>: when the waiting loops of cache, log and inodes end.
  \<^item> Log (\<open>Trans\<close>, \<open>Commit\<close>, \<open>Crash\<close>, \<open>Log_Props\<close>): commits are atomic and durable under a crash at
    any point, with unflushed writes lost in any combination; mounting may itself crash any number of
    times, at any of its device events; a transaction has exactly the effect of its writes; where the reservation falls short.
  \<^item> Allocator (\<open>Alloc\<close>): \<open>balloc\<close> returns the first free block and changes only its bit and
    contents, \<open>bfree\<close> undoes it; the exhausted cases, and the log blocks it may hand out.
    \<open>itrunc\<close> (\<open>Truncate\<close>) frees exactly the blocks of its file.
  \<^item> Inodes (\<open>Inode_Props\<close>, \<open>Inode_Disk\<close>, \<open>Icache\<close>, \<open>File_Content\<close>, \<open>Append\<close>): the disk form is inverse to the
    cached one; reference counts; files as byte sequences under \<open>readi\<close> and \<open>writei\<close>; writes
    that make a file grow, through every kind of block; rejected ranges; the write behind the singly
    indirect blocks that leaves the address array.
  \<^item> Directories (\<open>Dir_Props\<close>, \<open>Dirlink\<close>, \<open>Readdir\<close>): \<open>skipelem\<close> against a plain split, \<open>dirlookup\<close>
    against a search of the entries (used by all that follow), what \<open>dirlink\<close> adds to them, \<open>namex\<close> against following
    the names through the directories on disk (\<open>Resolve\<close>), the end of \<open>fuse_readdir\<close>'s loop.  \<open>create\<close> as a whole (\<open>Create\<close>, \<open>Create_Props\<close>): a new file in
    the first free inode, entered in the first free entry or behind the last one of a directory that grows.
  \<^item> System calls (\<open>Sys_Props\<close>): every call but \<open>sys_rename\<close> closes exactly the transactions it
    opens, on every path; \<open>sys_rename\<close> may close one twice.  In every state that system calls
    reach from any image, open files own references to their inodes, counts are not negative and no
    inode has two entries in the inode cache (\<open>Handles\<close>), and no inode lock
    (\<open>Ilocks\<close>) and no buffer (\<open>Buf_Locks\<close>) is left held.
  \<^item> Writing through all layers (\<open>Txn_Crash\<close>, \<open>Write_Through\<close>, \<open>Write_Crash\<close>): what \<open>sys_write\<close> reports
    written inside a file is on disk and is read back; a crash during the write leaves a whole
    number of its transactions.  With a file seen as a byte sequence, a write anywhere replaces bytes,
    adds bytes and fills the gap behind the file with zeros (\<open>Write_Content\<close>), and a crash leaves a prefix of what was written.  Creating a file with \<open>sys_open\<close> is atomic (\<open>Create_Crash\<close>): after a crash the
    directory is as before, or has the name and the inode it leads to.  So is removing the only name of a file that is
    not open (\<open>Unlink\<close>), which frees the inode and exactly the blocks of the file.
  \<^item> Image builder: the image for an empty file list (\<open>Mkfs_Props\<close>); the image with one file of at most a
    block, as the build makes it from \<open>hello.txt\<close>, mounts, and the file is found by its name and read back (\<open>Mkfs_File\<close>).
  \<^item> Queue (\<open>Opqueue_Props\<close>, \<open>Opfuse_Props\<close>): every interleaving refines an atomic bounded FIFO;
    order, single answers, mutual exclusion, bounds, release of the lock, counter overflow;
    a request arrives at its server once and as libfuse made it.

  \<^bold>\<open>Bounds.\<close>  The walks over the cache's list have fuel \<open>Suc NBUF\<close>, one more than the ring has
  nodes; the proofs on rings show that it is not used up.  \<open>fuse_readdir\<close>'s loop has \<open>2 ^ 26\<close>
  units, the number of entries below the 32-bit offset limit, and \<open>Readdir\<close> shows that this is
  enough.  The waiting loops are not bounded: \<open>loop_run\<close> is a \<open>partial_function\<close> whose value is \<open>None\<close> where it does not
  end.  All other loops are recursive functions with a termination proof.  Images are assumed
  to have at most \<open>2 ^ 19\<close> blocks where a property mounts one, so that byte offsets fit in 31 bits.

  \<^bold>\<open>Assumptions.\<close>  The xv6 program runs single-threaded, as its \<open>README.txt\<close> starts it, so nobody else
  changes the state while a loop goes round the empty \<open>sleep\<close>.  A block write reaches the disk whole or not at all, as
  \<open>log.c\<close> assumes of the header.  Byte order and host constants are those of Linux on x86.  The
  queue's memory is sequentially consistent, which its barriers are there to provide.

  \<^bold>\<open>Not modelled.\<close>  The time stamps of \<open>opqueue.c\<close> (nothing reads them); diagnostic output; the part
  of \<open>bmap\<close> behind its out-of-bounds access, which is undefined; the OCaml binding in
  \<open>src/src/ocamlfuse/\<close> (glue to the OCaml runtime, which is not part of the repository); the
  stand-alone benchmarks; the Coq, Haskell and OCaml code.

  \<^bold>\<open>Still open.\<close>  Unlinking directories, and files that are open or have more links; creating directories; \<open>sys_write\<close> that starts
  more than \<open>WRITE_MAX\<close> bytes behind the end of a file, where one transaction has to take the whole gap; \<open>mkfs\<close> with longer files or several.
\<close>

end
